(* ===== verification/Js_Prelude.thy ===== *)
theory Js_Prelude
  imports Complex_Main "HOL-Library.Multiset" "HOL-Library.AList" "HOL-Library.Char_ord" "HOL-Library.List_Lexorder"
begin

text \<open>
  What every component of the model shares.

  \<^item> JavaScript values: strings are character lists ordered by code unit; a value the source
    types as \<open>unknown\<close> is a \<open>js_value\<close>; a number that arrives from outside is a
    \<open>js_number\<close> (a rational, an infinity or NaN).
  \<^item> JavaScript collections: a \<open>Map\<close>, and an object used as a dictionary, is an association
    list that keeps insertion order: \<open>set\<close> overwrites in place or appends at the end.
    \<open>Array.prototype.sort\<close> with a comparator is a stable insertion sort.
  \<^item> The lemma collections and generic facts the component proofs rest on.
\<close>

named_theorems js_collection \<open>how the JavaScript collections answer after an operation\<close>

section \<open>Values\<close>

datatype js_number = JsRat rat | JsNaN | JsPosInf | JsNegInf

datatype js_value =
    JsUndefined
  | JsNull
  | JsBool bool
  | JsNum js_number
  | JsStr string
  | JsArr "js_value list"
  | JsObj "(string \<times> js_value) list"

abbreviation js_int :: "int \<Rightarrow> js_value" where
  "js_int i \<equiv> JsNum (JsRat (rat_of_int i))"

text \<open>\<open>Number.isInteger\<close> and the integer it answers for.\<close>

fun js_is_integer :: "js_number \<Rightarrow> bool" where
  "js_is_integer (JsRat q) = (rat_of_int \<lfloor>q\<rfloor> = q)"
| "js_is_integer _ = False"

fun js_integer_of :: "js_value \<Rightarrow> int option" where
  "js_integer_of (JsNum (JsRat q)) = (if rat_of_int \<lfloor>q\<rfloor> = q then Some \<lfloor>q\<rfloor> else None)"
| "js_integer_of _ = None"

lemma js_integer_of_int [simp]: "js_integer_of (js_int i) = Some i"
  by simp

text \<open>\<open>value.name\<close> of an object read from JSON; anything else has no such property.\<close>

definition js_prop :: "js_value \<Rightarrow> string \<Rightarrow> js_value" where
  "js_prop v name =
     (case v of JsObj fields \<Rightarrow> (case map_of fields name of Some x \<Rightarrow> x | None \<Rightarrow> JsUndefined) | _ \<Rightarrow> JsUndefined)"

text \<open>An exception the source raises, with its message left out.\<close>

datatype js_error = JsError string

section \<open>Maps in insertion order\<close>

type_synonym ('k, 'v) js_map = "('k \<times> 'v) list"

abbreviation js_get :: "('k, 'v) js_map \<Rightarrow> 'k \<Rightarrow> 'v option" where
  "js_get m k \<equiv> map_of m k"

abbreviation js_set :: "'k \<Rightarrow> 'v \<Rightarrow> ('k, 'v) js_map \<Rightarrow> ('k, 'v) js_map" where
  "js_set k v m \<equiv> AList.update k v m"

abbreviation js_delete :: "'k \<Rightarrow> ('k, 'v) js_map \<Rightarrow> ('k, 'v) js_map" where
  "js_delete k m \<equiv> AList.delete k m"

abbreviation js_has :: "('k, 'v) js_map \<Rightarrow> 'k \<Rightarrow> bool" where
  "js_has m k \<equiv> map_of m k \<noteq> None"

abbreviation js_keys :: "('k, 'v) js_map \<Rightarrow> 'k list" where
  "js_keys m \<equiv> map fst m"

abbreviation js_values :: "('k, 'v) js_map \<Rightarrow> 'v list" where
  "js_values m \<equiv> map snd m"

definition js_wf :: "('k, 'v) js_map \<Rightarrow> bool" where
  "js_wf m \<longleftrightarrow> distinct (map fst m)"

lemma js_get_set [js_collection, simp]:
  "js_get (js_set k v m) k' = (if k' = k then Some v else js_get m k')"
  by (simp add: update_conv')

lemma js_get_delete [js_collection, simp]:
  "js_get (js_delete k m) k' = (if k' = k then None else js_get m k')"
  by (simp add: delete_conv')

lemma js_wf_Nil [intro, simp]: "js_wf []"
  by (simp add: js_wf_def)

lemma js_wf_set [intro, simp]: "js_wf m \<Longrightarrow> js_wf (js_set k v m)"
  by (simp add: js_wf_def distinct_update)

lemma js_wf_delete [intro, simp]: "js_wf m \<Longrightarrow> js_wf (js_delete k m)"
  unfolding js_wf_def by (rule distinct_delete)

lemma js_wf_filter [intro, simp]: "js_wf m \<Longrightarrow> js_wf (filter P m)"
  by (induction m) (auto simp: js_wf_def)

lemma js_get_in_set: "js_wf m \<Longrightarrow> (k, v) \<in> set m \<longleftrightarrow> js_get m k = Some v"
  by (auto simp: js_wf_def intro: map_of_SomeD)

lemma js_get_filter_key:
  "js_wf m \<Longrightarrow> js_get (filter (\<lambda>kv. P (fst kv) (snd kv)) m) k
     = (case js_get m k of None \<Rightarrow> None | Some v \<Rightarrow> if P k v then Some v else None)"
proof (induction m)
  case Nil
  then show ?case by simp
next
  case (Cons kv m)
  obtain k0 v0 where kv: "kv = (k0, v0)" by (cases kv)
  from Cons.prems kv have wf: "js_wf m" and fresh: "k0 \<notin> fst ` set m"
    by (auto simp: js_wf_def)
  have "js_get m k0 = None"
    using fresh by (simp add: map_of_eq_None_iff)
  moreover have "js_get (filter (\<lambda>kv. P (fst kv) (snd kv)) m) k0 = None"
    using fresh by (auto simp: map_of_eq_None_iff)
  ultimately show ?case
    using Cons.IH [OF wf] by (auto simp: kv)
qed

text \<open>
  The contract of a keyed store: what a lookup answers after a write or a removal. Every
  store of the program that is read by key (a \<open>Map\<close>, a table with a primary key) promises it.
\<close>

locale keyed_store =
  fixes fetch :: "'s \<Rightarrow> 'k \<Rightarrow> 'v option"
    and store :: "'k \<Rightarrow> 'v \<Rightarrow> 's \<Rightarrow> 's"
    and erase :: "'k \<Rightarrow> 's \<Rightarrow> 's"
  assumes fetch_store: "fetch (store k v s) k' = (if k' = k then Some v else fetch s k')"
    and fetch_erase: "fetch (erase k s) k' = (if k' = k then None else fetch s k')"
begin

lemma fetch_store_all:
  "fetch (fold (\<lambda>(k, v). store k v) kvs s) k
     = (case map_of (rev kvs) k of Some v \<Rightarrow> Some v | None \<Rightarrow> fetch s k)"
  by (induction kvs arbitrary: s)
    (auto simp: fetch_store map_add_def split: option.splits)

lemma fetch_erase_all:
  "fetch (fold erase ks s) k = (if k \<in> set ks then None else fetch s k)"
  by (induction ks arbitrary: s) (auto simp: fetch_erase)

lemma fetch_store_erase: "fetch (store k v (erase k' s)) k = Some v"
  by (simp add: fetch_store)

end

interpretation js_map_store: keyed_store "\<lambda>m. js_get m" "\<lambda>k v. js_set k v" "\<lambda>k. js_delete k"
  by unfold_locales simp_all

section \<open>Grouping by a key\<close>

text \<open>The loop \<open>const run = m.get(k) ?? []; run.push(x); m.set(k, run)\<close>.\<close>

definition js_push :: "('a \<Rightarrow> 'k) \<Rightarrow> 'a \<Rightarrow> ('k, 'a list) js_map \<Rightarrow> ('k, 'a list) js_map" where
  "js_push f x m =
     js_set (f x) ((case js_get m (f x) of None \<Rightarrow> [] | Some run \<Rightarrow> run) @ [x]) m"

definition js_group :: "('a \<Rightarrow> 'k) \<Rightarrow> 'a list \<Rightarrow> ('k, 'a list) js_map" where
  "js_group f xs = fold (js_push f) xs []"

lemma js_get_group:
  "js_get (js_group f xs) k
     = (if k \<in> f ` set xs then Some (filter (\<lambda>x. f x = k) xs) else None)"
proof (induction xs rule: rev_induct)
  case Nil
  then show ?case by (simp add: js_group_def)
next
  case (snoc x xs)
  have empty: "k \<notin> f ` set xs \<Longrightarrow> filter (\<lambda>x. f x = k) xs = []"
    by (auto simp: filter_empty_conv)
  have "js_group f (xs @ [x]) = js_push f x (js_group f xs)"
    by (simp add: js_group_def)
  then show ?case
    using snoc empty by (auto simp: js_push_def split: if_splits)
qed

lemma js_wf_group [intro, simp]: "js_wf (js_group f xs)"
  by (induction xs rule: rev_induct) (auto simp: js_group_def js_push_def)

lemma js_group_keys: "set (js_keys (js_group f xs)) = f ` set xs"
  using js_get_group [of f xs] by (auto simp: dom_map_of_conv_image_fst [symmetric] dom_def)

lemma in_js_group:
  "(k, run) \<in> set (js_group f xs) \<longleftrightarrow> k \<in> f ` set xs \<and> run = filter (\<lambda>x. f x = k) xs"
  by (auto simp: js_get_in_set js_get_group)

section \<open>Sorting with a comparator\<close>

fun js_insert :: "('a \<Rightarrow> 'a \<Rightarrow> int) \<Rightarrow> 'a \<Rightarrow> 'a list \<Rightarrow> 'a list" where
  "js_insert cmp x [] = [x]"
| "js_insert cmp x (y # ys) = (if cmp x y \<le> 0 then x # y # ys else y # js_insert cmp x ys)"

definition js_sort :: "('a \<Rightarrow> 'a \<Rightarrow> int) \<Rightarrow> 'a list \<Rightarrow> 'a list" where
  "js_sort cmp xs = foldr (js_insert cmp) xs []"

text \<open>
  The contract of a comparator: it orders elements as a linear key does. Under it the
  stable sort of the source is the library's \<open>sort_key\<close>.
\<close>

locale js_comparator =
  fixes cmp :: "'a \<Rightarrow> 'a \<Rightarrow> int"
    and rank :: "'a \<Rightarrow> 'b::linorder"
  assumes cmp_rank: "cmp x y \<le> 0 \<longleftrightarrow> rank x \<le> rank y"
begin

lemma js_insert_insort: "js_insert cmp x xs = insort_key rank x xs"
  by (induction xs) (simp_all add: cmp_rank)

lemma js_sort_sort_key: "js_sort cmp xs = sort_key rank xs"
  by (induction xs) (simp_all add: js_sort_def js_insert_insort)

lemma set_js_sort: "set (js_sort cmp xs) = set xs"
  by (simp add: js_sort_sort_key)

lemma sorted_js_sort: "sorted (map rank (js_sort cmp xs))"
  by (simp add: js_sort_sort_key)

lemma mset_js_sort: "mset (js_sort cmp xs) = mset xs"
  by (simp add: js_sort_sort_key)

end

text \<open>A comparator that follows a rank only on the elements at hand sorts them by it.\<close>

lemma js_sort_rank:
  fixes rank :: "'a \<Rightarrow> 'b::linorder"
  assumes "\<And>x y. x \<in> set xs \<Longrightarrow> y \<in> set xs \<Longrightarrow> cmp x y \<le> 0 \<longleftrightarrow> rank x \<le> rank y"
  shows "js_sort cmp xs = sort_key rank xs"
  using assms
proof (induction xs)
  case (Cons x xs)
  have insert: "set ys \<subseteq> set (x # xs) \<Longrightarrow> js_insert cmp x ys = insort_key rank x ys" for ys
    by (induction ys) (use Cons.prems in auto)
  have "js_sort cmp xs = sort_key rank xs" using Cons by simp
  then show ?case using insert [of "sort_key rank xs"] by (auto simp: js_sort_def)
qed (simp add: js_sort_def)

text \<open>\<open>(a, b) => a - b\<close> and its reverse.\<close>

interpretation ascending: js_comparator "\<lambda>a b. (a::int) - b" "\<lambda>a. a"
  by unfold_locales simp

interpretation descending: js_comparator "\<lambda>a b. (b::int) - a" "\<lambda>a. - a"
  by unfold_locales simp

section \<open>Strings\<close>

text \<open>\<open>s.split(c)\<close> for a one-character separator: never empty.\<close>

fun js_split :: "char \<Rightarrow> string \<Rightarrow> string list" where
  "js_split c [] = [[]]"
| "js_split c (x # xs) =
     (if x = c then [] # js_split c xs
      else (case js_split c xs of [] \<Rightarrow> [[x]] | p # ps \<Rightarrow> (x # p) # ps))"

text \<open>\<open>parts.join(c)\<close>.\<close>

fun js_join :: "char \<Rightarrow> string list \<Rightarrow> string" where
  "js_join c [] = []"
| "js_join c [p] = p"
| "js_join c (p # ps) = p @ [c] @ js_join c ps"

lemma js_split_not_Nil [simp]: "js_split c s \<noteq> []"
  by (induction s) (auto split: list.splits)

lemma js_split_no_sep: "c \<notin> set s \<Longrightarrow> js_split c s = [s]"
  by (induction s) auto

lemma js_split_append:
  "c \<notin> set p \<Longrightarrow> js_split c (p @ [c] @ s) = p # js_split c s"
  by (induction p) auto

lemma js_split_join:
  "ps \<noteq> [] \<Longrightarrow> \<forall>p \<in> set ps. c \<notin> set p \<Longrightarrow> js_split c (js_join c ps) = ps"
  by (induction c ps rule: js_join.induct) (auto simp: js_split_no_sep js_split_append [simplified])

lemma js_split_parts: "p \<in> set (js_split c s) \<Longrightarrow> c \<notin> set p"
  by (induction s arbitrary: p) (auto split: list.splits if_splits)

lemma js_join_split: "js_join c (js_split c s) = s"
proof (induction s)
  case Nil
  then show ?case by simp
next
  case (Cons x s)
  obtain p ps where ps: "js_split c s = p # ps" by (cases "js_split c s") auto
  with Cons show ?case by (cases ps) auto
qed

definition js_starts_with :: "string \<Rightarrow> string \<Rightarrow> bool" where
  "js_starts_with s p \<longleftrightarrow> take (length p) s = p"

lemma js_starts_with_append [simp]: "js_starts_with (p @ s) p"
  by (simp add: js_starts_with_def)

definition js_pad_start :: "nat \<Rightarrow> char \<Rightarrow> string \<Rightarrow> string" where
  "js_pad_start n c s = replicate (n - length s) c @ s"

definition js_pad_end :: "nat \<Rightarrow> char \<Rightarrow> string \<Rightarrow> string" where
  "js_pad_end n c s = s @ replicate (n - length s) c"

text \<open>\<open>String(n)\<close> of a whole number.\<close>

definition decimal_digit :: "nat \<Rightarrow> char" where
  "decimal_digit d = ''0123456789'' ! d"

fun decimal :: "nat \<Rightarrow> string" where
  "decimal n = (if n < 10 then [decimal_digit n] else decimal (n div 10) @ [decimal_digit (n mod 10)])"

declare decimal.simps [simp del]

definition js_string_of_int :: "int \<Rightarrow> string" where
  "js_string_of_int i = (if i < 0 then CHR ''-'' # decimal (nat (- i)) else decimal (nat i))"

lemma decimal_digit_inject: "d < 10 \<Longrightarrow> e < 10 \<Longrightarrow> decimal_digit d = decimal_digit e \<longleftrightarrow> d = e"
proof -
  have "d < 10 \<Longrightarrow> d \<in> {0,1,2,3,4,5,6,7,8,9}" for d :: nat by (simp, arith)
  moreover assume "d < 10" "e < 10"
  ultimately have "d \<in> {0,1,2,3,4,5,6,7,8,9}" "e \<in> {0,1,2,3,4,5,6,7,8,9}" by blast+
  then show ?thesis by (auto simp: decimal_digit_def)
qed

lemma decimal_digits: "c \<in> set (decimal n) \<Longrightarrow> \<exists>d < 10. c = decimal_digit d"
proof (induction n rule: decimal.induct)
  case (1 n)
  show ?case
  proof (cases "n < 10")
    case True
    then show ?thesis using "1.prems" by (auto simp: decimal.simps [of n])
  next
    case False
    then have "c \<in> set (decimal (n div 10)) \<or> c = decimal_digit (n mod 10)"
      using "1.prems" by (auto simp: decimal.simps [of n])
    moreover have "n mod 10 < 10" by simp
    ultimately show ?thesis using "1.IH" [OF False] by blast
  qed
qed

lemma decimal_inject: "decimal m = decimal n \<longleftrightarrow> m = n"
proof (induction m arbitrary: n rule: decimal.induct)
  case (1 m)
  show ?case
  proof (cases "m < 10"; cases "n < 10")
    assume "m < 10" "n < 10"
    then show ?thesis by (simp add: decimal.simps [of m] decimal.simps [of n] decimal_digit_inject)
  next
    assume m: "m < 10" and n: "\<not> n < 10"
    have "decimal (n div 10) \<noteq> []" by (simp add: decimal.simps [of "n div 10"])
    then show ?thesis using m n by (auto simp: decimal.simps [of m] decimal.simps [of n] Cons_eq_append_conv)
  next
    assume m: "\<not> m < 10" and n: "n < 10"
    have "decimal (m div 10) \<noteq> []" by (simp add: decimal.simps [of "m div 10"])
    then show ?thesis using m n by (auto simp: decimal.simps [of m] decimal.simps [of n] append_eq_Cons_conv)
  next
    assume m: "\<not> m < 10" and n: "\<not> n < 10"
    then have "decimal m = decimal n \<longleftrightarrow> m div 10 = n div 10 \<and> m mod 10 = n mod 10"
      using "1.IH" [OF m, of "n div 10"] by (simp add: decimal.simps [of m] decimal.simps [of n] decimal_digit_inject)
    then show ?thesis by (metis div_mult_mod_eq)
  qed
qed

lemma decimal_not_sign: "decimal n \<noteq> CHR ''-'' # s"
proof
  assume "decimal n = CHR ''-'' # s"
  then have "CHR ''-'' \<in> set (decimal n)" by simp
  then obtain d where "d < 10" "CHR ''-'' = decimal_digit d" using decimal_digits by blast
  then have "d \<in> {0,1,2,3,4,5,6,7,8,9} \<and> CHR ''-'' = decimal_digit d" by (simp, arith)
  then show False by (auto simp: decimal_digit_def)
qed

lemma append_less_same_length:
  fixes xs ys :: "'a::linorder list"
  shows "length xs = length xs' \<Longrightarrow>
    xs @ ys < xs' @ ys' \<longleftrightarrow> xs < xs' \<or> xs = xs' \<and> ys < ys'"
  by (induction xs xs' rule: list_induct2) auto

section \<open>Lists\<close>

lemma sorted_takeWhile_filter:
  "sorted (map f xs) \<Longrightarrow> \<forall>x \<in> set xs. f a \<le> f x \<Longrightarrow>
    takeWhile (\<lambda>x. f x = f a) xs = filter (\<lambda>x. f x = f a) xs"
  for f :: "'a \<Rightarrow> 'b::linorder"
proof (induction xs)
  case Nil
  then show ?case by simp
next
  case (Cons x xs)
  show ?case
  proof (cases "f x = f a")
    case True
    with Cons show ?thesis by auto
  next
    case False
    with Cons.prems have "f a < f x" by auto
    with Cons.prems(1) have "\<forall>y \<in> set xs. f y \<noteq> f a" by auto
    with False show ?thesis by (simp add: filter_empty_conv)
  qed
qed

lemma sorted_dropWhile_greater:
  "sorted (map f xs) \<Longrightarrow> \<forall>x \<in> set xs. f a \<le> f x \<Longrightarrow>
    y \<in> set (dropWhile (\<lambda>x. f x = f a) xs) \<Longrightarrow> f a < f y"
  for f :: "'a \<Rightarrow> 'b::linorder"
proof (induction xs)
  case Nil
  then show ?case by simp
next
  case (Cons x xs)
  then show ?case by (cases "f x = f a") (auto split: if_splits)
qed

lemma sorted_map_dropWhile: "sorted (map f xs) \<Longrightarrow> sorted (map f (dropWhile P xs))"
  by (induction xs) auto

lemma sum_list_map_filter_le:
  "sum_list (map g (filter P xs)) \<le> sum_list (map g xs)" for g :: "'a \<Rightarrow> nat"
  by (induction xs) auto

lemma list_all2_right: "list_all2 P xs ys \<Longrightarrow> y \<in> set ys \<Longrightarrow> \<exists>x \<in> set xs. P x y"
  by (induction rule: list_all2_induct) auto

lemma list_all2_left: "list_all2 P xs ys \<Longrightarrow> x \<in> set xs \<Longrightarrow> \<exists>y \<in> set ys. P x y"
  by (induction rule: list_all2_induct) auto

section \<open>Several results at once\<close>

text \<open>The values of a list of results, or its first error: \<open>Promise.all\<close>, or a loop that throws.\<close>

fun all_results :: "('e + 'a) list \<Rightarrow> 'e + 'a list" where
  "all_results [] = Inr []"
| "all_results (Inl e # rs) = Inl e"
| "all_results (Inr x # rs) = map_sum id ((#) x) (all_results rs)"

lemma all_results_Inr: "all_results rs = Inr xs \<Longrightarrow> rs = map Inr xs"
proof (induction rs arbitrary: xs rule: all_results.induct)
  case (3 x rs)
  then show ?case by (cases "all_results rs") auto
qed simp_all

lemma all_results_map_Inr [simp]: "all_results (map Inr xs) = Inr xs"
  by (induction xs) simp_all

lemma all_results_total: "(\<And>x. \<exists>y. f x = Inr y) \<Longrightarrow> \<exists>ys. all_results (map f xs) = Inr ys"
proof (induction xs)
  case (Cons x xs)
  moreover obtain y where "f x = Inr y" using Cons.prems by blast
  ultimately show ?case by force
qed simp

end
