(* ===== verification/Hlc.thy ===== *)
theory Hlc
  imports Js_Prelude
begin

text \<open>
  Hybrid logical clocks: \<open>packages/protocol-primitives/src/hlc/\<close>.

  A timestamp is a wall time, a counter and the author's node id. This theory models the
  comparison (\<open>compare.ts\<close>), the text form that the databases store and compare
  (\<open>serialize.ts\<close>), and the clock (\<open>clock.ts\<close>) as a state and one function per method.
  Wall times and counters are natural numbers: the program mints and admits nothing else.
\<close>

section \<open>Timestamps and their order\<close>

datatype hlc = HLC (wallTime: nat) (counter: nat) (nodeId: string)

definition ZERO_HLC :: hlc where
  "ZERO_HLC = HLC 0 0 []"

definition compareHLC :: "hlc \<Rightarrow> hlc \<Rightarrow> int" where
  "compareHLC a b =
     (if wallTime a < wallTime b then -1
      else if wallTime a > wallTime b then 1
      else if counter a < counter b then -1
      else if counter a > counter b then 1
      else if nodeId a < nodeId b then -1
      else if nodeId a > nodeId b then 1
      else 0)"

definition maxHLC :: "hlc \<Rightarrow> hlc \<Rightarrow> hlc" where
  "maxHLC a b = (if compareHLC a b \<ge> 0 then a else b)"

text \<open>The order the comparison induces, so that the library's order facts apply to it.\<close>

instantiation hlc :: linorder
begin

definition less_eq_hlc :: "hlc \<Rightarrow> hlc \<Rightarrow> bool" where
  "less_eq_hlc a b \<longleftrightarrow> compareHLC a b \<le> 0"

definition less_hlc :: "hlc \<Rightarrow> hlc \<Rightarrow> bool" where
  "less_hlc a b \<longleftrightarrow> compareHLC a b < 0"

instance
proof
  fix x y z :: hlc
  show "x < y \<longleftrightarrow> x \<le> y \<and> \<not> y \<le> x"
    by (auto simp: less_eq_hlc_def less_hlc_def compareHLC_def split: if_splits)
  show "x \<le> x"
    by (simp add: less_eq_hlc_def compareHLC_def)
  show "x \<le> y \<Longrightarrow> y \<le> z \<Longrightarrow> x \<le> z"
    by (auto simp: less_eq_hlc_def compareHLC_def split: if_splits)
  show "x \<le> y \<Longrightarrow> y \<le> x \<Longrightarrow> x = y"
    by (cases x; cases y) (auto simp: less_eq_hlc_def compareHLC_def split: if_splits)
  show "x \<le> y \<or> y \<le> x"
    by (auto simp: less_eq_hlc_def compareHLC_def split: if_splits)
qed

end

lemma less_eq_hlc_alt:
  "a \<le> b \<longleftrightarrow> wallTime a < wallTime b \<or>
     wallTime a = wallTime b \<and>
       (counter a < counter b \<or> counter a = counter b \<and> nodeId a \<le> nodeId b)"
  by (auto simp: less_eq_hlc_def compareHLC_def split: if_splits)

lemma less_hlc_alt:
  "a < b \<longleftrightarrow> wallTime a < wallTime b \<or>
     wallTime a = wallTime b \<and>
       (counter a < counter b \<or> counter a = counter b \<and> nodeId a < nodeId b)"
  by (auto simp: less_hlc_def compareHLC_def split: if_splits)

named_theorems hlc_order \<open>the comparison of the source read as the order\<close>

lemma compareHLC_le [hlc_order]: "compareHLC a b \<le> 0 \<longleftrightarrow> a \<le> b"
  by (simp add: less_eq_hlc_def)

lemma compareHLC_less [hlc_order]: "compareHLC a b < 0 \<longleftrightarrow> a < b"
  by (simp add: less_hlc_def)

lemma compareHLC_eq [hlc_order]: "compareHLC a b = 0 \<longleftrightarrow> a = b"
  by (cases a; cases b) (auto simp: compareHLC_def split: if_splits)

lemma compareHLC_greater [hlc_order]: "compareHLC a b > 0 \<longleftrightarrow> b < a"
proof -
  have "compareHLC a b > 0 \<longleftrightarrow> \<not> compareHLC a b \<le> 0" by linarith
  then show ?thesis by (simp add: compareHLC_le not_le)
qed

lemma compareHLC_ge [hlc_order]: "compareHLC a b \<ge> 0 \<longleftrightarrow> b \<le> a"
proof -
  have "compareHLC a b \<ge> 0 \<longleftrightarrow> \<not> compareHLC a b < 0" by linarith
  then show ?thesis by (simp add: compareHLC_less not_less)
qed

lemma maxHLC_max: "maxHLC a b = max b a"
  by (auto simp: maxHLC_def hlc_order max_def)

lemma ZERO_HLC_least: "ZERO_HLC \<le> h"
  by (simp add: ZERO_HLC_def less_eq_hlc_alt) auto

text \<open>Every sort by \<open>compareHLC\<close> of the program, in either direction.\<close>

interpretation by_hlc: js_comparator "\<lambda>a b. compareHLC (f a) (f b)" f
  by unfold_locales (simp add: hlc_order)

section \<open>The text form\<close>

definition hex_digits :: string where
  "hex_digits = ''0123456789abcdef''"

definition hex_digit :: "nat \<Rightarrow> char" where
  "hex_digit d = hex_digits ! d"

text \<open>\<open>n.toString(16)\<close>.\<close>

fun to_hex :: "nat \<Rightarrow> string" where
  "to_hex n = (if n < 16 then [hex_digit n] else to_hex (n div 16) @ [hex_digit (n mod 16)])"

declare to_hex.simps [simp del]

definition serializeHLC :: "hlc \<Rightarrow> string" where
  "serializeHLC t =
     js_pad_start 12 CHR ''0'' (to_hex (wallTime t)) @ '':'' @
     js_pad_start 4 CHR ''0'' (to_hex (counter t)) @ '':'' @ nodeId t"

text \<open>
  \<open>parseInt(s, 16)\<close>: leading white space and a sign are read, \<open>0x\<close> is skipped, and the
  longest run of hexadecimal digits counts. \<open>None\<close> is NaN.
\<close>

definition hex_value :: "char \<Rightarrow> nat option" where
  "hex_value c =
     (let n = of_char c :: nat in
      if 48 \<le> n \<and> n \<le> 57 then Some (n - 48)
      else if 97 \<le> n \<and> n \<le> 102 then Some (n - 87)
      else if 65 \<le> n \<and> n \<le> 70 then Some (n - 55)
      else None)"

fun parse_hex_run :: "nat \<Rightarrow> string \<Rightarrow> nat" where
  "parse_hex_run acc [] = acc"
| "parse_hex_run acc (c # cs) =
     (case hex_value c of None \<Rightarrow> acc | Some d \<Rightarrow> parse_hex_run (16 * acc + d) cs)"

definition parse_hex_digits :: "string \<Rightarrow> nat option" where
  "parse_hex_digits s =
     (case s of [] \<Rightarrow> None
      | c # cs \<Rightarrow> (if hex_value c = None then None else Some (parse_hex_run 0 s)))"

definition skip_0x :: "string \<Rightarrow> string" where
  "skip_0x s = (if take 2 s = ''0x'' \<or> take 2 s = ''0X'' then drop 2 s else s)"

definition js_white :: "char \<Rightarrow> bool" where
  "js_white c \<longleftrightarrow> of_char c \<in> {9, 10, 11, 12, 13, 32, 160 :: nat}"

definition parse_int_16 :: "string \<Rightarrow> int option" where
  "parse_int_16 s =
     (let t = dropWhile js_white s in
      if take 1 t = ''-'' then map_option (\<lambda>n. - int n) (parse_hex_digits (skip_0x (drop 1 t)))
      else if take 1 t = ''+'' then map_option int (parse_hex_digits (skip_0x (drop 1 t)))
      else map_option int (parse_hex_digits (skip_0x t)))"

text \<open>
  What \<open>deserializeHLC\<close> reads: either field may be NaN (\<open>None\<close>), since the code checks only
  that there are three parts.
\<close>

type_synonym read_hlc = "int option \<times> int option \<times> string"

definition deserializeHLC :: "string \<Rightarrow> js_error + read_hlc" where
  "deserializeHLC s =
     (case js_split CHR '':'' s of
        [w, c, n] \<Rightarrow> Inr (parse_int_16 w, parse_int_16 c, n)
      | _ \<Rightarrow> Inl (JsError ''Invalid HLC timestamp string''))"

definition read_of :: "hlc \<Rightarrow> read_hlc" where
  "read_of t = (Some (int (wallTime t)), Some (int (counter t)), nodeId t)"

subsection \<open>Fixed-width hexadecimal\<close>

fun hex_width :: "nat \<Rightarrow> nat \<Rightarrow> string" where
  "hex_width 0 n = []"
| "hex_width (Suc k) n = hex_width k (n div 16) @ [hex_digit (n mod 16)]"

lemma length_hex_width [simp]: "length (hex_width k n) = k"
  by (induction k n rule: hex_width.induct) auto

lemma length_to_hex: "n < 16 ^ k \<Longrightarrow> 0 < k \<Longrightarrow> length (to_hex n) \<le> k"
proof (induction n arbitrary: k rule: to_hex.induct)
  case (1 n)
  show ?case
  proof (cases "n < 16")
    case True
    then show ?thesis using 1 by (simp add: to_hex.simps)
  next
    case False
    with 1(2) have "k \<noteq> 1" by auto
    with 1(3) obtain k' where k': "k = Suc k'" "0 < k'" by (cases k) auto
    with 1(2) have "n div 16 < 16 ^ k'" by (simp add: less_mult_imp_div_less mult.commute)
    with False k' 1(1) have "length (to_hex (n div 16)) \<le> k'" by blast
    with False k' show ?thesis by (subst to_hex.simps) simp
  qed
qed

lemma hex_width_zero: "hex_width k 0 = replicate k CHR ''0''"
  by (induction k)
    (simp_all add: hex_digit_def hex_digits_def replicate_append_same [symmetric])

lemma pad_to_hex: "n < 16 ^ k \<Longrightarrow> 0 < k \<Longrightarrow> js_pad_start k CHR ''0'' (to_hex n) = hex_width k n"
proof (induction n arbitrary: k rule: to_hex.induct)
  case (1 n)
  then obtain k' where k': "k = Suc k'" by (cases k) auto
  show ?case
  proof (cases "n < 16")
    case True
    then show ?thesis
      by (simp add: to_hex.simps js_pad_start_def k' hex_width_zero)
  next
    case False
    with 1(2) k' have pos: "0 < k'" by (cases k') auto
    from 1(2) k' have small: "n div 16 < 16 ^ k'"
      by (simp add: less_mult_imp_div_less mult.commute)
    have len: "length (to_hex (n div 16)) \<le> k'" by (rule length_to_hex [OF small pos])
    have "js_pad_start k CHR ''0'' (to_hex n)
        = js_pad_start k' CHR ''0'' (to_hex (n div 16)) @ [hex_digit (n mod 16)]"
      using False len by (subst to_hex.simps) (simp add: js_pad_start_def k')
    then show ?thesis using 1(1) [OF False small pos] k' by simp
  qed
qed

lemma less_16_cases: "(d::nat) < 16 \<Longrightarrow> d \<in> {0,1,2,3,4,5,6,7,8,9,10,11,12,13,14,15}"
  by (simp, arith)

lemma of_char_hex_digit:
  "d < 16 \<Longrightarrow> of_char (hex_digit d) = (if d < 10 then 48 + d else 87 + d)"
  by (drule less_16_cases) (auto simp: hex_digit_def hex_digits_def)

lemma hex_digit_less: "d < 16 \<Longrightarrow> e < 16 \<Longrightarrow> hex_digit d < hex_digit e \<longleftrightarrow> d < e"
  by (simp add: less_char_def of_char_hex_digit)

lemma hex_digit_eq: "d < 16 \<Longrightarrow> e < 16 \<Longrightarrow> hex_digit d = hex_digit e \<longleftrightarrow> d = e"
  using hex_digit_less [of d e] hex_digit_less [of e d] by (metis less_irrefl linorder_neqE_nat)

lemma less_div_mod: "(a::nat) < b \<longleftrightarrow> a div k < b div k \<or> a div k = b div k \<and> a mod k < b mod k"
proof
  assume less: "a < b"
  then have "a div k \<le> b div k" by (simp add: div_le_mono)
  moreover have "a mod k < b mod k" if "a div k = b div k"
    using less that by (metis add_less_cancel_left div_mult_mod_eq)
  ultimately show "a div k < b div k \<or> a div k = b div k \<and> a mod k < b mod k" by linarith
next
  assume "a div k < b div k \<or> a div k = b div k \<and> a mod k < b mod k"
  then show "a < b"
  proof
    assume "a div k < b div k"
    then show "a < b" by (meson div_le_mono leD leI)
  next
    assume "a div k = b div k \<and> a mod k < b mod k"
    then show "a < b" by (metis add_less_cancel_left div_mult_mod_eq)
  qed
qed

lemma hex_width_inject:
  "a < 16 ^ k \<Longrightarrow> b < 16 ^ k \<Longrightarrow> hex_width k a = hex_width k b \<longleftrightarrow> a = b"
proof (induction k arbitrary: a b)
  case 0
  then show ?case by simp
next
  case (Suc k)
  then have "a div 16 < 16 ^ k" "b div 16 < 16 ^ k"
    by (simp_all add: less_mult_imp_div_less mult.commute)
  with Suc.IH have "hex_width k (a div 16) = hex_width k (b div 16) \<longleftrightarrow> a div 16 = b div 16"
    by blast
  then have "hex_width (Suc k) a = hex_width (Suc k) b \<longleftrightarrow>
      a div 16 = b div 16 \<and> a mod 16 = b mod 16"
    by (simp add: hex_digit_eq)
  also have "\<dots> \<longleftrightarrow> a = b" by (metis div_mult_mod_eq)
  finally show ?case .
qed

lemma hex_width_less:
  "a < 16 ^ k \<Longrightarrow> b < 16 ^ k \<Longrightarrow> hex_width k a < hex_width k b \<longleftrightarrow> a < b"
proof (induction k arbitrary: a b)
  case 0
  then show ?case by simp
next
  case (Suc k)
  then have small: "a div 16 < 16 ^ k" "b div 16 < 16 ^ k"
    by (simp_all add: less_mult_imp_div_less mult.commute)
  have "hex_width (Suc k) a < hex_width (Suc k) b \<longleftrightarrow>
      a div 16 < b div 16 \<or> a div 16 = b div 16 \<and> a mod 16 < b mod 16"
    using Suc.IH [OF small] hex_width_inject [OF small]
    by (simp add: append_less_same_length hex_digit_less)
  also have "\<dots> \<longleftrightarrow> a < b" by (rule less_div_mod [symmetric])
  finally show ?case .
qed

lemma hex_value_hex_digit: "d < 16 \<Longrightarrow> hex_value (hex_digit d) = Some d"
  by (simp add: hex_value_def of_char_hex_digit)

lemma parse_hex_run_append:
  "\<forall>c \<in> set s. hex_value c \<noteq> None \<Longrightarrow>
    parse_hex_run acc (s @ t) = parse_hex_run (parse_hex_run acc s) t"
  by (induction acc s rule: parse_hex_run.induct) auto

lemma hex_digit_mod: "\<exists>d < 16. hex_digit (n mod 16) = hex_digit d"
  by (rule exI [of _ "n mod 16"]) simp

lemma hex_width_hex: "c \<in> set (hex_width k n) \<Longrightarrow> \<exists>d < 16. c = hex_digit d"
  by (induction k n rule: hex_width.induct) (use hex_digit_mod in auto)

lemma parse_hex_run_width: "n < 16 ^ k \<Longrightarrow> parse_hex_run 0 (hex_width k n) = n"
proof (induction k arbitrary: n)
  case 0
  then show ?case by simp
next
  case (Suc k)
  then have "n div 16 < 16 ^ k" by (simp add: less_mult_imp_div_less mult.commute)
  moreover have "\<forall>c \<in> set (hex_width k (n div 16)). hex_value c \<noteq> None"
    using hex_width_hex hex_value_hex_digit by fastforce
  ultimately have "parse_hex_run 0 (hex_width (Suc k) n) = 16 * (n div 16) + n mod 16"
    by (simp add: parse_hex_run_append Suc.IH hex_value_hex_digit)
  then show ?case by presburger
qed

subsection \<open>Reading back what was written\<close>

text \<open>\<open>to_hex\<close> never starts with white space, a sign or \<open>0x\<close>.\<close>

lemma hex_digit_plain:
  "d < 16 \<Longrightarrow> hex_digit d \<noteq> CHR '':'' \<and> \<not> js_white (hex_digit d) \<and>
     hex_digit d \<noteq> CHR ''-'' \<and> hex_digit d \<noteq> CHR ''+'' \<and>
     hex_digit d \<noteq> CHR ''x'' \<and> hex_digit d \<noteq> CHR ''X''"
  by (drule less_16_cases) (auto simp: hex_digit_def hex_digits_def js_white_def)

lemma parse_int_16_hex_run:
  assumes "\<forall>c \<in> set s. \<exists>d < 16. c = hex_digit d" and "s \<noteq> []"
  shows "parse_int_16 s = Some (int (parse_hex_run 0 s))"
proof -
  have plain: "\<And>c. c \<in> set s \<Longrightarrow> \<not> js_white c \<and> c \<noteq> CHR ''-'' \<and> c \<noteq> CHR ''+'' \<and>
      c \<noteq> CHR ''x'' \<and> c \<noteq> CHR ''X'' \<and> hex_value c \<noteq> None"
    using assms(1) hex_digit_plain hex_value_hex_digit by fastforce
  obtain c cs where s: "s = c # cs" using assms(2) by (cases s) auto
  have "dropWhile js_white s = s" using plain s by simp
  moreover have "skip_0x s = s" using plain s by (cases cs) (auto simp: skip_0x_def)
  moreover have "hex_value c \<noteq> None" using plain s by simp
  ultimately show ?thesis
    using plain s by (simp add: parse_int_16_def Let_def parse_hex_digits_def)
qed

lemma to_hex_hex: "c \<in> set (to_hex n) \<Longrightarrow> \<exists>d < 16. c = hex_digit d"
proof (induction n rule: to_hex.induct)
  case (1 n)
  then show ?case
    by (cases "n < 16") (use hex_digit_mod in \<open>auto simp: to_hex.simps [of n]\<close>)
qed

lemma parse_hex_run_zeros:
  "parse_hex_run 0 (replicate m CHR ''0'' @ s) = parse_hex_run 0 s"
  by (induction m) (auto simp: hex_value_def)

lemma parse_hex_run_to_hex: "parse_hex_run 0 (to_hex n) = n"
proof -
  have "n < 16 ^ Suc n" by (induction n) auto
  then have eq: "js_pad_start (Suc n) CHR ''0'' (to_hex n) = hex_width (Suc n) n"
    and val: "parse_hex_run 0 (hex_width (Suc n) n) = n"
    by (rule pad_to_hex, simp) (rule parse_hex_run_width, fact)
  have "parse_hex_run 0 (to_hex n) = parse_hex_run 0 (js_pad_start (Suc n) CHR ''0'' (to_hex n))"
    by (simp add: js_pad_start_def parse_hex_run_zeros)
  then show ?thesis by (simp only: eq val)
qed

lemma to_hex_not_Nil [simp]: "to_hex n \<noteq> []"
  by (subst to_hex.simps) simp

lemma padded_hex_hex:
  "c \<in> set (js_pad_start m CHR ''0'' (to_hex n)) \<Longrightarrow> \<exists>d < 16. c = hex_digit d"
proof -
  assume "c \<in> set (js_pad_start m CHR ''0'' (to_hex n))"
  then consider "c = hex_digit 0" | "c \<in> set (to_hex n)"
    by (auto simp: js_pad_start_def hex_digit_def hex_digits_def split: if_splits)
  then show ?thesis
  proof cases
    case 1
    then show ?thesis by (intro exI [of _ 0]) simp
  next
    case 2
    then show ?thesis by (rule to_hex_hex)
  qed
qed

lemma parse_padded_hex: "parse_int_16 (js_pad_start m CHR ''0'' (to_hex n)) = Some (int n)"
proof -
  have "parse_int_16 (js_pad_start m CHR ''0'' (to_hex n))
      = Some (int (parse_hex_run 0 (js_pad_start m CHR ''0'' (to_hex n))))"
  proof (rule parse_int_16_hex_run)
    show "\<forall>c \<in> set (js_pad_start m CHR ''0'' (to_hex n)). \<exists>d < 16. c = hex_digit d"
      using padded_hex_hex by blast
    show "js_pad_start m CHR ''0'' (to_hex n) \<noteq> []" by (simp add: js_pad_start_def)
  qed
  then show ?thesis
    by (simp add: js_pad_start_def parse_hex_run_zeros parse_hex_run_to_hex)
qed

lemma padded_hex_no_colon: "CHR '':'' \<notin> set (js_pad_start m CHR ''0'' (to_hex n))"
proof
  assume "CHR '':'' \<in> set (js_pad_start m CHR ''0'' (to_hex n))"
  then obtain d where "d < 16" "CHR '':'' = hex_digit d" using padded_hex_hex by blast
  then show False using hex_digit_plain [of d] by simp
qed

lemma deserialize_serialize:
  assumes "CHR '':'' \<notin> set (nodeId t)"
  shows "deserializeHLC (serializeHLC t) = Inr (read_of t)"
proof -
  have "js_split CHR '':'' (serializeHLC t)
      = [js_pad_start 12 CHR ''0'' (to_hex (wallTime t)),
         js_pad_start 4 CHR ''0'' (to_hex (counter t)), nodeId t]"
    using assms padded_hex_no_colon
    by (simp add: serializeHLC_def js_split_append [simplified] js_split_no_sep)
  then show ?thesis
    by (simp add: deserializeHLC_def read_of_def parse_padded_hex)
qed

lemma deserialize_serialize_colon:
  assumes "CHR '':'' \<in> set (nodeId t)"
  shows "deserializeHLC (serializeHLC t) = Inl (JsError ''Invalid HLC timestamp string'')"
proof -
  have "length (js_split CHR '':'' s) \<ge> 2" if "CHR '':'' \<in> set s" for s
    using that by (induction s) (auto split: list.splits simp: Suc_le_eq)
  then have "length (js_split CHR '':'' (nodeId t)) \<ge> 2" using assms by blast
  then obtain p q ps where split: "js_split CHR '':'' (nodeId t) = p # q # ps"
    by (metis Suc_le_length_iff numeral_2_eq_2)
  have "js_split CHR '':'' (serializeHLC t)
      = js_pad_start 12 CHR ''0'' (to_hex (wallTime t)) #
        js_pad_start 4 CHR ''0'' (to_hex (counter t)) # p # q # ps"
    using padded_hex_no_colon
    by (simp add: serializeHLC_def js_split_append [simplified] split)
  then show ?thesis by (simp add: deserializeHLC_def)
qed

subsection \<open>The text order is the timestamp order\<close>

text \<open>The timestamps whose two numbers fit the fixed-width fields.\<close>

definition hlc_fits :: "hlc \<Rightarrow> bool" where
  "hlc_fits t \<longleftrightarrow> wallTime t < 16 ^ 12 \<and> counter t < 16 ^ 4"

lemma serialize_fits:
  "hlc_fits t \<Longrightarrow> serializeHLC t
     = hex_width 12 (wallTime t) @ '':'' @ hex_width 4 (counter t) @ '':'' @ nodeId t"
  by (simp add: hlc_fits_def serializeHLC_def pad_to_hex)

lemma serialize_less:
  assumes "hlc_fits a" and "hlc_fits b"
  shows "serializeHLC a < serializeHLC b \<longleftrightarrow> a < b"
proof -
  have w: "wallTime a < 16 ^ 12" "wallTime b < 16 ^ 12"
    and c: "counter a < 16 ^ 4" "counter b < 16 ^ 4"
    using assms by (simp_all only: hlc_fits_def)
  show ?thesis
    using hex_width_less [OF w] hex_width_inject [OF w] hex_width_less [OF c]
      hex_width_inject [OF c]
    by (simp add: serialize_fits [OF assms(1)] serialize_fits [OF assms(2)]
        append_less_same_length less_hlc_alt)
qed

lemma serialize_inject:
  assumes "hlc_fits a" and "hlc_fits b"
  shows "serializeHLC a = serializeHLC b \<longleftrightarrow> a = b"
  using serialize_less [OF assms] serialize_less [OF assms(2,1)] by (metis less_irrefl neqE)

lemma serialize_le:
  assumes "hlc_fits a" and "hlc_fits b"
  shows "serializeHLC a \<le> serializeHLC b \<longleftrightarrow> a \<le> b"
  using serialize_less [OF assms(2,1)] by (simp add: not_less [symmetric])

text \<open>A counter past four digits breaks it: the field widens and sorts below.\<close>

lemma serialize_overflow:
  "HLC w 65535 n < HLC w 65536 n \<and> serializeHLC (HLC w 65536 n) < serializeHLC (HLC w 65535 n)"
proof -
  have "to_hex 65536 = ''10000''" "to_hex 65535 = ''ffff''"
    by (simp_all add: to_hex.simps hex_digit_def hex_digits_def)
  then show ?thesis
    by (simp add: serializeHLC_def less_hlc_alt js_pad_start_def append_less_same_length)
qed

section \<open>The clock\<close>

record clock_state =
  lastWallTime :: nat
  lastCounter :: nat

text \<open>\<open>createHLCClock\<close>: the state a clock starts from, with or without a persisted one.\<close>

definition createHLCClock :: "clock_state option \<Rightarrow> clock_state" where
  "createHLCClock initialState =
     (case initialState of
        None \<Rightarrow> \<lparr>lastWallTime = 0, lastCounter = 0\<rparr>
      | Some s \<Rightarrow> \<lparr>lastWallTime = lastWallTime s, lastCounter = lastCounter s\<rparr>)"

definition clock_emit :: "string \<Rightarrow> clock_state \<Rightarrow> hlc" where
  "clock_emit node s = HLC (lastWallTime s) (lastCounter s) node"

definition clock_now :: "string \<Rightarrow> nat \<Rightarrow> clock_state \<Rightarrow> hlc \<times> clock_state" where
  "clock_now node physicalTime s =
     (let s' = (if physicalTime > lastWallTime s
                then s\<lparr>lastWallTime := physicalTime, lastCounter := 0\<rparr>
                else s\<lparr>lastCounter := lastCounter s + 1\<rparr>)
      in (clock_emit node s', s'))"

definition clock_send :: "string \<Rightarrow> nat \<Rightarrow> clock_state \<Rightarrow> hlc \<times> clock_state" where
  "clock_send node physicalTime s = clock_now node physicalTime s"

definition clock_receive :: "string \<Rightarrow> nat \<Rightarrow> hlc \<Rightarrow> clock_state \<Rightarrow> hlc \<times> clock_state" where
  "clock_receive node physicalTime remote s =
     (let s' =
        (if physicalTime > lastWallTime s \<and> physicalTime > wallTime remote
         then s\<lparr>lastWallTime := physicalTime, lastCounter := 0\<rparr>
         else if wallTime remote > lastWallTime s
         then s\<lparr>lastWallTime := wallTime remote, lastCounter := counter remote + 1\<rparr>
         else if lastWallTime s = wallTime remote
         then s\<lparr>lastCounter := max (lastCounter s) (counter remote) + 1\<rparr>
         else s\<lparr>lastCounter := lastCounter s + 1\<rparr>)
      in (clock_emit node s', s'))"

text \<open>A run of a clock: the physical readings and the remote timestamps are arbitrary.\<close>

datatype clock_event = Now nat | Send nat | Receive nat hlc

fun clock_step :: "string \<Rightarrow> clock_event \<Rightarrow> clock_state \<Rightarrow> hlc \<times> clock_state" where
  "clock_step node (Now p) s = clock_now node p s"
| "clock_step node (Send p) s = clock_send node p s"
| "clock_step node (Receive p r) s = clock_receive node p r s"

fun clock_run :: "string \<Rightarrow> clock_event list \<Rightarrow> clock_state \<Rightarrow> hlc list \<times> clock_state" where
  "clock_run node [] s = ([], s)"
| "clock_run node (e # es) s =
     (let (t, s') = clock_step node e s; (ts, s'') = clock_run node es s' in (t # ts, s''))"

lemmas clock_defs = clock_now_def clock_send_def clock_receive_def clock_emit_def Let_def

lemma clock_step_emits: "clock_step node e s = (t, s') \<Longrightarrow> t = clock_emit node s'"
  by (cases e) (auto simp: clock_defs)

lemma clock_step_advances:
  "clock_step node e s = (t, s') \<Longrightarrow> clock_emit node s < t"
  by (cases e) (auto simp: clock_defs less_hlc_alt split: if_splits)

lemma clock_receive_above_remote:
  "clock_receive node p r s = (t, s') \<Longrightarrow> r < t"
  by (auto simp: clock_defs less_hlc_alt split: if_splits)

lemma clock_run_above:
  "clock_run node es s = (ts, sf) \<Longrightarrow>
    (\<forall>t \<in> set ts. clock_emit node s < t) \<and> sorted_wrt (<) ts \<and>
    clock_emit node s \<le> clock_emit node sf"
proof (induction es arbitrary: s ts)
  case Nil
  then show ?case by simp
next
  case (Cons e es)
  obtain t s1 where step: "clock_step node e s = (t, s1)" by fastforce
  obtain ts' s2 where run: "clock_run node es s1 = (ts', s2)" by fastforce
  from Cons.prems step run have ts: "ts = t # ts'" "sf = s2" by simp_all
  have t: "clock_emit node s < t" "t = clock_emit node s1"
    using clock_step_advances [OF step] clock_step_emits [OF step] by simp_all
  from Cons.IH run ts have
    "(\<forall>t \<in> set ts'. clock_emit node s1 < t) \<and> sorted_wrt (<) ts' \<and>
     clock_emit node s1 \<le> clock_emit node sf" by blast
  then show ?case
    using t ts by auto
qed

section \<open>Properties\<close>

text \<open>
  C15. While the fields fit (wall time below \<open>16^12\<close>, counter below \<open>16^4\<close>) the text of a timestamp
  sorts exactly as \<open>compareHLC\<close> orders the timestamps, which is what the database relies on.
\<close>

theorem serialized_order_is_timestamp_order:
  assumes "hlc_fits a" and "hlc_fits b"
  shows "(serializeHLC a < serializeHLC b \<longleftrightarrow> compareHLC a b < 0) \<and>
    (serializeHLC a = serializeHLC b \<longleftrightarrow> compareHLC a b = 0)"
  by (simp add: serialize_less [OF assms] serialize_inject [OF assms] hlc_order)

theorem serialized_order_is_timestamp_order_witness:
  "serializeHLC (HLC 255 9 ''b'') < serializeHLC (HLC 256 0 ''a'')"
  using serialized_order_is_timestamp_order [of "HLC 255 9 ''b''" "HLC 256 0 ''a''"]
  by (simp add: hlc_fits_def compareHLC_def)

text \<open>
  A counter that reaches \<open>16^4\<close> widens its field: the later timestamp then sorts before the
  earlier one in the database's text order, at every wall time and on every node.
\<close>

theorem serialized_order_breaks_at_overflow:
  "compareHLC (HLC w 65535 n) (HLC w 65536 n) < 0 \<and>
   serializeHLC (HLC w 65536 n) < serializeHLC (HLC w 65535 n)"
  using serialize_overflow [of w n] by (simp add: hlc_order)

text \<open>
  Reading a serialized timestamp back gives the timestamp, whatever its size, exactly when its
  node id holds no colon; otherwise the parse raises the error of a malformed string.
\<close>

theorem deserialize_of_serialize:
  "deserializeHLC (serializeHLC t) =
     (if CHR '':'' \<in> set (nodeId t) then Inl (JsError ''Invalid HLC timestamp string'')
      else Inr (read_of t))"
  by (simp add: deserialize_serialize deserialize_serialize_colon)

text \<open>
  C16. Over any sequence of local, send and receive events, whatever the physical clock does, a
  clock's timestamps are strictly increasing, all above its starting state.
\<close>

theorem clock_run_strictly_increasing:
  "sorted_wrt (\<lambda>a b. compareHLC a b < 0) (fst (clock_run node events s)) \<and>
   (\<forall>t \<in> set (fst (clock_run node events s)). compareHLC (clock_emit node s) t < 0)"
  using clock_run_above [of node events s "fst (clock_run node events s)" "snd (clock_run node events s)"]
  by (simp add: hlc_order)

theorem clock_run_strictly_increasing_witness:
  "sorted_wrt (\<lambda>a b. compareHLC a b < 0)
     (fst (clock_run ''n'' [Now 5, Receive 4 (HLC 9 2 ''m''), Send 3] (createHLCClock None)))"
  using clock_run_strictly_increasing by blast

end
