(* ===== verification/Watermarks.thy ===== *)
theory Watermarks
  imports Hlc
begin

text \<open>
  Coverage watermarks: \<open>packages/sync-engine/src/watermarks.ts\<close> and \<open>clampToRows\<close> of
  \<open>file-rows.ts\<close>.

  A watermark map holds, per author, one timestamp: the side that advertises it claims every
  row of that author up to there. The source keeps it as an object keyed by node id; here it is
  a \<open>js_map\<close>. Its meaning is the set of timestamps it covers, and every lemma here says how an
  operation changes that set.
\<close>

type_synonym watermarks = "(string, hlc) js_map"

text \<open>\<open>watermarks[hlc.nodeId] = max(current, hlc)\<close>.\<close>

definition advanceWatermark :: "watermarks \<Rightarrow> hlc \<Rightarrow> watermarks" where
  "advanceWatermark w h =
     (case js_get w (nodeId h) of
        None \<Rightarrow> js_set (nodeId h) h w
      | Some existing \<Rightarrow> if compareHLC h existing > 0 then js_set (nodeId h) h w else w)"

definition computeRecordWatermarks :: "('r \<Rightarrow> hlc) \<Rightarrow> 'r list \<Rightarrow> watermarks" where
  "computeRecordWatermarks updatedAt records =
     fold (\<lambda>r out. advanceWatermark out (updatedAt r)) records []"

definition mergeWatermarks :: "watermarks \<Rightarrow> watermarks \<Rightarrow> watermarks" where
  "mergeWatermarks into incoming =
     fold (\<lambda>(node, h) out.
             js_set node (case js_get out node of None \<Rightarrow> h | Some existing \<Rightarrow> maxHLC existing h) out)
       incoming into"

definition watermarkFor :: "watermarks \<Rightarrow> string \<Rightarrow> hlc" where
  "watermarkFor w node = (case js_get w node of None \<Rightarrow> ZERO_HLC | Some h \<Rightarrow> h)"

definition selectUnseen :: "('r \<Rightarrow> hlc) \<Rightarrow> 'r list \<Rightarrow> watermarks \<Rightarrow> 'r list" where
  "selectUnseen updatedAt records peer =
     filter (\<lambda>r. compareHLC (updatedAt r) (watermarkFor peer (nodeId (updatedAt r))) > 0) records"

text \<open>\<open>clampToRows\<close>: per author, the lower of a bytes watermark and the rows watermark.\<close>

definition clampToRows :: "watermarks \<Rightarrow> watermarks \<Rightarrow> watermarks" where
  "clampToRows bytes rows =
     fold (\<lambda>(author, h) out.
             (case js_get rows author of
                None \<Rightarrow> out
              | Some ceil \<Rightarrow> js_set author (if compareHLC h ceil \<le> 0 then h else ceil) out))
       bytes []"

section \<open>What a watermark map covers\<close>

definition covers :: "watermarks \<Rightarrow> hlc \<Rightarrow> bool" where
  "covers w h \<longleftrightarrow> (case js_get w (nodeId h) of None \<Rightarrow> False | Some m \<Rightarrow> h \<le> m)"

text \<open>Every stored timestamp is by the author it is stored under.\<close>

definition wm_authored :: "watermarks \<Rightarrow> bool" where
  "wm_authored w \<longleftrightarrow> (\<forall>node h. js_get w node = Some h \<longrightarrow> nodeId h = node)"

text \<open>The executable counterpart of \<open>wm_authored\<close> for a well-formed map.\<close>

definition wm_keyed :: "watermarks \<Rightarrow> bool" where
  "wm_keyed w \<longleftrightarrow> (\<forall>(node, h) \<in> set w. nodeId h = node)"

lemma wm_keyed_authored: "wm_keyed w \<Longrightarrow> wm_authored w"
  by (auto simp: wm_keyed_def wm_authored_def dest: map_of_SomeD)

lemma wm_authored_Nil [simp, intro]: "wm_authored []"
  by (simp add: wm_authored_def)

lemma js_get_advance:
  "js_get (advanceWatermark w h) node =
     (if node = nodeId h
      then Some (case js_get w node of None \<Rightarrow> h | Some m \<Rightarrow> max m h)
      else js_get w node)"
  by (auto simp: advanceWatermark_def hlc_order max_def not_le split: option.splits)

lemma wm_authored_advance [intro]: "wm_authored w \<Longrightarrow> wm_authored (advanceWatermark w h)"
  by (auto simp: wm_authored_def js_get_advance max_def split: option.splits if_splits)

lemma js_wf_advance [intro]: "js_wf w \<Longrightarrow> js_wf (advanceWatermark w h)"
  by (auto simp: advanceWatermark_def split: option.splits)

lemma covers_advance:
  "covers (advanceWatermark w h) x \<longleftrightarrow> covers w x \<or> nodeId x = nodeId h \<and> x \<le> h"
  by (auto simp: covers_def js_get_advance max_def split: option.splits)

definition advanceAll :: "watermarks \<Rightarrow> hlc list \<Rightarrow> watermarks" where
  "advanceAll w hs = fold (\<lambda>h w. advanceWatermark w h) hs w"

lemma covers_advanceAll:
  "covers (advanceAll w hs) x \<longleftrightarrow> covers w x \<or> (\<exists>h \<in> set hs. nodeId x = nodeId h \<and> x \<le> h)"
  by (induction hs arbitrary: w) (auto simp: advanceAll_def covers_advance)

lemma wm_authored_advanceAll: "wm_authored w \<Longrightarrow> wm_authored (advanceAll w hs)"
  by (induction hs arbitrary: w) (auto simp: advanceAll_def)

lemma computeRecordWatermarks_advanceAll:
  "computeRecordWatermarks updatedAt rs = advanceAll [] (map updatedAt rs)"
  by (simp add: computeRecordWatermarks_def advanceAll_def fold_map comp_def)

lemma covers_compute:
  "covers (computeRecordWatermarks updatedAt rs) x \<longleftrightarrow>
     (\<exists>r \<in> set rs. nodeId x = nodeId (updatedAt r) \<and> x \<le> updatedAt r)"
  by (simp add: computeRecordWatermarks_advanceAll covers_advanceAll) (simp add: covers_def)

lemma js_get_advanceAll_Max:
  "js_get (advanceAll [] hs) node =
     (if \<exists>h \<in> set hs. nodeId h = node then Some (Max {h \<in> set hs. nodeId h = node}) else None)"
proof -
  have "js_get (advanceAll [] hs) node =
     (if {h \<in> set hs. nodeId h = node} \<noteq> {}
      then Some (Max {h \<in> set hs. nodeId h = node}) else None)"
  proof (induction hs rule: rev_induct)
    case Nil
    then show ?case by (simp add: advanceAll_def)
  next
    case (snoc h hs)
    let ?S = "{x \<in> set hs. nodeId x = node}"
    have step: "advanceAll [] (hs @ [h]) = advanceWatermark (advanceAll [] hs) h"
      by (simp add: advanceAll_def)
    have ins: "{x \<in> set (hs @ [h]). nodeId x = node} = (if nodeId h = node then insert h ?S else ?S)"
      by auto
    have fin: "finite ?S" by simp
    show ?case
    proof (cases "nodeId h = node")
      case True
      then show ?thesis
        unfolding ins step js_get_advance snoc
        by (cases "?S = {}") (simp_all only: Max_insert [OF fin] Max_singleton if_True if_False
          option.case insert_not_empty simp_thms max.commute)
    next
      case False
      then show ?thesis
        unfolding ins step js_get_advance snoc by simp
    qed
  qed
  then show ?thesis by auto
qed

text \<open>Merging is the join: commutative, associative and idempotent as maps.\<close>

lemma js_get_merge:
  "js_wf incoming \<Longrightarrow> js_get (mergeWatermarks into incoming) node =
     (case (js_get into node, js_get incoming node) of
        (None, b) \<Rightarrow> b | (a, None) \<Rightarrow> a | (Some a, Some b) \<Rightarrow> Some (max a b))"
proof (induction incoming arbitrary: into)
  case Nil
  then show ?case by (simp add: mergeWatermarks_def split: option.splits)
next
  case (Cons kv m)
  obtain k h where kv: "kv = (k, h)" by (cases kv)
  let ?into = "js_set k (case js_get into k of None \<Rightarrow> h | Some existing \<Rightarrow> maxHLC existing h) into"
  from Cons.prems kv have wf: "js_wf m" and fresh: "js_get m k = None"
    by (auto simp: js_wf_def map_of_eq_None_iff)
  have "js_get (mergeWatermarks into (kv # m)) node = js_get (mergeWatermarks ?into m) node"
    by (simp add: mergeWatermarks_def kv)
  with Cons.IH [OF wf, of ?into] fresh show ?case
    by (auto simp: kv maxHLC_max max.commute split: option.splits)
qed

lemma covers_merge:
  "js_wf incoming \<Longrightarrow> covers (mergeWatermarks into incoming) x \<longleftrightarrow> covers into x \<or> covers incoming x"
  by (auto simp: covers_def js_get_merge le_max_iff_disj split: option.splits)

lemma js_get_clamp_aux:
  assumes "js_wf bytes"
  shows "js_get (fold (\<lambda>(author, h) out.
             (case js_get rows author of
                None \<Rightarrow> out
              | Some ceil \<Rightarrow> js_set author (if compareHLC h ceil \<le> 0 then h else ceil) out))
       bytes out) node =
     (case (js_get bytes node, js_get rows node) of
        (Some b, Some r) \<Rightarrow> Some (min b r) | _ \<Rightarrow> js_get out node)"
  using assms
proof (induction bytes arbitrary: out)
  case Nil
  then show ?case by simp
next
  case (Cons kv m)
  obtain k h where kv: "kv = (k, h)" by (cases kv)
  from Cons.prems kv have wf: "js_wf m" and fresh: "js_get m k = None"
    by (auto simp: js_wf_def map_of_eq_None_iff)
  show ?case
    using Cons.IH [OF wf] fresh by (auto simp: kv hlc_order min_def split: option.splits)
qed

lemma js_get_clampToRows:
  "js_wf bytes \<Longrightarrow> js_get (clampToRows bytes rows) node =
     (case (js_get bytes node, js_get rows node) of
        (Some b, Some r) \<Rightarrow> Some (min b r) | _ \<Rightarrow> None)"
  unfolding clampToRows_def by (simp add: js_get_clamp_aux split: option.splits)

lemma covers_clampToRows:
  "js_wf bytes \<Longrightarrow> covers (clampToRows bytes rows) x \<longleftrightarrow> covers bytes x \<and> covers rows x"
  by (auto simp: covers_def js_get_clampToRows split: option.splits)

lemma wm_authored_clampToRows:
  "js_wf bytes \<Longrightarrow> wm_authored bytes \<Longrightarrow> wm_authored rows \<Longrightarrow> wm_authored (clampToRows bytes rows)"
  by (auto simp: wm_authored_def js_get_clampToRows min_def split: option.splits)

lemma js_wf_clampToRows [intro]: "js_wf (clampToRows bytes rows)"
proof -
  have "js_wf out \<Longrightarrow> js_wf (fold (\<lambda>(author, h) out.
             (case js_get rows author of
                None \<Rightarrow> out
              | Some ceil \<Rightarrow> js_set author (if compareHLC h ceil \<le> 0 then h else ceil) out))
       bytes out)" for out
    by (induction bytes arbitrary: out) (auto split: option.splits)
  then show ?thesis by (simp add: clampToRows_def)
qed

section \<open>What is unseen\<close>

text \<open>
  What the scans treat as owed: everything of an author the peer never reported, and above the
  peer's watermark otherwise.
\<close>

definition unseen :: "watermarks \<Rightarrow> hlc \<Rightarrow> bool" where
  "unseen peer h \<longleftrightarrow> (case js_get peer (nodeId h) of None \<Rightarrow> True | Some p \<Rightarrow> p < h)"

lemma unseen_covers: "unseen peer h \<longleftrightarrow> \<not> covers peer h"
  by (auto simp: unseen_def covers_def split: option.splits)

text \<open>\<open>selectUnseen\<close> reads an absent author as \<open>ZERO_HLC\<close>; only \<open>ZERO_HLC\<close> itself differs.\<close>

lemma selectUnseen_unseen:
  "selectUnseen updatedAt rs peer =
     filter (\<lambda>r. unseen peer (updatedAt r) \<and> \<not> (js_get peer (nodeId (updatedAt r)) = None \<and>
       updatedAt r = ZERO_HLC)) rs"
  using ZERO_HLC_least
  by (auto simp: selectUnseen_def watermarkFor_def unseen_def hlc_order order_less_le
      intro!: filter_cong split: option.splits)

lemma select_unseen_own: "selectUnseen updatedAt rs (computeRecordWatermarks updatedAt rs) = []"
proof -
  have "\<not> unseen (computeRecordWatermarks updatedAt rs) (updatedAt r)" if "r \<in> set rs" for r
    using that by (auto simp: unseen_covers covers_compute)
  then show ?thesis by (auto simp: selectUnseen_unseen filter_empty_conv)
qed

section \<open>Properties\<close>

text \<open>
  The map computed from a set of rows covers a timestamp exactly when some row of that author
  is at or above it; merging two maps covers what either covers, and clamping a bytes map to the
  rows map covers what both cover.
\<close>

theorem watermark_algebra:
  assumes "js_wf b"
  shows "(covers (computeRecordWatermarks updatedAt rs) x \<longleftrightarrow>
      (\<exists>r \<in> set rs. nodeId x = nodeId (updatedAt r) \<and> compareHLC x (updatedAt r) \<le> 0)) \<and>
    (covers (mergeWatermarks a b) x \<longleftrightarrow> covers a x \<or> covers b x) \<and>
    (covers (clampToRows b a) x \<longleftrightarrow> covers b x \<and> covers a x)"
  using assms by (auto simp: covers_compute covers_merge covers_clampToRows hlc_order)

theorem watermark_algebra_witness:
  "covers (mergeWatermarks [] [(''a'', HLC 4 0 ''a'')]) (HLC 3 7 ''a'')"
  using watermark_algebra [of "[(''a'', HLC 4 0 ''a'')]" "\<lambda>r. r" "[]" "HLC 3 7 ''a''" "[]"]
  by (simp add: covers_def less_eq_hlc_alt js_wf_def)

end
