(* ===== verification/Since_Scan.thy ===== *)
theory Since_Scan
  imports Watermarks
begin

text \<open>
  Delta scans: \<open>packages/storage-adapter/src/database/since-queries.ts\<close> and the \<open>querySince\<close>
  of the SQLite adapter.

  A scan answers "the rows this peer has not seen", author by author, and reports how far it
  got. A table is a list of rows with a timestamp function \<open>hlcOf\<close>; the database compares the
  serialized timestamps as text, so the SQL is modelled over \<open>serializeHLC\<close> and the timestamp
  order is recovered where the timestamps fit their fixed-width fields (\<open>hlc_fits\<close>).
  The interface \<open>since_source\<close> is what \<open>collectSince\<close> relies on of the per-author query; the
  SQL model interprets it.
\<close>

section \<open>Planning the authors\<close>

record node_scan =
  scan_nodeId :: string
  scan_since :: "string option"

definition plan_node :: "watermarks \<Rightarrow> watermarks \<Rightarrow> string \<Rightarrow> node_scan list" where
  "plan_node localW peerW node =
     (case js_get localW node of
        None \<Rightarrow> []
      | Some localMax \<Rightarrow>
          (case js_get peerW node of
             Some peerHlc \<Rightarrow>
               (if compareHLC localMax peerHlc \<le> 0 then []
                else [\<lparr>scan_nodeId = node, scan_since = Some (serializeHLC peerHlc)\<rparr>])
           | None \<Rightarrow> [\<lparr>scan_nodeId = node, scan_since = None\<rparr>]))"

definition planNodeScans :: "watermarks \<Rightarrow> watermarks \<Rightarrow> node_scan list" where
  "planNodeScans localW peerW = concat (map (plan_node localW peerW) (sort (js_keys localW)))"

section \<open>The SQL\<close>

text \<open>\<open>SELECT node_id, MAX(updated_at) GROUP BY node_id\<close>: the maximum is over the text.\<close>

fun max_serialized :: "hlc \<Rightarrow> hlc list \<Rightarrow> hlc" where
  "max_serialized best [] = best"
| "max_serialized best (h # hs) =
     max_serialized (if serializeHLC best < serializeHLC h then h else best) hs"

definition buildNodeWatermarks :: "('r \<Rightarrow> hlc) \<Rightarrow> 'r list \<Rightarrow> watermarks" where
  "buildNodeWatermarks hlcOf table =
     map (\<lambda>(node, run). (node, case map hlcOf run of [] \<Rightarrow> ZERO_HLC | h # hs \<Rightarrow> max_serialized h hs))
       (js_group (\<lambda>r. nodeId (hlcOf r)) table)"

text \<open>\<open>WHERE node_id = ? AND updated_at > ? ORDER BY updated_at LIMIT limit + 1\<close>.\<close>

definition buildScanSinceForNode :: "('r \<Rightarrow> hlc) \<Rightarrow> 'r list \<Rightarrow> node_scan \<Rightarrow> nat \<Rightarrow> 'r list" where
  "buildScanSinceForNode hlcOf table scan maxRows =
     take (maxRows + 1) (sort_key (\<lambda>r. serializeHLC (hlcOf r))
       (filter (\<lambda>r. nodeId (hlcOf r) = scan_nodeId scan \<and>
          (case scan_since scan of None \<Rightarrow> True | Some since \<Rightarrow> serializeHLC (hlcOf r) > since)) table))"

section \<open>Collecting the pages\<close>

text \<open>The \<open>while (end > 0 && ...) end -= 1\<close> loop of \<open>trimToHlcBoundary\<close>.\<close>

fun trim_end :: "'r list \<Rightarrow> hlc \<Rightarrow> ('r \<Rightarrow> hlc) \<Rightarrow> nat \<Rightarrow> nat" where
  "trim_end kept nextHlc hlcOf 0 = 0"
| "trim_end kept nextHlc hlcOf (Suc n) =
     (if compareHLC (hlcOf (kept ! n)) nextHlc = 0 then trim_end kept nextHlc hlcOf n else Suc n)"

definition trimToHlcBoundary :: "'r list \<Rightarrow> hlc \<Rightarrow> ('r \<Rightarrow> hlc) \<Rightarrow> 'r list" where
  "trimToHlcBoundary kept nextHlc hlcOf = take (trim_end kept nextHlc hlcOf (length kept)) kept"

text \<open>
  One author's page, and its ceiling when the page is truncated. The window doubles while the
  whole page is one timestamp; \<open>None\<close> would be a loop that never ends.
\<close>

partial_function (option) scan_author ::
  "('r \<Rightarrow> hlc) \<Rightarrow> (nat \<Rightarrow> 'r list) \<Rightarrow> nat \<Rightarrow> ('r list \<times> hlc option) option" where
  [code]: "scan_author hlcOf runScan window =
     (let page = runScan window in
      if length page \<le> window then Some (page, None)
      else let kept = trimToHlcBoundary (take window page) (hlcOf (page ! window)) hlcOf in
           if kept = [] then scan_author hlcOf runScan (window * 2)
           else Some (kept, Some (hlcOf (last kept))))"

type_synonym stream_truncation = "(string, hlc option) js_map"

record 'r since_page =
  page_rows :: "'r list"
  page_hasMore :: bool
  page_truncated :: stream_truncation

fun collect_authors ::
  "('r \<Rightarrow> hlc) \<Rightarrow> (node_scan \<Rightarrow> nat \<Rightarrow> 'r list) \<Rightarrow> nat \<Rightarrow> node_scan list \<Rightarrow> 'r since_page
     \<Rightarrow> 'r since_page option" where
  "collect_authors hlcOf runScan share [] acc = Some acc"
| "collect_authors hlcOf runScan share (scan # scans) acc =
     (case scan_author hlcOf (runScan scan) share of
        None \<Rightarrow> None
      | Some (rows, None) \<Rightarrow>
          collect_authors hlcOf runScan share scans (acc\<lparr>page_rows := page_rows acc @ rows\<rparr>)
      | Some (rows, Some c) \<Rightarrow>
          collect_authors hlcOf runScan share scans
            \<lparr>page_rows = page_rows acc @ rows, page_hasMore = True,
             page_truncated = js_set (scan_nodeId scan) (Some c) (page_truncated acc)\<rparr>)"

definition scan_share :: "int \<Rightarrow> nat \<Rightarrow> nat" where
  "scan_share maxRows n = max 1 (nat ((maxRows + int n - 1) div int n))"

definition collectSince ::
  "('r \<Rightarrow> hlc) \<Rightarrow> (node_scan \<Rightarrow> nat \<Rightarrow> 'r list) \<Rightarrow> node_scan list \<Rightarrow> int \<Rightarrow> 'r since_page option" where
  "collectSince hlcOf runScan scans maxRows =
     (if scans = [] then Some \<lparr>page_rows = [], page_hasMore = False, page_truncated = []\<rparr>
      else if maxRows \<le> 0 then
        Some \<lparr>page_rows = [], page_hasMore = True,
              page_truncated = fold (\<lambda>scan t. js_set (scan_nodeId scan) None t) scans []\<rparr>
      else collect_authors hlcOf runScan (scan_share maxRows (length scans)) scans
             \<lparr>page_rows = [], page_hasMore = False, page_truncated = []\<rparr>)"

text \<open>\<open>querySince\<close>: plan from the table's own maxima, then collect.\<close>

definition querySince :: "('r \<Rightarrow> hlc) \<Rightarrow> 'r list \<Rightarrow> watermarks \<Rightarrow> int \<Rightarrow> 'r since_page option" where
  "querySince hlcOf table peer maxRows =
     collectSince hlcOf (buildScanSinceForNode hlcOf table)
       (planNodeScans (buildNodeWatermarks hlcOf table) peer) maxRows"

section \<open>Trimming\<close>

lemma trim_end_le: "trim_end kept h hlcOf n \<le> n"
  by (induction n) auto

lemma trim_end_stops:
  "0 < trim_end kept h hlcOf n \<Longrightarrow> hlcOf (kept ! (trim_end kept h hlcOf n - 1)) \<noteq> h"
  by (induction n) (auto simp: hlc_order split: if_splits)

lemma trim_end_drops:
  "trim_end kept h hlcOf n \<le> i \<Longrightarrow> i < n \<Longrightarrow> hlcOf (kept ! i) = h"
  by (induction n) (auto simp: hlc_order less_Suc_eq split: if_splits)

text \<open>
  Over a sorted page the trimmed part is exactly the rows below the first unread timestamp,
  so no timestamp is cut in two.
\<close>

lemma trim_sorted:
  assumes sorted: "sorted (map hlcOf kept)" and nxt: "\<forall>r \<in> set kept. hlcOf r \<le> h"
  shows "trimToHlcBoundary kept h hlcOf = filter (\<lambda>r. hlcOf r < h) kept"
proof -
  define e where "e = trim_end kept h hlcOf (length kept)"
  have e_le: "e \<le> length kept" unfolding e_def by (rule trim_end_le)
  have low: "hlcOf r < h" if "r \<in> set (take e kept)" for r
  proof -
    from that obtain i where i: "i < e" "r = kept ! i" "i < length kept"
      by (auto simp: in_set_conv_nth)
    then have e0: "0 < e" by simp
    have "hlcOf (kept ! (e - 1)) \<noteq> h" using trim_end_stops e0 unfolding e_def by blast
    moreover have "hlcOf (kept ! (e - 1)) \<le> h" using nxt e0 e_le by (auto simp: nth_mem)
    moreover have "hlcOf r \<le> hlcOf (kept ! (e - 1))"
      using sorted i e0 e_le by (simp add: sorted_iff_nth_mono)
    ultimately show ?thesis by simp
  qed
  have high: "hlcOf r = h" if "r \<in> set (drop e kept)" for r
  proof -
    from that obtain i where i: "i < length kept - e" "r = kept ! (e + i)"
      by (auto simp: in_set_conv_nth)
    then show ?thesis using trim_end_drops [of kept h hlcOf "length kept" "e + i"] e_def by simp
  qed
  have "filter (\<lambda>r. hlcOf r < h) kept
      = filter (\<lambda>r. hlcOf r < h) (take e kept) @ filter (\<lambda>r. hlcOf r < h) (drop e kept)"
    by (metis append_take_drop_id filter_append)
  also have "filter (\<lambda>r. hlcOf r < h) (take e kept) = take e kept"
    using low by (simp add: filter_id_conv)
  also have "filter (\<lambda>r. hlcOf r < h) (drop e kept) = []"
    using high by (auto simp: filter_empty_conv)
  finally show ?thesis by (simp add: trimToHlcBoundary_def e_def)
qed

section \<open>The contract of the per-author query\<close>

text \<open>
  What a stream may promise about one author: a page that enumerates what is owed completely,
  or completely up to a reported timestamp.
\<close>

abbreviation by_author :: "('r \<Rightarrow> hlc) \<Rightarrow> string \<Rightarrow> 'r list \<Rightarrow> 'r list" where
  "by_author hlcOf node rs \<equiv> filter (\<lambda>r. nodeId (hlcOf r) = node) rs"

definition owed :: "('r \<Rightarrow> hlc) \<Rightarrow> 'r list \<Rightarrow> watermarks \<Rightarrow> 'r list" where
  "owed hlcOf table peer = filter (\<lambda>r. unseen peer (hlcOf r)) table"

definition author_complete :: "('r \<Rightarrow> hlc) \<Rightarrow> 'r list \<Rightarrow> 'r list \<Rightarrow> hlc option option \<Rightarrow> bool" where
  "author_complete hlcOf owing rows c \<longleftrightarrow>
     (case c of
        None \<Rightarrow> mset rows = mset owing
      | Some None \<Rightarrow> rows = []
      | Some (Some h) \<Rightarrow>
          mset rows = filter_mset (\<lambda>r. hlcOf r \<le> h) (mset owing) \<and> (\<exists>r \<in> set rows. hlcOf r = h))"

definition page_complete :: "('r \<Rightarrow> hlc) \<Rightarrow> 'r list \<Rightarrow> watermarks \<Rightarrow> 'r since_page \<Rightarrow> bool" where
  "page_complete hlcOf table peer pg \<longleftrightarrow>
     (\<forall>node. author_complete hlcOf (by_author hlcOf node (owed hlcOf table peer))
        (by_author hlcOf node (page_rows pg)) (js_get (page_truncated pg) node))"

text \<open>What collecting the authors \<open>ids\<close> onto the page \<open>acc\<close> did for one author.\<close>

definition collected ::
  "('r \<Rightarrow> hlc) \<Rightarrow> 'r list \<Rightarrow> string set \<Rightarrow> 'r since_page \<Rightarrow> 'r since_page \<Rightarrow> string \<Rightarrow> bool" where
  "collected hlcOf owing ids acc pg node \<longleftrightarrow>
     (if node \<in> ids
      then author_complete hlcOf owing (by_author hlcOf node (page_rows pg))
             (js_get (page_truncated pg) node) \<and> js_get (page_truncated pg) node \<noteq> Some None
      else by_author hlcOf node (page_rows pg) = by_author hlcOf node (page_rows acc) \<and>
           js_get (page_truncated pg) node = js_get (page_truncated acc) node)"

locale since_source =
  fixes hlcOf :: "'r \<Rightarrow> hlc"
    and ok :: "'r list \<Rightarrow> watermarks \<Rightarrow> bool"
    and plan :: "'r list \<Rightarrow> watermarks \<Rightarrow> node_scan list"
    and run :: "'r list \<Rightarrow> node_scan \<Rightarrow> nat \<Rightarrow> 'r list"
  assumes scans_distinct: "ok table peer \<Longrightarrow> distinct (map scan_nodeId (plan table peer))"
    and unplanned: "ok table peer \<Longrightarrow> r \<in> set table \<Longrightarrow>
      nodeId (hlcOf r) \<notin> scan_nodeId ` set (plan table peer) \<Longrightarrow> \<not> unseen peer (hlcOf r)"
    and run_page: "ok table peer \<Longrightarrow> scan \<in> set (plan table peer) \<Longrightarrow>
      \<exists>ord. mset ord = mset (by_author hlcOf (scan_nodeId scan) (owed hlcOf table peer)) \<and>
        sorted (map hlcOf ord) \<and> run table scan w = take (w + 1) ord"
begin

abbreviation owing :: "'r list \<Rightarrow> watermarks \<Rightarrow> string \<Rightarrow> 'r list" where
  "owing table peer node \<equiv> by_author hlcOf node (owed hlcOf table peer)"

lemma truncated_page:
  assumes ord: "sorted (map hlcOf ord)" and w: "w < length ord"
    and kept: "kept = trimToHlcBoundary (take w ord) (hlcOf (ord ! w)) hlcOf" "kept \<noteq> []"
  shows "mset kept = filter_mset (\<lambda>r. hlcOf r \<le> hlcOf (last kept)) (mset ord)"
proof -
  let ?h = "hlcOf (ord ! w)"
  have le: "\<forall>r \<in> set (take w ord). hlcOf r \<le> ?h"
    using ord w by (auto simp: in_set_conv_nth sorted_iff_nth_mono)
  have ge: "\<forall>r \<in> set (drop w ord). ?h \<le> hlcOf r"
    using ord w by (auto simp: in_set_conv_nth sorted_iff_nth_mono)
  have take_sorted: "sorted (map hlcOf (take w ord))"
    using ord by (simp add: take_map [symmetric] sorted_wrt_take)
  have kept_filter: "kept = filter (\<lambda>r. hlcOf r < ?h) (take w ord)"
    using trim_sorted [OF take_sorted le] kept(1) by simp
  then have kept_sorted: "sorted (map hlcOf kept)"
    using take_sorted by (simp add: sorted_filter)
  have last: "hlcOf (last kept) < ?h"
    using last_in_set [OF kept(2)] unfolding kept_filter by auto
  have up: "hlcOf r \<le> hlcOf (last kept)" if "r \<in> set kept" for r
  proof -
    from that obtain i where i: "i < length kept" "r = kept ! i" by (auto simp: in_set_conv_nth)
    then have "hlcOf (kept ! i) \<le> hlcOf (kept ! (length kept - 1))"
      using kept_sorted by (auto simp: sorted_iff_nth_mono)
    then show ?thesis using i kept(2) by (simp add: last_conv_nth)
  qed
  have "filter (\<lambda>r. hlcOf r \<le> hlcOf (last kept)) ord
      = filter (\<lambda>r. hlcOf r \<le> hlcOf (last kept)) (take w ord)
        @ filter (\<lambda>r. hlcOf r \<le> hlcOf (last kept)) (drop w ord)"
    by (metis append_take_drop_id filter_append)
  also have "filter (\<lambda>r. hlcOf r \<le> hlcOf (last kept)) (drop w ord) = []"
    using ge last by (auto simp: filter_empty_conv dest!: bspec)
  also have "filter (\<lambda>r. hlcOf r \<le> hlcOf (last kept)) (take w ord) = kept"
    unfolding kept_filter using up last kept_filter
    by (intro filter_cong) (auto simp: kept_filter)
  finally show ?thesis by (simp add: mset_filter [symmetric])
qed

lemma scan_author_result:
  assumes ok: "ok table peer" and scan: "scan \<in> set (plan table peer)" and pos: "0 < w"
  shows "\<exists>rows c. scan_author hlcOf (run table scan) w = Some (rows, c) \<and>
    author_complete hlcOf (owing table peer (scan_nodeId scan)) rows (map_option Some c)"
  using pos
proof (induction "length (owing table peer (scan_nodeId scan)) - w" arbitrary: w rule: less_induct)
  case less
  obtain ord where ord: "mset ord = mset (owing table peer (scan_nodeId scan))" "sorted (map hlcOf ord)"
      "run table scan w = take (w + 1) ord"
    using run_page [OF ok scan] by blast
  have len: "length ord = length (owing table peer (scan_nodeId scan))" using ord(1) by (rule mset_eq_length)
  show ?case
  proof (cases "length ord \<le> w")
    case True
    then have "scan_author hlcOf (run table scan) w = Some (ord, None)"
      by (subst scan_author.simps) (simp add: ord(3))
    with ord(1) show ?thesis by (simp add: author_complete_def)
  next
    case False
    then have page: "take w (run table scan w) = take w ord" "run table scan w ! w = ord ! w"
        "\<not> length (run table scan w) \<le> w"
      by (simp_all add: ord(3))
    define kept where "kept = trimToHlcBoundary (take w ord) (hlcOf (ord ! w)) hlcOf"
    show ?thesis
    proof (cases "kept = []")
      case True
      then have "scan_author hlcOf (run table scan) w = scan_author hlcOf (run table scan) (w * 2)"
        by (subst scan_author.simps) (simp add: Let_def page kept_def [symmetric] del: length_0_conv)
      moreover have "length (owing table peer (scan_nodeId scan)) - w * 2 < length (owing table peer (scan_nodeId scan)) - w"
        using False len less.prems by simp
      ultimately show ?thesis using less.hyps [of "w * 2"] less.prems by simp
    next
      case kept_ne: False
      then have res: "scan_author hlcOf (run table scan) w = Some (kept, Some (hlcOf (last kept)))"
        by (subst scan_author.simps) (simp only: Let_def page kept_def [symmetric] if_False)
      have "mset kept = filter_mset (\<lambda>r. hlcOf r \<le> hlcOf (last kept)) (mset ord)"
        using truncated_page [OF ord(2) _ kept_def kept_ne] False by simp
      moreover have "\<exists>r \<in> set kept. hlcOf r = hlcOf (last kept)" using kept_ne by auto
      ultimately show ?thesis
        using res ord(1) by (simp add: author_complete_def)
    qed
  qed
qed

lemma collect_authors_result:
  assumes "\<forall>scan \<in> set ss. \<exists>rows c. scan_author hlcOf (run table scan) share = Some (rows, c) \<and>
      author_complete hlcOf (owing table peer (scan_nodeId scan)) rows (map_option Some c)"
    and "distinct (map scan_nodeId ss)"
    and "\<forall>scan \<in> set ss. by_author hlcOf (scan_nodeId scan) (page_rows acc) = [] \<and>
      js_get (page_truncated acc) (scan_nodeId scan) = None"
  shows "\<exists>pg. collect_authors hlcOf (run table) share ss acc = Some pg \<and>
    (\<forall>node. collected hlcOf (owing table peer node) (scan_nodeId ` set ss) acc pg node) \<and>
    ((page_hasMore acc \<longleftrightarrow> page_truncated acc \<noteq> []) \<longrightarrow>
     (page_hasMore pg \<longleftrightarrow> page_truncated pg \<noteq> []))"
  using assms
proof (induction ss arbitrary: acc)
  case Nil
  then show ?case by (simp add: collected_def)
next
  case (Cons scan ss)
  let ?n = "scan_nodeId scan"
  obtain rows c where res: "scan_author hlcOf (run table scan) share = Some (rows, c)"
      and comp: "author_complete hlcOf (owing table peer ?n) rows (map_option Some c)"
    using Cons.prems(1) by auto
  have only: "nodeId (hlcOf r) = ?n" if "r \<in> set rows" for r
  proof -
    have "set_mset (mset rows) \<subseteq> set_mset (mset (owing table peer ?n))"
      using comp by (cases c) (auto simp: author_complete_def)
    with that show ?thesis by auto
  qed
  then have by_n: "by_author hlcOf node rows = (if node = ?n then rows else [])" for node
    by (auto simp: filter_id_conv filter_empty_conv)
  define acc' where "acc' = (case c of None \<Rightarrow> acc\<lparr>page_rows := page_rows acc @ rows\<rparr>
    | Some h \<Rightarrow> \<lparr>page_rows = page_rows acc @ rows, page_hasMore = True,
        page_truncated = js_set ?n (Some h) (page_truncated acc)\<rparr>)"
  have step: "collect_authors hlcOf (run table) share (scan # ss) acc = collect_authors hlcOf (run table) share ss acc'"
    by (cases c) (simp_all add: res acc'_def)
  have rows': "page_rows acc' = page_rows acc @ rows" by (cases c) (simp_all add: acc'_def)
  have trunc': "js_get (page_truncated acc') node
      = (if node = ?n then map_option Some c else js_get (page_truncated acc) node)" for node
    using Cons.prems(3) by (cases c) (auto simp: acc'_def)
  have more: "(page_hasMore acc \<longleftrightarrow> page_truncated acc \<noteq> []) \<Longrightarrow>
      (page_hasMore acc' \<longleftrightarrow> page_truncated acc' \<noteq> [])"
    by (cases c) (simp_all add: acc'_def)
  have notin: "?n \<notin> scan_nodeId ` set ss" using Cons.prems(2) by auto
  have fresh: "\<forall>s \<in> set ss. by_author hlcOf (scan_nodeId s) (page_rows acc') = [] \<and>
      js_get (page_truncated acc') (scan_nodeId s) = None"
  proof
    fix s assume s: "s \<in> set ss"
    with notin have "scan_nodeId s \<noteq> ?n" by (metis image_eqI)
    with s Cons.prems(3) show "by_author hlcOf (scan_nodeId s) (page_rows acc') = [] \<and>
        js_get (page_truncated acc') (scan_nodeId s) = None"
      by (simp add: rows' trunc' by_n)
  qed
  have here: "by_author hlcOf ?n (page_rows acc') = rows \<and> js_get (page_truncated acc') ?n = map_option Some c"
    using Cons.prems(3) by (simp add: rows' trunc' by_n)
  have frame: "by_author hlcOf node (page_rows acc') = by_author hlcOf node (page_rows acc) \<and>
      js_get (page_truncated acc') node = js_get (page_truncated acc) node" if "node \<noteq> ?n" for node
    using that by (simp add: rows' trunc' by_n)
  obtain pg where pg: "collect_authors hlcOf (run table) share ss acc' = Some pg"
      and nodes: "\<And>node. collected hlcOf (owing table peer node) (scan_nodeId ` set ss) acc' pg node"
      and pmore: "(page_hasMore acc' \<longleftrightarrow> page_truncated acc' \<noteq> []) \<longrightarrow>
        (page_hasMore pg \<longleftrightarrow> page_truncated pg \<noteq> [])"
    using Cons.IH [of acc'] Cons.prems(1,2) fresh by auto
  have "collected hlcOf (owing table peer node) (scan_nodeId ` set (scan # ss)) acc pg node" for node
  proof (cases "node = ?n")
    case True
    then show ?thesis
      using nodes [of ?n] notin here comp by (cases c) (simp_all add: collected_def)
  next
    case False
    then show ?thesis using nodes [of node] frame [OF False] by (simp add: collected_def)
  qed
  with pg step pmore more show ?case by auto
qed

text \<open>The collection always returns, and its page is complete below what it reports.\<close>

lemma collectSince_complete:
  assumes ok: "ok table peer"
  shows "\<exists>pg. collectSince hlcOf (run table) (plan table peer) maxRows = Some pg \<and> page_complete hlcOf table peer pg \<and>
     (page_hasMore pg \<longleftrightarrow> page_truncated pg \<noteq> []) \<and>
     (0 < maxRows \<longrightarrow> (\<forall>node. js_get (page_truncated pg) node \<noteq> Some None))"
proof -
  have none: "owing table peer node = []" if "node \<notin> scan_nodeId ` set (plan table peer)" for node
    using that unplanned [OF ok] by (auto simp: owed_def filter_empty_conv)
  consider "(plan table peer) = []" | "(plan table peer) \<noteq> []" "maxRows \<le> 0" | "(plan table peer) \<noteq> []" "0 < maxRows" by linarith
  then show ?thesis
  proof cases
    case 1
    then show ?thesis
      using none by (auto simp: collectSince_def page_complete_def author_complete_def)
  next
    case 2
    let ?t = "fold (\<lambda>scan t. js_set (scan_nodeId scan) None t) (plan table peer) ([] :: stream_truncation)"
    have get: "js_get (fold (\<lambda>scan t. js_set (scan_nodeId scan) None t) ss t) node =
        (if node \<in> scan_nodeId ` set ss then Some None else js_get t node)"
      for ss node and t :: stream_truncation
      by (induction ss arbitrary: t) auto
    from 2 obtain s where "s \<in> set (plan table peer)" by (cases "plan table peer") auto
    then have "js_get ?t (scan_nodeId s) = Some None" using get [of "plan table peer" "[]"] by auto
    then have "?t \<noteq> []" by auto
    then show ?thesis
      using 2 none by (auto simp: collectSince_def page_complete_def author_complete_def get)
  next
    case 3
    have "0 < scan_share maxRows (length (plan table peer))" by (simp add: scan_share_def)
    then have each: "\<forall>scan \<in> set (plan table peer). \<exists>rows c.
        scan_author hlcOf (run table scan) (scan_share maxRows (length (plan table peer))) = Some (rows, c) \<and>
        author_complete hlcOf (owing table peer (scan_nodeId scan)) rows (map_option Some c)"
      using scan_author_result [OF ok] by blast
    obtain pg where pg: "collect_authors hlcOf (run table) (scan_share maxRows (length (plan table peer))) (plan table peer)
          \<lparr>page_rows = [], page_hasMore = False, page_truncated = []\<rparr> = Some pg"
        and nodes: "\<And>node. collected hlcOf (owing table peer node) (scan_nodeId ` set (plan table peer))
          \<lparr>page_rows = [], page_hasMore = False, page_truncated = []\<rparr> pg node"
        and more: "page_hasMore pg \<longleftrightarrow> page_truncated pg \<noteq> []"
      using collect_authors_result [OF each scans_distinct [OF ok],
          of "\<lparr>page_rows = [], page_hasMore = False, page_truncated = []\<rparr>"] by auto
    have "author_complete hlcOf (owing table peer node) (by_author hlcOf node (page_rows pg))
        (js_get (page_truncated pg) node)" for node
      using nodes [of node] none [of node]
      by (auto simp: collected_def author_complete_def split: if_splits)
    moreover have "js_get (page_truncated pg) node \<noteq> Some None" for node
      using nodes [of node] by (auto simp: collected_def split: if_splits)
    ultimately show ?thesis
      using 3 pg more by (simp add: collectSince_def page_complete_def)
  qed
qed

end

section \<open>The SQL keeps the contract\<close>

text \<open>
  The timestamps of the table and of the peer's map fit their fixed-width text, and the peer's
  map names each author by its own timestamps.
\<close>

definition scan_ok :: "('r \<Rightarrow> hlc) \<Rightarrow> 'r list \<Rightarrow> watermarks \<Rightarrow> bool" where
  "scan_ok hlcOf table peer \<longleftrightarrow>
     (\<forall>r \<in> set table. hlc_fits (hlcOf r)) \<and>
     (\<forall>(node, h) \<in> set peer. nodeId h = node \<and> hlc_fits h)"

lemma scan_ok_peer:
  "scan_ok hlcOf table peer \<Longrightarrow> js_get peer node = Some h \<Longrightarrow> nodeId h = node \<and> hlc_fits h"
  by (auto simp: scan_ok_def dest!: map_of_SomeD)

lemma max_serialized_Max:
  "\<forall>h \<in> set (best # hs). hlc_fits h \<Longrightarrow> max_serialized best hs = Max (set (best # hs))"
proof (induction hs arbitrary: best)
  case Nil
  then show ?case by simp
next
  case (Cons h hs)
  let ?b = "if serializeHLC best < serializeHLC h then h else best"
  have b: "?b = max best h" using Cons.prems by (auto simp add: serialize_less max_def)
  have "max_serialized best (h # hs) = Max (set (?b # hs))"
    using Cons.IH [of ?b] Cons.prems by simp
  also have "\<dots> = Max (set (best # h # hs))"
    unfolding b by (cases "hs = []") (simp_all add: max.assoc)
  finally show ?case .
qed

lemma buildNodeWatermarks_get:
  assumes "\<forall>r \<in> set table. hlc_fits (hlcOf r)"
  shows "js_get (buildNodeWatermarks hlcOf table) node =
    (if node \<in> (\<lambda>r. nodeId (hlcOf r)) ` set table
     then Some (Max (hlcOf ` set (by_author hlcOf node table))) else None)"
proof -
  have get: "js_get (buildNodeWatermarks hlcOf table) node = map_option
      (\<lambda>run. case map hlcOf run of [] \<Rightarrow> ZERO_HLC | h # hs \<Rightarrow> max_serialized h hs)
      (js_get (js_group (\<lambda>r. nodeId (hlcOf r)) table) node)"
    by (simp add: buildNodeWatermarks_def map_of_map)
  show ?thesis
  proof (cases "node \<in> (\<lambda>r. nodeId (hlcOf r)) ` set table")
    case True
    then obtain r rs where run: "by_author hlcOf node table = r # rs"
      by (cases "by_author hlcOf node table") (auto simp: filter_empty_conv)
    then have "\<forall>x \<in> set (r # rs). x \<in> set table" by (metis filter_is_subset subsetD)
    then have "\<forall>h \<in> set (hlcOf r # map hlcOf rs). hlc_fits h" using assms by auto
    from max_serialized_Max [OF this] True run show ?thesis
      by (simp add: get js_get_group)
  next
    case False
    then show ?thesis by (simp add: get js_get_group)
  qed
qed

lemma js_wf_buildNodeWatermarks: "js_wf (buildNodeWatermarks hlcOf table)"
proof -
  have "map fst (buildNodeWatermarks hlcOf table) = map fst (js_group (\<lambda>r. nodeId (hlcOf r)) table)"
    by (simp add: buildNodeWatermarks_def case_prod_beta comp_def)
  then show ?thesis using js_wf_group by (simp add: js_wf_def)
qed

text \<open>Which authors the plan visits, and from where.\<close>

lemma conj_absorb_right: "(B \<Longrightarrow> A) \<Longrightarrow> (A \<and> B) = B"
  by auto

lemma plan_node_in:
  "scan \<in> set (plan_node localW peer node) \<longleftrightarrow> node = scan_nodeId scan \<and>
     (\<exists>m. js_get localW (scan_nodeId scan) = Some m \<and>
       (case js_get peer (scan_nodeId scan) of
          None \<Rightarrow> scan_since scan = None
        | Some p \<Rightarrow> p < m \<and> scan_since scan = Some (serializeHLC p)))"
proof -
  have eq: "scan = \<lparr>scan_nodeId = n, scan_since = x\<rparr> \<longleftrightarrow> scan_nodeId scan = n \<and> scan_since scan = x"
    for n x by (cases scan) simp
  show ?thesis
  proof (cases "js_get localW node")
    case None
    then show ?thesis by (auto simp: plan_node_def)
  next
    case (Some m)
    then show ?thesis
      by (cases "js_get peer node") (auto simp: plan_node_def hlc_order not_le eq)
  qed
qed

lemma planNodeScans_in:
  "scan \<in> set (planNodeScans localW peer) \<longleftrightarrow>
     (\<exists>m. js_get localW (scan_nodeId scan) = Some m \<and>
       (case js_get peer (scan_nodeId scan) of
          None \<Rightarrow> scan_since scan = None
        | Some p \<Rightarrow> p < m \<and> scan_since scan = Some (serializeHLC p)))"
  (is "?l \<longleftrightarrow> ?r")
proof -
  have one: "scan \<in> set (plan_node localW peer node) \<longleftrightarrow> node = scan_nodeId scan \<and> ?r" for node
    by (rule plan_node_in)
  have key: "?r \<Longrightarrow> scan_nodeId scan \<in> set (js_keys localW)"
    by (elim exE conjE) (drule map_of_SomeD, force)
  have "?l \<longleftrightarrow> (\<exists>node \<in> set (js_keys localW). scan \<in> set (plan_node localW peer node))"
    by (simp add: planNodeScans_def)
  also have "\<dots> \<longleftrightarrow> scan_nodeId scan \<in> set (js_keys localW) \<and> ?r"
    unfolding one by (simp only: bex_simps) simp
  also have "\<dots> \<longleftrightarrow> ?r" using key by (rule conj_absorb_right)
  finally show ?thesis .
qed

lemma planNodeScans_distinct:
  assumes "js_wf localW"
  shows "distinct (map scan_nodeId (planNodeScans localW peer))"
proof -
  have one: "map scan_nodeId (plan_node localW peer node) = [node] \<or> plan_node localW peer node = []"
    for node
    by (cases "js_get localW node"; cases "js_get peer node") (simp_all add: plan_node_def)
  have "distinct nodes \<Longrightarrow> distinct (map scan_nodeId (concat (map (plan_node localW peer) nodes))) \<and>
      set (map scan_nodeId (concat (map (plan_node localW peer) nodes))) \<subseteq> set nodes" for nodes
  proof (induction nodes)
    case Nil
    then show ?case by simp
  next
    case (Cons node nodes)
    then have IH: "distinct (map scan_nodeId (concat (map (plan_node localW peer) nodes)))"
        "set (map scan_nodeId (concat (map (plan_node localW peer) nodes))) \<subseteq> set nodes"
        "node \<notin> set nodes" by simp_all
    have "set (map scan_nodeId (plan_node localW peer node)) \<subseteq> {node}"
        "distinct (map scan_nodeId (plan_node localW peer node))"
      using one [of node] by auto
    moreover have "distinct (as @ bs) \<and> set (as @ bs) \<subseteq> set (node # nodes)"
      if "set as \<subseteq> {node}" "distinct as" "distinct bs" "set bs \<subseteq> set nodes" for as bs :: "string list"
      using that IH(3) by auto
    ultimately show ?case using IH(1,2) by (simp only: concat.simps list.map map_append)
  qed
  then show ?thesis using assms by (simp add: planNodeScans_def js_wf_def)
qed

interpretation sql_scan: since_source hlcOf "scan_ok hlcOf"
  "\<lambda>table peer. planNodeScans (buildNodeWatermarks hlcOf table) peer"
  "buildScanSinceForNode hlcOf"
proof
  fix table peer
  show "distinct (map scan_nodeId (planNodeScans (buildNodeWatermarks hlcOf table) peer))"
    by (rule planNodeScans_distinct) (rule js_wf_buildNodeWatermarks)
next
  fix table peer r
  assume ok: "scan_ok hlcOf table peer" and r: "r \<in> set table"
    and un: "nodeId (hlcOf r) \<notin> scan_nodeId ` set (planNodeScans (buildNodeWatermarks hlcOf table) peer)"
  let ?n = "nodeId (hlcOf r)"
  have fits: "\<forall>r \<in> set table. hlc_fits (hlcOf r)" using ok by (simp add: scan_ok_def)
  let ?m = "Max (hlcOf ` set (by_author hlcOf ?n table))"
  have get: "js_get (buildNodeWatermarks hlcOf table) ?n = Some ?m"
    using r by (simp add: buildNodeWatermarks_get [OF fits])
  have le: "hlcOf r \<le> ?m" using r by (intro Max_ge) auto
  show "\<not> unseen peer (hlcOf r)"
  proof (cases "js_get peer ?n")
    case None
    then have "\<lparr>scan_nodeId = ?n, scan_since = None\<rparr> \<in>
        set (planNodeScans (buildNodeWatermarks hlcOf table) peer)"
      by (simp add: planNodeScans_in get)
    with un show ?thesis by force
  next
    case (Some p)
    have "\<not> p < ?m"
    proof
      assume "p < ?m"
      then have "\<lparr>scan_nodeId = ?n, scan_since = Some (serializeHLC p)\<rparr> \<in>
          set (planNodeScans (buildNodeWatermarks hlcOf table) peer)"
        using Some by (simp add: planNodeScans_in get)
      with un show False by force
    qed
    with le Some show ?thesis by (simp add: unseen_def)
  qed
next
  fix table peer scan w
  assume ok: "scan_ok hlcOf table peer"
    and scan: "scan \<in> set (planNodeScans (buildNodeWatermarks hlcOf table) peer)"
  have fits: "\<And>r. r \<in> set table \<Longrightarrow> hlc_fits (hlcOf r)" using ok by (simp add: scan_ok_def)
  let ?owing = "by_author hlcOf (scan_nodeId scan) (owed hlcOf table peer)"
  have rows: "filter (\<lambda>r. nodeId (hlcOf r) = scan_nodeId scan \<and>
      (case scan_since scan of None \<Rightarrow> True | Some since \<Rightarrow> serializeHLC (hlcOf r) > since)) table = ?owing"
    unfolding owed_def filter_filter
  proof (rule filter_cong [OF refl])
    fix r assume r: "r \<in> set table"
    show "(nodeId (hlcOf r) = scan_nodeId scan \<and>
        (case scan_since scan of None \<Rightarrow> True | Some since \<Rightarrow> since < serializeHLC (hlcOf r))) =
        (unseen peer (hlcOf r) \<and> nodeId (hlcOf r) = scan_nodeId scan)"
      using scan fits [OF r] scan_ok_peer [OF ok]
      by (auto simp: planNodeScans_in unseen_def serialize_less split: option.splits)
  qed
  let ?ord = "sort_key (\<lambda>r. serializeHLC (hlcOf r)) ?owing"
  have "sorted (map (\<lambda>r. serializeHLC (hlcOf r)) ?ord)" by simp
  then have "sorted_wrt (\<lambda>a b. serializeHLC (hlcOf a) \<le> serializeHLC (hlcOf b)) ?ord"
    by (simp add: sorted_map)
  then have "sorted_wrt (\<lambda>a b. hlcOf a \<le> hlcOf b) ?ord"
    by (rule sorted_wrt_mono_rel [rotated]) (auto simp: owed_def serialize_le fits)
  then have "sorted (map hlcOf ?ord)" by (simp add: sorted_map)
  moreover have "buildScanSinceForNode hlcOf table scan w = take (w + 1) ?ord"
    by (simp only: buildScanSinceForNode_def rows)
  ultimately show "\<exists>ord. mset ord = mset ?owing \<and> sorted (map hlcOf ord) \<and>
      buildScanSinceForNode hlcOf table scan w = take (w + 1) ord"
    by (intro exI [of _ ?ord]) simp
qed

lemma querySince_complete:
  assumes "scan_ok hlcOf table peer"
  shows "\<exists>pg. querySince hlcOf table peer maxRows = Some pg \<and> page_complete hlcOf table peer pg \<and>
     (page_hasMore pg \<longleftrightarrow> page_truncated pg \<noteq> []) \<and>
     (0 < maxRows \<longrightarrow> (\<forall>node. js_get (page_truncated pg) node \<noteq> Some None))"
  unfolding querySince_def by (rule sql_scan.collectSince_complete [OF assms])

lemma collect_authors_wf:
  "collect_authors hlcOf runScan share scans acc = Some pg \<Longrightarrow> js_wf (page_truncated acc) \<Longrightarrow>
     js_wf (page_truncated pg)"
  by (induction scans arbitrary: acc) (auto split: option.splits prod.splits)

lemma querySince_wf:
  assumes "querySince hlcOf table peer maxRows = Some pg"
  shows "js_wf (page_truncated pg)"
proof -
  have none: "js_wf t \<Longrightarrow> js_wf (fold (\<lambda>scan t. js_set (scan_nodeId scan) None t) scans t)"
    for scans and t :: stream_truncation
    by (induction scans arbitrary: t) auto
  show ?thesis
    using assms
    by (auto simp: querySince_def collectSince_def none split: if_splits
        dest: collect_authors_wf)
qed

section \<open>Properties\<close>

text \<open>
  C8. A delta scan returns for every table, peer map and limit, and its page is complete: for each
  author it holds exactly the rows the peer has not seen, or exactly those up to the reported
  timestamp, which a row of the page carries, or none where it reports that it read nothing. It
  reports more exactly when it reports a truncation, and with a positive limit it always reads
  every author.
\<close>

theorem querySince_page_is_complete:
  assumes "scan_ok hlcOf table peer"
  shows "\<exists>pg. querySince hlcOf table peer maxRows = Some pg \<and>
    (\<forall>node. author_complete hlcOf
       (filter (\<lambda>r. nodeId (hlcOf r) = node) (filter (\<lambda>r. unseen peer (hlcOf r)) table))
       (filter (\<lambda>r. nodeId (hlcOf r) = node) (page_rows pg)) (js_get (page_truncated pg) node)) \<and>
    (page_hasMore pg \<longleftrightarrow> page_truncated pg \<noteq> []) \<and>
    (0 < maxRows \<longrightarrow> (\<forall>node. js_get (page_truncated pg) node \<noteq> Some None))"
  using querySince_complete [OF assms, of maxRows] by (simp add: page_complete_def owed_def)

definition sample_rows :: "(string \<times> hlc) list" where
  "sample_rows = [(''p'', HLC 1 0 ''a''), (''q'', HLC 2 0 ''a''), (''r'', HLC 2 0 ''a''), (''s'', HLC 3 0 ''b'')]"

theorem querySince_page_is_complete_witness:
  "\<exists>pg. querySince snd sample_rows [(''b'', HLC 3 0 ''b'')] 2 = Some pg \<and>
     (page_hasMore pg \<longleftrightarrow> page_truncated pg \<noteq> [])"
proof -
  have "scan_ok snd sample_rows [(''b'', HLC 3 0 ''b'')]"
    by (simp add: scan_ok_def sample_rows_def hlc_fits_def)
  from querySince_page_is_complete [OF this, of 2] show ?thesis by blast
qed

end
