(* ===== verification/Round_Cut.thy ===== *)
theory Round_Cut
  imports Since_Scan
begin

text \<open>
  Deciding what one round may ship: \<open>packages/sync-engine/src/round-cut.ts\<close>.

  Every stream reports, per author, how far its scan got. \<open>computeCeilings\<close> takes the lowest
  point over all streams; \<open>cutRound\<close> keeps the items at or below their author's ceiling and
  spends the round's budgets in timestamp order, one whole timestamp at a time. The lemmas show
  that the ceilings are the meet of the streams' promises and that what is taken is a prefix of
  the eligible items whose last timestamp is below the first one left.
\<close>

record 'a round_item =
  item_value :: 'a
  item_hlc :: hlc
  item_bytes :: nat

record round_budget =
  maxBytes :: nat
  maxItems :: nat

record 'a cut_result =
  cut_taken :: "'a round_item list"
  cut_hasMore :: bool

type_synonym hlc_ceilings = "(string, hlc option) js_map"

section \<open>Ceilings\<close>

definition lower_ceiling :: "string \<Rightarrow> hlc option \<Rightarrow> hlc_ceilings \<Rightarrow> hlc_ceilings" where
  "lower_ceiling node c ceilings =
     (case js_get ceilings node of
        None \<Rightarrow> js_set node c ceilings
      | Some None \<Rightarrow> ceilings
      | Some (Some current) \<Rightarrow>
          (case c of
             None \<Rightarrow> js_set node None ceilings
           | Some h \<Rightarrow> if compareHLC h current < 0 then js_set node (Some h) ceilings else ceilings))"

definition computeCeilings :: "stream_truncation list \<Rightarrow> hlc_ceilings" where
  "computeCeilings truncations =
     fold (\<lambda>truncation ceilings. fold (\<lambda>(node, c). lower_ceiling node c) truncation ceilings)
       truncations []"

definition withinCeiling :: "'a round_item \<Rightarrow> hlc_ceilings \<Rightarrow> bool" where
  "withinCeiling item ceilings =
     (case js_get ceilings (nodeId (item_hlc item)) of
        None \<Rightarrow> True
      | Some None \<Rightarrow> False
      | Some (Some c) \<Rightarrow> compareHLC (item_hlc item) c \<le> 0)"

section \<open>The cut\<close>

function cut_groups ::
  "round_budget \<Rightarrow> 'a round_item list \<Rightarrow> 'a round_item list \<Rightarrow> nat \<Rightarrow> 'a round_item list \<times> bool" where
  "cut_groups budget [] taken bytes = (taken, False)"
| "cut_groups budget (x # xs) taken bytes =
     (let group = x # takeWhile (\<lambda>y. compareHLC (item_hlc x) (item_hlc y) = 0) xs;
          groupBytes = sum_list (map item_bytes group)
      in if taken \<noteq> [] \<and>
            (length taken + length group > maxItems budget \<or> bytes + groupBytes > maxBytes budget)
         then (taken, True)
         else cut_groups budget (dropWhile (\<lambda>y. compareHLC (item_hlc x) (item_hlc y) = 0) xs)
                (taken @ group) (bytes + groupBytes))"
  by pat_completeness auto

termination cut_groups
  by (relation "measure (\<lambda>(_, xs, _, _). length xs)") (auto simp: less_Suc_eq_le length_dropWhile_le)

definition cutRound :: "'a round_item list \<Rightarrow> hlc_ceilings \<Rightarrow> round_budget \<Rightarrow> 'a cut_result" where
  "cutRound items ceilings budget =
     (let eligible = js_sort (\<lambda>a b. compareHLC (item_hlc a) (item_hlc b))
            (filter (\<lambda>item. withinCeiling item ceilings) items);
          heldByCeiling = (\<exists>item \<in> set items. \<not> withinCeiling item ceilings);
          (taken, heldByBudget) = cut_groups budget eligible [] 0
      in \<lparr>cut_taken = taken,
          cut_hasMore = ceilings \<noteq> [] \<or> heldByCeiling \<or> heldByBudget\<rparr>)"

section \<open>The ceilings are the meet of the promises\<close>

text \<open>
  A ceiling allows a timestamp when it is absent, or a value at or above it. \<open>None\<close> inside is
  the floor: nothing is allowed.
\<close>

definition ceiling_allows :: "hlc option option \<Rightarrow> hlc \<Rightarrow> bool" where
  "ceiling_allows c h =
     (case c of None \<Rightarrow> True | Some None \<Rightarrow> False | Some (Some m) \<Rightarrow> h \<le> m)"

lemma withinCeiling_allows:
  "withinCeiling item ceilings \<longleftrightarrow> ceiling_allows (js_get ceilings (nodeId (item_hlc item))) (item_hlc item)"
  by (simp add: withinCeiling_def ceiling_allows_def hlc_order split: option.split)

lemma lower_ceiling_allows:
  "ceiling_allows (js_get (lower_ceiling node c ceilings) n) h \<longleftrightarrow>
     ceiling_allows (js_get ceilings n) h \<and> (n = node \<longrightarrow> ceiling_allows (Some c) h)"
  by (cases "js_get ceilings node")
    (auto simp: lower_ceiling_def ceiling_allows_def hlc_order split: option.splits)

lemma lower_ceiling_cases:
  "js_get (lower_ceiling node c ceilings) n = js_get ceilings n \<or>
     n = node \<and> js_get (lower_ceiling node c ceilings) n = Some c"
  by (simp add: lower_ceiling_def split: option.split)

lemma lower_all_allows:
  "ceiling_allows (js_get (fold (\<lambda>(node, c). lower_ceiling node c) t ceilings) n) h \<longleftrightarrow>
     ceiling_allows (js_get ceilings n) h \<and> (\<forall>(node, c) \<in> set t. node = n \<longrightarrow> ceiling_allows (Some c) h)"
  by (induction t arbitrary: ceilings) (auto simp: lower_ceiling_allows)

lemma lower_all_cases:
  "js_get (fold (\<lambda>(node, c). lower_ceiling node c) t ceilings) n = js_get ceilings n \<or>
     (\<exists>c. (n, c) \<in> set t \<and> js_get (fold (\<lambda>(node, c). lower_ceiling node c) t ceilings) n = Some c)"
proof (induction t arbitrary: ceilings)
  case Nil
  then show ?case by simp
next
  case (Cons a t)
  obtain m c where a: "a = (m, c)" by (cases a)
  show ?case using Cons.IH [of "lower_ceiling m c ceilings"] lower_ceiling_cases [of m c ceilings n]
    by (auto simp: a)
qed

lemma fold_truncations_allows:
  "ceiling_allows (js_get (fold (\<lambda>t. fold (\<lambda>(node, c). lower_ceiling node c) t) ts ceilings) n) h \<longleftrightarrow>
     ceiling_allows (js_get ceilings n) h \<and>
     (\<forall>t \<in> set ts. \<forall>(node, c) \<in> set t. node = n \<longrightarrow> ceiling_allows (Some c) h)"
  by (induction ts arbitrary: ceilings) (auto simp: lower_all_allows)

lemma fold_truncations_cases:
  "js_get (fold (\<lambda>t. fold (\<lambda>(node, c). lower_ceiling node c) t) ts ceilings) n = js_get ceilings n \<or>
     (\<exists>t \<in> set ts. \<exists>c. (n, c) \<in> set t \<and>
        js_get (fold (\<lambda>t. fold (\<lambda>(node, c). lower_ceiling node c) t) ts ceilings) n = Some c)"
proof (induction ts arbitrary: ceilings)
  case Nil
  then show ?case by simp
next
  case (Cons t ts)
  show ?case using Cons.IH [of "fold (\<lambda>(node, c). lower_ceiling node c) t ceilings"]
      lower_all_cases [of t ceilings n]
    by auto
qed

lemma computeCeilings_allows:
  assumes "\<forall>t \<in> set ts. js_wf t"
  shows "ceiling_allows (js_get (computeCeilings ts) n) h \<longleftrightarrow>
    (\<forall>t \<in> set ts. ceiling_allows (js_get t n) h)"
proof -
  have "(\<forall>(node, c) \<in> set t. node = n \<longrightarrow> ceiling_allows (Some c) h) \<longleftrightarrow> ceiling_allows (js_get t n) h"
    if "t \<in> set ts" for t
  proof -
    have wf: "(n, c) \<in> set t \<longleftrightarrow> js_get t n = Some c" for c
      using assms that by (intro js_get_in_set) simp
    have "(\<forall>(node, c) \<in> set t. node = n \<longrightarrow> ceiling_allows (Some c) h) \<longleftrightarrow>
        (\<forall>c. (n, c) \<in> set t \<longrightarrow> ceiling_allows (Some c) h)" by auto
    then show ?thesis by (cases "js_get t n") (simp_all add: wf ceiling_allows_def)
  qed
  then show ?thesis
    by (simp add: computeCeilings_def fold_truncations_allows) (simp add: ceiling_allows_def)
qed

text \<open>A ceiling is one of the streams' own reports.\<close>

lemma computeCeilings_from:
  assumes "js_get (computeCeilings ts) n = Some c"
  shows "\<exists>t \<in> set ts. (n, c) \<in> set t"
  using assms fold_truncations_cases [of ts "[]" n] by (auto simp: computeCeilings_def)

lemma lower_ceiling_not_Nil: "lower_ceiling node c ceilings \<noteq> []"
proof -
  have "js_get (lower_ceiling node c ceilings) node \<noteq> None"
    by (auto simp: lower_ceiling_def split: option.splits)
  then show ?thesis by auto
qed

lemma computeCeilings_empty: "computeCeilings ts = [] \<longleftrightarrow> (\<forall>t \<in> set ts. t = [])"
proof -
  have one: "fold (\<lambda>(node, c). lower_ceiling node c) t cs = [] \<longleftrightarrow> t = [] \<and> cs = []" for t cs
  proof (induction t arbitrary: cs)
    case (Cons a t)
    show ?case by (cases a) (simp add: Cons.IH lower_ceiling_not_Nil)
  qed simp
  have "fold (\<lambda>t. fold (\<lambda>(node, c). lower_ceiling node c) t) ts cs = [] \<longleftrightarrow>
      (\<forall>t \<in> set ts. t = []) \<and> cs = []" for cs
    by (induction ts arbitrary: cs) (simp_all add: one conj_ac)
  then show ?thesis by (simp add: computeCeilings_def)
qed

section \<open>The cut takes whole timestamps from the front\<close>

lemma cut_groups_result:
  assumes "sorted (map item_hlc xs)"
    and "\<forall>t \<in> set taken. \<forall>x \<in> set xs. item_hlc t < item_hlc x"
    and "bytes = sum_list (map item_bytes taken)"
  shows "\<exists>front rear. xs = front @ rear \<and>
    cut_groups budget xs taken bytes = (taken @ front, rear \<noteq> []) \<and>
    (\<forall>f \<in> set front. \<forall>b \<in> set rear. item_hlc f < item_hlc b) \<and>
    (taken = [] \<and> xs \<noteq> [] \<longrightarrow> front \<noteq> []) \<and>
    (front \<noteq> [] \<longrightarrow>
       (length (taken @ front) \<le> maxItems budget \<and>
        sum_list (map item_bytes (taken @ front)) \<le> maxBytes budget) \<or>
       taken = [] \<and> (\<forall>f \<in> set front. item_hlc f = item_hlc (hd front)))"
  using assms
proof (induction budget xs taken bytes rule: cut_groups.induct)
  case (1 budget taken bytes)
  then show ?case by simp
next
  case (2 budget x xs taken bytes)
  let ?same = "\<lambda>y. compareHLC (item_hlc x) (item_hlc y) = 0"
  let ?group = "x # takeWhile ?same xs" and ?rest = "dropWhile ?same xs"
  let ?over = "taken \<noteq> [] \<and> (length taken + length ?group > maxItems budget \<or>
      bytes + sum_list (map item_bytes ?group) > maxBytes budget)"
  have same: "?same y \<longleftrightarrow> item_hlc y = item_hlc x" for y by (auto simp: hlc_order)
  show ?case
  proof (cases ?over)
    case True
    then show ?thesis by (intro exI [of _ "[]"] exI [of _ "x # xs"]) simp
  next
    case False
    have sx: "sorted (map item_hlc xs)" "\<forall>y \<in> set xs. item_hlc x \<le> item_hlc y"
      using "2.prems"(1) by auto
    have rest_gt: "\<forall>y \<in> set ?rest. item_hlc x < item_hlc y"
      using sorted_dropWhile_greater [OF sx] by (simp add: same)
    have grp: "\<forall>g \<in> set ?group. item_hlc g = item_hlc x"
      by (auto dest!: set_takeWhileD simp: same)
    have r: "sorted (map item_hlc ?rest)" using sx(1) by (rule sorted_map_dropWhile)
    have sub: "set ?rest \<subseteq> set xs" by (auto dest: set_dropWhileD)
    have above: "\<forall>t \<in> set (taken @ ?group). \<forall>y \<in> set ?rest. item_hlc t < item_hlc y"
    proof (intro ballI)
      fix t y assume t: "t \<in> set (taken @ ?group)" and y: "y \<in> set ?rest"
      show "item_hlc t < item_hlc y"
      proof (cases "t \<in> set taken")
        case True
        then show ?thesis using "2.prems"(2) y sub by auto
      next
        case False
        then have "t \<in> set ?group" using t by (simp only: set_append Un_iff) simp
        then have "item_hlc t = item_hlc x" using grp by blast
        then show ?thesis using rest_gt y by simp
      qed
    qed
    have bytes: "bytes + sum_list (map item_bytes ?group) = sum_list (map item_bytes (taken @ ?group))"
      using "2.prems"(3) by simp
    from "2.IH" [OF refl refl False r above bytes] obtain front rear where fb: "?rest = front @ rear"
        "cut_groups budget ?rest (taken @ ?group) (bytes + sum_list (map item_bytes ?group))
          = ((taken @ ?group) @ front, rear \<noteq> [])"
        "\<forall>f \<in> set front. \<forall>b \<in> set rear. item_hlc f < item_hlc b"
        "front \<noteq> [] \<longrightarrow> (length ((taken @ ?group) @ front) \<le> maxItems budget \<and>
          sum_list (map item_bytes ((taken @ ?group) @ front)) \<le> maxBytes budget) \<or>
          taken @ ?group = [] \<and> (\<forall>f \<in> set front. item_hlc f = item_hlc (hd front))"
      by (elim exE conjE) (rule that)
    have xs: "x # xs = (?group @ front) @ rear"
      by (simp only: append_assoc append_Cons flip: fb(1)) (simp only: takeWhile_dropWhile_id)
    have step: "cut_groups budget (x # xs) taken bytes = (taken @ (?group @ front), rear \<noteq> [])"
      using fb(2) False by (simp add: Let_def)
    have below: "\<forall>f \<in> set (?group @ front). \<forall>b \<in> set rear. item_hlc f < item_hlc b"
      using fb(1,3) above by auto
    have budget: "(length (taken @ (?group @ front)) \<le> maxItems budget \<and>
        sum_list (map item_bytes (taken @ (?group @ front))) \<le> maxBytes budget) \<or>
        taken = [] \<and> (\<forall>f \<in> set (?group @ front). item_hlc f = item_hlc (hd (?group @ front)))"
    proof (cases "front = []")
      case True
      show ?thesis
      proof (cases "taken = []")
        case True
        moreover have "\<forall>f \<in> set (?group @ front). item_hlc f = item_hlc (hd (?group @ front))"
          unfolding \<open>front = []\<close> append_Nil2 list.sel by (rule grp)
        ultimately show ?thesis by blast
      next
        case taken: False
        then show ?thesis using False \<open>front = []\<close> "2.prems"(3) by simp
      qed
    next
      case nonempty: False
      then show ?thesis using fb(4) by (simp only: append_assoc) simp
    qed
    from xs step below budget show ?thesis
      by (intro exI [of _ "?group @ front"] exI [of _ rear] conjI) (assumption | simp)+
  qed
qed

text \<open>
  The shipment of a round: a timestamp-ordered prefix of the eligible items, cut between two
  timestamps, within the budgets unless a single timestamp exceeds them.
\<close>

lemma cutRound_result:
  fixes items :: "'a round_item list" and ceilings :: hlc_ceilings
  defines "eligible \<equiv> filter (\<lambda>item. withinCeiling item ceilings) items"
  shows "\<exists>left. mset (cut_taken (cutRound items ceilings budget)) + mset left = mset eligible \<and>
    sorted (map item_hlc (cut_taken (cutRound items ceilings budget))) \<and>
    (\<forall>f \<in> set (cut_taken (cutRound items ceilings budget)). \<forall>b \<in> set left. item_hlc f < item_hlc b) \<and>
    (eligible \<noteq> [] \<longrightarrow> cut_taken (cutRound items ceilings budget) \<noteq> []) \<and>
    ((length (cut_taken (cutRound items ceilings budget)) \<le> maxItems budget \<and>
      sum_list (map item_bytes (cut_taken (cutRound items ceilings budget))) \<le> maxBytes budget) \<or>
     (\<forall>f \<in> set (cut_taken (cutRound items ceilings budget)).
        item_hlc f = item_hlc (hd (cut_taken (cutRound items ceilings budget))))) \<and>
    (cut_hasMore (cutRound items ceilings budget) \<longleftrightarrow>
       ceilings \<noteq> [] \<or> mset eligible \<noteq> mset items \<or> left \<noteq> [])"
proof -
  let ?e = "js_sort (\<lambda>a b. compareHLC (item_hlc a) (item_hlc b)) eligible"
  have sorted: "sorted (map item_hlc ?e)" by (rule by_hlc.sorted_js_sort)
  have mset: "mset ?e = mset eligible" by (rule by_hlc.mset_js_sort)
  have held: "(\<exists>item \<in> set items. \<not> withinCeiling item ceilings) \<longleftrightarrow> mset eligible \<noteq> mset items"
  proof -
    have "mset eligible = mset items \<longleftrightarrow> length eligible = length items"
    proof
      assume "length eligible = length items"
      then have "eligible = items" unfolding eligible_def by (metis length_filter_less filter_id_conv less_irrefl)
      then show "mset eligible = mset items" by simp
    qed (metis size_mset)
    also have "\<dots> \<longleftrightarrow> (\<forall>item \<in> set items. withinCeiling item ceilings)"
      unfolding eligible_def by (metis length_filter_less less_irrefl filter_True)
    finally show ?thesis by blast
  qed
  obtain front rear where fb: "?e = front @ rear" "cut_groups budget ?e [] 0 = (front, rear \<noteq> [])"
      "\<forall>f \<in> set front. \<forall>b \<in> set rear. item_hlc f < item_hlc b"
      "?e \<noteq> [] \<longrightarrow> front \<noteq> []"
      "front \<noteq> [] \<longrightarrow> (length front \<le> maxItems budget \<and> sum_list (map item_bytes front) \<le> maxBytes budget) \<or>
        (\<forall>f \<in> set front. item_hlc f = item_hlc (hd front))"
  proof -
    from cut_groups_result [OF sorted, of "[]" 0 budget] obtain front rear where "?e = front @ rear"
        "cut_groups budget ?e [] 0 = ([] @ front, rear \<noteq> [])"
        "\<forall>f \<in> set front. \<forall>b \<in> set rear. item_hlc f < item_hlc b"
        "([] :: 'a round_item list) = [] \<and> ?e \<noteq> [] \<longrightarrow> front \<noteq> []"
        "front \<noteq> [] \<longrightarrow> (length ([] @ front) \<le> maxItems budget \<and>
          sum_list (map item_bytes ([] @ front)) \<le> maxBytes budget) \<or>
          ([] :: 'a round_item list) = [] \<and> (\<forall>f \<in> set front. item_hlc f = item_hlc (hd front))"
      by (elim meta_impE exE conjE) simp_all
    then show thesis by (intro that [of front rear]) simp_all
  qed
  have taken: "cut_taken (cutRound items ceilings budget) = front"
    and more: "cut_hasMore (cutRound items ceilings budget) \<longleftrightarrow>
      ceilings \<noteq> [] \<or> mset eligible \<noteq> mset items \<or> rear \<noteq> []"
    using fb(2) held by (simp_all only: cutRound_def Let_def eligible_def prod.case cut_result.simps)
  have "mset front + mset rear = mset eligible" using fb(1) mset by (metis mset_append)
  moreover have "sorted (map item_hlc front)" using sorted fb(1) by (simp add: sorted_append)
  moreover have "eligible \<noteq> [] \<longrightarrow> ?e \<noteq> []" using mset by (metis mset_zero_iff)
  moreover have "eligible \<noteq> [] \<longrightarrow> front \<noteq> []" using calculation fb(4) by blast
  moreover have "(length front \<le> maxItems budget \<and> sum_list (map item_bytes front) \<le> maxBytes budget) \<or>
      (\<forall>f \<in> set front. item_hlc f = item_hlc (hd front))"
    using fb(5) by (cases front) simp_all
  ultimately show ?thesis using fb(3) unfolding taken more
    by (intro exI [of _ rear] conjI) (assumption | rule refl)+
qed

lemma cutRound_split:
  obtains left where
    "mset (cut_taken (cutRound items ceilings budget)) + mset left
       = mset (filter (\<lambda>item. withinCeiling item ceilings) items)"
    "\<forall>f \<in> set (cut_taken (cutRound items ceilings budget)). \<forall>b \<in> set left. item_hlc f < item_hlc b"
    "cut_hasMore (cutRound items ceilings budget) \<longleftrightarrow> ceilings \<noteq> [] \<or>
       mset (filter (\<lambda>item. withinCeiling item ceilings) items) \<noteq> mset items \<or> left \<noteq> []"
proof -
  from cutRound_result [of items ceilings budget] show thesis
    by (elim exE conjE) (rule that)
qed

lemma cutRound_nonempty:
  "filter (\<lambda>item. withinCeiling item ceilings) items \<noteq> [] \<Longrightarrow> cut_taken (cutRound items ceilings budget) \<noteq> []"
  using cutRound_result [of items ceilings budget] by blast

lemma cutRound_taken_subset: "set (cut_taken (cutRound items ceilings budget)) \<subseteq> set items"
proof -
  obtain left where "mset (cut_taken (cutRound items ceilings budget)) + mset left
      = mset (filter (\<lambda>item. withinCeiling item ceilings) items)"
    by (rule cutRound_split [of items ceilings budget])
  from arg_cong [OF this, of set_mset] show ?thesis by auto
qed

section \<open>Properties\<close>

text \<open>
  An author's ceiling is the meet of what the streams report: it allows a timestamp exactly
  when every stream allows it.
\<close>

theorem ceilings_are_the_meet:
  assumes "\<forall>t \<in> set truncations. js_wf t"
  shows "withinCeiling item (computeCeilings truncations) \<longleftrightarrow>
    (\<forall>t \<in> set truncations. withinCeiling item t)"
  using computeCeilings_allows [OF assms] by (simp add: withinCeiling_allows)

theorem ceilings_are_the_meet_witness:
  "\<not> withinCeiling \<lparr>item_value = (), item_hlc = HLC 2 0 ''a'', item_bytes = 0\<rparr>
     (computeCeilings [[(''a'', Some (HLC 3 0 ''a''))], [(''a'', Some (HLC 1 0 ''a''))]])"
  using ceilings_are_the_meet [of "[[(''a'', Some (HLC 3 0 ''a''))], [(''a'', Some (HLC 1 0 ''a''))]]"
      "\<lparr>item_value = (), item_hlc = HLC 2 0 ''a'', item_bytes = 0\<rparr>"]
  by (simp add: js_wf_def withinCeiling_def compareHLC_def)

text \<open>
  C7. What a round ships is a prefix of its eligible items in timestamp order that never splits a
  timestamp, ships something whenever something is eligible, stays within both budgets unless it
  is a single timestamp, and reports more exactly when a ceiling exists or something was left.
\<close>

theorem cutRound_takes_whole_timestamps:
  fixes items :: "'a round_item list" and ceilings :: hlc_ceilings
  shows "\<exists>left. mset (cut_taken (cutRound items ceilings budget)) + mset left
      = mset (filter (\<lambda>item. withinCeiling item ceilings) items) \<and>
    sorted (map item_hlc (cut_taken (cutRound items ceilings budget))) \<and>
    (\<forall>f \<in> set (cut_taken (cutRound items ceilings budget)). \<forall>b \<in> set left.
       compareHLC (item_hlc f) (item_hlc b) < 0) \<and>
    (filter (\<lambda>item. withinCeiling item ceilings) items \<noteq> [] \<longrightarrow>
       cut_taken (cutRound items ceilings budget) \<noteq> []) \<and>
    ((length (cut_taken (cutRound items ceilings budget)) \<le> maxItems budget \<and>
      sum_list (map item_bytes (cut_taken (cutRound items ceilings budget))) \<le> maxBytes budget) \<or>
     (\<forall>f \<in> set (cut_taken (cutRound items ceilings budget)).
        item_hlc f = item_hlc (hd (cut_taken (cutRound items ceilings budget))))) \<and>
    (cut_hasMore (cutRound items ceilings budget) \<longleftrightarrow>
       ceilings \<noteq> [] \<or> mset (filter (\<lambda>item. withinCeiling item ceilings) items) \<noteq> mset items \<or> left \<noteq> [])"
  unfolding compareHLC_less by (rule cutRound_result)

theorem cutRound_takes_whole_timestamps_witness:
  "\<exists>left. mset (cut_taken (cutRound [\<lparr>item_value = (), item_hlc = HLC 2 0 ''a'', item_bytes = 7\<rparr>] []
       \<lparr>maxBytes = 5, maxItems = 1\<rparr>)) + mset left
     = mset (filter (\<lambda>item. withinCeiling item []) [\<lparr>item_value = (), item_hlc = HLC 2 0 ''a'', item_bytes = 7\<rparr>])"
  using cutRound_takes_whole_timestamps
    [of "[\<lparr>item_value = (), item_hlc = HLC 2 0 ''a'', item_bytes = 7\<rparr>]" "[]" "\<lparr>maxBytes = 5, maxItems = 1\<rparr>"]
  by blast

end
