(* ===== verification/Sync_Round.thy ===== *)
theory Sync_Round
  imports Round_Cut
begin

text \<open>
  One round and the round loop, end to end: the assembly of a shipment, which the responder
  (\<open>transports/in-process-transport.ts\<close>, steps 3 and 4 of \<open>exchange\<close>) and the requester
  (\<open>sync-engine.ts\<close>, outbound half of \<open>exchange\<close>) share, the requester's inbound half, and the
  loop of \<open>sync\<close> that repeats rounds until nothing is owed.

  A channel is a list of streams (records, labels, one per app table); a stream that cannot be
  read is \<open>None\<close>. Applying one row to the local store is the argument \<open>ok\<close>: a row whose write
  throws is a row with \<open>\<not> ok r\<close>. The lemmas show that the one watermark per author never
  covers a row that was not delivered (provided the rows of one timestamp apply together), that
  a loop reporting itself complete has delivered everything, and that it reaches that report.
\<close>

section \<open>Assembling a shipment\<close>

definition scan_streams ::
  "('r \<Rightarrow> hlc) \<Rightarrow> 'r list option list \<Rightarrow> watermarks \<Rightarrow> nat \<Rightarrow> 'r since_page option list" where
  "scan_streams hlcOf streams peer limit =
     map (\<lambda>s. case s of None \<Rightarrow> None | Some table \<Rightarrow> querySince hlcOf table peer (int limit)) streams"

definition round_items :: "('r \<Rightarrow> hlc) \<Rightarrow> 'r since_page list \<Rightarrow> 'r round_item list" where
  "round_items hlcOf pages =
     concat (map (\<lambda>pg. map (\<lambda>r. \<lparr>item_value = r, item_hlc = hlcOf r, item_bytes = 0\<rparr>) (page_rows pg)) pages)"

definition assembleRound ::
  "('r \<Rightarrow> hlc) \<Rightarrow> 'r since_page option list \<Rightarrow> nat \<Rightarrow> nat \<Rightarrow> 'r cut_result" where
  "assembleRound hlcOf pages limitBytes limit =
     (if None \<in> set pages then \<lparr>cut_taken = [], cut_hasMore = True\<rparr>
      else cutRound (round_items hlcOf (map the pages))
             (computeCeilings (map (\<lambda>pg. page_truncated (the pg)) pages))
             \<lparr>maxBytes = limitBytes, maxItems = limit\<rparr>)"

section \<open>The inbound half\<close>

definition groupInboundByNodeId :: "('r \<Rightarrow> hlc) \<Rightarrow> 'r list \<Rightarrow> (string, 'r list) js_map" where
  "groupInboundByNodeId hlcOf rows =
     map (\<lambda>(node, run). (node, js_sort (\<lambda>a b. compareHLC (hlcOf a) (hlcOf b)) run))
       (js_group (\<lambda>r. nodeId (hlcOf r)) rows)"

text \<open>The index of the first row of an author's run that would not apply, \<open>items.length\<close> if none.\<close>

definition inbound_stop :: "('r \<Rightarrow> bool) \<Rightarrow> 'r list \<Rightarrow> nat" where
  "inbound_stop ok items = length (takeWhile ok items)"

definition ownSafeAdvance :: "('r \<Rightarrow> hlc) \<Rightarrow> ('r \<Rightarrow> bool) \<Rightarrow> (string, 'r list) js_map \<Rightarrow> hlc list" where
  "ownSafeAdvance hlcOf ok groups =
     concat (map (\<lambda>(node, items).
        if 0 < inbound_stop ok items then [hlcOf (items ! (inbound_stop ok items - 1))] else []) groups)"

definition sameWatermarks :: "watermarks \<Rightarrow> watermarks \<Rightarrow> bool" where
  "sameWatermarks a b =
     (\<forall>key \<in> set (js_keys a @ js_keys b).
        case (js_get a key, js_get b key) of
          (Some left, Some right) \<Rightarrow> compareHLC left right = 0
        | _ \<Rightarrow> False)"

record 'r pull_state =
  pull_held :: "'r list"
  pull_own :: watermarks

record 'r exchange_result =
  result_state :: "'r pull_state"
  result_hasMore :: bool
  result_blocked :: bool
  result_progressed :: bool

definition pull_exchange ::
  "('r \<Rightarrow> hlc) \<Rightarrow> ('r \<Rightarrow> bool) \<Rightarrow> 'r list option list \<Rightarrow> nat \<Rightarrow> nat \<Rightarrow> 'r pull_state \<Rightarrow> 'r exchange_result" where
  "pull_exchange hlcOf ok streams limitBytes limit st =
     (let cut = assembleRound hlcOf (scan_streams hlcOf streams (pull_own st) limit) limitBytes limit;
          groups = groupInboundByNodeId hlcOf (map item_value (cut_taken cut));
          applied = filter (\<lambda>r. ok r \<and> r \<notin> set (pull_held st)) (concat (js_values groups));
          own = fold (\<lambda>h w. advanceWatermark w h) (ownSafeAdvance hlcOf ok groups) (pull_own st)
      in \<lparr>result_state = \<lparr>pull_held = pull_held st @ applied, pull_own = own\<rparr>,
          result_hasMore = cut_hasMore cut,
          result_blocked = (\<exists>(node, items) \<in> set groups. inbound_stop ok items < length items),
          result_progressed = (applied \<noteq> [] \<or> \<not> sameWatermarks (pull_own st) own)\<rparr>)"

section \<open>The loop of \<open>sync\<close>\<close>

datatype sync_outcome = SyncComplete | SyncStalled | SyncRoundCap

fun sync_rounds ::
  "nat \<Rightarrow> ('r pull_state \<Rightarrow> 'r exchange_result) \<Rightarrow> 'r pull_state \<Rightarrow> 'r pull_state \<times> sync_outcome" where
  "sync_rounds 0 exchange st = (st, SyncRoundCap)"
| "sync_rounds (Suc n) exchange st =
     (let result = exchange st in
      if \<not> result_hasMore result \<and> \<not> result_blocked result then (result_state result, SyncComplete)
      else if \<not> result_progressed result then (result_state result, SyncStalled)
      else sync_rounds n exchange (result_state result))"

section \<open>What the streams vouch for\<close>

definition vouches :: "('r \<Rightarrow> hlc) \<Rightarrow> watermarks \<Rightarrow> nat \<Rightarrow> 'r list \<Rightarrow> 'r since_page \<Rightarrow> bool" where
  "vouches hlcOf peer limit table pg \<longleftrightarrow>
     page_complete hlcOf table peer pg \<and> js_wf (page_truncated pg) \<and>
     (0 < limit \<longrightarrow> (\<forall>node. js_get (page_truncated pg) node \<noteq> Some None))"

lemma scan_streams_vouch:
  assumes "\<forall>table \<in> set tables. scan_ok hlcOf table peer"
  shows "\<exists>pages. scan_streams hlcOf (map Some tables) peer limit = map Some pages \<and>
    list_all2 (vouches hlcOf peer limit) tables pages"
  using assms
proof (induction tables)
  case Nil
  then show ?case by (simp add: scan_streams_def)
next
  case (Cons t ts)
  obtain pages where IH: "scan_streams hlcOf (map Some ts) peer limit = map Some pages"
      "list_all2 (vouches hlcOf peer limit) ts pages"
    using Cons by auto
  obtain pg where pg: "querySince hlcOf t peer (int limit) = Some pg" "page_complete hlcOf t peer pg"
      "0 < int limit \<longrightarrow> (\<forall>node. js_get (page_truncated pg) node \<noteq> Some None)"
    using querySince_complete [of hlcOf t peer "int limit"] Cons.prems by auto
  have "vouches hlcOf peer limit t pg"
    using pg querySince_wf [OF pg(1)] by (simp add: vouches_def)
  then show ?case using IH pg(1) by (intro exI [of _ "pg # pages"]) (simp add: scan_streams_def)
qed

lemma author_complete_owing:
  assumes "author_complete hlcOf owing rows c" "r \<in> set rows"
  shows "r \<in> set owing"
proof -
  have "r \<in># mset owing" if "mset rows = filter_mset P (mset owing)" for P
  proof -
    have "r \<in># filter_mset P (mset owing)" using assms(2) by (simp flip: that)
    then show ?thesis by simp
  qed
  from this [of "\<lambda>_. True"] this show ?thesis using assms
    by (fastforce simp: author_complete_def split: option.splits dest: mset_eq_setD)
qed

lemma author_complete_allowed:
  assumes "author_complete hlcOf owing rows c" "r \<in> set owing" "ceiling_allows c (hlcOf r)"
  shows "r \<in> set rows"
proof -
  have "r \<in> set rows" if "mset rows = filter_mset P (mset owing)" "P r" for P
  proof -
    have "r \<in># mset rows" using assms(2) that by simp
    then show ?thesis by simp
  qed
  from this [of "\<lambda>_. True"] this show ?thesis using assms(1,3)
    by (auto simp: author_complete_def ceiling_allows_def split: option.splits)
qed

lemma vouches_author:
  assumes "vouches hlcOf peer limit table pg"
  shows "author_complete hlcOf (by_author hlcOf n (owed hlcOf table peer)) (by_author hlcOf n (page_rows pg))
    (js_get (page_truncated pg) n)"
  using assms by (simp add: vouches_def page_complete_def)

lemma vouches_rows_owed:
  assumes "vouches hlcOf peer limit table pg" "r \<in> set (page_rows pg)"
  shows "r \<in> set table \<and> unseen peer (hlcOf r)"
  using author_complete_owing [OF vouches_author [OF assms(1)], of r "nodeId (hlcOf r)"] assms(2)
  by (simp add: owed_def)

text \<open>A row the stream's ceiling allows and the peer has not seen is on the page.\<close>

lemma vouches_has_row:
  assumes "vouches hlcOf peer limit table pg" "r \<in> set table" "unseen peer (hlcOf r)"
    and "ceiling_allows (js_get (page_truncated pg) (nodeId (hlcOf r))) (hlcOf r)"
  shows "r \<in> set (page_rows pg)"
  using author_complete_allowed [OF vouches_author [OF assms(1)], of r "nodeId (hlcOf r)"] assms(2-)
  by (simp add: owed_def)

lemma vouches_ceiling_row:
  assumes "vouches hlcOf peer limit table pg" "js_get (page_truncated pg) n = Some (Some h)"
  shows "\<exists>r \<in> set (page_rows pg). hlcOf r = h \<and> nodeId h = n"
  using vouches_author [OF assms(1), of n] assms(2) by (auto simp: author_complete_def)

section \<open>The shipment is a contiguous prefix\<close>

lemma round_items_in:
  "i \<in> set (round_items hlcOf pages) \<Longrightarrow> item_hlc i = hlcOf (item_value i) \<and>
     (\<exists>pg \<in> set pages. item_value i \<in> set (page_rows pg))"
  by (auto simp: round_items_def)

lemma round_items_row:
  "pg \<in> set pages \<Longrightarrow> r \<in> set (page_rows pg) \<Longrightarrow>
     \<lparr>item_value = r, item_hlc = hlcOf r, item_bytes = 0\<rparr> \<in> set (round_items hlcOf pages)"
  by (auto simp: round_items_def)

text \<open>Everything the peer lacks of an author below a shipped row is shipped with it.\<close>

lemma shipment_prefix:
  assumes pages: "list_all2 (vouches hlcOf peer limit) tables pages"
    and ct: "ct = cutRound (round_items hlcOf pages) (computeCeilings (map page_truncated pages)) budget"
    and i: "i \<in> set (cut_taken ct)"
    and r: "table \<in> set tables" "r \<in> set table" "unseen peer (hlcOf r)"
    and below: "nodeId (hlcOf r) = nodeId (item_hlc i)" "hlcOf r \<le> item_hlc i"
  shows "r \<in> item_value ` set (cut_taken ct)"
proof -
  let ?cs = "computeCeilings (map page_truncated pages)"
  let ?items = "round_items hlcOf pages"
  let ?it = "\<lparr>item_value = r, item_hlc = hlcOf r, item_bytes = 0\<rparr>"
  obtain left where left: "mset (cut_taken ct) + mset left = mset (filter (\<lambda>item. withinCeiling item ?cs) ?items)"
      "\<forall>f \<in> set (cut_taken ct). \<forall>b \<in> set left. item_hlc f < item_hlc b"
    unfolding ct by (rule cutRound_split)
  have wf: "\<forall>t \<in> set (map page_truncated pages). js_wf t"
    using list_all2_right [OF pages] by (auto simp: vouches_def)
  have split: "x \<in> set (cut_taken ct) \<or> x \<in> set left \<longleftrightarrow> withinCeiling x ?cs \<and> x \<in> set ?items" for x
    using arg_cong [OF left(1), of set_mset] by auto
  have "withinCeiling i ?cs" using i split by blast
  then have all_i: "\<forall>t \<in> set (map page_truncated pages). ceiling_allows (js_get t (nodeId (item_hlc i))) (item_hlc i)"
    by (simp add: withinCeiling_allows computeCeilings_allows [OF wf])
  then have all_r: "\<forall>t \<in> set (map page_truncated pages). ceiling_allows (js_get t (nodeId (hlcOf r))) (hlcOf r)"
    using below by (fastforce simp: ceiling_allows_def split: option.splits)
  obtain pg where pg: "pg \<in> set pages" "vouches hlcOf peer limit table pg"
    using list_all2_left [OF pages r(1)] by auto
  have "r \<in> set (page_rows pg)" using vouches_has_row [OF pg(2) r(2,3)] all_r pg(1) by auto
  then have item: "?it \<in> set ?items" by (rule round_items_row [OF pg(1)])
  have "withinCeiling ?it ?cs" using all_r by (simp add: withinCeiling_allows computeCeilings_allows [OF wf])
  then have "?it \<in> set (cut_taken ct) \<or> ?it \<in> set left" using item split by blast
  moreover have "?it \<notin> set left" using left(2) i below(2) by fastforce
  ultimately show ?thesis by force
qed

text \<open>As long as something is owed, a round with a positive limit ships something.\<close>

lemma shipment_progress:
  assumes pages: "list_all2 (vouches hlcOf peer limit) tables pages" and limit: "0 < limit"
    and r: "table \<in> set tables" "r \<in> set table" "unseen peer (hlcOf r)"
  shows "cut_taken (cutRound (round_items hlcOf pages) (computeCeilings (map page_truncated pages)) budget) \<noteq> []"
proof -
  let ?cs = "computeCeilings (map page_truncated pages)" and ?n = "nodeId (hlcOf r)"
  let ?items = "round_items hlcOf pages"
  have wf: "\<forall>t \<in> set (map page_truncated pages). js_wf t"
    using list_all2_right [OF pages] by (auto simp: vouches_def)
  have "\<exists>i \<in> set ?items. withinCeiling i ?cs"
  proof (cases "js_get ?cs ?n")
    case None
    then have within: "ceiling_allows (js_get ?cs ?n) (hlcOf r)" by (simp add: ceiling_allows_def)
    obtain pg where pg: "pg \<in> set pages" "vouches hlcOf peer limit table pg"
      using list_all2_left [OF pages r(1)] by auto
    have "ceiling_allows (js_get (page_truncated pg) ?n) (hlcOf r)"
      using within pg(1) by (simp add: computeCeilings_allows [OF wf])
    then have "r \<in> set (page_rows pg)" by (rule vouches_has_row [OF pg(2) r(2,3)])
    then show ?thesis
      using round_items_row [OF pg(1)] within by (intro bexI) (auto simp: withinCeiling_allows)
  next
    case (Some c)
    obtain pg where pg: "pg \<in> set pages" "(?n, c) \<in> set (page_truncated pg)"
      using computeCeilings_from [OF Some] by auto
    obtain t where t: "vouches hlcOf peer limit t pg" using list_all2_right [OF pages pg(1)] by auto
    then have get: "js_get (page_truncated pg) ?n = Some c"
      using pg(2) by (simp add: vouches_def flip: js_get_in_set)
    then obtain h where h: "c = Some h" using t limit by (cases c) (auto simp: vouches_def)
    obtain q where q: "q \<in> set (page_rows pg)" "hlcOf q = h" "nodeId h = ?n"
      using vouches_ceiling_row [OF t] get h by blast
    have "ceiling_allows (js_get ?cs (nodeId (hlcOf q))) (hlcOf q)"
      using Some h q by (simp add: ceiling_allows_def)
    then show ?thesis
      using round_items_row [OF pg(1) q(1)] by (intro bexI) (auto simp: withinCeiling_allows)
  qed
  then have "filter (\<lambda>item. withinCeiling item ?cs) ?items \<noteq> []" by (auto simp: filter_empty_conv)
  then show ?thesis by (rule cutRound_nonempty)
qed

section \<open>The inbound half\<close>

text \<open>The watermark is honest: a row it covers was delivered.\<close>

definition coverage_honest :: "('r \<Rightarrow> hlc) \<Rightarrow> 'r list list \<Rightarrow> 'r pull_state \<Rightarrow> bool" where
  "coverage_honest hlcOf tables st \<longleftrightarrow>
     (\<forall>table \<in> set tables. \<forall>r \<in> set table. covers (pull_own st) (hlcOf r) \<longrightarrow> r \<in> set (pull_held st))"

text \<open>The rows that share a timestamp apply together or fail together.\<close>

definition applies_whole :: "('r \<Rightarrow> hlc) \<Rightarrow> ('r \<Rightarrow> bool) \<Rightarrow> 'r list list \<Rightarrow> bool" where
  "applies_whole hlcOf ok tables \<longleftrightarrow>
     (\<forall>t \<in> set tables. \<forall>u \<in> set tables. \<forall>r \<in> set t. \<forall>s \<in> set u. hlcOf r = hlcOf s \<longrightarrow> ok r = ok s)"

lemma in_groupInbound:
  "(node, items) \<in> set (groupInboundByNodeId hlcOf rows) \<longleftrightarrow>
     node \<in> (\<lambda>r. nodeId (hlcOf r)) ` set rows \<and>
     items = js_sort (\<lambda>a b. compareHLC (hlcOf a) (hlcOf b)) (by_author hlcOf node rows)"
  unfolding groupInboundByNodeId_def by (auto simp: in_js_group)

lemma group_set:
  "(node, items) \<in> set (groupInboundByNodeId hlcOf rows) \<Longrightarrow>
     set items = {r \<in> set rows. nodeId (hlcOf r) = node} \<and> sorted (map hlcOf items)"
  by (auto simp: in_groupInbound by_hlc.set_js_sort by_hlc.sorted_js_sort)

lemma group_of_row:
  assumes "r \<in> set rows"
  shows "\<exists>items. (nodeId (hlcOf r), items) \<in> set (groupInboundByNodeId hlcOf rows) \<and> r \<in> set items"
  using assms by (auto simp: in_groupInbound by_hlc.set_js_sort)

lemma grouped_rows: "set (concat (js_values (groupInboundByNodeId hlcOf rows))) = set rows"
proof -
  have "x \<in> set (concat (js_values (groupInboundByNodeId hlcOf rows))) \<longleftrightarrow>
      (\<exists>node items. (node, items) \<in> set (groupInboundByNodeId hlcOf rows) \<and> x \<in> set items)" for x
    by force
  then show ?thesis using group_set [of _ _ hlcOf rows] group_of_row [of _ rows hlcOf] by blast
qed

lemma ownSafeAdvance_in:
  "h \<in> set (ownSafeAdvance hlcOf ok groups) \<longleftrightarrow>
     (\<exists>(node, items) \<in> set groups. 0 < inbound_stop ok items \<and>
        h = hlcOf (items ! (inbound_stop ok items - 1)))"
  by (auto simp: ownSafeAdvance_def split: if_splits)

lemma inbound_stop_le: "inbound_stop ok items \<le> length items"
  by (simp add: inbound_stop_def length_takeWhile_le)

lemma inbound_stop_ok: "k < inbound_stop ok items \<Longrightarrow> ok (items ! k)"
  by (metis inbound_stop_def nth_mem set_takeWhileD takeWhile_nth)

lemma inbound_stop_all: "inbound_stop ok items = length items \<longleftrightarrow> (\<forall>r \<in> set items. ok r)"
  by (metis inbound_stop_def takeWhile_eq_all_conv length_takeWhile_le takeWhile_eq_take take_all order_refl)

text \<open>A row at or below the advanced timestamp applied, when whole timestamps apply together.\<close>

lemma inbound_run_ok:
  assumes "sorted (map hlcOf items)" "0 < inbound_stop ok items" "r \<in> set items"
    and "hlcOf r \<le> hlcOf (items ! (inbound_stop ok items - 1))"
    and "\<forall>s \<in> set items. hlcOf r = hlcOf s \<longrightarrow> ok r = ok s"
  shows "ok r"
proof -
  let ?e = "inbound_stop ok items - 1"
  obtain k where k: "k < length items" "r = items ! k" using assms(3) by (auto simp: in_set_conv_nth)
  have e: "?e < length items" using inbound_stop_le [of ok items] assms(2) by linarith
  show ?thesis
  proof (cases "k < inbound_stop ok items")
    case True
    then show ?thesis using inbound_stop_ok k(2) by metis
  next
    case False
    then have "hlcOf (items ! ?e) \<le> hlcOf r"
      using assms(1,2) k by (auto simp: sorted_iff_nth_mono)
    then have "hlcOf r = hlcOf (items ! ?e)" using assms(4) by simp
    moreover have "ok (items ! ?e)" using assms(2) inbound_stop_ok [of ?e ok items] by simp
    ultimately show ?thesis using assms(5) e by auto
  qed
qed

section \<open>One exchange\<close>

lemma pull_exchange_own:
  "covers (pull_own (result_state (pull_exchange hlcOf ok streams b limit st))) x \<longleftrightarrow>
     covers (pull_own st) x \<or>
     (\<exists>h \<in> set (ownSafeAdvance hlcOf ok (groupInboundByNodeId hlcOf (map item_value (cut_taken
        (assembleRound hlcOf (scan_streams hlcOf streams (pull_own st) limit) b limit))))).
        nodeId x = nodeId h \<and> x \<le> h)"
  by (simp add: pull_exchange_def Let_def covers_advanceAll flip: advanceAll_def)

lemma pull_exchange_held:
  "r \<in> set (pull_held (result_state (pull_exchange hlcOf ok streams b limit st))) \<longleftrightarrow>
     r \<in> set (pull_held st) \<or>
     ok r \<and> r \<in> item_value ` set (cut_taken
        (assembleRound hlcOf (scan_streams hlcOf streams (pull_own st) limit) b limit))"
proof -
  let ?rows = "map item_value (cut_taken
      (assembleRound hlcOf (scan_streams hlcOf streams (pull_own st) limit) b limit))"
  have "r \<in> set (pull_held (result_state (pull_exchange hlcOf ok streams b limit st))) \<longleftrightarrow>
      r \<in> set (pull_held st) \<or> ok r \<and> r \<in> set (concat (js_values (groupInboundByNodeId hlcOf ?rows)))"
    by (auto simp: pull_exchange_def Let_def)
  then show ?thesis by (simp add: grouped_rows del: set_concat)
qed

lemma scan_streams_unreadable:
  "None \<in> set streams \<Longrightarrow> None \<in> set (scan_streams hlcOf streams peer limit)"
  by (force simp: scan_streams_def image_iff)

lemma assembleRound_pages:
  "assembleRound hlcOf (map Some pages) b limit =
     cutRound (round_items hlcOf pages) (computeCeilings (map page_truncated pages))
       \<lparr>maxBytes = b, maxItems = limit\<rparr>"
  by (simp add: assembleRound_def comp_def)

lemma streams_readable: "None \<notin> set streams \<Longrightarrow> \<exists>tables. streams = map Some tables"
proof (induction streams)
  case (Cons s streams)
  then obtain tables where "streams = map Some tables" by auto
  with Cons.prems show ?case by (cases s) (auto intro: exI [of _ "_ # tables"])
qed simp

text \<open>The watermark never runs ahead of what was delivered.\<close>

lemma pull_exchange_honest:
  assumes honest: "coverage_honest hlcOf tables st"
    and whole: "applies_whole hlcOf ok tables"
    and ok: "\<forall>table \<in> set tables. scan_ok hlcOf table (pull_own st)"
    and streams: "streams = map Some tables \<or> None \<in> set streams"
  shows "coverage_honest hlcOf tables (result_state (pull_exchange hlcOf ok streams b limit st))"
proof -
  let ?pages = "scan_streams hlcOf streams (pull_own st) limit"
  let ?cut = "assembleRound hlcOf ?pages b limit"
  let ?rows = "map item_value (cut_taken ?cut)"
  let ?st = "result_state (pull_exchange hlcOf ok streams b limit st)"
  have "r \<in> set (pull_held ?st)"
    if r: "table \<in> set tables" "r \<in> set table" and cov: "covers (pull_own ?st) (hlcOf r)" for table r
  proof (cases "covers (pull_own st) (hlcOf r)")
    case True
    then show ?thesis using honest r by (auto simp: coverage_honest_def pull_exchange_held)
  next
    case False
    then obtain h where "h \<in> set (ownSafeAdvance hlcOf ok (groupInboundByNodeId hlcOf ?rows))"
        and h: "nodeId (hlcOf r) = nodeId h" "hlcOf r \<le> h"
      using cov unfolding pull_exchange_own by blast
    then obtain node items where g: "(node, items) \<in> set (groupInboundByNodeId hlcOf ?rows)"
        "0 < inbound_stop ok items" "h = hlcOf (items ! (inbound_stop ok items - 1))"
      by (auto simp: ownSafeAdvance_in)
    note items = group_set [OF g(1)]
    let ?q = "items ! (inbound_stop ok items - 1)"
    have "?q \<in> set items" using g(2) inbound_stop_le [of ok items] by (intro nth_mem) linarith
    then have "?q \<in> set ?rows" "nodeId (hlcOf ?q) = node" using items by auto
    then obtain i where i: "i \<in> set (cut_taken ?cut)" "item_value i = ?q" by auto
    have readable: "None \<notin> set streams"
    proof
      assume "None \<in> set streams"
      then have "cut_taken ?cut = []" by (simp add: assembleRound_def scan_streams_unreadable)
      then show False using i by simp
    qed
    then have st: "streams = map Some tables" using streams by simp
    obtain pages where pages: "?pages = map Some pages" "list_all2 (vouches hlcOf (pull_own st) limit) tables pages"
      using scan_streams_vouch [OF ok] st by blast
    let ?c = "cutRound (round_items hlcOf pages) (computeCeilings (map page_truncated pages))
        \<lparr>maxBytes = b, maxItems = limit\<rparr>"
    have c: "?cut = ?c" unfolding pages(1) by (rule assembleRound_pages)
    have it: "i \<in> set (cut_taken ?c)" using i(1) c by simp
    have hi: "item_hlc i = h"
      using round_items_in [of i hlcOf pages] cutRound_taken_subset [of "round_items hlcOf pages"] it i(2) g(3) by auto
    have un: "unseen (pull_own st) (hlcOf r)" using False by (simp add: unseen_covers)
    have "r \<in> item_value ` set (cut_taken ?c)"
      by (rule shipment_prefix [OF pages(2) refl it r un]) (simp_all add: hi h)
    then have row: "r \<in> set ?rows" using c by simp
    have "nodeId h = node" using \<open>nodeId (hlcOf ?q) = node\<close> g(3) by simp
    then have r_items: "r \<in> set items" using items row h(1) by simp
    have sub: "\<exists>u \<in> set tables. s \<in> set u" if "s \<in> set items" for s
    proof -
      have "s \<in> set ?rows" using items that by simp
      then obtain j where j: "j \<in> set (cut_taken ?c)" "item_value j = s" using c by auto
      then have "j \<in> set (round_items hlcOf pages)" using cutRound_taken_subset by blast
      then obtain pg where pg: "pg \<in> set pages" "s \<in> set (page_rows pg)" using round_items_in j(2) by blast
      obtain t where t: "t \<in> set tables" "vouches hlcOf (pull_own st) limit t pg"
        using list_all2_right [OF pages(2) pg(1)] by blast
      then show ?thesis using vouches_rows_owed [OF t(2) pg(2)] by blast
    qed
    have "ok r"
    proof (rule inbound_run_ok [OF _ g(2) r_items])
      show "sorted (map hlcOf items)" using items by simp
      show "hlcOf r \<le> hlcOf ?q" using h(2) g(3) by simp
      show "\<forall>s \<in> set items. hlcOf r = hlcOf s \<longrightarrow> ok r = ok s"
        using whole r sub unfolding applies_whole_def by blast
    qed
    then show ?thesis using row by (simp add: pull_exchange_held)
  qed
  then show ?thesis by (auto simp: coverage_honest_def)
qed

text \<open>A round that left nothing behind covers everything the streams hold.\<close>

lemma stop_at_last:
  assumes "\<forall>r \<in> set items. ok r" "r \<in> set items" "sorted (map hlcOf items)"
  shows "0 < inbound_stop ok items \<and> hlcOf r \<le> hlcOf (items ! (inbound_stop ok items - 1))"
proof -
  have n: "inbound_stop ok items = length items" using assms(1) by (simp add: inbound_stop_all)
  obtain k where "k < length items" "r = items ! k" using assms(2) by (auto simp: in_set_conv_nth)
  then show ?thesis using assms(3) by (auto simp: n sorted_iff_nth_mono)
qed

lemma shipped_row_covered:
  assumes r: "r \<in> item_value ` set (cut_taken
      (assembleRound hlcOf (scan_streams hlcOf streams (pull_own st) limit) b limit))"
    and ok: "\<forall>(node, items) \<in> set (groupInboundByNodeId hlcOf (map item_value (cut_taken
      (assembleRound hlcOf (scan_streams hlcOf streams (pull_own st) limit) b limit)))).
        inbound_stop ok items = length items"
  shows "covers (pull_own (result_state (pull_exchange hlcOf ok streams b limit st))) (hlcOf r)"
proof -
  let ?rows = "map item_value (cut_taken
      (assembleRound hlcOf (scan_streams hlcOf streams (pull_own st) limit) b limit))"
  have "r \<in> set ?rows" using r by simp
  from group_of_row [OF this, of hlcOf]
  obtain items where g: "(nodeId (hlcOf r), items) \<in> set (groupInboundByNodeId hlcOf ?rows)" "r \<in> set items"
    by (elim exE conjE) (rule that)
  let ?h = "hlcOf (items ! (inbound_stop ok items - 1))"
  have all: "\<forall>r \<in> set items. ok r" using bspec [OF ok g(1)] by (simp add: inbound_stop_all)
  note last = stop_at_last [OF all g(2), of hlcOf]
  have srt: "sorted (map hlcOf items)" using group_set [OF g(1)] by simp
  have "?h \<in> set (ownSafeAdvance hlcOf ok (groupInboundByNodeId hlcOf ?rows))"
    unfolding ownSafeAdvance_in by (rule bexI [OF _ g(1)]) (use last srt in simp)
  moreover have "nodeId (hlcOf r) = nodeId ?h"
  proof -
    have "inbound_stop ok items - 1 < length items" using last srt inbound_stop_le [of ok items] by linarith
    then have "items ! (inbound_stop ok items - 1) \<in> set items" by (rule nth_mem)
    then show ?thesis using group_set [OF g(1)] by simp
  qed
  ultimately show ?thesis using last srt unfolding pull_exchange_own by blast
qed

lemma pull_exchange_drained:
  assumes ok: "\<forall>table \<in> set tables. scan_ok hlcOf table (pull_own st)"
    and streams: "streams = map Some tables \<or> None \<in> set streams"
    and res: "res = pull_exchange hlcOf ok streams b limit st" "\<not> result_hasMore res" "\<not> result_blocked res"
    and r: "table \<in> set tables" "r \<in> set table"
  shows "covers (pull_own (result_state res)) (hlcOf r)"
proof (cases "covers (pull_own st) (hlcOf r)")
  case True
  then show ?thesis unfolding res(1) pull_exchange_own by simp
next
  case False
  let ?cut = "assembleRound hlcOf (scan_streams hlcOf streams (pull_own st) limit) b limit"
  have more: "\<not> cut_hasMore ?cut" using res(1,2) by (simp add: pull_exchange_def Let_def)
  have "None \<notin> set streams"
    using more scan_streams_unreadable [of streams hlcOf "pull_own st" limit] by (auto simp: assembleRound_def)
  then obtain pages where pages: "scan_streams hlcOf streams (pull_own st) limit = map Some pages"
      "list_all2 (vouches hlcOf (pull_own st) limit) tables pages"
    using scan_streams_vouch [OF ok] streams by blast
  let ?items = "round_items hlcOf pages" and ?cs = "computeCeilings (map page_truncated pages)"
  let ?c = "cutRound ?items ?cs \<lparr>maxBytes = b, maxItems = limit\<rparr>"
  have c: "?cut = ?c" unfolding pages(1) by (rule assembleRound_pages)
  obtain left where left: "mset (cut_taken ?c) + mset left = mset (filter (\<lambda>item. withinCeiling item ?cs) ?items)"
      "cut_hasMore ?c \<longleftrightarrow> ?cs \<noteq> [] \<or>
        mset (filter (\<lambda>item. withinCeiling item ?cs) ?items) \<noteq> mset ?items \<or> left \<noteq> []"
    by (rule cutRound_split [of ?items ?cs "\<lparr>maxBytes = b, maxItems = limit\<rparr>"])
  have "?cs = []" "mset (cut_taken ?c) = mset ?items" using more left unfolding c by auto
  then have all: "set (cut_taken ?c) = set ?items" and none: "\<forall>pg \<in> set pages. page_truncated pg = []"
    by (auto simp: computeCeilings_empty dest: mset_eq_setD)
  obtain pg where pg: "pg \<in> set pages" "vouches hlcOf (pull_own st) limit table pg"
    using list_all2_left [OF pages(2) r(1)] by blast
  have "r \<in> set (page_rows pg)"
    using False none pg(1) by (intro vouches_has_row [OF pg(2) r(2)]) (simp_all add: unseen_covers ceiling_allows_def)
  then have "\<lparr>item_value = r, item_hlc = hlcOf r, item_bytes = 0\<rparr> \<in> set (cut_taken ?c)"
    using round_items_row [OF pg(1)] all by blast
  then have "r \<in> item_value ` set (cut_taken ?cut)" unfolding c by force
  moreover have "\<forall>(node, items) \<in> set (groupInboundByNodeId hlcOf (map item_value (cut_taken ?cut))).
      inbound_stop ok items = length items"
  proof (intro ballI, clarify)
    fix node items
    assume g: "(node, items) \<in> set (groupInboundByNodeId hlcOf (map item_value (cut_taken ?cut)))"
    have "\<not> (\<exists>(node, items) \<in> set (groupInboundByNodeId hlcOf (map item_value (cut_taken ?cut))).
        inbound_stop ok items < length items)"
      using res(1,3) by (simp add: pull_exchange_def Let_def)
    then have "\<not> inbound_stop ok items < length items" using g by blast
    then show "inbound_stop ok items = length items" using inbound_stop_le [of ok items] by linarith
  qed
  ultimately show ?thesis unfolding res(1) by (rule shipped_row_covered)
qed

section \<open>The loop\<close>

lemma scan_ok_advanceAll:
  "scan_ok hlcOf t w \<Longrightarrow> \<forall>h \<in> set hs. hlc_fits h \<Longrightarrow> scan_ok hlcOf t (fold (\<lambda>h w. advanceWatermark w h) hs w)"
proof (induction hs arbitrary: w)
  case (Cons h hs)
  have "set (AList.update k v m) \<subseteq> insert (k, v) (set m)" for k :: string and v :: hlc and m
    by (induction m) auto
  then have "scan_ok hlcOf t (advanceWatermark w h)"
    using Cons.prems by (fastforce simp: scan_ok_def advanceWatermark_def split: option.split)
  then show ?case using Cons by simp
qed simp

text \<open>The rows of a round come from the streams and were owed.\<close>

lemma shipped_rows_owed:
  assumes ok: "\<forall>table \<in> set tables. scan_ok hlcOf table peer"
    and streams: "streams = map Some tables \<or> None \<in> set streams"
    and r: "r \<in> item_value ` set (cut_taken (assembleRound hlcOf (scan_streams hlcOf streams peer limit) b limit))"
  shows "\<exists>table \<in> set tables. r \<in> set table \<and> unseen peer (hlcOf r)"
proof -
  have "None \<notin> set streams"
    using r scan_streams_unreadable [of streams hlcOf peer limit] by (auto simp: assembleRound_def)
  then obtain pages where pages: "scan_streams hlcOf streams peer limit = map Some pages"
      "list_all2 (vouches hlcOf peer limit) tables pages"
    using scan_streams_vouch [OF ok] streams by blast
  obtain j where j: "j \<in> set (round_items hlcOf pages)" "r = item_value j"
    using r cutRound_taken_subset [of "round_items hlcOf pages"] unfolding pages(1) assembleRound_pages by blast
  then obtain pg where pg: "pg \<in> set pages" "r \<in> set (page_rows pg)" using round_items_in by blast
  obtain t where t: "t \<in> set tables" "vouches hlcOf peer limit t pg"
    using list_all2_right [OF pages(2) pg(1)] by blast
  then show ?thesis using vouches_rows_owed [OF t(2) pg(2)] by blast
qed

lemma pull_exchange_scan_ok:
  assumes ok: "\<forall>table \<in> set tables. scan_ok hlcOf table (pull_own st)"
    and streams: "streams = map Some tables \<or> None \<in> set streams"
  shows "\<forall>table \<in> set tables. scan_ok hlcOf table (pull_own (result_state (pull_exchange hlcOf ok streams b limit st)))"
proof -
  let ?rows = "map item_value (cut_taken
      (assembleRound hlcOf (scan_streams hlcOf streams (pull_own st) limit) b limit))"
  have "hlc_fits h" if h: "h \<in> set (ownSafeAdvance hlcOf ok (groupInboundByNodeId hlcOf ?rows))" for h
  proof -
    from h obtain node items where g: "(node, items) \<in> set (groupInboundByNodeId hlcOf ?rows)"
        "0 < inbound_stop ok items" "h = hlcOf (items ! (inbound_stop ok items - 1))"
      by (auto simp: ownSafeAdvance_in)
    have "inbound_stop ok items - 1 < length items" using g(2) inbound_stop_le [of ok items] by linarith
    then have "items ! (inbound_stop ok items - 1) \<in> set items" by (rule nth_mem)
    then have "items ! (inbound_stop ok items - 1) \<in> set ?rows" using group_set [OF g(1)] by simp
    then obtain t where "t \<in> set tables" "items ! (inbound_stop ok items - 1) \<in> set t"
      using shipped_rows_owed [OF ok streams] by fastforce
    then show ?thesis using ok g(3) by (auto simp: scan_ok_def)
  qed
  then show ?thesis using ok by (simp add: pull_exchange_def Let_def scan_ok_advanceAll)
qed

text \<open>A loop that reports itself complete has delivered every row of every stream.\<close>

lemma sync_rounds_sound:
  assumes "sync_rounds n (pull_exchange hlcOf ok streams b limit) st = (st', SyncComplete)"
    and "coverage_honest hlcOf tables st" "applies_whole hlcOf ok tables"
    and "\<forall>table \<in> set tables. scan_ok hlcOf table (pull_own st)"
    and streams: "streams = map Some tables \<or> None \<in> set streams"
  shows "\<forall>table \<in> set tables. set table \<subseteq> set (pull_held st')"
  using assms(1-4)
proof (induction n arbitrary: st)
  case 0
  then show ?case by simp
next
  case (Suc n)
  let ?res = "pull_exchange hlcOf ok streams b limit st"
  note honest = pull_exchange_honest [OF Suc.prems(2,3,4) streams, of b limit]
  note fits = pull_exchange_scan_ok [OF Suc.prems(4) streams, of ok b limit]
  show ?case
  proof (cases "\<not> result_hasMore ?res \<and> \<not> result_blocked ?res")
    case True
    then have st': "st' = result_state ?res" using Suc.prems(1) by (simp add: Let_def)
    have "covers (pull_own st') (hlcOf r)" if "table \<in> set tables" "r \<in> set table" for table r
      unfolding st' using True that by (intro pull_exchange_drained [OF Suc.prems(4) streams refl]) auto
    then show ?thesis using honest unfolding coverage_honest_def st' by blast
  next
    case False
    then have "sync_rounds n (pull_exchange hlcOf ok streams b limit) (result_state ?res) = (st', SyncComplete)"
      using Suc.prems(1) by (simp add: Let_def split: if_splits)
    from Suc.IH [OF this honest Suc.prems(3) fits] show ?thesis .
  qed
qed

definition unseen_count :: "('r \<Rightarrow> hlc) \<Rightarrow> 'r list list \<Rightarrow> watermarks \<Rightarrow> nat" where
  "unseen_count hlcOf tables w = sum_list (map (\<lambda>t. length (owed hlcOf t w)) tables)"

lemma sum_list_less:
  fixes f g :: "'a \<Rightarrow> nat"
  assumes "\<forall>x \<in> set xs. f x \<le> g x" "x \<in> set xs" "f x < g x"
  shows "sum_list (map f xs) < sum_list (map g xs)"
  using assms
proof (induction xs)
  case (Cons y ys)
  show ?case
  proof (cases "x = y")
    case True
    have "sum_list (map f ys) \<le> sum_list (map g ys)" using Cons.prems(1) by (intro sum_list_mono) simp
    then show ?thesis using Cons.prems(3) True by simp
  next
    case False
    then have "sum_list (map f ys) < sum_list (map g ys)" using Cons by simp
    then show ?thesis using Cons.prems(1) by (simp add: add_le_less_mono)
  qed
qed simp

lemma owed_mono:
  assumes "\<forall>h. covers w h \<longrightarrow> covers w' h"
  shows "length (owed hlcOf t w') \<le> length (owed hlcOf t w)"
    and "r \<in> set t \<Longrightarrow> \<not> covers w (hlcOf r) \<Longrightarrow> covers w' (hlcOf r) \<Longrightarrow>
      length (owed hlcOf t w') < length (owed hlcOf t w)"
proof -
  have sub: "owed hlcOf t w' = filter (\<lambda>r. \<not> covers w' (hlcOf r)) (owed hlcOf t w)"
    unfolding owed_def filter_filter using assms by (intro filter_cong) (auto simp: unseen_covers)
  show "length (owed hlcOf t w') \<le> length (owed hlcOf t w)" unfolding sub by (rule length_filter_le)
  assume r: "r \<in> set t" "\<not> covers w (hlcOf r)" "covers w' (hlcOf r)"
  then have "r \<in> set (owed hlcOf t w)" by (simp add: owed_def unseen_covers)
  then show "length (owed hlcOf t w') < length (owed hlcOf t w)"
    unfolding sub using r(3) by (intro length_filter_less [where x = r]) simp_all
qed

lemma sameWatermarks_covers: "sameWatermarks a b \<Longrightarrow> covers a h = covers b h"
proof -
  assume same: "sameWatermarks a b"
  have "js_get a n = js_get b n" for n
  proof (cases "n \<in> set (js_keys a @ js_keys b)")
    case True
    then show ?thesis using same unfolding sameWatermarks_def
      by (fastforce simp: hlc_order split: option.splits)
  next
    case False
    then have "js_get a n = None" "js_get b n = None" by (auto simp: map_of_eq_None_iff)
    then show ?thesis by simp
  qed
  then show ?thesis by (simp add: covers_def)
qed

text \<open>With nothing owed, a round with a positive limit ships nothing and asks for no other.\<close>

lemma nothing_owed_drained:
  assumes pages: "list_all2 (vouches hlcOf peer limit) tables pages" and limit: "0 < limit"
    and none: "\<forall>table \<in> set tables. \<forall>r \<in> set table. \<not> unseen peer (hlcOf r)"
  shows "\<not> cut_hasMore (cutRound (round_items hlcOf pages) (computeCeilings (map page_truncated pages)) budget)"
proof -
  have rows: "page_rows pg = []" "page_truncated pg = []" if pg: "pg \<in> set pages" for pg
  proof -
    obtain t where t: "t \<in> set tables" "vouches hlcOf peer limit t pg"
      using list_all2_right [OF pages pg] by blast
    have "r \<notin> set (page_rows pg)" for r using vouches_rows_owed [OF t(2)] t(1) none by blast
    then show rows: "page_rows pg = []" by (cases "page_rows pg") auto
    have "js_get (page_truncated pg) n = None" for n
    proof (cases "js_get (page_truncated pg) n")
      case (Some c)
      then show ?thesis
        using t(2) limit vouches_ceiling_row [OF t(2), of n] rows by (cases c) (auto simp: vouches_def)
    qed
    from this [of "fst (hd (page_truncated pg))"] show "page_truncated pg = []"
      by (cases "page_truncated pg") auto
  qed
  have items: "round_items hlcOf pages = []" using rows by (simp add: round_items_def)
  have cs: "computeCeilings (map page_truncated pages) = []" using rows by (simp add: computeCeilings_empty)
  obtain left where "mset (cut_taken (cutRound (round_items hlcOf pages) [] budget)) + mset left
        = mset (filter (\<lambda>item. withinCeiling item []) (round_items hlcOf pages))"
      "cut_hasMore (cutRound (round_items hlcOf pages) [] budget) \<longleftrightarrow> [] \<noteq> ([] :: hlc_ceilings) \<or>
        mset (filter (\<lambda>item. withinCeiling item []) (round_items hlcOf pages)) \<noteq> mset (round_items hlcOf pages) \<or>
        left \<noteq> []"
    by (rule cutRound_split)
  then show ?thesis unfolding cs by (auto simp: items)
qed

lemma inbound_stop_True: "inbound_stop (\<lambda>_. True) items = length items"
  by (simp add: inbound_stop_all)

text \<open>A round over readable streams either drains them or lowers what is owed.\<close>

lemma pull_exchange_progress:
  assumes ok: "\<forall>table \<in> set tables. scan_ok hlcOf table (pull_own st)" and limit: "0 < limit"
    and res: "res = pull_exchange hlcOf (\<lambda>_. True) (map Some tables) b limit st" "result_hasMore res"
  shows "result_progressed res \<and>
    unseen_count hlcOf tables (pull_own (result_state res)) < unseen_count hlcOf tables (pull_own st)"
proof -
  let ?own = "pull_own st" and ?own' = "pull_own (result_state res)"
  let ?cut = "assembleRound hlcOf (scan_streams hlcOf (map Some tables) ?own limit) b limit"
  obtain pages where pages: "scan_streams hlcOf (map Some tables) ?own limit = map Some pages"
      "list_all2 (vouches hlcOf ?own limit) tables pages"
    using scan_streams_vouch [OF ok] by blast
  let ?c = "cutRound (round_items hlcOf pages) (computeCeilings (map page_truncated pages))
      \<lparr>maxBytes = b, maxItems = limit\<rparr>"
  have c: "?cut = ?c" unfolding pages(1) by (rule assembleRound_pages)
  have "cut_hasMore ?c" using res c by (simp add: pull_exchange_def Let_def)
  then obtain t r where "t \<in> set tables" "r \<in> set t" "unseen ?own (hlcOf r)"
    using nothing_owed_drained [OF pages(2) limit] by blast
  then have "cut_taken ?cut \<noteq> []" unfolding c by (rule shipment_progress [OF pages(2) limit])
  then obtain i where i: "i \<in> set (cut_taken ?cut)" by (cases "cut_taken ?cut") auto
  then have q: "item_value i \<in> item_value ` set (cut_taken ?cut)" by simp
  obtain u where u: "u \<in> set tables" "item_value i \<in> set u" "unseen ?own (hlcOf (item_value i))"
    using shipped_rows_owed [OF ok disjI1 [OF refl] q] by blast
  have new: "covers ?own' (hlcOf (item_value i))"
    unfolding res(1) by (rule shipped_row_covered [OF q]) (simp add: inbound_stop_True)
  have mono: "\<forall>h. covers ?own h \<longrightarrow> covers ?own' h" unfolding res(1) pull_exchange_own by simp
  have "unseen_count hlcOf tables ?own' < unseen_count hlcOf tables ?own"
    unfolding unseen_count_def
    by (rule sum_list_less [OF _ u(1)])
      (use owed_mono [OF mono] u(2,3) new in \<open>auto simp: unseen_covers\<close>)
  moreover have "\<not> sameWatermarks ?own ?own'"
    using new u(3) sameWatermarks_covers [of ?own ?own'] by (auto simp: unseen_covers)
  then have "result_progressed res" unfolding res(1) by (simp add: pull_exchange_def Let_def)
  ultimately show ?thesis by blast
qed

text \<open>The loop reaches completion in at most one round more than there are rows owed.\<close>

lemma sync_rounds_complete:
  assumes "\<forall>table \<in> set tables. scan_ok hlcOf table (pull_own st)" "0 < limit"
    and "unseen_count hlcOf tables (pull_own st) < n"
  shows "snd (sync_rounds n (pull_exchange hlcOf (\<lambda>_. True) (map Some tables) b limit) st) = SyncComplete"
  using assms
proof (induction n arbitrary: st)
  case 0
  then show ?case by simp
next
  case (Suc n)
  let ?res = "pull_exchange hlcOf (\<lambda>_. True) (map Some tables) b limit st"
  have unblocked: "\<not> result_blocked ?res" by (simp add: pull_exchange_def Let_def inbound_stop_True case_prod_unfold)
  show ?case
  proof (cases "result_hasMore ?res")
    case False
    then show ?thesis using unblocked by (simp add: Let_def)
  next
    case True
    note step = pull_exchange_progress [OF Suc.prems(1,2) refl True]
    have "snd (sync_rounds n (pull_exchange hlcOf (\<lambda>_. True) (map Some tables) b limit) (result_state ?res)) = SyncComplete"
      using step Suc.prems(2,3) pull_exchange_scan_ok [OF Suc.prems(1) disjI1 [OF refl]]
      by (intro Suc.IH) auto
    then show ?thesis using step True by (simp add: Let_def)
  qed
qed

section \<open>Half a timestamp\<close>

text \<open>
  The hypothesis \<open>applies_whole\<close> is needed: the advance is to the last applied row of the run, and
  when the row that failed carries that same timestamp the watermark passes over it. No later
  exchange selects it again, and the loop reports itself complete on the next round.
\<close>

definition half_rows :: "(string \<times> hlc) list" where
  "half_rows = [(''record'', HLC 5 0 ''a''), (''label'', HLC 5 0 ''a'')]"

definition half_state :: "(string \<times> hlc) pull_state" where
  "half_state = \<lparr>pull_held = [], pull_own = []\<rparr>"

section \<open>Properties\<close>

text \<open>
  C1. Over any channel whose rows apply, starting from an honest watermark, repeated rounds reach
  completion within one round more than there are rows owed, and then the node holds every row of
  every stream. So no schedule of page limits, ceilings or cuts loses a row or loops forever.
\<close>

theorem sync_delivers_everything:
  assumes fits: "\<forall>table \<in> set tables. scan_ok hlcOf table (pull_own st)" and limit: "0 < limit"
    and honest: "coverage_honest hlcOf tables st"
    and rounds: "sum_list (map (\<lambda>t. length (filter (\<lambda>r. unseen (pull_own st) (hlcOf r)) t)) tables) < n"
  shows "\<exists>st'. sync_rounds n (pull_exchange hlcOf (\<lambda>_. True) (map Some tables) limitBytes limit) st
      = (st', SyncComplete) \<and> (\<forall>table \<in> set tables. set table \<subseteq> set (pull_held st'))"
proof -
  let ?run = "sync_rounds n (pull_exchange hlcOf (\<lambda>_. True) (map Some tables) limitBytes limit) st"
  have "snd ?run = SyncComplete"
    using rounds by (intro sync_rounds_complete [OF fits limit]) (simp add: unseen_count_def owed_def)
  then obtain st' where st': "?run = (st', SyncComplete)" by (cases ?run) simp
  moreover have "\<forall>table \<in> set tables. set table \<subseteq> set (pull_held st')"
    by (rule sync_rounds_sound [OF st' honest _ fits disjI1 [OF refl]]) (simp add: applies_whole_def)
  ultimately show ?thesis by blast
qed

theorem sync_delivers_everything_witness:
  "\<exists>st'. sync_rounds 3 (pull_exchange snd (\<lambda>_. True) (map Some [half_rows]) 10 1) half_state
     = (st', SyncComplete) \<and> set half_rows \<subseteq> set (pull_held st')"
  using sync_delivers_everything [of "[half_rows]" snd half_state 1 3 10]
  by (simp add: half_rows_def half_state_def scan_ok_def hlc_fits_def coverage_honest_def covers_def unseen_def)



text \<open>
  C3. The watermark stays honest: after any exchange (rows failing, streams unreadable), a row its
  map covers has been delivered, provided the rows of one timestamp apply together.
\<close>

theorem exchange_keeps_coverage_honest:
  assumes "coverage_honest hlcOf tables st" and "applies_whole hlcOf ok tables"
    and "\<forall>table \<in> set tables. scan_ok hlcOf table (pull_own st)"
    and "streams = map Some tables \<or> None \<in> set streams"
  shows "coverage_honest hlcOf tables (result_state (pull_exchange hlcOf ok streams limitBytes limit st))"
  using assms by (rule pull_exchange_honest)

theorem exchange_keeps_coverage_honest_witness:
  "coverage_honest snd [half_rows] (result_state (pull_exchange snd (\<lambda>_. False) [Some half_rows] 9 2 half_state))"
  using exchange_keeps_coverage_honest [of snd "[half_rows]" half_state "\<lambda>_. False" "[Some half_rows]" 9 2]
  by (simp add: half_rows_def half_state_def scan_ok_def hlc_fits_def coverage_honest_def covers_def
      applies_whole_def)


end
