(* ===== verification/Core_Types.thy ===== *)
theory Core_Types
  imports Js_Prelude
begin

text \<open>
  The type registry: \<open>packages/protocol-primitives/src/types/core-types.ts\<close>.

  Column types and their spelling per database, the categories with their metadata columns, the
  canonical \<open>category/format\<close> types with their advisory extensions, and the statements that create
  the per-category metadata tables. Strings are ASCII.
\<close>

section \<open>Column types\<close>

datatype logical_column_type =
  ColInteger | ColBigint | ColReal | ColText | ColBlob | ColTimestamp | ColBoolean

definition isOrderableColumnType :: "logical_column_type \<Rightarrow> bool" where
  "isOrderableColumnType t \<longleftrightarrow> t \<noteq> ColBlob \<and> t \<noteq> ColBoolean"

definition isNumericColumnType :: "logical_column_type \<Rightarrow> bool" where
  "isNumericColumnType t \<longleftrightarrow> t = ColInteger \<or> t = ColBigint \<or> t = ColReal"

fun pgColumnType :: "logical_column_type \<Rightarrow> string" where
  "pgColumnType ColInteger = ''integer''"
| "pgColumnType ColBigint = ''bigint''"
| "pgColumnType ColReal = ''double precision''"
| "pgColumnType ColText = ''text''"
| "pgColumnType ColBlob = ''bytea''"
| "pgColumnType ColTimestamp = ''timestamp''"
| "pgColumnType ColBoolean = ''boolean''"

fun sqliteColumnType :: "logical_column_type \<Rightarrow> string" where
  "sqliteColumnType ColInteger = ''INTEGER''"
| "sqliteColumnType ColBigint = ''INTEGER''"
| "sqliteColumnType ColReal = ''REAL''"
| "sqliteColumnType ColText = ''TEXT''"
| "sqliteColumnType ColBlob = ''BLOB''"
| "sqliteColumnType ColTimestamp = ''TEXT''"
| "sqliteColumnType ColBoolean = ''INTEGER''"

record metadata_column =
  col_name :: string
  col_type :: logical_column_type
  col_nullable :: bool

abbreviation column :: "string \<Rightarrow> logical_column_type \<Rightarrow> metadata_column" where
  "column n t \<equiv> \<lparr>col_name = n, col_type = t, col_nullable = True\<rparr>"

section \<open>Categories\<close>

datatype category =
  Cat_image | Cat_video | Cat_audio | Cat_document | Cat_text | Cat_code | Cat_font | Cat_archive | Cat_data | Cat_model3d | Cat_starkeep | Cat_other

fun category_id :: "category \<Rightarrow> string" where
  "category_id Cat_image = ''image''"
| "category_id Cat_video = ''video''"
| "category_id Cat_audio = ''audio''"
| "category_id Cat_document = ''document''"
| "category_id Cat_text = ''text''"
| "category_id Cat_code = ''code''"
| "category_id Cat_font = ''font''"
| "category_id Cat_archive = ''archive''"
| "category_id Cat_data = ''data''"
| "category_id Cat_model3d = ''model3d''"
| "category_id Cat_starkeep = ''starkeep''"
| "category_id Cat_other = ''other''"

record category_def =
  cat_id :: category
  metadataColumns :: "metadata_column list"

definition IMAGE_METADATA_COLUMNS :: "metadata_column list" where
  "IMAGE_METADATA_COLUMNS =
  [column ''width'' ColInteger,
   column ''height'' ColInteger,
   column ''color_space'' ColText,
   column ''orientation'' ColInteger,
   column ''captured_at'' ColTimestamp,
   column ''camera_make'' ColText,
   column ''camera_model'' ColText,
   column ''lens_model'' ColText,
   column ''f_number'' ColReal,
   column ''exposure_time'' ColText,
   column ''iso'' ColInteger,
   column ''focal_length_mm'' ColReal,
   column ''gps_lat'' ColReal,
   column ''gps_lon'' ColReal,
   column ''exif_present'' ColBoolean,
   column ''perceptual_hash'' ColText,
   column ''thumb_hash'' ColText]"

definition VIDEO_METADATA_COLUMNS :: "metadata_column list" where
  "VIDEO_METADATA_COLUMNS =
  [column ''width'' ColInteger,
   column ''height'' ColInteger,
   column ''duration_ms'' ColBigint,
   column ''frame_rate'' ColReal,
   column ''video_codec'' ColText,
   column ''audio_codec'' ColText,
   column ''bitrate'' ColBigint,
   column ''captured_at'' ColTimestamp,
   column ''gps_lat'' ColReal,
   column ''gps_lon'' ColReal,
   column ''thumb_hash'' ColText]"

definition AUDIO_METADATA_COLUMNS :: "metadata_column list" where
  "AUDIO_METADATA_COLUMNS =
  [column ''duration_ms'' ColBigint,
   column ''sample_rate'' ColInteger,
   column ''channels'' ColInteger,
   column ''bitrate'' ColBigint,
   column ''codec'' ColText,
   column ''title'' ColText,
   column ''artist'' ColText,
   column ''album'' ColText,
   column ''track_number'' ColInteger,
   column ''year'' ColInteger,
   column ''genre'' ColText]"

definition DOCUMENT_METADATA_COLUMNS :: "metadata_column list" where
  "DOCUMENT_METADATA_COLUMNS =
  [column ''page_count'' ColInteger,
   column ''word_count'' ColInteger,
   column ''author'' ColText,
   column ''title'' ColText,
   column ''created_at'' ColTimestamp,
   column ''modified_at'' ColTimestamp,
   column ''language'' ColText]"

definition TEXT_METADATA_COLUMNS :: "metadata_column list" where
  "TEXT_METADATA_COLUMNS =
  [column ''line_count'' ColInteger,
   column ''encoding'' ColText]"

definition CODE_METADATA_COLUMNS :: "metadata_column list" where
  "CODE_METADATA_COLUMNS =
  [column ''line_count'' ColInteger,
   column ''encoding'' ColText]"

definition FONT_METADATA_COLUMNS :: "metadata_column list" where
  "FONT_METADATA_COLUMNS =
  [column ''family'' ColText,
   column ''subfamily'' ColText,
   column ''weight'' ColInteger,
   column ''style'' ColText,
   column ''format'' ColText]"

definition ARCHIVE_METADATA_COLUMNS :: "metadata_column list" where
  "ARCHIVE_METADATA_COLUMNS =
  [column ''entry_count'' ColInteger,
   column ''uncompressed_bytes'' ColBigint,
   column ''compression'' ColText]"

definition DATA_METADATA_COLUMNS :: "metadata_column list" where
  "DATA_METADATA_COLUMNS =
  [column ''row_count'' ColBigint,
   column ''column_count'' ColInteger,
   column ''schema_json'' ColText]"

definition MODEL3D_METADATA_COLUMNS :: "metadata_column list" where
  "MODEL3D_METADATA_COLUMNS =
  [column ''vertex_count'' ColBigint,
   column ''face_count'' ColBigint,
   column ''has_textures'' ColBoolean,
   column ''has_animation'' ColBoolean]"

definition CATEGORIES :: "category_def list" where
  "CATEGORIES =
  [\<lparr>cat_id = Cat_image, metadataColumns = IMAGE_METADATA_COLUMNS\<rparr>,
   \<lparr>cat_id = Cat_video, metadataColumns = VIDEO_METADATA_COLUMNS\<rparr>,
   \<lparr>cat_id = Cat_audio, metadataColumns = AUDIO_METADATA_COLUMNS\<rparr>,
   \<lparr>cat_id = Cat_document, metadataColumns = DOCUMENT_METADATA_COLUMNS\<rparr>,
   \<lparr>cat_id = Cat_text, metadataColumns = TEXT_METADATA_COLUMNS\<rparr>,
   \<lparr>cat_id = Cat_code, metadataColumns = CODE_METADATA_COLUMNS\<rparr>,
   \<lparr>cat_id = Cat_font, metadataColumns = FONT_METADATA_COLUMNS\<rparr>,
   \<lparr>cat_id = Cat_archive, metadataColumns = ARCHIVE_METADATA_COLUMNS\<rparr>,
   \<lparr>cat_id = Cat_data, metadataColumns = DATA_METADATA_COLUMNS\<rparr>,
   \<lparr>cat_id = Cat_model3d, metadataColumns = MODEL3D_METADATA_COLUMNS\<rparr>,
   \<lparr>cat_id = Cat_starkeep, metadataColumns = []\<rparr>,
   \<lparr>cat_id = Cat_other, metadataColumns = []\<rparr>]"

definition CATEGORY_IDS :: "category list" where
  "CATEGORY_IDS = map cat_id CATEGORIES"

definition DRIVE_ONLY_CATEGORIES :: "string list" where
  "DRIVE_ONLY_CATEGORIES = [''starkeep'', ''other'']"

definition isGrantableCategory :: "string \<Rightarrow> bool" where
  "isGrantableCategory c \<longleftrightarrow> c \<notin> set DRIVE_ONLY_CATEGORIES"

definition hasMetadataTable :: "string \<Rightarrow> bool" where
  "hasMetadataTable c \<longleftrightarrow> c \<notin> set DRIVE_ONLY_CATEGORIES"

definition APP_GRANTABLE_CATEGORIES :: "category list" where
  "APP_GRANTABLE_CATEGORIES = filter (\<lambda>c. isGrantableCategory (category_id c)) CATEGORY_IDS"

text \<open>\<open>CATEGORIES.find((c) => c.id === id)\<close>.\<close>

definition getCategory :: "string \<Rightarrow> category_def option" where
  "getCategory s = find (\<lambda>c. category_id (cat_id c) = s) CATEGORIES"

definition isCategoryId :: "string \<Rightarrow> bool" where
  "isCategoryId s \<longleftrightarrow> (\<exists>c \<in> set CATEGORIES. category_id (cat_id c) = s)"

text \<open>The prefix before the first slash, read as a category, \<open>other\<close> when it names none.\<close>

definition typeCategory :: "string \<Rightarrow> category" where
  "typeCategory ty =
     (case getCategory (hd (js_split CHR ''/'' ty)) of Some c \<Rightarrow> cat_id c | None \<Rightarrow> Cat_other)"

section \<open>The type registry\<close>

datatype type_spec = TypeSpec (spec_category: category) (spec_format: string) (spec_extensions: "string list")

definition TYPE_SPECS :: "type_spec list" where
  "TYPE_SPECS =
  [TypeSpec Cat_image ''jpeg'' [''jpg'', ''jpeg''],
   TypeSpec Cat_image ''png'' [''png''],
   TypeSpec Cat_image ''gif'' [''gif''],
   TypeSpec Cat_image ''webp'' [''webp''],
   TypeSpec Cat_image ''heic'' [''heic''],
   TypeSpec Cat_image ''heif'' [''heif''],
   TypeSpec Cat_image ''avif'' [''avif''],
   TypeSpec Cat_image ''bmp'' [''bmp''],
   TypeSpec Cat_image ''tiff'' [''tif'', ''tiff''],
   TypeSpec Cat_image ''svg'' [''svg''],
   TypeSpec Cat_image ''ico'' [''ico''],
   TypeSpec Cat_image ''dng'' [''dng''],
   TypeSpec Cat_image ''cr2'' [''cr2''],
   TypeSpec Cat_image ''cr3'' [''cr3''],
   TypeSpec Cat_image ''nef'' [''nef''],
   TypeSpec Cat_image ''arw'' [''arw''],
   TypeSpec Cat_image ''raf'' [''raf''],
   TypeSpec Cat_image ''orf'' [''orf''],
   TypeSpec Cat_image ''rw2'' [''rw2''],
   TypeSpec Cat_video ''mp4'' [''mp4''],
   TypeSpec Cat_video ''mov'' [''mov''],
   TypeSpec Cat_video ''m4v'' [''m4v''],
   TypeSpec Cat_video ''avi'' [''avi''],
   TypeSpec Cat_video ''mkv'' [''mkv''],
   TypeSpec Cat_video ''webm'' [''webm''],
   TypeSpec Cat_video ''mpeg'' [''mpg'', ''mpeg''],
   TypeSpec Cat_video ''wmv'' [''wmv''],
   TypeSpec Cat_video ''flv'' [''flv''],
   TypeSpec Cat_audio ''mp3'' [''mp3''],
   TypeSpec Cat_audio ''wav'' [''wav''],
   TypeSpec Cat_audio ''flac'' [''flac''],
   TypeSpec Cat_audio ''aac'' [''aac''],
   TypeSpec Cat_audio ''ogg'' [''ogg'', ''oga''],
   TypeSpec Cat_audio ''opus'' [''opus''],
   TypeSpec Cat_audio ''m4a'' [''m4a''],
   TypeSpec Cat_audio ''aiff'' [''aiff''],
   TypeSpec Cat_audio ''wma'' [''wma''],
   TypeSpec Cat_document ''pdf'' [''pdf''],
   TypeSpec Cat_document ''markdown'' [''md'', ''markdown''],
   TypeSpec Cat_document ''html'' [''htm'', ''html''],
   TypeSpec Cat_document ''doc'' [''doc''],
   TypeSpec Cat_document ''docx'' [''docx''],
   TypeSpec Cat_document ''xls'' [''xls''],
   TypeSpec Cat_document ''xlsx'' [''xlsx''],
   TypeSpec Cat_document ''ppt'' [''ppt''],
   TypeSpec Cat_document ''pptx'' [''pptx''],
   TypeSpec Cat_document ''odt'' [''odt''],
   TypeSpec Cat_document ''ods'' [''ods''],
   TypeSpec Cat_document ''odp'' [''odp''],
   TypeSpec Cat_document ''rtf'' [''rtf''],
   TypeSpec Cat_document ''epub'' [''epub''],
   TypeSpec Cat_document ''pages'' [''pages''],
   TypeSpec Cat_document ''numbers'' [''numbers''],
   TypeSpec Cat_document ''key'' [''key''],
   TypeSpec Cat_text ''txt'' [''txt''],
   TypeSpec Cat_text ''log'' [''log''],
   TypeSpec Cat_text ''env'' [''env''],
   TypeSpec Cat_text ''json'' [''json''],
   TypeSpec Cat_text ''jsonc'' [''jsonc''],
   TypeSpec Cat_text ''xml'' [''xml''],
   TypeSpec Cat_text ''yaml'' [''yml'', ''yaml''],
   TypeSpec Cat_text ''toml'' [''toml''],
   TypeSpec Cat_text ''ini'' [''ini''],
   TypeSpec Cat_text ''conf'' [''conf''],
   TypeSpec Cat_text ''tex'' [''tex''],
   TypeSpec Cat_text ''rst'' [''rst''],
   TypeSpec Cat_text ''adoc'' [''adoc''],
   TypeSpec Cat_code ''js'' [''js''],
   TypeSpec Cat_code ''mjs'' [''mjs''],
   TypeSpec Cat_code ''cjs'' [''cjs''],
   TypeSpec Cat_code ''ts'' [''ts''],
   TypeSpec Cat_code ''tsx'' [''tsx''],
   TypeSpec Cat_code ''jsx'' [''jsx''],
   TypeSpec Cat_code ''py'' [''py''],
   TypeSpec Cat_code ''rb'' [''rb''],
   TypeSpec Cat_code ''go'' [''go''],
   TypeSpec Cat_code ''rs'' [''rs''],
   TypeSpec Cat_code ''java'' [''java''],
   TypeSpec Cat_code ''kt'' [''kt''],
   TypeSpec Cat_code ''swift'' [''swift''],
   TypeSpec Cat_code ''c'' [''c''],
   TypeSpec Cat_code ''h'' [''h''],
   TypeSpec Cat_code ''cpp'' [''cpp''],
   TypeSpec Cat_code ''hpp'' [''hpp''],
   TypeSpec Cat_code ''cs'' [''cs''],
   TypeSpec Cat_code ''php'' [''php''],
   TypeSpec Cat_code ''sh'' [''sh''],
   TypeSpec Cat_code ''bash'' [''bash''],
   TypeSpec Cat_code ''zsh'' [''zsh''],
   TypeSpec Cat_code ''fish'' [''fish''],
   TypeSpec Cat_code ''ps1'' [''ps1''],
   TypeSpec Cat_code ''lua'' [''lua''],
   TypeSpec Cat_code ''r'' [''r''],
   TypeSpec Cat_code ''sql'' [''sql''],
   TypeSpec Cat_code ''css'' [''css''],
   TypeSpec Cat_code ''scss'' [''scss''],
   TypeSpec Cat_code ''sass'' [''sass''],
   TypeSpec Cat_code ''less'' [''less''],
   TypeSpec Cat_code ''vue'' [''vue''],
   TypeSpec Cat_code ''svelte'' [''svelte''],
   TypeSpec Cat_code ''dockerfile'' [''dockerfile''],
   TypeSpec Cat_code ''gitignore'' [''gitignore''],
   TypeSpec Cat_code ''gitattributes'' [''gitattributes''],
   TypeSpec Cat_font ''ttf'' [''ttf''],
   TypeSpec Cat_font ''otf'' [''otf''],
   TypeSpec Cat_font ''woff'' [''woff''],
   TypeSpec Cat_font ''woff2'' [''woff2''],
   TypeSpec Cat_font ''eot'' [''eot''],
   TypeSpec Cat_archive ''zip'' [''zip''],
   TypeSpec Cat_archive ''tar'' [''tar''],
   TypeSpec Cat_archive ''gz'' [''gz''],
   TypeSpec Cat_archive ''tgz'' [''tgz''],
   TypeSpec Cat_archive ''bz2'' [''bz2''],
   TypeSpec Cat_archive ''tbz2'' [''tbz2''],
   TypeSpec Cat_archive ''xz'' [''xz''],
   TypeSpec Cat_archive ''txz'' [''txz''],
   TypeSpec Cat_archive ''7z'' [''7z''],
   TypeSpec Cat_archive ''rar'' [''rar''],
   TypeSpec Cat_archive ''zst'' [''zst''],
   TypeSpec Cat_data ''csv'' [''csv''],
   TypeSpec Cat_data ''tsv'' [''tsv''],
   TypeSpec Cat_data ''parquet'' [''parquet''],
   TypeSpec Cat_data ''arrow'' [''arrow''],
   TypeSpec Cat_data ''feather'' [''feather''],
   TypeSpec Cat_data ''sqlite'' [''sqlite'', ''sqlite3''],
   TypeSpec Cat_data ''db'' [''db''],
   TypeSpec Cat_data ''jsonl'' [''jsonl'', ''ndjson''],
   TypeSpec Cat_data ''hdf5'' [''hdf5'', ''h5''],
   TypeSpec Cat_data ''orc'' [''orc''],
   TypeSpec Cat_model3d ''obj'' [''obj''],
   TypeSpec Cat_model3d ''stl'' [''stl''],
   TypeSpec Cat_model3d ''gltf'' [''gltf''],
   TypeSpec Cat_model3d ''glb'' [''glb''],
   TypeSpec Cat_model3d ''fbx'' [''fbx''],
   TypeSpec Cat_model3d ''dae'' [''dae''],
   TypeSpec Cat_model3d ''3ds'' [''3ds''],
   TypeSpec Cat_model3d ''blend'' [''blend''],
   TypeSpec Cat_model3d ''ply'' [''ply''],
   TypeSpec Cat_model3d ''usd'' [''usd''],
   TypeSpec Cat_model3d ''usdz'' [''usdz'']]"

record type_def =
  type_id :: string
  type_category :: category
  type_format :: string

definition spec_id :: "type_spec \<Rightarrow> string" where
  "spec_id s = category_id (spec_category s) @ ''/'' @ spec_format s"

definition OTHER_TYPE_ID :: string where
  "OTHER_TYPE_ID = ''other/other''"

definition SETTINGS_TYPE_ID :: string where
  "SETTINGS_TYPE_ID = ''starkeep/settings''"

definition TYPES :: "type_def list" where
  "TYPES = map (\<lambda>s. \<lparr>type_id = spec_id s, type_category = spec_category s, type_format = spec_format s\<rparr>) TYPE_SPECS
     @ [\<lparr>type_id = SETTINGS_TYPE_ID, type_category = Cat_starkeep, type_format = ''settings''\<rparr>,
        \<lparr>type_id = OTHER_TYPE_ID, type_category = Cat_other, type_format = ''other''\<rparr>]"

text \<open>\<open>new Map(...)\<close> and \<open>Object.fromEntries\<close> keep the last entry of a repeated key.\<close>

definition getType :: "string \<Rightarrow> type_def option" where
  "getType ty = map_of (rev (map (\<lambda>t. (type_id t, t)) TYPES)) ty"

definition isKnownType :: "string \<Rightarrow> bool" where
  "isKnownType ty \<longleftrightarrow> getType ty \<noteq> None"

definition EXTENSIONS :: "(string \<times> string) list" where
  "EXTENSIONS = concat (map (\<lambda>s. map (\<lambda>ext. (ext, spec_id s)) (spec_extensions s)) TYPE_SPECS)"

text \<open>\<open>toLowerCase\<close> on the characters a string of the model has (the first 256 code points).\<close>

definition js_lower_char :: "char \<Rightarrow> char" where
  "js_lower_char c =
     (let n = (of_char c :: nat)
      in if 65 \<le> n \<and> n \<le> 90 \<or> 192 \<le> n \<and> n \<le> 222 \<and> n \<noteq> 215 then char_of (n + 32) else c)"

definition strip_dot :: "string \<Rightarrow> string" where
  "strip_dot s = (case s of c # cs \<Rightarrow> if c = CHR ''.'' then cs else s | [] \<Rightarrow> [])"

definition normalized_extension :: "string \<Rightarrow> string" where
  "normalized_extension ext = strip_dot (map js_lower_char ext)"

text \<open>
  \<open>EXTENSIONS\<close> is a plain object, so reading a property it does not own answers with what every
  object inherits: a function, or the prototype object itself. \<open>JsObj []\<close> stands for such a value.
\<close>

definition OBJECT_PROTOTYPE_KEYS :: "string list" where
  "OBJECT_PROTOTYPE_KEYS = [''constructor'', ''__proto__'', ''hasOwnProperty'', ''isPrototypeOf'',
     ''propertyIsEnumerable'', ''toLocaleString'', ''toString'', ''valueOf'', ''__defineGetter__'',
     ''__defineSetter__'', ''__lookupGetter__'', ''__lookupSetter__'']"

definition defaultTypeForExtension :: "string \<Rightarrow> js_value" where
  "defaultTypeForExtension ext =
     (case map_of (rev EXTENSIONS) (normalized_extension ext) of
        Some t \<Rightarrow> JsStr t
      | None \<Rightarrow> if normalized_extension ext \<in> set OBJECT_PROTOTYPE_KEYS then JsObj [] else JsStr OTHER_TYPE_ID)"

section \<open>Metadata tables\<close>

definition sqliteMetadataTableName :: "string \<Rightarrow> string" where
  "sqliteMetadataTableName typeOrCategory =
     ''shared_record_'' @ (if isCategoryId typeOrCategory then typeOrCategory
       else category_id (typeCategory typeOrCategory)) @ ''_metadata''"

definition pgMetadataTableName :: "string \<Rightarrow> string" where
  "pgMetadataTableName typeOrCategory =
     ''shared.record_'' @ (if isCategoryId typeOrCategory then typeOrCategory
       else category_id (typeCategory typeOrCategory)) @ ''_metadata''"

definition METADATA_DISCRIMINANT_COLUMN :: string where "METADATA_DISCRIMINANT_COLUMN = ''record_type''"

definition OWNER_COLUMN :: string where "OWNER_COLUMN = ''user_id''"

definition METADATA_DELETED_AT_COLUMN :: string where "METADATA_DELETED_AT_COLUMN = ''deleted_at''"

definition CAPTURED_AT_METADATA_COLUMN :: string where "CAPTURED_AT_METADATA_COLUMN = ''captured_at''"

abbreviation newline :: string where "newline \<equiv> [CHR 0x0A]"

text \<open>\<open>cols.join\<close> with a comma and a line break.\<close>

fun join_columns :: "string list \<Rightarrow> string" where
  "join_columns [] = []"
| "join_columns [c] = c"
| "join_columns (c # cs) = c @ '','' @ newline @ join_columns cs"

definition pg_columns :: "category_def \<Rightarrow> string list" where
  "pg_columns c =
     [''         '' @ OWNER_COLUMN @ '' text NOT NULL'',
      ''         record_id   text NOT NULL'',
      ''         '' @ METADATA_DISCRIMINANT_COLUMN @ '' text NOT NULL'',
      ''         '' @ METADATA_DELETED_AT_COLUMN @ '' text'']
     @ map (\<lambda>col. ''         '' @ col_name col @ '' '' @ pgColumnType (col_type col)
            @ (if col_nullable col then [] else '' NOT NULL'')) (metadataColumns c)
     @ [''         PRIMARY KEY ('' @ OWNER_COLUMN @ '', record_id)'']"

definition pgMetadataDdl :: "category_def \<Rightarrow> string" where
  "pgMetadataDdl c = ''CREATE TABLE IF NOT EXISTS '' @ pgMetadataTableName (category_id (cat_id c)) @ '' ('' @ newline
     @ join_columns (pg_columns c) @ newline @ ''       )''"

definition sqlite_columns :: "category_def \<Rightarrow> string list" where
  "sqlite_columns c =
     [''      record_id TEXT PRIMARY KEY'',
      ''      '' @ METADATA_DISCRIMINANT_COLUMN @ '' TEXT NOT NULL'',
      ''      '' @ METADATA_DELETED_AT_COLUMN @ '' TEXT'']
     @ map (\<lambda>col. ''      '' @ col_name col @ '' '' @ sqliteColumnType (col_type col)
            @ (if col_nullable col then [] else '' NOT NULL'')) (metadataColumns c)"

definition sqliteMetadataDdl :: "category_def \<Rightarrow> string" where
  "sqliteMetadataDdl c = ''CREATE TABLE IF NOT EXISTS '' @ sqliteMetadataTableName (category_id (cat_id c)) @ '' ('' @ newline
     @ join_columns (sqlite_columns c) @ newline @ ''    )''"

datatype dialect = Pg | Sqlite

abbreviation quoted :: "string \<Rightarrow> string" where
  "quoted s \<equiv> [CHR 0x22] @ s @ [CHR 0x22]"

definition metadataIndexDdls :: "category_def \<Rightarrow> dialect \<Rightarrow> (string \<times> string) list" where
  "metadataIndexDdls c d =
     (if \<not> (\<exists>col \<in> set (metadataColumns c). col_name col = CAPTURED_AT_METADATA_COLUMN) then []
      else
        let columns = quoted METADATA_DISCRIMINANT_COLUMN @ '', '' @ quoted CAPTURED_AT_METADATA_COLUMN;
            table = category_id (cat_id c)
        in case d of
          Pg \<Rightarrow>
            let name = ''idx_record_'' @ table @ ''_metadata_type_captured_at''
            in [(name, ''CREATE INDEX ASYNC IF NOT EXISTS '' @ quoted name @ '' ON '' @ pgMetadataTableName table
                   @ ''('' @ quoted OWNER_COLUMN @ '', '' @ columns @ '')'')]
        | Sqlite \<Rightarrow>
            let name = ''idx_'' @ sqliteMetadataTableName table @ ''_type_captured_at''
            in [(name, ''CREATE INDEX IF NOT EXISTS '' @ quoted name @ '' ON '' @ sqliteMetadataTableName table
                   @ ''('' @ columns @ '')'')])"

section \<open>Reading a type's category\<close>

lemma category_id_inject: "category_id a = category_id b \<longleftrightarrow> a = b"
  by (cases a; cases b; simp)

lemma category_id_no_slash: "CHR ''/'' \<notin> set (category_id c)"
  by (cases c; simp)

lemma category_listed: "c \<in> cat_id ` set CATEGORIES"
  by (cases c; simp add: CATEGORIES_def)

lemma isCategoryId_iff: "isCategoryId s \<longleftrightarrow> (\<exists>c. s = category_id c)"
proof
  assume "\<exists>c. s = category_id c"
  then obtain c where c: "s = category_id c" ..
  obtain d where "d \<in> set CATEGORIES" "cat_id d = c" using category_listed [of c] by auto
  then show "isCategoryId s" using c by (auto simp: isCategoryId_def)
qed (auto simp: isCategoryId_def)

lemma getCategory_Some: "getCategory s = Some c \<Longrightarrow> category_id (cat_id c) = s"
  by (auto simp: getCategory_def find_Some_iff)

lemma getCategory_category: "\<exists>d. getCategory (category_id c) = Some d \<and> cat_id d = c"
proof -
  obtain d where "d \<in> set CATEGORIES" "cat_id d = c" using category_listed [of c] by auto
  then have "getCategory (category_id c) \<noteq> None" by (auto simp: getCategory_def find_None_iff)
  then obtain e where "getCategory (category_id c) = Some e" by auto
  then show ?thesis using getCategory_Some [of "category_id c" e] by (simp add: category_id_inject)
qed

text \<open>The category of a \<open>category/format\<close> id is its prefix.\<close>

lemma typeCategory_prefix: "typeCategory (category_id c @ CHR ''/'' # f) = c"
proof -
  have "js_split CHR ''/'' (category_id c @ CHR ''/'' # f) = category_id c # js_split CHR ''/'' f"
    using js_split_append [of "CHR ''/''" "category_id c" f] category_id_no_slash by simp
  then show ?thesis using getCategory_category [of c] by (auto simp: typeCategory_def)
qed

lemma typeCategory_spec: "typeCategory (spec_id s) = spec_category s"
  by (simp add: spec_id_def typeCategory_prefix)

lemma typeCategory_category_id: "typeCategory (category_id c) = c"
  using getCategory_category [of c]
  by (auto simp: typeCategory_def js_split_no_sep category_id_no_slash)

lemma metadata_table_of_type:
  "sqliteMetadataTableName ty = ''shared_record_'' @ category_id (typeCategory ty) @ ''_metadata''"
  by (auto simp: sqliteMetadataTableName_def isCategoryId_iff typeCategory_category_id)

section \<open>The registry is consistent\<close>

lemma TYPE_SPECS_grantable: "\<forall>s \<in> set TYPE_SPECS. spec_category s \<noteq> Cat_starkeep \<and> spec_category s \<noteq> Cat_other"
  by (simp add: TYPE_SPECS_def)

lemma EXTENSIONS_in: "(e, t) \<in> set EXTENSIONS \<longleftrightarrow> (\<exists>s \<in> set TYPE_SPECS. e \<in> set (spec_extensions s) \<and> t = spec_id s)"
  by (auto simp: EXTENSIONS_def)

lemma isKnownType_iff: "isKnownType ty \<longleftrightarrow> ty \<in> type_id ` set TYPES"
  by (force simp: isKnownType_def getType_def map_of_eq_None_iff)

lemma spec_known: "s \<in> set TYPE_SPECS \<Longrightarrow> isKnownType (spec_id s)"
  by (force simp: isKnownType_iff TYPES_def image_iff)

lemma other_known: "isKnownType OTHER_TYPE_ID"
  by (simp add: isKnownType_iff TYPES_def)

lemma distinct_extensions: "distinct (map fst EXTENSIONS)"
  by code_simp

lemma distinct_types: "distinct (map type_id TYPES)"
  by code_simp

lemma extensions_normal: "\<forall>e \<in> set EXTENSIONS. normalized_extension (fst e) = fst e"
  by code_simp

lemma extension_type:
  assumes "(e, t) \<in> set EXTENSIONS"
  shows "isKnownType t \<and> isGrantableCategory (category_id (typeCategory t))"
proof -
  obtain s where s: "s \<in> set TYPE_SPECS" "t = spec_id s" using assms by (auto simp: EXTENSIONS_in)
  then have "isGrantableCategory (category_id (spec_category s))"
    using TYPE_SPECS_grantable by (cases "spec_category s") (auto simp: isGrantableCategory_def DRIVE_ONLY_CATEGORIES_def)
  then show ?thesis using s by (simp add: spec_known typeCategory_spec)
qed

lemma no_extension_inherited: "map_of (rev EXTENSIONS) ''constructor'' = None" "map_of (rev EXTENSIONS) ''__proto__'' = None"
  by code_simp+

lemma lower_not_upper: "\<not> (65 \<le> (of_char (js_lower_char c) :: nat) \<and> (of_char (js_lower_char c) :: nat) \<le> 90)"
proof -
  have "(of_char c :: nat) < 256" by (rule nat_of_char_less_256)
  then show ?thesis by (auto simp: js_lower_char_def Let_def)
qed

lemma normalized_lower: "c \<in> set (normalized_extension ext) \<Longrightarrow> \<not> (65 \<le> (of_char c :: nat) \<and> (of_char c :: nat) \<le> 90)"
proof -
  assume "c \<in> set (normalized_extension ext)"
  then have "c \<in> js_lower_char ` set ext"
    by (auto simp: normalized_extension_def strip_dot_def split: list.splits if_splits)
  then show ?thesis using lower_not_upper by auto
qed

text \<open>Of the inherited names only the two with no capital letter survive the lower-casing.\<close>

lemma inherited_names:
  "normalized_extension ext \<in> set OBJECT_PROTOTYPE_KEYS \<longleftrightarrow>
     normalized_extension ext = ''constructor'' \<or> normalized_extension ext = ''__proto__''"
proof
  assume "normalized_extension ext \<in> set OBJECT_PROTOTYPE_KEYS"
  moreover have "\<forall>k \<in> set (drop 2 OBJECT_PROTOTYPE_KEYS). \<exists>c \<in> set k. 65 \<le> (of_char c :: nat) \<and> (of_char c :: nat) \<le> 90"
    by code_simp
  then have "normalized_extension ext \<notin> set (drop 2 OBJECT_PROTOTYPE_KEYS)" using normalized_lower by blast
  moreover have "set OBJECT_PROTOTYPE_KEYS = {''constructor'', ''__proto__''} \<union> set (drop 2 OBJECT_PROTOTYPE_KEYS)"
    unfolding OBJECT_PROTOTYPE_KEYS_def by auto
  ultimately show "normalized_extension ext = ''constructor'' \<or> normalized_extension ext = ''__proto__''" by blast
qed (auto simp: OBJECT_PROTOTYPE_KEYS_def)

section \<open>What the registry guarantees\<close>

text \<open>
  No extension and no type id is registered twice, so every registered extension resolves to
  the type of the entry that lists it, with or without its dot; that type is known, its category is
  the prefix of its id and can be granted to an app, and its metadata lives in that category's table.\<close>

theorem registered_extension_resolves:
  assumes "s \<in> set TYPE_SPECS" "e \<in> set (spec_extensions s)"
  shows "defaultTypeForExtension e = JsStr (spec_id s) \<and> getType (spec_id s) \<noteq> None \<and>
    typeCategory (spec_id s) = spec_category s \<and> isGrantableCategory (category_id (spec_category s)) \<and>
    sqliteMetadataTableName (spec_id s) = ''shared_record_'' @ category_id (spec_category s) @ ''_metadata'' \<and>
    distinct (map type_id TYPES)"
proof -
  have e: "(e, spec_id s) \<in> set EXTENSIONS" using assms by (auto simp: EXTENSIONS_in)
  then have "map_of (rev EXTENSIONS) e = Some (spec_id s)"
    using distinct_extensions by (intro map_of_is_SomeI) (simp_all flip: rev_map)
  moreover have "normalized_extension e = e" using extensions_normal e by force
  ultimately show ?thesis
    using extension_type [OF e] distinct_types
    by (simp add: defaultTypeForExtension_def isKnownType_def typeCategory_spec metadata_table_of_type)
qed

theorem registered_extension_resolves_witness:
  "defaultTypeForExtension ''jpg'' = JsStr ''image/jpeg''"
  using registered_extension_resolves [of "TypeSpec Cat_image ''jpeg'' [''jpg'', ''jpeg'']" "''jpg''"]
  by (simp add: TYPE_SPECS_def spec_id_def)

text \<open>
  The default type of an extension is a registered type id, and either a grantable one or the
  catch-all, for every extension except \<open>constructor\<close> and \<open>__proto__\<close>: there the lookup answers
  with a member every object inherits, which is no string at all.\<close>

theorem default_type_known_unless_inherited:
  "(\<exists>t. defaultTypeForExtension ext = JsStr t \<and> isKnownType t \<and>
      (t = OTHER_TYPE_ID \<or> isGrantableCategory (category_id (typeCategory t)))) \<longleftrightarrow>
    normalized_extension ext \<notin> {''constructor'', ''__proto__''}"
proof (cases "normalized_extension ext \<in> {''constructor'', ''__proto__''}")
  case True
  then show ?thesis using no_extension_inherited
    by (auto simp: defaultTypeForExtension_def OBJECT_PROTOTYPE_KEYS_def)
next
  case False
  show ?thesis
  proof (cases "map_of (rev EXTENSIONS) (normalized_extension ext)")
    case None
    then show ?thesis using False by (simp add: defaultTypeForExtension_def inherited_names other_known)
  next
    case (Some t)
    then have "(normalized_extension ext, t) \<in> set EXTENSIONS" by (auto dest: map_of_SomeD)
    then show ?thesis using Some False extension_type by (simp add: defaultTypeForExtension_def)
  qed
qed

end
