(* ===== verification/Records.thy ===== *)
theory Records
  imports Core_Types Hlc "HOL-Library.Word"
begin

unbundle bit_operations_syntax

text \<open>
  Shared records and their ids: \<open>packages/protocol-primitives/src/records/types.ts\<close>,
  \<open>records/builders.ts\<close>, \<open>identifiers/content-id.ts\<close>, and the access gate
  \<open>access/grants.ts\<close>.

  The hash (a third-party package) is the argument \<open>sha256\<close>, from the text to its digest bytes.
  The lemmas show that the text hashed determines the three fields it is made of, that an id has
  the one shape every column expects, and what the access predicates grant.
\<close>

section \<open>The record\<close>

datatype stand_in_role = Canonical | Smaller

record data_record =
  rec_id :: string
  rec_type :: string
  createdAt :: hlc
  updatedAt :: hlc
  deletedAt :: "hlc option"
  rec_version :: nat
  contentHash :: string
  objectStorageKey :: string
  mimeType :: "string option"
  rec_sizeBytes :: nat
  originalFilename :: "string option"
  originAppId :: string
  parentId :: "string option"
  standInRole :: "stand_in_role option"
  fidelity :: "int option"
  canonicalThreshold :: "int option"
  selfCanonical :: bool

section \<open>Content-addressed ids\<close>

definition CROCKFORD :: string where
  "CROCKFORD = ''0123456789ABCDEFGHJKMNPQRSTVWXYZ''"

definition CONTENT_ID_PREFIX :: string where
  "CONTENT_ID_PREFIX = ''Z''"

definition HASH_CHARS :: nat where
  "HASH_CHARS = 25"

text \<open>
  \<open>encodeCrockford\<close>: the buffer is a 32-bit integer, as JavaScript's shifts make it. \<open>refill\<close> is
  the inner loop that shifts bytes in while fewer than five bits are left; a byte past the end
  reads as 0.
\<close>

function refill :: "nat list \<Rightarrow> 32 word \<Rightarrow> nat \<Rightarrow> nat list \<times> 32 word \<times> nat" where
  "refill bytes buffer bits =
     (if bits < 5
      then refill (tl bytes) (push_bit 8 buffer OR word_of_nat (case bytes of [] \<Rightarrow> 0 | b # _ \<Rightarrow> b)) (bits + 8)
      else (bytes, buffer, bits))"
  by pat_completeness auto

termination refill
  by (relation "measure (\<lambda>(_, _, bits). 5 - bits)") auto

declare refill.simps [simp del]

fun encode_chars :: "nat \<Rightarrow> nat list \<Rightarrow> 32 word \<Rightarrow> nat \<Rightarrow> string" where
  "encode_chars 0 bytes buffer bits = []"
| "encode_chars (Suc n) bytes buffer bits =
     (let (bytes', buffer', bits') = refill bytes buffer bits
      in CROCKFORD ! unat (signed_drop_bit (bits' - 5) buffer' AND 31)
           # encode_chars n bytes' buffer' (bits' - 5))"

definition encodeCrockford :: "nat list \<Rightarrow> nat \<Rightarrow> string" where
  "encodeCrockford bytes chars = encode_chars chars bytes 0 0"

abbreviation NUL :: char where "NUL \<equiv> CHR 0x00"

definition id_fields :: "string option \<Rightarrow> string option \<Rightarrow> string \<Rightarrow> string list" where
  "id_fields parent filename hash =
     (let name = (case filename of None \<Rightarrow> [] | Some f \<Rightarrow> f)
      in case parent of None \<Rightarrow> [name, hash] | Some p \<Rightarrow> [p, name, hash])"

definition contentAddressedId ::
  "(string \<Rightarrow> nat list) \<Rightarrow> string option \<Rightarrow> string option \<Rightarrow> string \<Rightarrow> string" where
  "contentAddressedId sha256 parent filename hash =
     CONTENT_ID_PREFIX @ encodeCrockford (sha256 (js_join NUL (id_fields parent filename hash))) HASH_CHARS"

definition isContentAddressedId :: "string \<Rightarrow> bool" where
  "isContentAddressedId s \<longleftrightarrow> length s = 26 \<and> js_starts_with s CONTENT_ID_PREFIX"

record create_data_record_input =
  in_type :: string
  in_originAppId :: string
  in_contentHash :: string
  in_objectStorageKey :: string
  in_mimeType :: "string option"
  in_sizeBytes :: nat
  in_originalFilename :: "string option"
  in_parentId :: "string option"
  in_standInRole :: "stand_in_role option"
  in_fidelity :: "int option"
  in_canonicalThreshold :: "int option"

text \<open>The clock is threaded through: the node id, the physical time and the clock's state.\<close>

definition createDataRecord ::
  "(string \<Rightarrow> nat list) \<Rightarrow> create_data_record_input \<Rightarrow> string \<Rightarrow> nat \<Rightarrow> clock_state \<Rightarrow> data_record \<times> clock_state" where
  "createDataRecord sha256 inp node physicalTime clock =
     (let (t, clock') = clock_now node physicalTime clock
      in (\<lparr>rec_id = contentAddressedId sha256 (in_parentId inp) (in_originalFilename inp) (in_contentHash inp),
           rec_type = in_type inp, createdAt = t, updatedAt = t, deletedAt = None, rec_version = 1,
           contentHash = in_contentHash inp, objectStorageKey = in_objectStorageKey inp,
           mimeType = in_mimeType inp, rec_sizeBytes = in_sizeBytes inp,
           originalFilename = in_originalFilename inp, originAppId = in_originAppId inp,
           parentId = in_parentId inp, standInRole = in_standInRole inp, fidelity = in_fidelity inp,
           canonicalThreshold = in_canonicalThreshold inp, selfCanonical = False\<rparr>, clock'))"

section \<open>Access grants\<close>

datatype grant_access = ReadAccess | ReadWrite

record access_grant_row =
  grant_typeId :: string
  grant_access :: grant_access
  grant_metadataWrite :: bool

record access_grants =
  readableTypes :: "string set"
  writableTypes :: "string set"
  readableCategories :: "category set"
  writableCategories :: "category set"
  writableMetadataCategories :: "category set"
  allAccess :: bool

definition no_grants :: "bool \<Rightarrow> access_grants" where
  "no_grants all = \<lparr>readableTypes = {}, writableTypes = {}, readableCategories = {},
     writableCategories = {}, writableMetadataCategories = {}, allAccess = all\<rparr>"

definition add_grant :: "access_grant_row \<Rightarrow> access_grants \<Rightarrow> access_grants" where
  "add_grant row g =
     (let cat = typeCategory (grant_typeId row);
          g1 = g\<lparr>readableTypes := insert (grant_typeId row) (readableTypes g),
                readableCategories := insert cat (readableCategories g)\<rparr>;
          g2 = (if grant_access row = ReadWrite
                then g1\<lparr>writableTypes := insert (grant_typeId row) (writableTypes g1),
                       writableCategories := insert cat (writableCategories g1)\<rparr>
                else g1)
      in if grant_metadataWrite row
         then g2\<lparr>writableMetadataCategories := insert cat (writableMetadataCategories g2)\<rparr>
         else g2)"

definition buildAccessGrants :: "access_grant_row list \<Rightarrow> bool \<Rightarrow> access_grants" where
  "buildAccessGrants rows all = (if all then no_grants True else fold add_grant rows (no_grants False))"

definition canRead :: "access_grants \<Rightarrow> string \<Rightarrow> bool" where
  "canRead g ty \<longleftrightarrow> allAccess g \<or> ty \<in> readableTypes g"

definition canWrite :: "access_grants \<Rightarrow> string \<Rightarrow> bool" where
  "canWrite g ty \<longleftrightarrow> allAccess g \<or> ty \<in> writableTypes g"

definition canReadCategory :: "access_grants \<Rightarrow> category \<Rightarrow> bool" where
  "canReadCategory g cat \<longleftrightarrow> allAccess g \<or> cat \<in> readableCategories g"

definition canWriteCategory :: "access_grants \<Rightarrow> category \<Rightarrow> bool" where
  "canWriteCategory g cat \<longleftrightarrow> allAccess g \<or> cat \<in> writableCategories g"

definition canWriteMetadataCategory :: "access_grants \<Rightarrow> category \<Rightarrow> bool" where
  "canWriteMetadataCategory g cat \<longleftrightarrow> allAccess g \<or> cat \<in> writableMetadataCategories g"

section \<open>What the gate grants\<close>

lemma fold_add_grant:
  "readableTypes (fold add_grant rows g) = readableTypes g \<union> grant_typeId ` set rows"
  "writableTypes (fold add_grant rows g) = writableTypes g \<union> grant_typeId ` {r \<in> set rows. grant_access r = ReadWrite}"
  "readableCategories (fold add_grant rows g) =
     readableCategories g \<union> (\<lambda>r. typeCategory (grant_typeId r)) ` set rows"
  "writableCategories (fold add_grant rows g) =
     writableCategories g \<union> (\<lambda>r. typeCategory (grant_typeId r)) ` {r \<in> set rows. grant_access r = ReadWrite}"
  "writableMetadataCategories (fold add_grant rows g) =
     writableMetadataCategories g \<union> (\<lambda>r. typeCategory (grant_typeId r)) ` {r \<in> set rows. grant_metadataWrite r}"
  "allAccess (fold add_grant rows g) = allAccess g"
  by (induction rows arbitrary: g) (auto simp: add_grant_def Let_def)

lemmas grant_defs = buildAccessGrants_def no_grants_def canRead_def canWrite_def canReadCategory_def
  canWriteCategory_def canWriteMetadataCategory_def

text \<open>Category access is exactly type access through some type of the category, and write implies read.\<close>

lemma grants_by_type:
  "canRead (buildAccessGrants rows all) ty \<longleftrightarrow> all \<or> (\<exists>r \<in> set rows. grant_typeId r = ty)"
  "canWrite (buildAccessGrants rows all) ty \<longleftrightarrow>
     all \<or> (\<exists>r \<in> set rows. grant_typeId r = ty \<and> grant_access r = ReadWrite)"
  "canReadCategory (buildAccessGrants rows all) cat \<longleftrightarrow>
     all \<or> (\<exists>r \<in> set rows. typeCategory (grant_typeId r) = cat)"
  "canWriteCategory (buildAccessGrants rows all) cat \<longleftrightarrow>
     all \<or> (\<exists>r \<in> set rows. typeCategory (grant_typeId r) = cat \<and> grant_access r = ReadWrite)"
  "canWriteMetadataCategory (buildAccessGrants rows all) cat \<longleftrightarrow>
     all \<or> (\<exists>r \<in> set rows. typeCategory (grant_typeId r) = cat \<and> grant_metadataWrite r)"
  by (auto simp: grant_defs fold_add_grant)

section \<open>What an id determines\<close>

lemma js_join_cons: "ps \<noteq> [] \<Longrightarrow> js_join c (p # ps) = p @ c # js_join c ps"
  by (cases ps) simp_all

lemma id_fields_split:
  assumes "NUL \<notin> set hash" "\<forall>f \<in> set_option filename. NUL \<notin> set f" "\<forall>p \<in> set_option parent. NUL \<notin> set p"
  shows "js_split NUL (js_join NUL (id_fields parent filename hash)) = id_fields parent filename hash"
  using assms by (intro js_split_join) (auto simp: id_fields_def split: option.splits)

text \<open>Equal texts come from equal fields: the two forms never meet.\<close>

lemma id_text_inject:
  assumes "NUL \<notin> set hash" "\<forall>f \<in> set_option filename. NUL \<notin> set f" "\<forall>p \<in> set_option parent. NUL \<notin> set p"
    and "NUL \<notin> set hash'" "\<forall>f \<in> set_option filename'. NUL \<notin> set f" "\<forall>p \<in> set_option parent'. NUL \<notin> set p"
    and "js_join NUL (id_fields parent filename hash) = js_join NUL (id_fields parent' filename' hash')"
  shows "parent = parent' \<and> hash = hash' \<and>
    (case filename of None \<Rightarrow> [] | Some f \<Rightarrow> f) = (case filename' of None \<Rightarrow> [] | Some f \<Rightarrow> f)"
proof -
  have "id_fields parent filename hash = id_fields parent' filename' hash'"
    using id_fields_split [OF assms(1-3)] id_fields_split [OF assms(4-6)] assms(7) by metis
  then show ?thesis by (cases parent; cases parent') (simp_all add: id_fields_def)
qed

lemma length_encode_chars: "length (encode_chars n bytes buffer bits) = n"
  by (induction n bytes buffer bits rule: encode_chars.induct) (auto simp: Let_def split: prod.splits)

lemma encode_chars_alphabet: "set (encode_chars n bytes buffer bits) \<subseteq> set CROCKFORD"
proof (induction n bytes buffer bits rule: encode_chars.induct)
  case (2 n bytes buffer bits)
  obtain by' bf' bi' where r: "refill bytes buffer bits = (by', bf', bi')" by (cases "refill bytes buffer bits")
  have "unat (signed_drop_bit (bi' - 5) bf' AND 31) \<le> unat (31 :: 32 word)"
    by (rule word_le_nat_alt [THEN iffD1]) (rule word_and_le1)
  then have "unat (signed_drop_bit (bi' - 5) bf' AND 31) < length CROCKFORD" by (simp add: CROCKFORD_def)
  then have "CROCKFORD ! unat (signed_drop_bit (bi' - 5) bf' AND 31) \<in> set CROCKFORD" by (rule nth_mem)
  then show ?case using "2.IH" [OF r [symmetric] refl] r by simp
qed simp

lemma contentAddressedId_shape:
  "isContentAddressedId (contentAddressedId sha256 parent filename hash) \<and>
     set (contentAddressedId sha256 parent filename hash) \<subseteq> set CROCKFORD"
proof -
  have "length (contentAddressedId sha256 parent filename hash) = 26"
    by (simp add: contentAddressedId_def CONTENT_ID_PREFIX_def encodeCrockford_def length_encode_chars HASH_CHARS_def)
  moreover have "set (contentAddressedId sha256 parent filename hash) \<subseteq> set CROCKFORD"
    using encode_chars_alphabet [of HASH_CHARS]
    by (auto simp: contentAddressedId_def CONTENT_ID_PREFIX_def encodeCrockford_def CROCKFORD_def)
  ultimately show ?thesis by (simp add: isContentAddressedId_def contentAddressedId_def)
qed

section \<open>The characters of an id\<close>

text \<open>The number a big-endian byte string stands for.\<close>

fun byte_value :: "nat list \<Rightarrow> nat" where
  "byte_value [] = 0"
| "byte_value (b # bs) = b * 2 ^ (8 * length bs) + byte_value bs"

lemma byte_value_less: "\<forall>b \<in> set bs. b < 256 \<Longrightarrow> byte_value bs < 2 ^ (8 * length bs)"
proof (induction bs)
  case (Cons b bs)
  have "byte_value (b # bs) < (b + 1) * 2 ^ (8 * length bs)" using Cons by simp
  also have "\<dots> \<le> 256 * 2 ^ (8 * length bs)" using Cons.prems by (intro mult_right_mono) auto
  finally show ?case by (simp add: power_add)
qed simp

lemma low_five: "k + 5 \<le> 32 \<Longrightarrow> unat (signed_drop_bit k (w :: 32 word) AND 31) = unat w div 2 ^ k mod 32"
proof -
  assume k: "k + 5 \<le> 32"
  have "signed_drop_bit k w AND 31 = take_bit 5 (signed_drop_bit k w)"
    by (simp add: take_bit_eq_mask mask_eq_exp_minus_1)
  also have "\<dots> = take_bit 5 (drop_bit k w)"
    using k by (intro bit_word_eqI) (auto simp: bit_take_bit_iff bit_signed_drop_bit_iff bit_drop_bit_eq)
  finally have "unat (signed_drop_bit k w AND 31) = unat (take_bit 5 (drop_bit k w))" by (rule arg_cong)
  also have "\<dots> = take_bit 5 (drop_bit k (unat w))"
    by (simp only: unsigned_take_bit_eq unsigned_drop_bit_eq) (use k in \<open>simp add: take_bit_drop_bit min_def flip: unsigned_take_bit_eq\<close>)
  finally show ?thesis by (simp add: take_bit_eq_mod drop_bit_eq_div)
qed

lemma shift_in_byte:
  assumes "b < 256" "bits + 8 \<le> 32"
  shows "unat (push_bit 8 buf OR (word_of_nat b :: 32 word)) mod 2 ^ (bits + 8) = unat buf mod 2 ^ bits * 256 + b"
proof -
  have small: "\<not> bit b n" if "n \<ge> 8" for n
  proof -
    have "b = take_bit 8 b" using assms(1) by (simp add: take_bit_eq_mod)
    then show ?thesis using that by (metis bit_take_bit_iff not_le)
  qed
  have small': "n < 8" if "bit b n" for n using small [of n] that by (cases "n < 8") auto
  have "take_bit (bits + 8) (unat (push_bit 8 buf OR (word_of_nat b :: 32 word))) = push_bit 8 (take_bit bits (unat buf)) OR b"
  proof (rule bit_eqI)
    fix n
    show "bit (take_bit (bits + 8) (unat (push_bit 8 buf OR (word_of_nat b :: 32 word)))) n
        = bit (push_bit 8 (take_bit bits (unat buf)) OR b) n"
      using assms small small'
      by (cases "n < 8") (auto simp: bit_take_bit_iff bit_unsigned_iff bit_or_iff bit_push_bit_iff bit_of_nat_iff possible_bit_def)
  qed
  also have "\<dots> = push_bit 8 (take_bit bits (unat buf)) + b"
    using small by (intro disjunctive_add [symmetric]) (auto simp: bit_push_bit_iff)
  finally show ?thesis by (simp add: take_bit_eq_mod push_bit_eq_mult)
qed

lemma refill_step:
  assumes "bits < 8" "\<forall>b \<in> set bs. b < 256" "5 \<le> bits + 8 * length bs"
  obtains bs' buf' bits' where "refill bs buf bits = (bs', buf', bits')" "5 \<le> bits'" "bits' \<le> 12"
    "bits' + 8 * length bs' = bits + 8 * length bs" "\<forall>b \<in> set bs'. b < 256"
    "unat buf' mod 2 ^ bits' * 2 ^ (8 * length bs') + byte_value bs' = unat buf mod 2 ^ bits * 2 ^ (8 * length bs) + byte_value bs"
proof (cases "bits < 5")
  case True
  then obtain b cs where bs: "bs = b # cs" using assms(3) by (cases bs) auto
  let ?buf = "push_bit 8 buf OR (word_of_nat b :: 32 word)"
  have r: "refill bs buf bits = (cs, ?buf, bits + 8)"
    using True by (subst refill.simps) (simp add: bs refill.simps)
  have "unat ?buf mod 2 ^ (bits + 8) = unat buf mod 2 ^ bits * 256 + b"
    using assms True bs by (intro shift_in_byte) auto
  then show thesis using True assms by (intro that [OF r]) (auto simp: bs power_add algebra_simps)
next
  case False
  then show thesis using assms by (intro that [of bs buf bits]) (auto simp: refill.simps)
qed

lemma pending_char:
  fixes p v :: nat
  assumes "p < 2 ^ bits" "v < 2 ^ m" "5 \<le> bits"
  shows "(p * 2 ^ m + v) div 2 ^ (bits + m - 5) mod 32 = p div 2 ^ (bits - 5)"
    and "(p * 2 ^ m + v) mod 2 ^ (bits + m - 5) = p mod 2 ^ (bits - 5) * 2 ^ m + v"
proof -
  have e: "(2::nat) ^ (bits + m - 5) = 2 ^ m * 2 ^ (bits - 5)"
    using assms(3) by (simp add: power_add [symmetric])
  have q: "(p * 2 ^ m + v) div 2 ^ m = p" using assms(2) by simp
  have "2 ^ bits = (32::nat) * 2 ^ (bits - 5)" using assms(3) power_add [of "2::nat" 5 "bits - 5"] by simp
  then have "p div 2 ^ (bits - 5) < 32" using assms(1) by (simp add: less_mult_imp_div_less)
  then show "(p * 2 ^ m + v) div 2 ^ (bits + m - 5) mod 32 = p div 2 ^ (bits - 5)"
    by (simp add: e div_mult2_eq q)
  show "(p * 2 ^ m + v) mod 2 ^ (bits + m - 5) = p mod 2 ^ (bits - 5) * 2 ^ m + v"
    using assms(2) by (simp add: e mod_mult2_eq q)
qed

lemma mod_pow_div: "e + 5 \<le> n \<Longrightarrow> (P mod 2 ^ n) div 2 ^ e mod 32 = P div 2 ^ e mod 32" for P :: nat
proof -
  assume le: "e + 5 \<le> n"
  have "(P mod 2 ^ n) div 2 ^ e mod 32 = take_bit 5 (drop_bit e (take_bit n P))"
    by (simp add: take_bit_eq_mod drop_bit_eq_div)
  also have "\<dots> = take_bit 5 (drop_bit e P)"
    using le by (intro bit_eqI) (auto simp: bit_take_bit_iff bit_drop_bit_eq)
  finally show ?thesis by (simp add: take_bit_eq_mod drop_bit_eq_div)
qed

lemma encode_chars_value:
  assumes "bits < 8" "\<forall>b \<in> set bs. b < 256" "5 * n \<le> bits + 8 * length bs"
  shows "encode_chars n bs buf bits = map (\<lambda>i. CROCKFORD !
    ((unat buf mod 2 ^ bits * 2 ^ (8 * length bs) + byte_value bs) div 2 ^ (bits + 8 * length bs - 5 * (i + 1)) mod 32)) [0..<n]"
  using assms
proof (induction n arbitrary: bs buf bits)
  case (Suc n)
  let ?P = "unat buf mod 2 ^ bits * 2 ^ (8 * length bs) + byte_value bs" and ?T = "bits + 8 * length bs"
  obtain bs' buf' bits' where r: "refill bs buf bits = (bs', buf', bits')" "5 \<le> bits'" "bits' \<le> 12"
    "bits' + 8 * length bs' = ?T" "\<forall>b \<in> set bs'. b < 256"
    "unat buf' mod 2 ^ bits' * 2 ^ (8 * length bs') + byte_value bs' = ?P"
    by (rule refill_step [OF Suc.prems(1,2), of buf]) (use Suc.prems(3) in auto)
  let ?p = "unat buf' mod 2 ^ bits'" and ?m = "8 * length bs'"
  note pend = pending_char [of ?p bits' "byte_value bs'" ?m]
  have v: "byte_value bs' < 2 ^ ?m" by (rule byte_value_less [OF r(5)])
  have pl: "?p < 2 ^ bits'" by simp
  note X = pend(1) [OF pl v r(2)]
  have low: "unat (signed_drop_bit (bits' - 5) buf' AND 31) = ?P div 2 ^ (?T - 5) mod 32"
  proof -
    have "unat (signed_drop_bit (bits' - 5) buf' AND 31) = unat buf' div 2 ^ (bits' - 5) mod 32"
      using r(3) by (intro low_five) auto
    also have "\<dots> = ?p div 2 ^ (bits' - 5) mod 32" using r(2) by (simp add: mod_pow_div)
    also have "\<dots> = (?p * 2 ^ ?m + byte_value bs') div 2 ^ (bits' + ?m - 5) mod 32"
      unfolding X [symmetric] mod_mod_trivial ..
    finally show ?thesis by (simp only: r(4,6))
  qed
  have rest: "unat buf' mod 2 ^ (bits' - 5) * 2 ^ ?m + byte_value bs' = ?P mod 2 ^ (?T - 5)"
    using pend(2) [OF pl v r(2)] by (simp add: r(4,6) mod_mod_cancel le_imp_power_dvd)
  have IH: "encode_chars n bs' buf' (bits' - 5) = map (\<lambda>i. CROCKFORD ! (?P div 2 ^ (?T - 5 * (Suc i + 1)) mod 32)) [0..<n]"
  proof -
    have "5 * n \<le> bits' - 5 + ?m" using Suc.prems(3) r(2,4) by auto
    moreover have "bits' - 5 < 8" using r(3) by auto
    ultimately have "encode_chars n bs' buf' (bits' - 5) = map (\<lambda>i. CROCKFORD !
        ((?P mod 2 ^ (?T - 5)) div 2 ^ (bits' - 5 + ?m - 5 * (i + 1)) mod 32)) [0..<n]"
      using Suc.IH [of "bits' - 5" bs' buf'] r(5) rest by simp
    also have "\<dots> = map (\<lambda>i. CROCKFORD ! (?P div 2 ^ (?T - 5 * (Suc i + 1)) mod 32)) [0..<n]"
    proof (rule map_cong [OF refl])
      fix i assume "i \<in> set [0..<n]"
      then have i: "i < n" by simp
      have e: "bits' - 5 + ?m - 5 * (i + 1) = ?T - 5 * (Suc i + 1)" using r(2,4) by auto
      have "?T - 5 * (Suc i + 1) + 5 \<le> ?T - 5" using i Suc.prems(3) by auto
      then show "CROCKFORD ! ((?P mod 2 ^ (?T - 5)) div 2 ^ (bits' - 5 + ?m - 5 * (i + 1)) mod 32) =
          CROCKFORD ! (?P div 2 ^ (?T - 5 * (Suc i + 1)) mod 32)"
        unfolding e by (simp only: mod_pow_div)
    qed
    finally show ?thesis .
  qed
  have "[0..<Suc n] = 0 # map Suc [0..<n]" by (simp add: upt_conv_Cons map_Suc_upt del: upt_Suc)
  then show ?case using r(1) low IH by (simp add: comp_def del: upt_Suc)
qed simp

lemma encodeCrockford_value:
  assumes "\<forall>b \<in> set bs. b < 256" "5 * n \<le> 8 * length bs"
  shows "encodeCrockford bs n = map (\<lambda>i. CROCKFORD ! (byte_value bs div 2 ^ (8 * length bs - 5 * (i + 1)) mod 32)) [0..<n]"
  using encode_chars_value [of 0 bs n 0] assms by (simp add: encodeCrockford_def)

lemma same_leading_digits:
  fixes V W :: nat
  assumes "V < 2 ^ 256" "W < 2 ^ 256" "k \<le> 25"
    "\<forall>i < k. V div 2 ^ (256 - 5 * (i + 1)) mod 32 = W div 2 ^ (256 - 5 * (i + 1)) mod 32"
  shows "V div 2 ^ (256 - 5 * k) = W div 2 ^ (256 - 5 * k)"
  using assms(3,4)
proof (induction k)
  case (Suc k)
  let ?e = "256 - 5 * (k + 1)"
  have split: "X div 2 ^ ?e = X div 2 ^ (256 - 5 * k) * 32 + X div 2 ^ ?e mod 32" for X :: nat
  proof -
    have "(2::nat) ^ (256 - 5 * k) = 2 ^ ?e * 32"
      using Suc.prems(1) power_add [of "2::nat" ?e 5] by simp
    then have "X div 2 ^ (256 - 5 * k) = X div 2 ^ ?e div 32" by (simp add: div_mult2_eq)
    then show ?thesis by simp
  qed
  have "V div 2 ^ ?e = V div 2 ^ (256 - 5 * k) * 32 + V div 2 ^ ?e mod 32" by (rule split)
  also have "V div 2 ^ (256 - 5 * k) = W div 2 ^ (256 - 5 * k)" using Suc by simp
  also have "V div 2 ^ ?e mod 32 = W div 2 ^ ?e mod 32" using Suc.prems(2) by simp
  also have "W div 2 ^ (256 - 5 * k) * 32 + W div 2 ^ ?e mod 32 = W div 2 ^ ?e" by (rule split [symmetric])
  finally show ?case by simp
qed (use assms(1,2) in simp)

abbreviation id_text :: "string option \<Rightarrow> string option \<Rightarrow> string \<Rightarrow> string" where
  "id_text parent filename hash \<equiv> js_join NUL (id_fields parent filename hash)"

text \<open>What a SHA-256 digest is: 32 bytes.\<close>

definition digest_bytes :: "nat list \<Rightarrow> bool" where
  "digest_bytes d \<longleftrightarrow> length d = 32 \<and> (\<forall>b \<in> set d. b < 256)"

lemma contentAddressedId_value:
  assumes "digest_bytes (sha256 (id_text parent filename hash))"
  shows "contentAddressedId sha256 parent filename hash = CHR ''Z'' # map (\<lambda>i.
    CROCKFORD ! (byte_value (sha256 (id_text parent filename hash)) div 2 ^ (256 - 5 * (i + 1)) mod 32)) [0..<25]"
  using assms encodeCrockford_value [of "sha256 (id_text parent filename hash)" HASH_CHARS]
  by (simp add: contentAddressedId_def CONTENT_ID_PREFIX_def HASH_CHARS_def digest_bytes_def)

section \<open>What an id and a grant guarantee\<close>

text \<open>
  C20. A content-addressed id is the prefix \<open>Z\<close> and 25 characters that spell, big-endian and five
  bits each, the leading 125 bits of the SHA-256 of its inputs; the encoder's 32-bit buffer, which
  overflows on every digest, never loses a bit that is still to be written. So every id has the one
  26-character shape the columns and indexes expect.\<close>

theorem content_id_is_base32_of_digest:
  assumes "digest_bytes (sha256 (id_text parent filename hash))"
  shows "contentAddressedId sha256 parent filename hash = CHR ''Z'' # map (\<lambda>i.
      CROCKFORD ! (byte_value (sha256 (id_text parent filename hash)) div 2 ^ (256 - 5 * (i + 1)) mod 32)) [0..<25] \<and>
    isContentAddressedId (contentAddressedId sha256 parent filename hash)"
  by (rule conjI [OF contentAddressedId_value [of sha256 parent filename hash, OF assms] conjunct1 [OF contentAddressedId_shape]])

theorem content_id_is_base32_of_digest_witness:
  "isContentAddressedId (contentAddressedId (\<lambda>t. 255 # replicate 30 0 @ [length t mod 256]) None (Some ''a'') ''b'')"
  by (rule content_id_is_base32_of_digest [THEN conjunct2]) (simp add: digest_bytes_def)

text \<open>
  Two records made on different nodes get the same id exactly when they agree on the parent, the
  filename (a missing one reads as the empty one) and the content hash, as long as the two texts do
  not collide in the 125 digest bits an id carries. Separating the fields by NUL is what keeps a
  two-field text from reading as a three-field one.\<close>

theorem content_ids_agree_exactly_on_equal_inputs:
  assumes nul: "NUL \<notin> set hash" "\<forall>f \<in> set_option filename. NUL \<notin> set f" "\<forall>p \<in> set_option parent. NUL \<notin> set p"
      "NUL \<notin> set hash'" "\<forall>f \<in> set_option filename'. NUL \<notin> set f" "\<forall>p \<in> set_option parent'. NUL \<notin> set p"
    and digests: "digest_bytes (sha256 (id_text parent filename hash))" "digest_bytes (sha256 (id_text parent' filename' hash'))"
    and no_collision: "byte_value (sha256 (id_text parent filename hash)) div 2 ^ 131
        = byte_value (sha256 (id_text parent' filename' hash')) div 2 ^ 131 \<Longrightarrow>
      id_text parent filename hash = id_text parent' filename' hash'"
  shows "contentAddressedId sha256 parent filename hash = contentAddressedId sha256 parent' filename' hash' \<longleftrightarrow>
    parent = parent' \<and> hash = hash' \<and>
    (case filename of None \<Rightarrow> [] | Some f \<Rightarrow> f) = (case filename' of None \<Rightarrow> [] | Some f \<Rightarrow> f)"
    (is "?ids \<longleftrightarrow> ?inputs")
proof
  assume ?ids
  let ?V = "byte_value (sha256 (id_text parent filename hash))"
  let ?W = "byte_value (sha256 (id_text parent' filename' hash'))"
  have bound: "?V < 2 ^ 256" "?W < 2 ^ 256"
    using digests byte_value_less by (force simp: digest_bytes_def)+
  have inj: "x < 32 \<Longrightarrow> y < 32 \<Longrightarrow> CROCKFORD ! x = CROCKFORD ! y \<Longrightarrow> x = y" for x y
    by (subst (asm) nth_eq_iff_index_eq) (simp_all add: CROCKFORD_def)
  have "\<forall>i < 25. ?V div 2 ^ (256 - 5 * (i + 1)) mod 32 = ?W div 2 ^ (256 - 5 * (i + 1)) mod 32"
    using \<open>?ids\<close> unfolding contentAddressedId_value [of sha256 parent filename hash, OF digests(1)]
      contentAddressedId_value [of sha256 parent' filename' hash', OF digests(2)]
    by (intro allI impI inj) (simp_all add: map_eq_conv del: upt_Suc)
  then have "?V div 2 ^ 131 = ?W div 2 ^ 131" using same_leading_digits [OF bound, of 25] by simp
  then show ?inputs by (rule id_text_inject [OF nul no_collision])
next
  assume ?inputs
  then have "id_fields parent filename hash = id_fields parent' filename' hash'" by (auto simp: id_fields_def)
  then show ?ids by (simp add: contentAddressedId_def)
qed

theorem content_ids_agree_exactly_on_equal_inputs_witness:
  "contentAddressedId (\<lambda>t. of_char (last t) # replicate 31 0) None (Some ''a'') ''b''
     \<noteq> contentAddressedId (\<lambda>t. of_char (last t) # replicate 31 0) (Some ''a'') None ''c''"
proof -
  have "(of_char (last (id_text None (Some ''a'') ''b'')) :: nat) = 98"
    "(of_char (last (id_text (Some ''a'') None ''c'')) :: nat) = 99"
    by (simp_all add: id_fields_def)
  then show ?thesis
    using content_ids_agree_exactly_on_equal_inputs [of "''b''" "Some ''a''" None "''c''" None "Some ''a''"
        "\<lambda>t. of_char (last t) # replicate 31 0"]
    by (simp add: digest_bytes_def)
qed

text \<open>
  The access gate grants exactly what the app's rows say: reading or writing a type needs a row
  for that type (a read-write row to write), a category is readable or writable when some type of
  the category is, metadata is writable only through a row that allows it, and an app with the
  universal grant may do everything.\<close>

theorem grants_say_what_the_rows_say:
  "canRead (buildAccessGrants rows all) ty = (all \<or> ty \<in> grant_typeId ` set rows) \<and>
   canWrite (buildAccessGrants rows all) ty = (all \<or> ty \<in> grant_typeId ` {r \<in> set rows. grant_access r = ReadWrite}) \<and>
   canReadCategory (buildAccessGrants rows all) cat = (all \<or> cat \<in> (typeCategory \<circ> grant_typeId) ` set rows) \<and>
   canWriteCategory (buildAccessGrants rows all) cat =
     (all \<or> cat \<in> (typeCategory \<circ> grant_typeId) ` {r \<in> set rows. grant_access r = ReadWrite}) \<and>
   canWriteMetadataCategory (buildAccessGrants rows all) cat =
     (all \<or> cat \<in> (typeCategory \<circ> grant_typeId) ` {r \<in> set rows. grant_metadataWrite r})"
  by (auto simp: grants_by_type)

end
