(* ===== verification/Object_Keys.thy ===== *)
theory Object_Keys
  imports Core_Types
begin

text \<open>
  Object-storage keys: \<open>packages/protocol-primitives/src/storage/object-keys.ts\<close>.

  Two namespaces, \<open>shared/user/category/shard/hash\<close> and \<open>apps/app/user/syncable/...\<close>. The lemmas
  show that the readers recover what the builders wrote, that rebinding a library moves a key to
  exactly the new user's segment and nothing else, and that no app key leaves its own prefix.
\<close>

abbreviation slash :: char where "slash \<equiv> CHR ''/''"

definition LOCAL_USER_SEGMENT :: string where
  "LOCAL_USER_SEGMENT = ''local''"

definition segment_char :: "char \<Rightarrow> bool" where
  "segment_char c \<longleftrightarrow>
     (let n = (of_char c :: nat)
      in 65 \<le> n \<and> n \<le> 90 \<or> 97 \<le> n \<and> n \<le> 122 \<or> 48 \<le> n \<and> n \<le> 57 \<or> c = CHR ''_'' \<or> c = CHR ''-'')"

text \<open>\<open>USER_SEGMENT_PATTERN\<close>: one to 64 letters, digits, underscores and dashes.\<close>

definition user_segment :: "string \<Rightarrow> bool" where
  "user_segment s \<longleftrightarrow> 1 \<le> length s \<and> length s \<le> 64 \<and> list_all segment_char s"

definition checkUserSegment :: "string \<Rightarrow> string \<Rightarrow> js_error + unit" where
  "checkUserSegment fn userId =
     (if user_segment userId then Inr () else Inl (JsError (fn @ '': invalid user segment'')))"

definition dataRecordObjectKey :: "string \<Rightarrow> string \<Rightarrow> string \<Rightarrow> js_error + string" where
  "dataRecordObjectKey userId ty hash =
     (case checkUserSegment ''dataRecordObjectKey'' userId of
        Inl e \<Rightarrow> Inl e
      | Inr _ \<Rightarrow> Inr (''shared/'' @ userId @ ''/'' @ category_id (typeCategory ty) @ ''/''
                  @ take 2 hash @ ''/'' @ hash))"

definition hash_char :: "char \<Rightarrow> bool" where
  "hash_char c \<longleftrightarrow> (let n = (of_char c :: nat) in 97 \<le> n \<and> n \<le> 102 \<or> 48 \<le> n \<and> n \<le> 57)"

definition sha256_hex :: "string \<Rightarrow> bool" where
  "sha256_hex s \<longleftrightarrow> length s = 64 \<and> list_all hash_char s"

definition contentHashFromDataRecordObjectKey :: "string \<Rightarrow> string option" where
  "contentHashFromDataRecordObjectKey key =
     (case js_split slash key of
        [namespace, userId, _, shard, hash] \<Rightarrow>
          if namespace \<noteq> ''shared'' then None
          else if \<not> user_segment userId then None
          else if \<not> sha256_hex hash then None
          else if shard \<noteq> take 2 hash then None
          else Some hash
      | _ \<Rightarrow> None)"

definition userIdFromObjectKey :: "string \<Rightarrow> string option" where
  "userIdFromObjectKey key =
     (let segments = js_split slash key;
          candidate =
            (if segments ! 0 = ''shared'' \<and> length segments \<ge> 3 then Some (segments ! 1)
             else if segments ! 0 = ''apps'' \<and> length segments \<ge> 4 \<and> segments ! 3 = ''syncable''
             then Some (segments ! 2)
             else None)
      in case candidate of Some c \<Rightarrow> if user_segment c then Some c else None | None \<Rightarrow> None)"

definition categoryFromSharedObjectKey :: "string \<Rightarrow> string option" where
  "categoryFromSharedObjectKey key =
     (let segments = js_split slash key
      in if segments ! 0 \<noteq> ''shared'' \<or> length segments < 4 then None else Some (segments ! 2))"

definition rebindObjectKey :: "string \<Rightarrow> string \<Rightarrow> js_error + string" where
  "rebindObjectKey key toUserId =
     (case checkUserSegment ''rebindObjectKey'' toUserId of
        Inl e \<Rightarrow> Inl e
      | Inr _ \<Rightarrow>
          (let segments = js_split slash key
           in if userIdFromObjectKey key = None then Inr key
              else if segments ! 0 = ''shared'' then Inr (js_join slash (segments[1 := toUserId]))
              else Inr (js_join slash (segments[2 := toUserId]))))"

definition sharedObjectPrefix :: "string \<Rightarrow> js_error + string" where
  "sharedObjectPrefix userId =
     (case checkUserSegment ''sharedObjectPrefix'' userId of
        Inl e \<Rightarrow> Inl e | Inr _ \<Rightarrow> Inr (''shared/'' @ userId @ ''/''))"

text \<open>\<open>\\s\<close> over ASCII: the five control spaces and the space.\<close>

definition js_space :: "char \<Rightarrow> bool" where
  "js_space c \<longleftrightarrow> (let n = (of_char c :: nat) in 9 \<le> n \<and> n \<le> 13 \<or> n = 32 \<or> n = 160)"

definition appSyncableObjectPrefix :: "string \<Rightarrow> string \<Rightarrow> js_error + string" where
  "appSyncableObjectPrefix appId userId =
     (if appId = [] \<or> (\<exists>c \<in> set appId. c = slash \<or> js_space c)
      then Inl (JsError ''appSyncableObjectPrefix: invalid appId'')
      else case checkUserSegment ''appSyncableObjectPrefix'' userId of
        Inl e \<Rightarrow> Inl e | Inr _ \<Rightarrow> Inr (''apps/'' @ appId @ ''/'' @ userId @ ''/syncable/''))"

definition appSyncableObjectKey :: "string \<Rightarrow> string \<Rightarrow> string \<Rightarrow> js_error + string" where
  "appSyncableObjectKey appId userId subKey =
     (case appSyncableObjectPrefix appId userId of
        Inl e \<Rightarrow> Inl e
      | Inr prefix \<Rightarrow>
          (let relative = (if js_starts_with subKey prefix then drop (length prefix) subKey else subKey)
           in if js_starts_with relative ''/''
              then Inl (JsError ''appSyncableObjectKey: subKey must not start with a slash'')
              else if ''..'' \<in> set (js_split slash relative)
              then Inl (JsError ''appSyncableObjectKey: subKey must not contain ..'')
              else Inr (prefix @ relative)))"

section \<open>Reading keys back\<close>

lemma user_segment_no_slash: "user_segment u \<Longrightarrow> slash \<notin> set u"
  by (auto simp: user_segment_def list_all_iff segment_char_def Let_def)

lemma hash_no_slash: "sha256_hex h \<Longrightarrow> slash \<notin> set h"
  by (auto simp: sha256_hex_def list_all_iff hash_char_def Let_def)

lemma split_step: "slash \<notin> set p \<Longrightarrow> js_split slash (p @ slash # s) = p # js_split slash s"
  using js_split_append [of slash p s] by simp

lemma checkUserSegment_Inr: "checkUserSegment fn u = Inr () \<longleftrightarrow> user_segment u"
  by (simp add: checkUserSegment_def)

lemma dataRecordObjectKey_ok: "user_segment u \<Longrightarrow> dataRecordObjectKey u ty h =
    Inr (''shared/'' @ u @ ''/'' @ category_id (typeCategory ty) @ ''/'' @ take 2 h @ ''/'' @ h)"
  by (simp add: dataRecordObjectKey_def checkUserSegment_def)

lemma split_record_key:
  assumes "user_segment u" "slash \<notin> set h"
  shows "js_split slash (''shared/'' @ u @ ''/'' @ category_id (typeCategory ty) @ ''/'' @ take 2 h @ ''/'' @ h)
    = [''shared'', u, category_id (typeCategory ty), take 2 h, h]"
proof -
  have h2: "slash \<notin> set (take 2 h)" using assms(2) by (auto dest: in_set_takeD)
  show ?thesis
    by (simp add: split_step [OF user_segment_no_slash [OF assms(1)]]
        split_step [OF category_id_no_slash] split_step [OF h2] js_split_no_sep [OF assms(2)])
qed

lemma record_key_roundtrip:
  assumes "user_segment u" "sha256_hex h" "dataRecordObjectKey u ty h = Inr key"
  shows "contentHashFromDataRecordObjectKey key = Some h \<and> userIdFromObjectKey key = Some u \<and>
    categoryFromSharedObjectKey key = Some (category_id (typeCategory ty))"
proof -
  have key: "key = ''shared/'' @ u @ ''/'' @ category_id (typeCategory ty) @ ''/'' @ take 2 h @ ''/'' @ h"
    using assms(3) dataRecordObjectKey_ok [OF assms(1)] by simp
  note split = split_record_key [OF assms(1) hash_no_slash [OF assms(2)], of ty]
  show ?thesis
    unfolding contentHashFromDataRecordObjectKey_def userIdFromObjectKey_def
      categoryFromSharedObjectKey_def key split
    using assms(1,2) by simp
qed

text \<open>A key the reader accepts is one the builder writes, for the category it names.\<close>

lemma content_hash_key_form:
  assumes "contentHashFromDataRecordObjectKey key = Some h"
  shows "\<exists>u cat. user_segment u \<and> sha256_hex h \<and>
    key = ''shared/'' @ u @ ''/'' @ cat @ ''/'' @ take 2 h @ ''/'' @ h"
proof -
  obtain u cat where s: "js_split slash key = [''shared'', u, cat, take 2 h, h]" "user_segment u" "sha256_hex h"
    using assms unfolding contentHashFromDataRecordObjectKey_def
    by (auto split: list.splits if_splits)
  have "key = js_join slash (js_split slash key)" by (simp add: js_join_split)
  then show ?thesis using s by auto
qed

lemma js_split_rejoin:
  assumes "js_split slash key = ps" "n < length ps" "slash \<notin> set p"
  shows "js_split slash (js_join slash (ps[n := p])) = ps[n := p]"
proof (rule js_split_join)
  show "ps[n := p] \<noteq> []" using assms(2) by auto
  show "\<forall>q \<in> set (ps[n := p]). slash \<notin> set q"
    using assms(1,3) js_split_parts [of _ slash key] set_update_subset_insert [of ps n p] by blast
qed

text \<open>Rebinding changes the user segment to the new user and every other segment not at all.\<close>

lemma rebind_user:
  assumes "user_segment to_user" "userIdFromObjectKey key = Some u" "rebindObjectKey key to_user = Inr key'"
  shows "userIdFromObjectKey key' = Some to_user \<and>
    (\<exists>n. n < length (js_split slash key) \<and> js_split slash key ! n = u \<and>
       js_split slash key' = (js_split slash key)[n := to_user])"
proof -
  let ?ps = "js_split slash key"
  show ?thesis
  proof (cases "?ps ! 0 = ''shared''")
    case True
    then have n: "1 < length ?ps" and len: "length ?ps \<ge> 3" and u: "?ps ! 1 = u"
      using assms(2) by (auto simp: userIdFromObjectKey_def Let_def split: if_splits option.splits)
    have key': "key' = js_join slash (?ps[1 := to_user])"
      using assms True by (simp add: rebindObjectKey_def checkUserSegment_def Let_def)
    have split: "js_split slash key' = ?ps[1 := to_user]"
      unfolding key' by (rule js_split_rejoin [OF refl n user_segment_no_slash [OF assms(1)]])
    then have "userIdFromObjectKey key' = Some to_user"
      using assms(1) True len n by (simp add: userIdFromObjectKey_def Let_def)
    then show ?thesis using n u split by blast
  next
    case False
    then have n: "2 < length ?ps" and len: "length ?ps \<ge> 4" and u: "?ps ! 2 = u"
        and apps: "?ps ! 0 = ''apps''" "?ps ! 3 = ''syncable''"
      using assms(2) by (auto simp: userIdFromObjectKey_def Let_def split: if_splits option.splits)
    have key': "key' = js_join slash (?ps[2 := to_user])"
      using assms False by (simp add: rebindObjectKey_def checkUserSegment_def Let_def)
    have split: "js_split slash key' = ?ps[2 := to_user]"
      unfolding key' by (rule js_split_rejoin [OF refl n user_segment_no_slash [OF assms(1)]])
    then have "userIdFromObjectKey key' = Some to_user"
      using assms(1) False len n apps by (simp add: userIdFromObjectKey_def Let_def)
    then show ?thesis using n u split by blast
  qed
qed

text \<open>An app key is under its own prefix, and asking for it again gives it back.\<close>

lemma js_starts_with_iff: "js_starts_with s p \<longleftrightarrow> (\<exists>t. s = p @ t)"
  unfolding js_starts_with_def by (metis append_eq_conv_conj append_take_drop_id)

lemma app_key_confined:
  assumes "appSyncableObjectKey appId userId sub = Inr key"
  shows "\<exists>prefix rest. appSyncableObjectPrefix appId userId = Inr prefix \<and> key = prefix @ rest \<and>
    \<not> js_starts_with rest ''/'' \<and> ''..'' \<notin> set (js_split slash rest)"
  using assms by (auto simp: appSyncableObjectKey_def Let_def split: sum.splits if_splits)

lemma app_key_idempotent:
  assumes "appSyncableObjectKey appId userId sub = Inr key"
  shows "appSyncableObjectKey appId userId key = Inr key"
proof -
  obtain prefix rest where p: "appSyncableObjectPrefix appId userId = Inr prefix" "key = prefix @ rest"
      "\<not> js_starts_with rest ''/''" "''..'' \<notin> set (js_split slash rest)"
    using app_key_confined [OF assms] by blast
  show ?thesis using p(3,4) by (simp add: appSyncableObjectKey_def p(1,2))
qed

lemma app_key_user:
  assumes "appSyncableObjectKey appId userId sub = Inr key"
  shows "userIdFromObjectKey key = Some userId"
proof -
  obtain prefix rest where p: "appSyncableObjectPrefix appId userId = Inr prefix" "key = prefix @ rest"
    using app_key_confined [OF assms] by blast
  then have ok: "slash \<notin> set appId" "user_segment userId"
      and prefix: "prefix = ''apps/'' @ appId @ ''/'' @ userId @ ''/syncable/''"
    by (auto simp: appSyncableObjectPrefix_def checkUserSegment_def split: if_splits)
  have "js_split slash key = ''apps'' # appId # userId # ''syncable'' # js_split slash rest"
    using ok user_segment_no_slash [OF ok(2)] by (simp add: p(2) prefix split_step)
  then show ?thesis using ok(2) by (simp add: userIdFromObjectKey_def Let_def)
qed

section \<open>What a key guarantees\<close>

text \<open>
  C22. A record's object key carries what every reader of keys parses back: the content hash, the
  user it belongs to and the category of its type.\<close>

theorem record_key_parses_back:
  assumes "user_segment u" "sha256_hex h" "dataRecordObjectKey u ty h = Inr key"
  shows "contentHashFromDataRecordObjectKey key = Some h \<and> userIdFromObjectKey key = Some u \<and>
    categoryFromSharedObjectKey key = Some (category_id (typeCategory ty))"
  using assms by (rule record_key_roundtrip)

theorem record_key_parses_back_witness:
  "\<exists>key. dataRecordObjectKey ''ada'' ''image/jpeg'' (replicate 64 CHR ''0'') = Inr key \<and>
     contentHashFromDataRecordObjectKey key = Some (replicate 64 CHR ''0'')"
proof -
  have u: "user_segment ''ada''" by (simp add: user_segment_def segment_char_def LOCAL_USER_SEGMENT_def)
  have h: "sha256_hex (replicate 64 CHR ''0'')" by (simp add: sha256_hex_def hash_char_def list_all_iff)
  from record_key_parses_back [OF u h dataRecordObjectKey_ok [OF u]] dataRecordObjectKey_ok [OF u]
  show ?thesis by blast
qed

text \<open>
  A key the content-hash reader accepts is confined to the form the builder writes: the shared
  root, one valid user segment, one category segment, the two-character fan-out of the hash and the
  hash itself, with nothing before, between or after.\<close>

theorem accepted_key_has_builder_form:
  assumes "contentHashFromDataRecordObjectKey key = Some h"
  shows "\<exists>u cat. user_segment u \<and> sha256_hex h \<and> slash \<notin> set cat \<and>
    key = ''shared/'' @ u @ ''/'' @ cat @ ''/'' @ take 2 h @ ''/'' @ h"
proof -
  obtain u cat where s: "js_split slash key = [''shared'', u, cat, take 2 h, h]" "user_segment u" "sha256_hex h"
    using assms unfolding contentHashFromDataRecordObjectKey_def by (auto split: list.splits if_splits)
  have "key = js_join slash (js_split slash key)" by (simp add: js_join_split)
  moreover have "slash \<notin> set cat" using s(1) by (intro js_split_parts [of cat slash key]) simp
  ultimately show ?thesis using s by auto
qed

theorem accepted_key_has_builder_form_witness:
  "\<exists>key u cat. dataRecordObjectKey ''ada'' ''image/jpeg'' (replicate 64 CHR ''0'') = Inr key \<and>
     key = ''shared/'' @ u @ ''/'' @ cat @ ''/'' @ take 2 (replicate 64 CHR ''0'') @ ''/'' @ replicate 64 CHR ''0''"
proof -
  have u: "user_segment ''ada''" by (simp add: user_segment_def segment_char_def LOCAL_USER_SEGMENT_def)
  have h: "sha256_hex (replicate 64 CHR ''0'')" by (simp add: sha256_hex_def hash_char_def list_all_iff)
  note key = dataRecordObjectKey_ok [OF u, of "''image/jpeg''" "replicate 64 CHR ''0''"]
  from accepted_key_has_builder_form [OF conjunct1 [OF record_key_roundtrip [OF u h key]]] key
  show ?thesis by blast
qed

text \<open>
  Rebinding a key to another user replaces the segment that names its user and no other: the
  result belongs to the new user, is otherwise the same key, and cannot be steered elsewhere by the
  user id it is given.\<close>

theorem rebind_moves_only_the_user:
  assumes "user_segment to_user" "userIdFromObjectKey key = Some u" "rebindObjectKey key to_user = Inr key'"
  shows "userIdFromObjectKey key' = Some to_user \<and>
    (\<exists>n. n < length (js_split slash key) \<and> js_split slash key ! n = u \<and>
       js_split slash key' = (js_split slash key)[n := to_user])"
  using assms by (rule rebind_user)

theorem rebind_moves_only_the_user_witness:
  "userIdFromObjectKey ''shared/bob/image/ab/abc'' = Some ''bob''"
  using rebind_moves_only_the_user [of "''bob''" "''shared/ada/image/ab/abc''" "''ada''" "''shared/bob/image/ab/abc''"]
  by (simp add: user_segment_def segment_char_def userIdFromObjectKey_def rebindObjectKey_def checkUserSegment_def)

text \<open>
  C21. An app cannot name an object outside its own area: a key built for an app and a user lies
  under that app's prefix for that user, never climbs out of it, belongs to that user, and building
  a key from one already built gives it back unchanged.\<close>

theorem app_key_stays_in_its_area:
  assumes "appSyncableObjectKey appId userId sub = Inr key"
  shows "(\<exists>prefix rest. appSyncableObjectPrefix appId userId = Inr prefix \<and> key = prefix @ rest \<and>
      \<not> js_starts_with rest ''/'' \<and> ''..'' \<notin> set (js_split slash rest)) \<and>
    userIdFromObjectKey key = Some userId \<and> appSyncableObjectKey appId userId key = Inr key"
  using app_key_confined [OF assms] app_key_user [OF assms] app_key_idempotent [OF assms] by blast

theorem app_key_stays_in_its_area_witness:
  "userIdFromObjectKey ''apps/notes/ada/syncable/a/b'' = Some ''ada''"
  using app_key_stays_in_its_area [of "''notes''" "''ada''" "''a/b''" "''apps/notes/ada/syncable/a/b''"]
  by (simp add: appSyncableObjectKey_def appSyncableObjectPrefix_def user_segment_def segment_char_def
      checkUserSegment_def js_starts_with_def js_space_def)

end
