(* ===== verification/Stand_Ins.thy ===== *)
theory Stand_Ins
  imports Records
begin

text \<open>
  Stand-in standards and rules: \<open>packages/protocol-primitives/src/stand-ins/standards.ts\<close> and
  \<open>stand-ins/rules.ts\<close>.

  A fidelity is an integer; a value that comes from a request is a \<open>js_value\<close>. A refusal keeps its
  code and HTTP status; the sentence for people is left out. The standards are a function of the
  stand-in category, as every rule takes them as an argument. The lemmas show what an accepted
  write guarantees, that the slot column separates exactly what the unique index must separate,
  that a read at a size is answered by that size or by the top, and that the library's threshold
  setting is read by no rule about a stored original.
\<close>

section \<open>Standards\<close>

datatype stand_in_category = SI_image | SI_video

definition STAND_IN_CATEGORIES :: "stand_in_category list" where
  "STAND_IN_CATEGORIES = [SI_image, SI_video]"

fun as_category :: "stand_in_category \<Rightarrow> category" where
  "as_category SI_image = Cat_image"
| "as_category SI_video = Cat_video"

definition standInCategory :: "category \<Rightarrow> stand_in_category option" where
  "standInCategory c = find (\<lambda>s. as_category s = c) STAND_IN_CATEGORIES"

record advisory_long_edges =
  edge_canonical :: js_value
  edge_bySize :: "(int, js_value) js_map"

record category_standards =
  std_category :: stand_in_category
  allowedTypes :: "string list"
  std_threshold :: int
  standardSizes :: "int list"
  sizeFloorBytes :: nat
  selfCanonicalAllowed :: bool
  advisoryLongEdges :: "advisory_long_edges option"

type_synonym standards = "stand_in_category \<Rightarrow> category_standards"

definition ARCHIVE_SIZE_FLOOR_BYTES :: nat where
  "ARCHIVE_SIZE_FLOOR_BYTES = 1024 * 1024"

fun DEFAULT_STAND_IN_STANDARDS :: standards where
  "DEFAULT_STAND_IN_STANDARDS SI_image =
     \<lparr>std_category = SI_image, allowedTypes = [''image/avif''], std_threshold = 4272,
      standardSizes = [320, 640, 1280, 2560], sizeFloorBytes = ARCHIVE_SIZE_FLOOR_BYTES,
      selfCanonicalAllowed = True, advisoryLongEdges = None\<rparr>"
| "DEFAULT_STAND_IN_STANDARDS SI_video =
     \<lparr>std_category = SI_video, allowedTypes = [''video/webm''], std_threshold = 4800,
      standardSizes = [2000], sizeFloorBytes = ARCHIVE_SIZE_FLOOR_BYTES,
      selfCanonicalAllowed = False,
      advisoryLongEdges = Some \<lparr>edge_canonical = js_int 1920, edge_bySize = [(2000, js_int 1280)]\<rparr>\<rparr>"

type_synonym sync_down_ceilings = "stand_in_category \<Rightarrow> int option"

definition isPositiveInteger :: "js_value \<Rightarrow> bool" where
  "isPositiveInteger v = (case js_integer_of v of Some n \<Rightarrow> n > 0 | None \<Rightarrow> False)"

definition isCeiling :: "js_value \<Rightarrow> bool" where
  "isCeiling v \<longleftrightarrow> v = JsNull \<or> isPositiveInteger v"

text \<open>
  \<open>resolveSyncDownCeilings\<close> over a configured object given by its lookup; an absent entry reads as
  undefined.
\<close>

definition resolveSyncDownCeilings :: "(string \<Rightarrow> js_value) option \<Rightarrow> sync_down_ceilings \<Rightarrow> sync_down_ceilings" where
  "resolveSyncDownCeilings configured defaults =
     (case configured of
        None \<Rightarrow> defaults
      | Some values \<Rightarrow>
          (\<lambda>c. let v = values (category_id (as_category c))
               in if v = JsUndefined then defaults c
                  else if isCeiling v then (if v = JsNull then None else js_integer_of v)
                  else defaults c))"

definition ceilingChoices :: "category_standards \<Rightarrow> int option \<Rightarrow> int list" where
  "ceilingChoices s current =
     js_sort (\<lambda>a b. a - b)
       (remdups (standardSizes s @ [std_threshold s] @ (case current of None \<Rightarrow> [] | Some c \<Rightarrow> [c])))"

fun CANONICAL_THRESHOLD_RANGE :: "stand_in_category \<Rightarrow> int \<times> int" where
  "CANONICAL_THRESHOLD_RANGE SI_image = (1280, 16384)"
| "CANONICAL_THRESHOLD_RANGE SI_video = (1000, 50000)"

datatype standards_problem =
  ThresholdNotPositive | ThresholdOutOfRange | NoAllowedTypes | TypeOutsideCategory string
| SizeNotPositive int | SizesMustAscend | CanonicalEdgeOutOfRange | SizeWithoutEdge int | EdgeOutOfRange int

fun size_problems :: "int \<Rightarrow> int list \<Rightarrow> standards_problem list" where
  "size_problems previous [] = []"
| "size_problems previous (sz # sizes) =
     (if sz > 0 then [] else [SizeNotPositive sz])
     @ (if sz \<le> previous then [SizesMustAscend] else [])
     @ size_problems sz sizes"

definition edge_in_range :: "js_value \<Rightarrow> bool" where
  "edge_in_range v = (case js_integer_of v of Some n \<Rightarrow> 320 \<le> n \<and> n \<le> 7680 | None \<Rightarrow> False)"

definition edge_problems :: "category_standards \<Rightarrow> standards_problem list" where
  "edge_problems s =
     (case advisoryLongEdges s of
        None \<Rightarrow> []
      | Some edges \<Rightarrow>
          (if edge_in_range (edge_canonical edges) then [] else [CanonicalEdgeOutOfRange])
          @ concat (map (\<lambda>size. case js_get (edge_bySize edges) size of
                None \<Rightarrow> [SizeWithoutEdge size]
              | Some v \<Rightarrow> if edge_in_range v then [] else [EdgeOutOfRange size]) (standardSizes s)))"

definition category_problems :: "stand_in_category \<Rightarrow> category_standards \<Rightarrow> standards_problem list" where
  "category_problems c s =
     (if std_threshold s \<le> 0 then [ThresholdNotPositive]
      else if std_threshold s < fst (CANONICAL_THRESHOLD_RANGE c) \<or> std_threshold s > snd (CANONICAL_THRESHOLD_RANGE c)
      then [ThresholdOutOfRange] else [])
     @ (if allowedTypes s = [] then [NoAllowedTypes] else [])
     @ concat (map (\<lambda>ty. if js_starts_with ty (category_id (as_category c) @ ''/'') then [] else [TypeOutsideCategory ty])
         (allowedTypes s))
     @ size_problems 0 (standardSizes s)
     @ edge_problems s"

definition validateStandInStandards :: "standards \<Rightarrow> (stand_in_category \<times> standards_problem) list" where
  "validateStandInStandards st =
     concat (map (\<lambda>c. map (Pair c) (category_problems c (st c))) STAND_IN_CATEGORIES)"

section \<open>Originals\<close>

record stand_in_facts =
  sf_id :: string
  sf_type :: string
  sf_parentId :: "string option"
  sf_role :: "stand_in_role option"
  sf_fidelity :: "int option"
  sf_sizeBytes :: nat
  sf_deleted :: bool
  sf_threshold :: "int option"
  sf_selfCanonical :: bool
  sf_key :: string

definition facts_of_record :: "data_record \<Rightarrow> stand_in_facts" where
  "facts_of_record r =
     \<lparr>sf_id = rec_id r, sf_type = rec_type r, sf_parentId = parentId r, sf_role = standInRole r,
      sf_fidelity = fidelity r, sf_sizeBytes = rec_sizeBytes r, sf_deleted = (deletedAt r \<noteq> None),
      sf_threshold = canonicalThreshold r, sf_selfCanonical = selfCanonical r, sf_key = objectStorageKey r\<rparr>"

definition standardsFor :: "string \<Rightarrow> standards \<Rightarrow> category_standards option" where
  "standardsFor ty st = map_option st (standInCategory (typeCategory ty))"

definition isStandInOriginal :: "stand_in_facts \<Rightarrow> bool" where
  "isStandInOriginal r \<longleftrightarrow>
     sf_parentId r = None \<and> sf_role r = None \<and> standInCategory (typeCategory (sf_type r)) \<noteq> None"

definition thresholdOf :: "stand_in_facts \<Rightarrow> standards \<Rightarrow> int option" where
  "thresholdOf r st = (case standardsFor (sf_type r) st of None \<Rightarrow> None | Some _ \<Rightarrow> sf_threshold r)"

definition standardSizesOf :: "stand_in_facts \<Rightarrow> standards \<Rightarrow> int list" where
  "standardSizesOf r st =
     (case (standardsFor (sf_type r) st, thresholdOf r st) of
        (Some s, Some threshold) \<Rightarrow> filter (\<lambda>size. size < threshold) (standardSizes s)
      | _ \<Rightarrow> [])"

definition stampFor :: "string \<Rightarrow> standards \<Rightarrow> bool \<Rightarrow> int option" where
  "stampFor ty st knowsLibraryValue =
     (if \<not> knowsLibraryValue then None else map_option std_threshold (standardsFor ty st))"

datatype original_status =
  Archivable | SelfCanonical | VideoBelowFloor | FidelityUnknown | AwaitingStamp

definition originalStatus :: "stand_in_facts \<Rightarrow> standards \<Rightarrow> original_status option" where
  "originalStatus r st =
     (case standardsFor (sf_type r) st of
        None \<Rightarrow> None
      | Some s \<Rightarrow>
          if sf_selfCanonical r then Some SelfCanonical
          else
            let belowFloor = sf_sizeBytes r \<le> sizeFloorBytes s
            in if belowFloor \<and> selfCanonicalAllowed s then Some SelfCanonical
               else case sf_fidelity r of
                 None \<Rightarrow> Some FidelityUnknown
               | Some f \<Rightarrow>
                   (case thresholdOf r st of
                      None \<Rightarrow> Some AwaitingStamp
                    | Some threshold \<Rightarrow>
                        if \<not> selfCanonicalAllowed s then Some (if belowFloor then VideoBelowFloor else Archivable)
                        else Some (if f > threshold then Archivable else SelfCanonical)))"

definition takesCanonical :: "original_status option \<Rightarrow> bool" where
  "takesCanonical status \<longleftrightarrow> status = Some Archivable \<or> status = Some VideoBelowFloor"

definition expectedCanonicalFidelity :: "stand_in_facts \<Rightarrow> standards \<Rightarrow> int option" where
  "expectedCanonicalFidelity r st =
     (case (thresholdOf r st, sf_fidelity r) of
        (Some threshold, Some f) \<Rightarrow>
          if takesCanonical (originalStatus r st) then Some (min f threshold) else None
      | _ \<Rightarrow> None)"

text \<open>\<open>canonical\<close> is the fidelity of the live canonical stand-in, when there is one.\<close>

definition topFidelity :: "stand_in_facts \<Rightarrow> int option option \<Rightarrow> standards \<Rightarrow> int option" where
  "topFidelity r canonical st =
     (if originalStatus r st = Some SelfCanonical then sf_fidelity r
      else case canonical of
        Some (Some f) \<Rightarrow> Some f
      | _ \<Rightarrow> expectedCanonicalFidelity r st)"

section \<open>The slot column\<close>

definition standInSlot :: "stand_in_facts \<Rightarrow> string option" where
  "standInSlot r =
     (if sf_deleted r then None
      else if sf_parentId r = None then None
      else case sf_role r of
        None \<Rightarrow> None
      | Some Canonical \<Rightarrow> Some ''canonical''
      | Some Smaller \<Rightarrow> map_option js_string_of_int (sf_fidelity r))"

section \<open>Checking a write\<close>

datatype refusal_code =
  InvalidRole | InvalidFidelity | ParentRequired | ParentNotFound | ParentIsStandIn | ParentIsDerived
| ParentNotStandInCategory | TypeNotAllowed | ParentFidelityUnknown | ParentFidelityMismatch
| ParentAwaitsStamp | OriginalTakesNoCanonical | CanonicalFidelityWrong | NotAStandardSize
| ExceedsCanonical | FidelityOnDerivedRecord | FidelityOutsideStandInCategory | CanonicalMatches

type_synonym refusal = "refusal_code \<times> nat"

definition role_of_value :: "js_value \<Rightarrow> stand_in_role option" where
  "role_of_value v =
     (if v = JsStr ''canonical'' then Some Canonical
      else if v = JsStr ''smaller'' then Some Smaller else None)"

record stand_in_write_input =
  wi_type :: string
  wi_role :: js_value
  wi_fidelity :: js_value
  wi_parent :: "stand_in_facts option"
  wi_parentIdGiven :: bool
  wi_reportedParentFidelity :: js_value
  wi_existingCanonical :: "(string \<times> int option) option"
  wi_sizeBytes :: "nat option"
  wi_parentStamp :: "int option"

record stand_in_write_verdict =
  refusals :: "refusal list"
  recordParentFidelity :: "int option"
  verdict_selfCanonical :: bool

definition no_verdict :: "refusal list \<Rightarrow> stand_in_write_verdict" where
  "no_verdict rs = \<lparr>refusals = rs, recordParentFidelity = None, verdict_selfCanonical = False\<rparr>"

text \<open>The parent's fidelity after this write, what to record on the parent, and the refusals.\<close>

definition parent_fidelity_step :: "int option \<Rightarrow> js_value \<Rightarrow> int option \<times> int option \<times> refusal list" where
  "parent_fidelity_step recorded reported =
     (if reported = JsUndefined \<or> reported = JsNull then (recorded, None, [])
      else if \<not> isPositiveInteger reported then (recorded, None, [(InvalidFidelity, 400)])
      else case recorded of
        Some f \<Rightarrow> if Some f \<noteq> js_integer_of reported then (recorded, None, [(ParentFidelityMismatch, 409)])
                  else (recorded, None, [])
      | None \<Rightarrow> (js_integer_of reported, js_integer_of reported, []))"

text \<open>The parent as it will be stored: its stamp, or the one this write would put on it.\<close>

definition judged_original :: "stand_in_facts \<Rightarrow> int option \<Rightarrow> int option \<Rightarrow> stand_in_facts" where
  "judged_original parent pf stamp =
     parent\<lparr>sf_fidelity := pf, sf_threshold := (case sf_threshold parent of Some t \<Rightarrow> Some t | None \<Rightarrow> stamp)\<rparr>"

definition check_canonical ::
  "stand_in_facts \<Rightarrow> standards \<Rightarrow> int \<Rightarrow> (string \<times> int option) option \<Rightarrow> nat option \<Rightarrow> refusal list \<times> bool" where
  "check_canonical original st fid existing sizeBytes =
     (if \<not> takesCanonical (originalStatus original st) then ([(OriginalTakesNoCanonical, 409)], False)
      else if expectedCanonicalFidelity original st \<noteq> Some fid then ([(CanonicalFidelityWrong, 400)], False)
      else if existing \<noteq> None then ([(CanonicalMatches, 409)], False)
      else ([], case sizeBytes of Some n \<Rightarrow> n \<ge> sf_sizeBytes original | None \<Rightarrow> False))"

definition check_smaller ::
  "stand_in_facts \<Rightarrow> standards \<Rightarrow> int \<Rightarrow> (string \<times> int option) option \<Rightarrow> refusal list" where
  "check_smaller original st fid existing =
     (if fid \<in> set (standardSizesOf original st) then [] else [(NotAStandardSize, 400)])
     @ (case topFidelity original (map_option snd existing) st of
          None \<Rightarrow> []
        | Some bound \<Rightarrow> if fid \<ge> bound then [(ExceedsCanonical, 400)] else [])"

definition checkStandInWrite :: "stand_in_write_input \<Rightarrow> standards \<Rightarrow> stand_in_write_verdict" where
  "checkStandInWrite inp st =
     (let r0 = (if role_of_value (wi_role inp) = None then [(InvalidRole, 400)] else [])
             @ (if isPositiveInteger (wi_fidelity inp) then [] else [(InvalidFidelity, 400)])
      in if \<not> wi_parentIdGiven inp then no_verdict (r0 @ [(ParentRequired, 400)])
      else case wi_parent inp of
        None \<Rightarrow> no_verdict (r0 @ [(ParentNotFound, 404)])
      | Some parent \<Rightarrow>
          if sf_deleted parent then no_verdict (r0 @ [(ParentNotFound, 404)])
          else if sf_role parent \<noteq> None then no_verdict (r0 @ [(ParentIsStandIn, 400)])
          else if sf_parentId parent \<noteq> None then no_verdict (r0 @ [(ParentIsDerived, 400)])
          else case standardsFor (sf_type parent) st of
            None \<Rightarrow> no_verdict (r0 @ [(ParentNotStandInCategory, 400)])
          | Some s \<Rightarrow>
              let r1 = (if wi_type inp \<in> set (allowedTypes s) then [] else [(TypeNotAllowed, 400)]);
                  (pf, recordPf, r2) = parent_fidelity_step (sf_fidelity parent) (wi_reportedParentFidelity inp);
                  r3 = (if pf = None then [(ParentFidelityUnknown, 400)] else []);
                  rs = r0 @ r1 @ r2 @ r3
              in if rs \<noteq> [] then no_verdict rs
              else
                let original = judged_original parent pf (wi_parentStamp inp);
                    fid = the (js_integer_of (wi_fidelity inp))
                in if originalStatus original st = Some AwaitingStamp
                   then \<lparr>refusals = [(ParentAwaitsStamp, 409)], recordParentFidelity = recordPf,
                         verdict_selfCanonical = False\<rparr>
                   else
                     let (rs', self) =
                       (if role_of_value (wi_role inp) = Some Canonical
                        then check_canonical original st fid (wi_existingCanonical inp) (wi_sizeBytes inp)
                        else (check_smaller original st fid (wi_existingCanonical inp), False))
                     in if rs' \<noteq> [] then no_verdict rs'
                        else \<lparr>refusals = [], recordParentFidelity = recordPf, verdict_selfCanonical = self\<rparr>)"

definition checkOriginalFidelity :: "string \<Rightarrow> string option \<Rightarrow> js_value \<Rightarrow> refusal list" where
  "checkOriginalFidelity ty parent fid =
     (if fid = JsUndefined \<or> fid = JsNull then []
      else if \<not> isPositiveInteger fid then [(InvalidFidelity, 400)]
      else if parent \<noteq> None then [(FidelityOnDerivedRecord, 400)]
      else if standInCategory (typeCategory ty) = None then [(FidelityOutsideStandInCategory, 400)]
      else [])"

section \<open>The sizes of one original\<close>

datatype size_placement = PlacedHere | PlacedCloud | PlacedMissing

datatype size_role = RoleStandIn stand_in_role | RoleOriginal

record stand_in_size =
  size_fidelity :: int
  size_role :: size_role
  size_recordId :: "string option"
  size_type :: "string option"
  size_objectStorageKey :: "string option"
  size_sizeBytes :: "nat option"
  size_placement :: size_placement

record stand_in_summary =
  sum_category :: stand_in_category
  sum_fidelity :: "int option"
  sum_status :: original_status
  sum_top :: "int option"
  sum_canonicalTarget :: "int option"
  sum_advisoryLongEdges :: "advisory_long_edges option"
  sum_sizes :: "stand_in_size list"
  sum_originalPlacement :: size_placement

definition sizeOf :: "stand_in_facts \<Rightarrow> size_role \<Rightarrow> size_placement \<Rightarrow> stand_in_size" where
  "sizeOf r role placement =
     \<lparr>size_fidelity = the (sf_fidelity r), size_role = role, size_recordId = Some (sf_id r),
      size_type = Some (sf_type r), size_objectStorageKey = Some (sf_key r),
      size_sizeBytes = Some (sf_sizeBytes r), size_placement = placement\<rparr>"

definition missingSize :: "int \<Rightarrow> stand_in_role \<Rightarrow> stand_in_size" where
  "missingSize f role =
     \<lparr>size_fidelity = f, size_role = RoleStandIn role, size_recordId = None, size_type = None,
      size_objectStorageKey = None, size_sizeBytes = None, size_placement = PlacedMissing\<rparr>"

definition live_stand_ins :: "stand_in_facts list \<Rightarrow> stand_in_facts list" where
  "live_stand_ins rs = filter (\<lambda>r. \<not> sf_deleted r \<and> sf_role r \<noteq> None \<and> sf_fidelity r \<noteq> None) rs"

definition smaller_sizes ::
  "(stand_in_facts \<Rightarrow> size_placement) \<Rightarrow> stand_in_facts list \<Rightarrow> (int, stand_in_size) js_map" where
  "smaller_sizes placementOf live =
     fold (\<lambda>r m. if sf_role r = Some Canonical then m
                 else js_set (the (sf_fidelity r)) (sizeOf r (RoleStandIn (the (sf_role r))) (placementOf r)) m)
       live []"

definition standard_sizes ::
  "int option \<Rightarrow> int list \<Rightarrow> (int, stand_in_size) js_map \<Rightarrow> (int, stand_in_size) js_map" where
  "standard_sizes top_size sizes m =
     (case top_size of
        None \<Rightarrow> m
      | Some t \<Rightarrow>
          fold (\<lambda>size m. if size \<ge> t \<or> js_has m size then m else js_set size (missingSize size Smaller) m) sizes m)"

definition top_entry ::
  "(stand_in_facts \<Rightarrow> size_placement) \<Rightarrow> stand_in_facts \<Rightarrow> original_status \<Rightarrow> stand_in_facts option \<Rightarrow> int option
     \<Rightarrow> (int, stand_in_size) js_map \<Rightarrow> (int, stand_in_size) js_map" where
  "top_entry placementOf original status canonical top_size m =
     (if status = SelfCanonical \<and> sf_fidelity original \<noteq> None
      then js_set (the (sf_fidelity original)) (sizeOf original RoleOriginal (placementOf original)) m
      else case canonical of
        Some c \<Rightarrow> js_set (the (sf_fidelity c)) (sizeOf c (RoleStandIn Canonical) (placementOf c)) m
      | None \<Rightarrow> (case top_size of Some t \<Rightarrow> js_set t (missingSize t Canonical) m | None \<Rightarrow> m))"

definition summarizeStandIns ::
  "stand_in_facts \<Rightarrow> stand_in_facts list \<Rightarrow> standards \<Rightarrow> (stand_in_facts \<Rightarrow> size_placement) \<Rightarrow> stand_in_summary option" where
  "summarizeStandIns original standIns st placementOf =
     (case (standardsFor (sf_type original) st, originalStatus original st) of
        (Some s, Some status) \<Rightarrow>
          if \<not> isStandInOriginal original then None
          else
            let live = live_stand_ins standIns;
                canonical = find (\<lambda>r. sf_role r = Some Canonical) live;
                top_size = topFidelity original (map_option sf_fidelity canonical) st;
                m1 = smaller_sizes placementOf live;
                m2 = standard_sizes top_size (standardSizesOf original st) m1;
                m3 = top_entry placementOf original status canonical top_size m2
            in Some \<lparr>sum_category = std_category s, sum_fidelity = sf_fidelity original, sum_status = status,
                     sum_top = top_size, sum_canonicalTarget = expectedCanonicalFidelity original st,
                     sum_advisoryLongEdges = advisoryLongEdges s,
                     sum_sizes = js_sort (\<lambda>a b. size_fidelity a - size_fidelity b) (js_values m3),
                     sum_originalPlacement = placementOf original\<rparr>
      | _ \<Rightarrow> None)"

datatype size_resolution = ServeSize stand_in_size | NotProduced int | NotStandard | UnknownFidelity

text \<open>\<open>None\<close> is a request for \<open>canonical\<close>.\<close>

definition resolveSize :: "stand_in_summary \<Rightarrow> int option \<Rightarrow> standards \<Rightarrow> size_resolution" where
  "resolveSize summary requested st =
     (case sum_top summary of
        None \<Rightarrow> UnknownFidelity
      | Some t \<Rightarrow>
          if (case requested of None \<Rightarrow> True | Some n \<Rightarrow> n \<ge> t)
          then (case find (\<lambda>z. size_fidelity z = t) (sum_sizes summary) of
                  None \<Rightarrow> NotProduced t
                | Some z \<Rightarrow> if size_placement z = PlacedMissing then NotProduced t else ServeSize z)
          else if the requested \<notin> set (standardSizes (st (sum_category summary))) then NotStandard
          else (case find (\<lambda>z. size_fidelity z = the requested) (sum_sizes summary) of
                  None \<Rightarrow> NotProduced (the requested)
                | Some z \<Rightarrow> if size_placement z = PlacedMissing then NotProduced (the requested) else ServeSize z))"

section \<open>Residency\<close>

datatype ceiling_placement = Within | Above | Keep

definition fits_ceiling :: "int option \<Rightarrow> int option \<Rightarrow> bool" where
  "fits_ceiling limit f = (case (limit, f) of (Some c, Some n) \<Rightarrow> n \<le> c | _ \<Rightarrow> False)"

definition ceilingPlacement :: "stand_in_facts \<Rightarrow> sync_down_ceilings \<Rightarrow> standards \<Rightarrow> ceiling_placement" where
  "ceilingPlacement r ceilings st =
     (case standardsFor (sf_type r) st of
        None \<Rightarrow> Keep
      | Some s \<Rightarrow>
          let fits = fits_ceiling (ceilings (std_category s))
          in if sf_role r \<noteq> None then (if fits (sf_fidelity r) then Within else Above)
             else if sf_parentId r \<noteq> None then Keep
             else if originalStatus r st = Some SelfCanonical \<and> fits (sf_fidelity r) then Within else Above)"

section \<open>No rule about a stored original reads the library's threshold\<close>

definition rethreshold :: "(stand_in_category \<Rightarrow> int) \<Rightarrow> standards \<Rightarrow> standards" where
  "rethreshold t st = (\<lambda>c. (st c)\<lparr>std_threshold := t c\<rparr>)"

lemma standardsFor_rethreshold:
  "standardsFor ty (rethreshold t st) = map_option (\<lambda>s. s\<lparr>std_threshold := t (the (standInCategory (typeCategory ty)))\<rparr>)
     (standardsFor ty st)"
  by (cases "standInCategory (typeCategory ty)") (simp_all add: standardsFor_def rethreshold_def)

lemma thresholdOf_rethreshold: "thresholdOf r (rethreshold t st) = thresholdOf r st"
  by (simp add: thresholdOf_def standardsFor_rethreshold split: option.split)

lemma originalStatus_rethreshold: "originalStatus r (rethreshold t st) = originalStatus r st"
  by (cases "standardsFor (sf_type r) st")
    (simp_all add: originalStatus_def standardsFor_rethreshold thresholdOf_rethreshold Let_def cong: option.case_cong)

lemma standardSizesOf_rethreshold: "standardSizesOf r (rethreshold t st) = standardSizesOf r st"
  by (cases "standardsFor (sf_type r) st")
    (simp_all add: standardSizesOf_def standardsFor_rethreshold thresholdOf_rethreshold split: option.split)

lemma expected_rethreshold: "expectedCanonicalFidelity r (rethreshold t st) = expectedCanonicalFidelity r st"
  by (simp add: expectedCanonicalFidelity_def thresholdOf_rethreshold originalStatus_rethreshold cong: option.case_cong)

lemma topFidelity_rethreshold: "topFidelity r c (rethreshold t st) = topFidelity r c st"
  by (simp add: topFidelity_def originalStatus_rethreshold expected_rethreshold split: option.split)

lemmas rethreshold_simps = standardsFor_rethreshold thresholdOf_rethreshold originalStatus_rethreshold
  standardSizesOf_rethreshold expected_rethreshold topFidelity_rethreshold

lemma ceilingPlacement_rethreshold: "ceilingPlacement r ceilings (rethreshold t st) = ceilingPlacement r ceilings st"
  by (cases "standardsFor (sf_type r) st") (simp_all add: ceilingPlacement_def rethreshold_simps Let_def)

lemma checkStandInWrite_rethreshold: "checkStandInWrite inp (rethreshold t st) = checkStandInWrite inp st"
proof (cases "wi_parent inp")
  case None
  then show ?thesis by (simp add: checkStandInWrite_def Let_def)
next
  case (Some parent)
  then show ?thesis
    by (cases "standardsFor (sf_type parent) st")
      (simp_all add: checkStandInWrite_def check_canonical_def check_smaller_def rethreshold_simps Let_def
        cong: if_cong)
qed

lemma summarizeStandIns_rethreshold:
  "summarizeStandIns r rs (rethreshold t st) placementOf = summarizeStandIns r rs st placementOf"
  by (cases "standardsFor (sf_type r) st"; cases "originalStatus r st")
    (simp_all add: summarizeStandIns_def rethreshold_simps Let_def)

section \<open>What an accepted write guarantees\<close>

lemma threshold_of_taker:
  assumes "takesCanonical (originalStatus r st)"
  shows "\<exists>t f. thresholdOf r st = Some t \<and> sf_fidelity r = Some f \<and>
    expectedCanonicalFidelity r st = Some (min f t)"
  using assms
  by (auto simp: takesCanonical_def originalStatus_def expectedCanonicalFidelity_def Let_def
      split: option.splits if_splits)

lemma standardSizesOf_in:
  "n \<in> set (standardSizesOf r st) \<longleftrightarrow>
     (\<exists>s t. standardsFor (sf_type r) st = Some s \<and> thresholdOf r st = Some t \<and> n \<in> set (standardSizes s) \<and> n < t)"
  by (cases "standardsFor (sf_type r) st"; cases "thresholdOf r st") (simp_all add: standardSizesOf_def)

lemma judged_simps [simp]:
  "sf_fidelity (judged_original p pf stamp) = pf"
  "sf_type (judged_original p pf stamp) = sf_type p"
  "sf_role (judged_original p pf stamp) = sf_role p"
  "sf_parentId (judged_original p pf stamp) = sf_parentId p"
  "sf_sizeBytes (judged_original p pf stamp) = sf_sizeBytes p"
  by (simp_all add: judged_original_def)

lemma accepted_write:
  assumes "refusals (checkStandInWrite inp st) = []"
  obtains parent s pf recordPf f role where
    "wi_parentIdGiven inp" "wi_parent inp = Some parent" "\<not> sf_deleted parent" "isStandInOriginal parent"
    "standardsFor (sf_type parent) st = Some s" "wi_type inp \<in> set (allowedTypes s)"
    "role_of_value (wi_role inp) = Some role" "js_integer_of (wi_fidelity inp) = Some f" "0 < f"
    "parent_fidelity_step (sf_fidelity parent) (wi_reportedParentFidelity inp) = (Some pf, recordPf, [])"
    "recordParentFidelity (checkStandInWrite inp st) = recordPf"
    "role = Canonical \<Longrightarrow> fst (check_canonical (judged_original parent (Some pf) (wi_parentStamp inp)) st f
       (wi_existingCanonical inp) (wi_sizeBytes inp)) = []"
    "role = Smaller \<Longrightarrow> check_smaller (judged_original parent (Some pf) (wi_parentStamp inp)) st f
       (wi_existingCanonical inp) = []"
proof -
  from assms obtain parent where given: "wi_parentIdGiven inp" and parent: "wi_parent inp = Some parent"
    by (auto simp: checkStandInWrite_def no_verdict_def Let_def split: if_splits option.splits)
  from assms have live: "\<not> sf_deleted parent" "sf_role parent = None" "sf_parentId parent = None"
    by (auto simp: checkStandInWrite_def no_verdict_def Let_def given parent split: if_splits)
  from assms obtain s where s: "standardsFor (sf_type parent) st = Some s"
    by (cases "standardsFor (sf_type parent) st")
      (auto simp: checkStandInWrite_def no_verdict_def Let_def given parent live)
  obtain pf recordPf r2 where step: "parent_fidelity_step (sf_fidelity parent) (wi_reportedParentFidelity inp) = (pf, recordPf, r2)"
    by (cases "parent_fidelity_step (sf_fidelity parent) (wi_reportedParentFidelity inp)")
  have clean: "role_of_value (wi_role inp) \<noteq> None" "isPositiveInteger (wi_fidelity inp)"
      "wi_type inp \<in> set (allowedTypes s)" "r2 = []" "pf \<noteq> None"
    using assms
    by (auto simp: checkStandInWrite_def no_verdict_def Let_def given parent live s step split: if_splits)
  then obtain f where f: "js_integer_of (wi_fidelity inp) = Some f" "0 < f"
    by (auto simp: isPositiveInteger_def split: option.splits)
  obtain p where p: "pf = Some p" using clean(5) by auto
  obtain role where role: "role_of_value (wi_role inp) = Some role" using clean(1) by auto
  have orig: "isStandInOriginal parent"
    using live s by (auto simp: isStandInOriginal_def standardsFor_def)
  let ?o = "judged_original parent (Some p) (wi_parentStamp inp)"
  have verdict: "checkStandInWrite inp st =
      (if originalStatus ?o st = Some AwaitingStamp
       then \<lparr>refusals = [(ParentAwaitsStamp, 409)], recordParentFidelity = recordPf, verdict_selfCanonical = False\<rparr>
       else let (rs', self) = (if role = Canonical
              then check_canonical ?o st f (wi_existingCanonical inp) (wi_sizeBytes inp)
              else (check_smaller ?o st f (wi_existingCanonical inp), False))
            in if rs' \<noteq> [] then no_verdict rs'
               else \<lparr>refusals = [], recordParentFidelity = recordPf, verdict_selfCanonical = self\<rparr>)"
    using clean f by (simp add: checkStandInWrite_def Let_def given parent live s step p role)
  have outcome: "recordParentFidelity (checkStandInWrite inp st) = recordPf"
      "role = Canonical \<Longrightarrow> fst (check_canonical ?o st f (wi_existingCanonical inp) (wi_sizeBytes inp)) = []"
      "role = Smaller \<Longrightarrow> check_smaller ?o st f (wi_existingCanonical inp) = []"
    using assms unfolding verdict
    by (auto simp: no_verdict_def Let_def split: if_splits prod.splits)
  show thesis
    by (rule that [OF given parent live(1) orig s clean(3) role f])
      (use step p clean(4) outcome in simp_all)
qed

lemma accepted_canonical:
  assumes "fst (check_canonical r st f existing n) = []"
  shows "existing = None \<and> (\<exists>t pf. thresholdOf r st = Some t \<and> sf_fidelity r = Some pf \<and> f = min pf t)"
proof -
  have takes: "takesCanonical (originalStatus r st)" and e: "expectedCanonicalFidelity r st = Some f" "existing = None"
    using assms by (cases existing; auto simp: check_canonical_def split: if_splits)+
  from threshold_of_taker [OF takes] e show ?thesis by auto
qed

lemma accepted_smaller:
  assumes "check_smaller r st f existing = []"
  shows "f \<in> set (standardSizesOf r st) \<and>
    (\<forall>bound. topFidelity r (map_option snd existing) st = Some bound \<longrightarrow> f < bound)"
  using assms by (auto simp: check_smaller_def split: if_splits option.splits)

section \<open>The slot\<close>

lemma js_string_of_int_inject: "js_string_of_int a = js_string_of_int b \<longleftrightarrow> a = b"
  using decimal_not_sign [of "nat a"] decimal_not_sign [of "nat b"]
  by (auto simp: js_string_of_int_def decimal_inject dest: sym)

lemma js_string_of_int_not_canonical: "js_string_of_int a \<noteq> ''canonical''"
proof
  assume "js_string_of_int a = ''canonical''"
  then have "decimal (nat a) = ''canonical''" by (simp add: js_string_of_int_def split: if_splits)
  then have "CHR ''c'' \<in> set (decimal (nat a))" by simp
  then obtain d where "d < 10" "CHR ''c'' = decimal_digit d" using decimal_digits by blast
  then have "d \<in> {0,1,2,3,4,5,6,7,8,9} \<and> CHR ''c'' = decimal_digit d" by (simp, arith)
  then show False by (auto simp: decimal_digit_def)
qed

text \<open>The slot is absent off live stand-ins, and equal slots are the same role and, if smaller, fidelity.\<close>

lemma standInSlot_Some:
  "standInSlot r = Some slot \<longleftrightarrow>
     \<not> sf_deleted r \<and> sf_parentId r \<noteq> None \<and>
     (sf_role r = Some Canonical \<and> slot = ''canonical'' \<or>
      sf_role r = Some Smaller \<and> (\<exists>f. sf_fidelity r = Some f \<and> slot = js_string_of_int f))"
  by (auto simp: standInSlot_def split: option.splits stand_in_role.splits)

lemma standInSlot_eq:
  assumes "standInSlot a = Some slot" "standInSlot b = Some slot'"
  shows "slot = slot' \<longleftrightarrow> sf_role a = sf_role b \<and> (sf_role a = Some Smaller \<longrightarrow> sf_fidelity a = sf_fidelity b)"
  using assms js_string_of_int_not_canonical
  by (auto simp: standInSlot_Some js_string_of_int_inject dest: sym)

section \<open>Summary and resolution\<close>

text \<open>Every entry of the size map is under its own fidelity.\<close>

definition keyed_sizes :: "(int, stand_in_size) js_map \<Rightarrow> bool" where
  "keyed_sizes m \<longleftrightarrow> js_wf m \<and> (\<forall>n z. js_get m n = Some z \<longrightarrow> size_fidelity z = n)"

lemma keyed_sizes_set: "keyed_sizes m \<Longrightarrow> size_fidelity z = n \<Longrightarrow> keyed_sizes (js_set n z m)"
  by (auto simp: keyed_sizes_def)

lemma size_fidelity_entry [simp]:
  "size_fidelity (sizeOf r role p) = the (sf_fidelity r)" "size_fidelity (missingSize f role') = f"
  by (simp_all add: sizeOf_def missingSize_def)

lemma keyed_smaller: "keyed_sizes (smaller_sizes placementOf live)"
  unfolding smaller_sizes_def
proof (rule fold_invariant [where Q = "\<lambda>_. True"])
  show "keyed_sizes []" by (simp add: keyed_sizes_def)
  fix r m assume "keyed_sizes m"
  then have "keyed_sizes (js_set (the (sf_fidelity r)) (sizeOf r (RoleStandIn (the (sf_role r))) (placementOf r)) m)"
    by (rule keyed_sizes_set) simp
  with \<open>keyed_sizes m\<close> show "keyed_sizes (if sf_role r = Some Canonical then m
      else js_set (the (sf_fidelity r)) (sizeOf r (RoleStandIn (the (sf_role r))) (placementOf r)) m)"
    by (rule if_split [THEN iffD2, OF conjI, OF impI impI])
qed simp

lemma keyed_standard:
  assumes "keyed_sizes m"
  shows "keyed_sizes (standard_sizes t sizes m)"
proof -
  have "keyed_sizes (fold (\<lambda>size m. if size \<ge> n \<or> js_has m size then m
      else js_set size (missingSize size Smaller) m) sizes m)" for n
  proof (rule fold_invariant [where Q = "\<lambda>_. True"])
    fix sz m assume "keyed_sizes m"
    then have "keyed_sizes (js_set sz (missingSize sz Smaller) m)" by (rule keyed_sizes_set) simp
    with \<open>keyed_sizes m\<close> show "keyed_sizes (if sz \<ge> n \<or> js_has m sz then m
        else js_set sz (missingSize sz Smaller) m)"
      by (rule if_split [THEN iffD2, OF conjI, OF impI impI])
  qed (simp_all add: assms)
  then show ?thesis using assms by (cases t) (simp_all add: standard_sizes_def)
qed

lemma keyed_top: "keyed_sizes m \<Longrightarrow> keyed_sizes (top_entry placementOf original status canonical t m)"
  by (simp add: top_entry_def keyed_sizes_set split: option.split)

text \<open>A standard size below the top is listed, and nothing is dropped on the way.\<close>

lemma standard_sizes_has:
  assumes "js_has m n \<or> (\<exists>t. top_size = Some t \<and> n \<in> set sizes \<and> n < t)"
  shows "js_has (standard_sizes top_size sizes m) n"
proof -
  have "js_has m n \<or> n \<in> set sizes \<and> n < t \<Longrightarrow> js_has (fold (\<lambda>size m. if size \<ge> t \<or> js_has m size then m
      else js_set size (missingSize size Smaller) m) sizes m) n" for t m
    by (induction sizes arbitrary: m) auto
  then show ?thesis using assms by (auto simp: standard_sizes_def split: option.split)
qed

lemma top_entry_has: "js_has m n \<Longrightarrow> js_has (top_entry placementOf original status canonical t m) n"
  by (auto simp: top_entry_def split: option.split)

interpretation by_size: js_comparator "\<lambda>a b. size_fidelity a - size_fidelity b" size_fidelity
  by unfold_locales auto

lemma sizes_listed:
  assumes "keyed_sizes m"
  shows "(\<exists>z \<in> set (js_values m). size_fidelity z = n) \<longleftrightarrow> js_has m n"
proof
  assume "\<exists>z \<in> set (js_values m). size_fidelity z = n"
  then obtain k z where "(k, z) \<in> set m" "size_fidelity z = n" by auto
  moreover then have "js_get m k = Some z" using assms by (simp add: keyed_sizes_def js_get_in_set)
  ultimately show "js_has m n" using assms by (auto simp: keyed_sizes_def)
next
  assume "js_has m n"
  then obtain z where z: "js_get m n = Some z" by auto
  then have "z \<in> set (js_values m)" by (force dest: map_of_SomeD)
  then show "\<exists>z \<in> set (js_values m). size_fidelity z = n" using assms z by (auto simp: keyed_sizes_def)
qed

lemma summary_parts:
  assumes "summarizeStandIns original standIns st placementOf = Some summary"
  obtains m where "keyed_sizes m"
    "sum_sizes summary = js_sort (\<lambda>a b. size_fidelity a - size_fidelity b) (js_values m)"
    "\<And>t n. sum_top summary = Some t \<Longrightarrow> n \<in> set (standardSizesOf original st) \<Longrightarrow> n < t \<Longrightarrow> js_has m n"
    "\<And>t. sum_top summary = Some t \<Longrightarrow> js_has m t"
proof -
  let ?live = "live_stand_ins standIns"
  let ?can = "find (\<lambda>r. sf_role r = Some Canonical) ?live"
  obtain s status where s: "standardsFor (sf_type original) st = Some s" "originalStatus original st = Some status"
      "isStandInOriginal original"
    using assms by (auto simp: summarizeStandIns_def split: option.splits if_splits)
  let ?t = "topFidelity original (map_option sf_fidelity ?can) st"
  let ?m2 = "standard_sizes ?t (standardSizesOf original st) (smaller_sizes placementOf ?live)"
  let ?m = "top_entry placementOf original status ?can ?t ?m2"
  have sum: "sum_top summary = ?t"
      "sum_sizes summary = js_sort (\<lambda>a b. size_fidelity a - size_fidelity b) (js_values ?m)"
    using assms s by (auto simp: summarizeStandIns_def Let_def)
  have keyed: "keyed_sizes ?m" by (intro keyed_top keyed_standard keyed_smaller)
  have std: "js_has ?m n" if "sum_top summary = Some t" "n \<in> set (standardSizesOf original st)" "n < t" for t n
    using that unfolding sum(1) by (intro top_entry_has standard_sizes_has) auto
  have "js_has ?m t" if t: "sum_top summary = Some t" for t
  proof -
    have can: "\<exists>f. sf_fidelity c = Some f" if "?can = Some c" for c
      using that by (auto simp: find_Some_iff live_stand_ins_def dest!: nth_mem)
    from t sum(1) have tt: "?t = Some t" by simp
    show ?thesis
    proof (cases ?can)
      case None
      then show ?thesis using tt s(2) by (auto simp: top_entry_def topFidelity_def split: if_splits)
    next
      case (Some c)
      then obtain f where "sf_fidelity c = Some f" using can by blast
      then show ?thesis using tt s(2) Some by (auto simp: top_entry_def topFidelity_def split: if_splits)
    qed
  qed
  with std show thesis using that [OF keyed sum(2)] by blast
qed

text \<open>What a read at a size is answered with.\<close>

lemma resolveSize_answer:
  assumes summary: "summarizeStandIns original standIns st placementOf = Some summary"
    and t: "sum_top summary = Some t"
  shows "(case resolveSize summary requested st of
      ServeSize z \<Rightarrow> z \<in> set (sum_sizes summary) \<and> size_placement z \<noteq> PlacedMissing \<and>
        size_fidelity z = (case requested of None \<Rightarrow> t | Some n \<Rightarrow> min n t)
    | NotProduced f \<Rightarrow> f = (case requested of None \<Rightarrow> t | Some n \<Rightarrow> min n t) \<and>
        (\<forall>z \<in> set (sum_sizes summary). size_fidelity z = f \<longrightarrow> size_placement z = PlacedMissing)
    | NotStandard \<Rightarrow> \<exists>n. requested = Some n \<and> n < t \<and> n \<notin> set (standardSizes (st (sum_category summary)))
    | UnknownFidelity \<Rightarrow> False)"
proof -
  obtain m where m: "keyed_sizes m"
      "sum_sizes summary = js_sort (\<lambda>a b. size_fidelity a - size_fidelity b) (js_values m)"
    by (rule summary_parts [OF summary])
  have uniq: "z = z'" if "z \<in> set (sum_sizes summary)" "z' \<in> set (sum_sizes summary)" "size_fidelity z = size_fidelity z'" for z z'
  proof -
    from that obtain k k' where "(k, z) \<in> set m" "(k', z') \<in> set m" by (auto simp: m(2) by_size.set_js_sort)
    moreover then have "js_get m k = Some z" "js_get m k' = Some z'" using m(1) by (simp_all add: keyed_sizes_def js_get_in_set)
    ultimately show ?thesis using that(3) m(1) by (auto simp: keyed_sizes_def)
  qed
  have found: "z \<in> set (sum_sizes summary) \<and> size_fidelity z = f"
    if "find (\<lambda>z. size_fidelity z = f) (sum_sizes summary) = Some z" for f z
    using that by (auto simp: find_Some_iff)
  have absent: "z \<notin> set (sum_sizes summary) \<or> size_fidelity z \<noteq> f"
    if "find (\<lambda>z. size_fidelity z = f) (sum_sizes summary) = None" for f z
    using that by (auto simp: find_None_iff)
  show ?thesis
  proof (cases "find (\<lambda>z. size_fidelity z = (case requested of None \<Rightarrow> t | Some n \<Rightarrow> min n t)) (sum_sizes summary)")
    case None
    then show ?thesis
      using absent by (cases requested) (auto simp: resolveSize_def t min_def split: if_splits)
  next
    case (Some z)
    note z = found [OF Some]
    have only: "size_placement z' = PlacedMissing"
      if "size_placement z = PlacedMissing" "z' \<in> set (sum_sizes summary)" "size_fidelity z' = size_fidelity z" for z'
      using uniq [of z' z] that z by blast
    show ?thesis
      using Some z only by (cases requested) (auto simp: resolveSize_def t min_def split: if_splits)
  qed
qed

section \<open>What the rules guarantee\<close>



text \<open>
  Once an original carries its stamp, changing the library's canonical threshold changes no
  verdict about it: not its status, its expected canonical, its standard sizes, where a file sits
  against a ceiling, what a write is answered, nor the summary of its sizes.\<close>

theorem threshold_change_leaves_stored_originals_alone:
  "originalStatus r (rethreshold t st) = originalStatus r st \<and>
   expectedCanonicalFidelity r (rethreshold t st) = expectedCanonicalFidelity r st \<and>
   standardSizesOf r (rethreshold t st) = standardSizesOf r st \<and>
   ceilingPlacement r ceilings (rethreshold t st) = ceilingPlacement r ceilings st \<and>
   checkStandInWrite inp (rethreshold t st) = checkStandInWrite inp st \<and>
   summarizeStandIns r standIns (rethreshold t st) placementOf = summarizeStandIns r standIns st placementOf"
  by (simp add: originalStatus_rethreshold expected_rethreshold standardSizesOf_rethreshold
      ceilingPlacement_rethreshold checkStandInWrite_rethreshold summarizeStandIns_rethreshold)

text \<open>
  A reader who asks for a size gets exactly that size, or the top one when asking for the
  canonical or for more than there is: it is served from an entry that is really placed somewhere,
  reported as not produced only when no placed entry has it, and refused as no standard size only
  below the top.\<close>

theorem size_request_answered_exactly:
  assumes "summarizeStandIns original standIns st placementOf = Some summary" "sum_top summary = Some t"
  shows "(case resolveSize summary requested st of
      ServeSize z \<Rightarrow> z \<in> set (sum_sizes summary) \<and> size_placement z \<noteq> PlacedMissing \<and>
        size_fidelity z = (case requested of None \<Rightarrow> t | Some n \<Rightarrow> min n t)
    | NotProduced f \<Rightarrow> f = (case requested of None \<Rightarrow> t | Some n \<Rightarrow> min n t) \<and>
        (\<forall>z \<in> set (sum_sizes summary). size_fidelity z = f \<longrightarrow> size_placement z = PlacedMissing)
    | NotStandard \<Rightarrow> \<exists>n. requested = Some n \<and> n < t \<and> n \<notin> set (standardSizes (st (sum_category summary)))
    | UnknownFidelity \<Rightarrow> False)"
  using assms by (rule resolveSize_answer)

theorem size_request_answered_exactly_witness:
  "\<exists>summary. sum_top summary = Some 2400 \<and> resolveSize summary None DEFAULT_STAND_IN_STANDARDS \<noteq> UnknownFidelity"
proof -
  let ?p = "\<lparr>sf_id = ''p'', sf_type = ''image/jpeg'', sf_parentId = None, sf_role = None, sf_fidelity = Some 6000,
     sf_sizeBytes = 9000000, sf_deleted = False, sf_threshold = Some 2400, sf_selfCanonical = False, sf_key = ''k''\<rparr>"
  have std: "standardsFor ''image/jpeg'' DEFAULT_STAND_IN_STANDARDS = Some (DEFAULT_STAND_IN_STANDARDS SI_image)"
      "isStandInOriginal ?p"
    using typeCategory_prefix [of Cat_image "''jpeg''"]
    by (simp_all add: standardsFor_def isStandInOriginal_def standInCategory_def STAND_IN_CATEGORIES_def)
  obtain summary where s: "summarizeStandIns ?p [] DEFAULT_STAND_IN_STANDARDS (\<lambda>_. PlacedHere) = Some summary"
      "sum_top summary = Some 2400"
    by (simp add: summarizeStandIns_def std live_stand_ins_def originalStatus_def thresholdOf_def topFidelity_def
        expectedCanonicalFidelity_def takesCanonical_def ARCHIVE_SIZE_FLOOR_BYTES_def Let_def)
  show ?thesis
    using size_request_answered_exactly [OF s, of None] s(2) by (intro exI [of _ summary]) auto
qed

end
