(* ===== verification/Js_Numbers.thy ===== *)
theory Js_Numbers
  imports Hlc
begin

text \<open>
  \<open>String.prototype.trim\<close> and \<open>Number(value)\<close>, as the language defines them.
\<close>

text \<open>
  \<open>Number(value)\<close> as the language defines it on the values a row can hold; an array or object
  converts through its text, which is never reached from a JSON column and reads as NaN here.
\<close>

definition is_digit :: "char \<Rightarrow> bool" where
  "is_digit c \<longleftrightarrow> 48 \<le> (of_char c :: nat) \<and> (of_char c :: nat) \<le> 57"

definition digits_value :: "string \<Rightarrow> nat" where
  "digits_value s = fold (\<lambda>c n. 10 * n + ((of_char c :: nat) - 48)) s 0"

definition js_trim :: "string \<Rightarrow> string" where
  "js_trim s = rev (dropWhile js_white (rev (dropWhile js_white s)))"

text \<open>The exponent part after the mantissa, \<open>None\<close> when malformed.\<close>

definition exponent_value :: "string \<Rightarrow> int option" where
  "exponent_value s =
     (case s of
        [] \<Rightarrow> Some 0
      | e # rest \<Rightarrow>
          if e \<noteq> CHR ''e'' \<and> e \<noteq> CHR ''E'' then None
          else
            let (neg, ds) = (case rest of
                CHR ''-'' # ds \<Rightarrow> (True, ds) | CHR ''+'' # ds \<Rightarrow> (False, ds) | _ \<Rightarrow> (False, rest))
            in if ds = [] \<or> \<not> list_all is_digit ds then None
               else Some (if neg then - int (digits_value ds) else int (digits_value ds)))"

definition scale10 :: "rat \<Rightarrow> int \<Rightarrow> rat" where
  "scale10 q e = (if e \<ge> 0 then q * 10 ^ nat e else q / 10 ^ nat (- e))"

definition decimal_number :: "string \<Rightarrow> rat option" where
  "decimal_number s =
     (let ip = takeWhile is_digit s; r = dropWhile is_digit s;
          (fp, r') = (case r of CHR ''.'' # t \<Rightarrow> (takeWhile is_digit t, dropWhile is_digit t) | _ \<Rightarrow> ([], r))
      in if ip = [] \<and> fp = [] then None
         else map_option (scale10 (of_nat (digits_value ip) + of_nat (digits_value fp) / 10 ^ length fp))
                (exponent_value r'))"

definition radix_number :: "nat \<Rightarrow> string \<Rightarrow> rat option" where
  "radix_number radix s =
     (if s \<noteq> [] \<and> list_all (\<lambda>c. case hex_value c of Some d \<Rightarrow> d < radix | None \<Rightarrow> False) s
      then Some (of_nat (fold (\<lambda>c n. radix * n + the (hex_value c)) s 0)) else None)"

definition number_of_string :: "string \<Rightarrow> js_number" where
  "number_of_string str =
     (let s = js_trim str;
          radix = (case s of CHR ''0'' # x # t \<Rightarrow>
              if x = CHR ''x'' \<or> x = CHR ''X'' then Some (16, t)
              else if x = CHR ''o'' \<or> x = CHR ''O'' then Some (8, t)
              else if x = CHR ''b'' \<or> x = CHR ''B'' then Some (2, t) else None | _ \<Rightarrow> None);
          finite = (\<lambda>q. case q of Some v \<Rightarrow> JsRat v | None \<Rightarrow> JsNaN)
      in if s = [] then JsRat 0
         else case radix of
           Some (n, t) \<Rightarrow> finite (radix_number n t)
         | None \<Rightarrow>
             let (neg, t) = (case s of CHR ''-'' # t \<Rightarrow> (True, t) | CHR ''+'' # t \<Rightarrow> (False, t) | _ \<Rightarrow> (False, s))
             in if t = ''Infinity'' then (if neg then JsNegInf else JsPosInf)
                else finite (map_option (\<lambda>q. if neg then - q else q) (decimal_number t)))"

fun js_Number :: "js_value \<Rightarrow> js_number" where
  "js_Number JsNull = JsRat 0"
| "js_Number (JsBool b) = JsRat (if b then 1 else 0)"
| "js_Number (JsNum n) = n"
| "js_Number (JsStr s) = number_of_string s"
| "js_Number _ = JsNaN"

end
