(* ===== verification/File_Rows.thy ===== *)
theory File_Rows
  imports Sync_Round Records Js_Numbers
begin

text \<open>
  Rows that may name a file, and the bytes watermark over them:
  \<open>packages/sync-engine/src/file-rows.ts\<close>, with the residency decision
  (\<open>residency-policy.ts\<close>, \<open>residency.ts\<close>) that reads the same candidates.

  A row of an app's table carries untyped JSON (\<open>js_value\<close>). A scan that throws is a stream that
  is \<open>None\<close>. The lemmas show that the bytes watermark is raised only over whole satisfied
  timestamps below the ceiling, never lowered, and that it never claims a file the node lacks.
\<close>

text \<open>\<open>typeof v === "number" ? v : Number(v) || 0\<close>.\<close>

definition row_size :: "js_value \<Rightarrow> js_number" where
  "row_size v = (case v of JsNum n \<Rightarrow> n | _ \<Rightarrow> (if js_Number v = JsNaN then JsRat 0 else js_Number v))"

section \<open>Rows and manifests\<close>

definition FILE_RECORDS_TABLE :: string where "FILE_RECORDS_TABLE = ''_starkeep_sync_records''"

definition STARKEEP_LABEL_APP_ID :: string where "STARKEEP_LABEL_APP_ID = ''starkeep''"

definition NO_CLOUD_LABEL_KEY :: string where "NO_CLOUD_LABEL_KEY = ''no-cloud''"

record record_label =
  label_recordId :: string
  label_appId :: string
  label_key :: string
  label_value :: string
  label_recordType :: string
  label_updatedAt :: hlc
  label_deletedAt :: "hlc option"

text \<open>The batch read of labels is given as the list of labels per record.\<close>

definition cloudExcludedRecords :: "(string \<times> record_label list) list \<Rightarrow> string list \<Rightarrow> string set" where
  "cloudExcludedRecords labelsByRecord recordIds =
     (if recordIds = [] then {}
      else fst ` {kv \<in> set labelsByRecord.
             \<exists>label \<in> set (snd kv). label_deletedAt label = None \<and> label_appId label = STARKEEP_LABEL_APP_ID \<and>
               label_key label = NO_CLOUD_LABEL_KEY})"

datatype app_row_op = OpInsert | OpUpdate | OpDelete

record app_row_entry =
  entry_timestamp :: hlc
  entry_appId :: string
  entry_table :: string
  entry_op :: app_row_op
  entry_row :: "(string \<Rightarrow> js_value) option"
  entry_where :: "(string \<Rightarrow> js_value) option"

record file_manifest =
  man_fileHash :: string
  man_objectStorageKey :: string
  man_sizeBytes :: js_number
  man_mimeType :: "string option"

record blob_candidate =
  cand_recordId :: string
  cand_objectStorageKey :: string
  cand_sizeBytes :: js_number
  cand_type :: "string option"
  cand_parentId :: "string option"
  cand_appId :: "string option"
  cand_standInRole :: "stand_in_role option"
  cand_fidelity :: "int option"
  cand_canonicalThreshold :: "int option"
  cand_selfCanonical :: bool

abbreviation js_nat :: "nat \<Rightarrow> js_number" where "js_nat n \<equiv> JsRat (of_nat n)"

definition blobCandidateForRecord :: "data_record \<Rightarrow> blob_candidate option" where
  "blobCandidateForRecord r =
     (if objectStorageKey r = [] then None
      else Some \<lparr>cand_recordId = rec_id r, cand_objectStorageKey = objectStorageKey r,
        cand_sizeBytes = js_nat (rec_sizeBytes r), cand_type = Some (rec_type r), cand_parentId = parentId r,
        cand_appId = None, cand_standInRole = standInRole r, cand_fidelity = fidelity r,
        cand_canonicalThreshold = canonicalThreshold r, cand_selfCanonical = selfCanonical r\<rparr>)"

text \<open>The key column of a file row, when it is a non-empty string.\<close>

definition row_key :: "app_row_entry \<Rightarrow> string option" where
  "row_key e =
     (if entry_table e \<noteq> FILE_RECORDS_TABLE \<or> entry_op e = OpDelete then None
      else case entry_row e of
        None \<Rightarrow> None
      | Some row \<Rightarrow> (case row ''object_storage_key'' of JsStr k \<Rightarrow> if k = [] then None else Some k | _ \<Rightarrow> None))"

definition candidateForAppRow :: "app_row_entry \<Rightarrow> blob_candidate option" where
  "candidateForAppRow e =
     (case row_key e of
        None \<Rightarrow> None
      | Some key \<Rightarrow>
          let row = the (entry_row e)
          in Some \<lparr>cand_recordId = (case row ''id'' of JsStr i \<Rightarrow> i | _ \<Rightarrow> key), cand_objectStorageKey = key,
            cand_sizeBytes = row_size (row ''size_bytes''), cand_type = None, cand_parentId = None,
            cand_appId = Some (entry_appId e), cand_standInRole = None, cand_fidelity = None,
            cand_canonicalThreshold = None, cand_selfCanonical = False\<rparr>)"

definition manifestForRecord :: "data_record \<Rightarrow> file_manifest option" where
  "manifestForRecord r =
     (if objectStorageKey r = [] \<or> deletedAt r \<noteq> None then None
      else Some \<lparr>man_fileHash = (if contentHash r = [] then objectStorageKey r else contentHash r),
        man_objectStorageKey = objectStorageKey r, man_sizeBytes = js_nat (rec_sizeBytes r),
        man_mimeType = mimeType r\<rparr>)"

definition manifestForAppRow :: "app_row_entry \<Rightarrow> file_manifest option" where
  "manifestForAppRow e =
     (case row_key e of
        None \<Rightarrow> None
      | Some key \<Rightarrow>
          let row = the (entry_row e)
          in Some \<lparr>man_fileHash = (case row ''content_hash'' of JsStr h \<Rightarrow> if h = [] then key else h | _ \<Rightarrow> key),
            man_objectStorageKey = key, man_sizeBytes = row_size (row ''size_bytes''),
            man_mimeType = (case row ''mime_type'' of JsStr m \<Rightarrow> Some m | _ \<Rightarrow> None)\<rparr>)"

record file_row =
  row_hlc :: hlc
  row_manifest :: "file_manifest option"
  row_candidate :: "blob_candidate option"
  row_recordId :: "string option"
  row_itemId :: string

record file_row_scan =
  scan_rows :: "file_row list"
  scan_ceilings :: hlc_ceilings
  scan_readable :: bool

text \<open>
  The channel's sources: the records table on the Drive channel, and one stream per app's file
  table. The inner option is a read that throws.
\<close>

record file_row_sources =
  src_records :: "data_record list option option"
  src_fileTables :: "app_row_entry list option list"

definition carriesFiles :: "file_row_sources \<Rightarrow> bool" where
  "carriesFiles sources \<longleftrightarrow> src_records sources \<noteq> None \<or> src_fileTables sources \<noteq> []"

definition record_file_row :: "data_record \<Rightarrow> file_row" where
  "record_file_row r = \<lparr>row_hlc = updatedAt r, row_manifest = manifestForRecord r,
     row_candidate = blobCandidateForRecord r, row_recordId = Some (rec_id r),
     row_itemId = rec_id r\<rparr>"

definition app_file_row :: "app_row_entry \<Rightarrow> file_row" where
  "app_file_row e = \<lparr>row_hlc = entry_timestamp e, row_manifest = manifestForAppRow e,
     row_candidate = candidateForAppRow e, row_recordId = None,
     row_itemId = entry_appId e @ ''.'' @ entry_table e\<rparr>"

definition record_stream :: "watermarks \<Rightarrow> nat \<Rightarrow> data_record list option \<Rightarrow> (file_row list \<times> stream_truncation) option" where
  "record_stream from limit table =
     Option.bind table (\<lambda>t. map_option (\<lambda>pg. (map record_file_row (page_rows pg), page_truncated pg))
       (querySince updatedAt t from (int limit)))"

definition app_stream :: "watermarks \<Rightarrow> nat \<Rightarrow> app_row_entry list option \<Rightarrow> (file_row list \<times> stream_truncation) option" where
  "app_stream from limit table =
     Option.bind table (\<lambda>t. map_option (\<lambda>pg. (map app_file_row (page_rows pg), page_truncated pg))
       (querySince entry_timestamp t from (int limit)))"

definition scanFileRows :: "file_row_sources \<Rightarrow> watermarks \<Rightarrow> nat \<Rightarrow> file_row_scan" where
  "scanFileRows sources from limit =
     (let streams = (case src_records sources of None \<Rightarrow> [] | Some t \<Rightarrow> [record_stream from limit t])
            @ map (app_stream from limit) (src_fileTables sources)
      in if None \<in> set streams then \<lparr>scan_rows = [], scan_ceilings = [], scan_readable = False\<rparr>
         else \<lparr>scan_rows = concat (map (\<lambda>s. fst (the s)) streams),
               scan_ceilings = computeCeilings (map (\<lambda>s. snd (the s)) streams), scan_readable = True\<rparr>)"

section \<open>Advancing the bytes watermark\<close>

text \<open>A scanned row's timestamp and whether its file is satisfied.\<close>

type_synonym satisfied_row = "hlc \<times> bool"

function advance_run :: "hlc option \<Rightarrow> satisfied_row list \<Rightarrow> hlc option \<Rightarrow> hlc option" where
  "advance_run limit [] prior = prior"
| "advance_run limit (x # xs) prior =
     (let group = x # takeWhile (\<lambda>y. compareHLC (fst x) (fst y) = 0) xs
      in if (case limit of Some c \<Rightarrow> compareHLC (fst x) c > 0 | None \<Rightarrow> False) then prior
         else if \<not> (\<forall>y \<in> set group. snd y) then prior
         else advance_run limit (dropWhile (\<lambda>y. compareHLC (fst x) (fst y) = 0) xs)
                (case prior of None \<Rightarrow> Some (fst x)
                 | Some p \<Rightarrow> if compareHLC (fst x) p > 0 then Some (fst x) else Some p))"
  by pat_completeness auto

termination advance_run
  by (relation "measure (\<lambda>(_, xs, _). length xs)") (auto simp: less_Suc_eq_le length_dropWhile_le)

definition advance_author :: "hlc_ceilings \<Rightarrow> string \<times> satisfied_row list \<Rightarrow> watermarks \<Rightarrow> watermarks" where
  "advance_author ceilings author_run next_map =
     (let (author, run) = author_run
      in case js_get ceilings author of
        Some None \<Rightarrow> next_map
      | c \<Rightarrow>
          (case advance_run (Option.bind c id) (js_sort (\<lambda>a b. compareHLC (fst a) (fst b)) run) (js_get next_map author) of
             None \<Rightarrow> next_map
           | Some h \<Rightarrow> js_set author h next_map))"

definition advanceBytesWatermark :: "watermarks \<Rightarrow> satisfied_row list \<Rightarrow> hlc_ceilings \<Rightarrow> watermarks" where
  "advanceBytesWatermark from rows ceilings =
     fold (advance_author ceilings) (js_group (\<lambda>r. nodeId (fst r)) rows) from"

section \<open>Residency\<close>

datatype residency_decision = Fetch | Elide

datatype residency_reason = RecordConstraint | KeptReason | WithinCeiling | AboveCeiling | ExplicitRequest

record residency_verdict =
  verdict_decision :: residency_decision
  verdict_reason :: residency_reason

datatype record_residency = Absent | Staged | Elided | Evicted | Resident | Tombstoned

text \<open>
  \<open>residencyOf\<close> over the facts it reads: the row's key and deletion, whether the key is in local
  storage, the host's memory of a removal (when it has one) and the policy (when given).
\<close>

definition residencyOf ::
  "(string \<times> bool) option \<Rightarrow> (string \<Rightarrow> bool) \<Rightarrow> (string \<Rightarrow> residency_verdict) option \<Rightarrow> (string \<Rightarrow> bool) option
     \<Rightarrow> record_residency \<times> residency_reason option" where
  "residencyOf row has decide wasEvicted =
     (case row of
        None \<Rightarrow> (Absent, None)
      | Some (key, deleted) \<Rightarrow>
          if deleted then (Tombstoned, None)
          else if has key then (Resident, None)
          else if (case wasEvicted of Some f \<Rightarrow> f key | None \<Rightarrow> False) then (Evicted, None)
          else case decide of
            None \<Rightarrow> (Staged, None)
          | Some d \<Rightarrow> (if verdict_decision (d key) = Fetch then Staged else Elided, Some (verdict_reason (d key))))"

section \<open>The advance over one author\<close>

text \<open>
  The run's result: the prior value, raised to the last timestamp of the longest front part whose
  timestamps are all satisfied and within the limit.
\<close>

definition run_ok :: "hlc option \<Rightarrow> satisfied_row list \<Rightarrow> hlc \<Rightarrow> bool" where
  "run_ok limit xs h \<longleftrightarrow> (\<forall>y \<in> set xs. fst y \<le> h \<longrightarrow> snd y) \<and> (case limit of None \<Rightarrow> True | Some c \<Rightarrow> h \<le> c)"

lemma advance_run_ge:
  "(case prior of None \<Rightarrow> True | Some p \<Rightarrow> \<exists>h. advance_run limit xs prior = Some h \<and> p \<le> h)"
proof (induction limit xs prior rule: advance_run.induct)
  case (1 limit prior)
  then show ?case by (cases prior) simp_all
next
  case (2 limit x xs prior)
  let ?stop = "(case limit of Some c \<Rightarrow> compareHLC (fst x) c > 0 | None \<Rightarrow> False) \<or>
      \<not> (\<forall>y \<in> set (x # takeWhile (\<lambda>y. compareHLC (fst x) (fst y) = 0) xs). snd y)"
  show ?case
  proof (cases ?stop)
    case True
    then have "advance_run limit (x # xs) prior = prior" by (auto simp: Let_def)
    then show ?thesis by (cases prior) simp_all
  next
    case False
    let ?p = "case prior of None \<Rightarrow> Some (fst x) | Some p \<Rightarrow> if compareHLC (fst x) p > 0 then Some (fst x) else Some p"
    have step: "advance_run limit (x # xs) prior
        = advance_run limit (dropWhile (\<lambda>y. compareHLC (fst x) (fst y) = 0) xs) ?p"
      using False by (auto simp: Let_def)
    have IH: "case ?p of None \<Rightarrow> True | Some p \<Rightarrow>
        \<exists>h. advance_run limit (dropWhile (\<lambda>y. compareHLC (fst x) (fst y) = 0) xs) ?p = Some h \<and> p \<le> h"
      using "2.IH" [OF refl] False by auto
    show ?thesis
    proof (cases prior)
      case (Some p)
      then obtain q where q: "?p = Some q" "p \<le> q"
        by (cases "p < fst x") (auto simp: hlc_order intro: less_imp_le)
      from IH q(1) obtain h where
        "advance_run limit (dropWhile (\<lambda>y. compareHLC (fst x) (fst y) = 0) xs) ?p = Some h" "q \<le> h" by auto
      then show ?thesis unfolding step using Some q(2) by auto
    qed simp
  qed
qed

lemma advance_run_sound:
  assumes "sorted (map fst xs)" "advance_run limit xs prior = Some h" "prior \<noteq> Some h"
  shows "(\<exists>y \<in> set xs. fst y = h) \<and> run_ok limit xs h"
  using assms
proof (induction limit xs prior rule: advance_run.induct)
  case (1 limit prior)
  then show ?case by simp
next
  case (2 limit x xs prior)
  let ?same = "\<lambda>y. compareHLC (fst x) (fst y) = 0"
  let ?group = "x # takeWhile ?same xs" and ?rest = "dropWhile ?same xs"
  let ?p = "case prior of None \<Rightarrow> Some (fst x) | Some p \<Rightarrow> if compareHLC (fst x) p > 0 then Some (fst x) else Some p"
  have go: "\<not> (case limit of Some c \<Rightarrow> compareHLC (fst x) c > 0 | None \<Rightarrow> False)" "\<forall>y \<in> set ?group. snd y"
    using "2.prems"(2,3) by (auto simp: Let_def split: if_splits)
  have step: "advance_run limit ?rest ?p = Some h" using "2.prems"(2) go by (simp add: Let_def)
  have sx: "sorted (map fst xs)" "\<forall>y \<in> set xs. fst x \<le> fst y" using "2.prems"(1) by auto
  have same: "?same y \<longleftrightarrow> fst y = fst x" for y by (auto simp: hlc_order)
  have rest_gt: "fst x < fst y" if "y \<in> set ?rest" for y
    using sorted_dropWhile_greater [OF sx] that by (simp add: same)
  have split: "y \<in> set (x # xs) \<longleftrightarrow> y \<in> set ?group \<or> y \<in> set ?rest" for y
    by (metis Un_iff append_Cons set_append takeWhile_dropWhile_id)
  have limit_ok: "case limit of None \<Rightarrow> True | Some c \<Rightarrow> fst x \<le> c"
    using go(1) by (cases limit) (auto simp: hlc_order not_less)
  show ?case
  proof (cases "?p = Some h")
    case True
    then have h: "h = fst x" using "2.prems"(3) by (cases prior) (auto split: if_splits)
    have "snd y" if "y \<in> set (x # xs)" "fst y \<le> h" for y
      using that split rest_gt go(2) h by (metis leD)
    then show ?thesis using limit_ok h by (auto simp: run_ok_def)
  next
    case False
    have "(\<exists>y \<in> set ?rest. fst y = h) \<and> run_ok limit ?rest h"
      by (rule "2.IH" [OF refl go(1) _ sorted_map_dropWhile [OF sx(1)] step False]) (use go(2) in simp)
    then show ?thesis using split go(2) unfolding run_ok_def by blast
  qed
qed

text \<open>One author's entry after the fold over all authors.\<close>

lemma advance_run_None: "advance_run limit xs prior = None \<Longrightarrow> prior = None"
  using advance_run_ge [where limit = limit and xs = xs and prior = prior] by (cases prior) auto

lemma js_get_advance_author:
  "js_get (advance_author ceilings (author, run) m) a =
     (if a = author \<and> js_get ceilings author \<noteq> Some None
      then advance_run (Option.bind (js_get ceilings author) id)
             (js_sort (\<lambda>a b. compareHLC (fst a) (fst b)) run) (js_get m author)
      else js_get m a)"
  by (cases "js_get ceilings author")
    (auto simp: advance_author_def dest: advance_run_None split: option.splits)

lemma js_get_advanceBytesWatermark:
  "js_get (advanceBytesWatermark from rows ceilings) a =
     (let run = filter (\<lambda>r. nodeId (fst r) = a) rows
      in if run \<noteq> [] \<and> js_get ceilings a \<noteq> Some None
         then advance_run (Option.bind (js_get ceilings a) id)
                (js_sort (\<lambda>a b. compareHLC (fst a) (fst b)) run) (js_get from a)
         else js_get from a)"
proof -
  have fold: "js_wf g \<Longrightarrow> js_get (fold (advance_author ceilings) g m) a =
      (case js_get g a of None \<Rightarrow> js_get m a
       | Some run \<Rightarrow> js_get (advance_author ceilings (a, run) m) a)" for g m
  proof (induction g arbitrary: m)
    case (Cons kv g)
    obtain k run where kv: "kv = (k, run)" by (cases kv)
    have wf: "js_wf g" "js_get g k = None"
      using Cons.prems by (auto simp: js_wf_def kv map_of_eq_None_iff)
    then show ?case
      using Cons.IH [OF wf(1), of "advance_author ceilings (k, run) m"]
      by (cases "k = a") (auto simp: kv js_get_advance_author split: option.split)
  qed simp
  show ?thesis
    unfolding advanceBytesWatermark_def fold [OF js_wf_group]
    by (auto simp: js_get_group js_get_advance_author filter_empty_conv Let_def image_iff)
qed

lemma advanceBytes_raises: "js_get from a = Some p \<Longrightarrow>
    \<exists>h. js_get (advanceBytesWatermark from rows ceilings) a = Some h \<and> p \<le> h"
  using advance_run_ge [where prior = "Some p"] by (auto simp: js_get_advanceBytesWatermark Let_def)

text \<open>A raised entry is a scanned timestamp with every row up to it satisfied and within the ceiling.\<close>

lemma advanceBytes_sound:
  assumes "js_get (advanceBytesWatermark from rows ceilings) a = Some h" "js_get from a \<noteq> Some h"
  shows "ceiling_allows (js_get ceilings a) h \<and> (\<exists>r \<in> set rows. fst r = h \<and> nodeId h = a) \<and>
    (\<forall>r \<in> set rows. nodeId (fst r) = a \<and> fst r \<le> h \<longrightarrow> snd r)"
proof -
  let ?run = "filter (\<lambda>r. nodeId (fst r) = a) rows"
  let ?limit = "Option.bind (js_get ceilings a) id"
  let ?srt = "js_sort (\<lambda>a b. compareHLC (fst a) (fst b)) ?run"
  have c: "js_get ceilings a \<noteq> Some None" and r: "advance_run ?limit ?srt (js_get from a) = Some h"
    using assms by (auto simp: js_get_advanceBytesWatermark Let_def split: if_splits)
  note sound = advance_run_sound [OF by_hlc.sorted_js_sort r assms(2)]
  have mem: "y \<in> set ?srt \<longleftrightarrow> y \<in> set rows \<and> nodeId (fst y) = a" for y by (simp add: by_hlc.set_js_sort)
  have "ceiling_allows (js_get ceilings a) h"
    using sound c by (cases "js_get ceilings a") (auto simp: run_ok_def ceiling_allows_def)
  moreover have "\<exists>r \<in> set rows. fst r = h \<and> nodeId h = a" using sound mem by auto
  moreover have "\<forall>r \<in> set rows. nodeId (fst r) = a \<and> fst r \<le> h \<longrightarrow> snd r"
    using sound mem by (auto simp: run_ok_def)
  ultimately show ?thesis by blast
qed

section \<open>The scan vouches for what it read\<close>

lemma querySince_vouches:
  assumes "scan_ok hlcOf t from"
  shows "\<exists>pg. querySince hlcOf t from (int limit) = Some pg \<and> vouches hlcOf from limit t pg"
  using scan_streams_vouch [of "[t]" hlcOf "from" limit] assms by (auto simp: scan_streams_def)

definition stream_vouches :: "watermarks \<Rightarrow> file_row list \<Rightarrow> file_row list \<times> stream_truncation \<Rightarrow> bool" where
  "stream_vouches from rows page \<longleftrightarrow> js_wf (snd page) \<and>
     (\<forall>r \<in> set rows. unseen from (row_hlc r) \<and>
        ceiling_allows (js_get (snd page) (nodeId (row_hlc r))) (row_hlc r) \<longrightarrow> r \<in> set (fst page))"

lemma record_stream_vouches:
  assumes "scan_ok updatedAt t from"
  shows "\<exists>page. record_stream from limit (Some t) = Some page \<and> stream_vouches from (map record_file_row t) page"
proof -
  obtain pg where pg: "querySince updatedAt t from (int limit) = Some pg" "vouches updatedAt from limit t pg"
    using querySince_vouches [OF assms] by blast
  have "stream_vouches from (map record_file_row t) (map record_file_row (page_rows pg), page_truncated pg)"
    using pg(2) vouches_has_row [OF pg(2)] by (auto simp: stream_vouches_def record_file_row_def vouches_def)
  then show ?thesis using pg(1) by (simp add: record_stream_def)
qed

lemma app_stream_vouches:
  assumes "scan_ok entry_timestamp t from"
  shows "\<exists>page. app_stream from limit (Some t) = Some page \<and> stream_vouches from (map app_file_row t) page"
proof -
  obtain pg where pg: "querySince entry_timestamp t from (int limit) = Some pg" "vouches entry_timestamp from limit t pg"
    using querySince_vouches [OF assms] by blast
  have "stream_vouches from (map app_file_row t) (map app_file_row (page_rows pg), page_truncated pg)"
    using pg(2) vouches_has_row [OF pg(2)] by (auto simp: stream_vouches_def app_file_row_def vouches_def)
  then show ?thesis using pg(1) by (simp add: app_stream_def)
qed

text \<open>Every row of the channel that may name a file.\<close>

definition channel_rows :: "file_row_sources \<Rightarrow> file_row list" where
  "channel_rows sources =
     (case src_records sources of Some (Some t) \<Rightarrow> map record_file_row t | _ \<Rightarrow> [])
     @ concat (map (\<lambda>t. case t of Some es \<Rightarrow> map app_file_row es | None \<Rightarrow> []) (src_fileTables sources))"

definition sources_ok :: "file_row_sources \<Rightarrow> watermarks \<Rightarrow> bool" where
  "sources_ok sources from \<longleftrightarrow>
     (\<forall>t. src_records sources = Some (Some t) \<longrightarrow> scan_ok updatedAt t from) \<and>
     (\<forall>t. Some t \<in> set (src_fileTables sources) \<longrightarrow> scan_ok entry_timestamp t from)"

text \<open>A channel row the peer lacks, below its author's ceiling, is among the scanned rows.\<close>

lemma scanFileRows_complete:
  assumes ok: "sources_ok sources from" and readable: "scan_readable (scanFileRows sources from limit)"
    and r: "r \<in> set (channel_rows sources)" "unseen from (row_hlc r)"
    and allowed: "ceiling_allows (js_get (scan_ceilings (scanFileRows sources from limit)) (nodeId (row_hlc r))) (row_hlc r)"
  shows "r \<in> set (scan_rows (scanFileRows sources from limit))"
proof -
  define streams where "streams = (case src_records sources of None \<Rightarrow> [] | Some t \<Rightarrow> [record_stream from limit t])
      @ map (app_stream from limit) (src_fileTables sources)"
  have scan: "scanFileRows sources from limit =
      (if None \<in> set streams then \<lparr>scan_rows = [], scan_ceilings = [], scan_readable = False\<rparr>
       else \<lparr>scan_rows = concat (map (\<lambda>s. fst (the s)) streams),
             scan_ceilings = computeCeilings (map (\<lambda>s. snd (the s)) streams), scan_readable = True\<rparr>)"
    by (simp add: scanFileRows_def streams_def Let_def)
  have none: "None \<notin> set streams" using readable by (auto simp: scan split: if_splits)
  have each: "\<exists>rows. stream_vouches from rows (the s)" if s: "s \<in> set streams" for s
  proof -
    have "(\<exists>t. src_records sources = Some t \<and> s = record_stream from limit t) \<or>
        (\<exists>t \<in> set (src_fileTables sources). s = app_stream from limit t)"
      using s by (cases "src_records sources") (auto simp: streams_def)
    then show ?thesis
    proof (elim disjE exE conjE bexE)
      fix t assume t: "src_records sources = Some t" "s = record_stream from limit t"
      then obtain u where "t = Some u" using none s by (cases t) (auto simp: record_stream_def)
      then show ?thesis using ok t record_stream_vouches [of u "from" limit] by (auto simp: sources_ok_def)
    next
      fix t assume t: "t \<in> set (src_fileTables sources)" "s = app_stream from limit t"
      then obtain u where "t = Some u" using none s by (cases t rule: option.exhaust) (auto simp: app_stream_def)
      then show ?thesis using ok t app_stream_vouches [of u "from" limit] by (auto simp: sources_ok_def)
    qed
  qed
  have wf: "\<forall>t \<in> set (map (\<lambda>s. snd (the s)) streams). js_wf t"
    using each by (auto simp: stream_vouches_def)
  have allow: "ceiling_allows (js_get (snd (the s)) (nodeId (row_hlc r))) (row_hlc r)" if "s \<in> set streams" for s
    using allowed none that by (simp add: scan computeCeilings_allows [OF wf])
  have "\<exists>s \<in> set streams. \<exists>rows. r \<in> set rows \<and> stream_vouches from rows (the s)"
  proof -
    have "(\<exists>t. src_records sources = Some (Some t) \<and> r \<in> record_file_row ` set t) \<or>
        (\<exists>t. Some t \<in> set (src_fileTables sources) \<and> r \<in> app_file_row ` set t)"
    proof (cases "r \<in> set (concat (map (\<lambda>t. case t of Some es \<Rightarrow> map app_file_row es | None \<Rightarrow> []) (src_fileTables sources)))")
      case True
      then obtain u where "u \<in> set (src_fileTables sources)"
          "r \<in> set (case u of Some es \<Rightarrow> map app_file_row es | None \<Rightarrow> [])" by auto
      then show ?thesis by (cases u rule: option.exhaust) auto
    next
      case False
      then show ?thesis using r(1)
        by (cases "src_records sources"; cases "the (src_records sources)") (auto simp: channel_rows_def)
    qed
    then consider t where "src_records sources = Some (Some t)" "r \<in> record_file_row ` set t"
      | t where "Some t \<in> set (src_fileTables sources)" "r \<in> app_file_row ` set t"
      by blast
    then show ?thesis
    proof cases
      case 1
      then show ?thesis using ok record_stream_vouches [of t "from" limit]
        by (intro bexI [of _ "record_stream from limit (Some t)"] exI [of _ "map record_file_row t"])
          (auto simp: sources_ok_def streams_def)
    next
      case 2
      then show ?thesis using ok app_stream_vouches [of t "from" limit]
        by (intro bexI [of _ "app_stream from limit (Some t)"] exI [of _ "map app_file_row t"])
          (auto simp: sources_ok_def streams_def)
    qed
  qed
  then obtain s where "s \<in> set streams" "r \<in> set (fst (the s))"
    using r(2) allow by (auto simp: stream_vouches_def)
  then show ?thesis using none by (auto simp: scan)
qed

text \<open>
  Advancing over a scan never claims a file that is not satisfied: a row the new watermark covers
  was covered before or is satisfied.
\<close>

lemma bytes_advance_honest:
  assumes ok: "sources_ok sources from" and readable: "scan_readable (scanFileRows sources from limit)"
    and r: "r \<in> set (channel_rows sources)"
    and next_map: "next_map = advanceBytesWatermark from
      (map (\<lambda>r. (row_hlc r, sat r)) (scan_rows (scanFileRows sources from limit)))
      (scan_ceilings (scanFileRows sources from limit))"
    and cov: "covers next_map (row_hlc r)"
  shows "covers from (row_hlc r) \<or> sat r"
proof (cases "covers from (row_hlc r)")
  case False
  let ?scan = "scanFileRows sources from limit" and ?a = "nodeId (row_hlc r)"
  obtain h where h: "js_get next_map ?a = Some h" "row_hlc r \<le> h"
    using cov by (auto simp: covers_def split: option.splits)
  have new: "js_get from ?a \<noteq> Some h" using False h(2) by (auto simp: covers_def)
  note sound = advanceBytes_sound [OF h(1) [unfolded next_map] new]
  have "ceiling_allows (js_get (scan_ceilings ?scan) ?a) (row_hlc r)"
    using sound h(2) by (auto simp: ceiling_allows_def split: option.splits)
  then have "r \<in> set (scan_rows ?scan)"
    using False by (intro scanFileRows_complete [OF ok readable r]) (simp_all add: unseen_covers)
  then show ?thesis using sound h(2) by auto
qed simp

section \<open>What the bytes watermark promises\<close>

text \<open>
  C17. A node's bytes watermark never claims a file it lacks: after advancing over a readable scan,
  every row of the channel at or below the watermark was already claimed before or is satisfied,
  whatever the page limit truncated, however rows share a timestamp, and whichever stream they
  come from.\<close>

theorem bytes_watermark_never_overclaims:
  assumes "sources_ok sources from" "scan_readable (scanFileRows sources from limit)" "r \<in> set (channel_rows sources)"
    "covers (advanceBytesWatermark from (map (\<lambda>r. (row_hlc r, sat r)) (scan_rows (scanFileRows sources from limit)))
      (scan_ceilings (scanFileRows sources from limit))) (row_hlc r)"
  shows "covers from (row_hlc r) \<or> sat r"
  by (rule bytes_advance_honest [OF assms(1-3) refl assms(4)])

theorem bytes_watermark_never_overclaims_witness:
  "covers (advanceBytesWatermark [] [(HLC 1 0 ''a'', True)] []) (HLC 1 0 ''a'')"
proof -
  let ?e = "\<lparr>entry_timestamp = HLC 1 0 ''a'', entry_appId = ''x'', entry_table = ''t'', entry_op = OpInsert, entry_row = None, entry_where = None\<rparr>"
  let ?s = "\<lparr>src_records = None, src_fileTables = [Some [?e]]\<rparr>"
  let ?sat = "\<lambda>r. row_hlc r = HLC 1 0 ''a''"
  have scan: "scanFileRows ?s [] 10 = \<lparr>scan_rows = [app_file_row ?e], scan_ceilings = [], scan_readable = True\<rparr>"
    by code_simp
  have ok: "sources_ok ?s []" by (simp add: sources_ok_def scan_ok_def hlc_fits_def)
  have row: "app_file_row ?e \<in> set (channel_rows ?s)" by (simp add: channel_rows_def)
  have hlc: "row_hlc (app_file_row ?e) = HLC 1 0 ''a''" by (simp add: app_file_row_def)
  have cov: "covers (advanceBytesWatermark [] [(HLC 1 0 ''a'', True)] []) (HLC 1 0 ''a'')" by code_simp
  have "covers [] (row_hlc (app_file_row ?e)) \<or> ?sat (app_file_row ?e)"
    using bytes_watermark_never_overclaims [of ?s "[]" 10 "app_file_row ?e" ?sat, unfolded scan, OF ok _ row] hlc cov by simp
  then show ?thesis using cov by simp
qed

end
