(* ===== verification/Byte_Window.thy ===== *)
theory Byte_Window
  imports Hlc "HOL-Library.Product_Lexorder" "HOL-Library.Sublist"
begin

text \<open>
  Choosing the files of a round: \<open>packages/sync-engine/src/byte-window.ts\<close>.

  The source tells files apart by object identity (a \<open>Set\<close> of items); here a file is its position
  in the eligible list paired with the item. The cursors into the authors' runs are the suffixes
  still to take. The lemmas show that the round-robin ends, that its head is, author by author,
  the bottom of that author's run, that both allotments keep their budgets (a head of one file
  excepted), and that every file is taken at most once and otherwise counted as left over.
\<close>

record 'a byte_item =
  bi_value :: 'a
  bi_hlc :: hlc
  bi_bytes :: nat

record 'a byte_window_budget =
  headBytes :: nat
  opportunisticBytes :: nat
  opportunisticMaxFiles :: "nat option"
  opportunisticOrder :: "('a \<Rightarrow> int) option"
  skipFile :: "('a \<Rightarrow> bool) option"

record 'a byte_window_plan =
  plan_head :: "'a list"
  plan_opportunistic :: "'a list"
  plan_leftOver :: nat

type_synonym 'a owed_file = "nat \<times> 'a byte_item"

abbreviation file_bytes :: "'a owed_file \<Rightarrow> nat" where "file_bytes f \<equiv> bi_bytes (snd f)"

section \<open>The head allotment\<close>

text \<open>An author's files still to take, and whether the author has stopped.\<close>

type_synonym 'a lane = "'a owed_file list \<times> bool"

text \<open>One pass: one file per author that has not stopped.\<close>

fun head_pass :: "nat \<Rightarrow> 'a lane list \<Rightarrow> 'a owed_file list \<Rightarrow> nat \<Rightarrow> 'a lane list \<times> 'a owed_file list \<times> nat" where
  "head_pass budget [] head bytes = ([], head, bytes)"
| "head_pass budget ((run, stopped) # lanes) head bytes =
     (if stopped then
        let (lanes', head', bytes') = head_pass budget lanes head bytes in ((run, True) # lanes', head', bytes')
      else case run of
        [] \<Rightarrow> let (lanes', head', bytes') = head_pass budget lanes head bytes in (([], True) # lanes', head', bytes')
      | x # xs \<Rightarrow>
          if head \<noteq> [] \<and> bytes + file_bytes x > budget
          then let (lanes', head', bytes') = head_pass budget lanes head bytes in ((run, True) # lanes', head', bytes')
          else let (lanes', head', bytes') = head_pass budget lanes (head @ [x]) (bytes + file_bytes x)
               in ((xs, False) # lanes', head', bytes'))"

definition lanes_weight :: "'a lane list \<Rightarrow> nat" where
  "lanes_weight lanes = sum_list (map (\<lambda>(run, stopped). 2 * length run + (if stopped then 0 else 1)) lanes)"

lemma head_pass_weight:
  "lanes_weight (fst (head_pass budget lanes head bytes)) \<le> lanes_weight lanes \<and>
     (\<not> list_all snd lanes \<longrightarrow> lanes_weight (fst (head_pass budget lanes head bytes)) < lanes_weight lanes)"
proof (induction budget lanes head bytes rule: head_pass.induct)
  case (1 budget head bytes)
  then show ?case by simp
next
  case (2 budget run stopped lanes head bytes)
  show ?case
  proof (cases stopped)
    case True
    then show ?thesis using "2.IH"(1) by (auto simp: lanes_weight_def split: prod.splits)
  next
    case False
    show ?thesis
    proof (cases run)
      case Nil
      then show ?thesis using False "2.IH"(2) by (auto simp: lanes_weight_def split: prod.splits)
    next
      case (Cons x xs)
      then show ?thesis using False "2.IH"(3,4) [OF False Cons]
        by (auto simp: lanes_weight_def split: prod.splits)
    qed
  qed
qed

function head_rounds :: "nat \<Rightarrow> 'a lane list \<Rightarrow> 'a owed_file list \<Rightarrow> nat \<Rightarrow> 'a lane list \<times> 'a owed_file list \<times> nat" where
  "head_rounds budget lanes head bytes =
     (if list_all snd lanes then (lanes, head, bytes)
      else let (lanes', head', bytes') = head_pass budget lanes head bytes
           in head_rounds budget lanes' head' bytes')"
  by pat_completeness auto

termination head_rounds
proof (relation "measure (\<lambda>(_, lanes, _, _). lanes_weight lanes)", goal_cases)
  case (2 budget lanes head bytes r lanes' y head' bytes')
  then show ?case using head_pass_weight [of budget lanes head bytes] by (metis (mono_tags, lifting) case_prod_conv fst_conv in_measure)
qed simp

declare head_rounds.simps [simp del]

section \<open>The opportunistic allotment\<close>

definition opportunistic_compare :: "('a \<Rightarrow> int) option \<Rightarrow> 'a owed_file \<Rightarrow> 'a owed_file \<Rightarrow> int" where
  "opportunistic_compare order a b =
     (let byOrder = (case order of Some f \<Rightarrow> f (bi_value (snd a)) - f (bi_value (snd b)) | None \<Rightarrow> 0)
      in if byOrder \<noteq> 0 then byOrder else int (file_bytes a) - int (file_bytes b))"

fun take_opportunistic :: "nat \<Rightarrow> nat option \<Rightarrow> 'a owed_file list \<Rightarrow> 'a owed_file list \<Rightarrow> nat \<Rightarrow> 'a owed_file list" where
  "take_opportunistic budget maxFiles [] taken bytes = taken"
| "take_opportunistic budget maxFiles (x # xs) taken bytes =
     (if (case maxFiles of Some n \<Rightarrow> length taken \<ge> n | None \<Rightarrow> False) then taken
      else if bytes + file_bytes x > budget then take_opportunistic budget maxFiles xs taken bytes
      else take_opportunistic budget maxFiles xs (taken @ [x]) (bytes + file_bytes x))"

definition eligible_files :: "'a byte_item list \<Rightarrow> ('a \<Rightarrow> bool) option \<Rightarrow> 'a owed_file list" where
  "eligible_files items skip =
     enumerate 0 (case skip of None \<Rightarrow> items | Some f \<Rightarrow> filter (\<lambda>i. \<not> f (bi_value i)) items)"

definition author_lanes :: "'a owed_file list \<Rightarrow> 'a lane list" where
  "author_lanes files =
     map (\<lambda>(_, run). (js_sort (\<lambda>a b. compareHLC (bi_hlc (snd a)) (bi_hlc (snd b))) run, False))
       (js_group (\<lambda>f. nodeId (bi_hlc (snd f))) files)"

definition window_head :: "'a byte_item list \<Rightarrow> 'a byte_window_budget \<Rightarrow> 'a owed_file list" where
  "window_head items budget =
     fst (snd (head_rounds (headBytes budget) (author_lanes (eligible_files items (skipFile budget))) [] 0))"

definition window_rest :: "'a byte_item list \<Rightarrow> 'a byte_window_budget \<Rightarrow> 'a owed_file list" where
  "window_rest items budget =
     js_sort (opportunistic_compare (opportunisticOrder budget))
       (filter (\<lambda>f. f \<notin> set (window_head items budget)) (eligible_files items (skipFile budget)))"

definition window_opportunistic :: "'a byte_item list \<Rightarrow> 'a byte_window_budget \<Rightarrow> 'a owed_file list" where
  "window_opportunistic items budget =
     take_opportunistic (opportunisticBytes budget) (opportunisticMaxFiles budget) (window_rest items budget) [] 0"

definition planByteWindow :: "'a byte_item list \<Rightarrow> 'a byte_window_budget \<Rightarrow> 'a byte_window_plan" where
  "planByteWindow items budget =
     (let head = window_head items budget; opp = window_opportunistic items budget
      in \<lparr>plan_head = map (\<lambda>f. bi_value (snd f)) head, plan_opportunistic = map (\<lambda>f. bi_value (snd f)) opp,
          plan_leftOver = length (eligible_files items (skipFile budget)) - card (set head \<union> set opp)\<rparr>)"

section \<open>The round-robin\<close>

text \<open>
  What any number of passes does to the lanes: each lane loses a front part, the head gains
  exactly those parts, and the budget holds unless the head is a single file.
\<close>

definition lanes_taken :: "'a lane list \<Rightarrow> 'a lane list \<Rightarrow> 'a owed_file list list \<Rightarrow> bool" where
  "lanes_taken lanes lanes' parts \<longleftrightarrow>
     length parts = length lanes \<and> length lanes' = length lanes \<and>
     (\<forall>i < length lanes. fst (lanes ! i) = parts ! i @ fst (lanes' ! i))"

definition head_ok :: "nat \<Rightarrow> 'a owed_file list \<Rightarrow> nat \<Rightarrow> bool" where
  "head_ok budget head bytes \<longleftrightarrow>
     bytes = sum_list (map file_bytes head) \<and> (bytes \<le> budget \<or> length head \<le> 1)"

lemma lanes_taken_Cons:
  "lanes_taken lanes lanes' parts \<Longrightarrow> fst l = p @ fst l' \<Longrightarrow> lanes_taken (l # lanes) (l' # lanes') (p # parts)"
  by (auto simp: lanes_taken_def nth_Cons split: nat.splits)

lemma lanes_taken_trans:
  assumes "lanes_taken a b ps" "lanes_taken b c qs"
  shows "lanes_taken a c (map2 (@) ps qs)"
  using assms by (auto simp: lanes_taken_def)

lemma lanes_taken_mset:
  "lanes_taken lanes lanes' parts \<Longrightarrow> mset (concat (map fst lanes)) = mset (concat parts) + mset (concat (map fst lanes'))"
proof (induction lanes arbitrary: lanes' parts)
  case (Cons l ls)
  then obtain l' ls' p ps where eq: "lanes' = l' # ls'" "parts = p # ps"
    by (cases lanes'; cases parts) (auto simp: lanes_taken_def)
  have "fst l = p @ fst l'" "lanes_taken ls ls' ps"
    using Cons.prems by (auto simp: lanes_taken_def eq dest: spec [of _ 0] spec [of _ "Suc _"])
  then show ?case using Cons.IH [of ls' ps] eq by simp
qed (simp add: lanes_taken_def)

lemma lanes_taken_suffix:
  assumes "lanes_taken lanes lanes' parts" "l' \<in> set lanes'"
  shows "\<exists>l \<in> set lanes. set (fst l') \<subseteq> set (fst l)"
proof -
  from assms(2) obtain i where "i < length lanes'" "lanes' ! i = l'" by (auto simp: in_set_conv_nth)
  with assms(1) show ?thesis by (intro bexI [of _ "lanes ! i"]) (auto simp: lanes_taken_def)
qed

lemma mset_concat_map2: "length ps = length qs \<Longrightarrow> mset (concat (map2 (@) ps qs)) = mset (concat ps) + mset (concat qs)"
  by (induction ps qs rule: list_induct2) auto

text \<open>A lane that stopped did so at its end or at a file the head's budget had no room for.\<close>

definition lane_done :: "nat \<Rightarrow> 'a owed_file list \<Rightarrow> nat \<Rightarrow> 'a lane \<Rightarrow> bool" where
  "lane_done budget head bytes l \<longleftrightarrow>
     fst l = [] \<or> head \<noteq> [] \<and> bytes + file_bytes (hd (fst l)) > budget"

lemma lane_done_mono:
  "lane_done budget head bytes l \<Longrightarrow> bytes \<le> bytes' \<Longrightarrow> lane_done budget (head @ new) bytes' l"
  by (auto simp: lane_done_def)

lemma head_pass_result:
  assumes "head_pass budget lanes head bytes = (lanes', head', bytes')" "head_ok budget head bytes"
  shows "head_ok budget head' bytes' \<and> bytes \<le> bytes' \<and>
    (\<exists>parts new. lanes_taken lanes lanes' parts \<and> head' = head @ new \<and> mset new = mset (concat parts)) \<and>
    list_all2 (\<lambda>l l'. snd l' \<longrightarrow> l' = l \<or> lane_done budget head' bytes' l') lanes lanes'"
  using assms
proof (induction budget lanes head bytes arbitrary: lanes' head' bytes' rule: head_pass.induct)
  case (1 budget head bytes)
  then show ?case by (auto simp: lanes_taken_def)
next
  case (2 budget run stopped lanes head bytes)
  define take_it where "take_it \<longleftrightarrow> \<not> stopped \<and> run \<noteq> [] \<and> \<not> (head \<noteq> [] \<and> bytes + file_bytes (hd run) > budget)"
  define hd1 where "hd1 = (if take_it then head @ [hd run] else head)"
  define by1 where "by1 = (if take_it then bytes + file_bytes (hd run) else bytes)"
  obtain ls hh bb where rest: "head_pass budget lanes hd1 by1 = (ls, hh, bb)" by (cases "head_pass budget lanes hd1 by1")
  have res: "lanes' = (if take_it then tl run else run, \<not> take_it) # ls" "head' = hh" "bytes' = bb"
    using "2.prems"(1) rest by (auto simp: take_it_def hd1_def by1_def split: if_splits list.splits prod.splits)
  have ok1: "head_ok budget hd1 by1"
    using "2.prems"(2) by (auto simp: head_ok_def hd1_def by1_def take_it_def)
  have IH: "head_ok budget hh bb \<and> by1 \<le> bb \<and>
    (\<exists>parts new. lanes_taken lanes ls parts \<and> hh = hd1 @ new \<and> mset new = mset (concat parts)) \<and>
    list_all2 (\<lambda>l l'. snd l' \<longrightarrow> l' = l \<or> lane_done budget hh bb l') lanes ls"
  proof (cases take_it)
    case True
    then obtain x xs where x: "\<not> stopped" "run = x # xs" by (cases run) (auto simp: take_it_def)
    have cond: "\<not> (head \<noteq> [] \<and> bytes + file_bytes x > budget)" using True x by (simp add: take_it_def)
    show ?thesis
      using "2.IH"(4) [OF x cond, of ls hh bb] rest ok1 True x by (simp add: hd1_def by1_def)
  next
    case False
    then consider "stopped" | "\<not> stopped" "run = []"
      | x xs where "\<not> stopped" "run = x # xs" "head \<noteq> [] \<and> bytes + file_bytes x > budget"
      by (cases run) (auto simp: take_it_def)
    then show ?thesis
    proof cases
      case 1
      show ?thesis using "2.IH"(1) [OF 1, of ls hh bb] rest ok1 False by (simp add: hd1_def by1_def)
    next
      case 2
      show ?thesis using "2.IH"(2) [OF 2, of ls hh bb] rest ok1 False by (simp add: hd1_def by1_def)
    next
      case 3
      show ?thesis using "2.IH"(3) [OF 3, of ls hh bb] rest ok1 False by (simp add: hd1_def by1_def)
    qed
  qed
  then obtain parts new where pn: "lanes_taken lanes ls parts" "hh = hd1 @ new" "mset new = mset (concat parts)"
    by blast
  let ?p = "if take_it then [hd run] else []"
  have "lanes_taken ((run, stopped) # lanes) lanes' (?p # parts)"
    unfolding res(1) by (rule lanes_taken_Cons [OF pn(1)]) (auto simp: take_it_def)
  moreover have "head' = head @ (?p @ new)" using pn(2) res(2) by (auto simp: hd1_def)
  moreover have "mset (?p @ new) = mset (concat (?p # parts))" using pn(3) by simp
  moreover have "\<not> take_it \<longrightarrow> (run, True) = (run, stopped) \<or> lane_done budget hh bb (run, True)"
    using pn(2) IH by (auto simp: take_it_def hd1_def by1_def lane_done_def)
  moreover have "bytes \<le> bytes'" using IH res(3) by (auto simp: by1_def split: if_splits)
  ultimately show ?case using IH res by (auto intro!: exI [of _ "?p # parts"] exI [of _ "?p @ new"])
qed

lemma head_rounds_result:
  assumes "head_rounds budget lanes head bytes = (lanes', head', bytes')" "head_ok budget head bytes"
    "\<forall>l \<in> set lanes. snd l \<longrightarrow> lane_done budget head bytes l"
  shows "head_ok budget head' bytes' \<and>
    (\<exists>parts new. lanes_taken lanes lanes' parts \<and> head' = head @ new \<and> mset new = mset (concat parts)) \<and>
    (\<forall>l \<in> set lanes'. lane_done budget head' bytes' l)"
  using assms
proof (induction budget lanes head bytes rule: head_rounds.induct)
  case (1 budget lanes head bytes)
  show ?case
  proof (cases "list_all snd lanes")
    case True
    then have "lanes' = lanes" "head' = head" "bytes' = bytes"
      using "1.prems"(1) by (auto simp: head_rounds.simps)
    moreover have "lanes_taken lanes lanes (replicate (length lanes) [])" by (simp add: lanes_taken_def)
    moreover have "concat (replicate (length lanes) []) = []" by simp
    ultimately show ?thesis using "1.prems" True
      by (auto simp: list_all_iff intro!: exI [of _ "replicate (length lanes) []"])
  next
    case False
    obtain ls hh bb where step: "head_pass budget lanes head bytes = (ls, hh, bb)"
      by (cases "head_pass budget lanes head bytes")
    have go: "head_rounds budget ls hh bb = (lanes', head', bytes')"
      using "1.prems"(1) False step by (subst (asm) head_rounds.simps) simp
    note pass = head_pass_result [OF step "1.prems"(2)]
    then obtain ps n where ps: "lanes_taken lanes ls ps" "hh = head @ n" "mset n = mset (concat ps)" by blast
    have done1: "\<forall>l \<in> set ls. snd l \<longrightarrow> lane_done budget hh bb l"
    proof (intro ballI impI)
      fix l' assume "l' \<in> set ls" "snd l'"
      moreover have "list_all2 (\<lambda>l l'. snd l' \<longrightarrow> l' = l \<or> lane_done budget hh bb l') lanes ls"
        using pass by blast
      ultimately obtain l where l: "l \<in> set lanes" "l' = l \<or> lane_done budget hh bb l'"
        by (blast dest: list_all2_right)
      then show "lane_done budget hh bb l'"
        using "1.prems"(3) \<open>snd l'\<close> lane_done_mono [of budget head bytes l bb n] ps(2) pass by blast
    qed
    have IH: "head_ok budget head' bytes' \<and>
        (\<exists>parts new. lanes_taken ls lanes' parts \<and> head' = hh @ new \<and> mset new = mset (concat parts)) \<and>
        (\<forall>l \<in> set lanes'. lane_done budget head' bytes' l)"
      by (rule "1.IH" [OF False refl step [symmetric] refl go]) (use pass done1 in auto)
    then obtain qs m where qs: "lanes_taken ls lanes' qs" "head' = hh @ m" "mset m = mset (concat qs)" by blast
    have "mset (n @ m) = mset (concat (map2 (@) ps qs))"
      using ps qs by (subst mset_concat_map2) (auto simp: lanes_taken_def)
    moreover have "head' = head @ (n @ m)" using ps qs by simp
    ultimately show ?thesis using IH lanes_taken_trans [OF ps(1) qs(1)] by blast
  qed
qed

text \<open>Files of one kind that only one lane holds keep their order from that lane into the head.\<close>

fun one_lane :: "('a owed_file \<Rightarrow> bool) \<Rightarrow> 'a lane list \<Rightarrow> bool" where
  "one_lane P [] \<longleftrightarrow> True"
| "one_lane P (l # ls) \<longleftrightarrow> one_lane P ls \<and> (filter P (fst l) = [] \<or> (\<forall>m \<in> set ls. filter P (fst m) = []))"

definition lane_view :: "('a owed_file \<Rightarrow> bool) \<Rightarrow> 'a lane list \<Rightarrow> 'a owed_file list" where
  "lane_view P lanes = concat (map (\<lambda>l. filter P (fst l)) lanes)"

lemma lane_view_simps [simp]:
  "lane_view P [] = []" "lane_view P (l # ls) = filter P (fst l) @ lane_view P ls"
  by (simp_all add: lane_view_def)

lemma lane_view_Nil: "lane_view P ls = [] \<longleftrightarrow> (\<forall>m \<in> set ls. filter P (fst m) = [])"
  by (simp add: lane_view_def)

lemma head_pass_lane_view:
  "one_lane P lanes \<Longrightarrow> head_pass budget lanes head bytes = (lanes', head', bytes') \<Longrightarrow>
     filter P head' @ lane_view P lanes' = filter P head @ lane_view P lanes \<and> one_lane P lanes' \<and>
     (lane_view P lanes = [] \<longrightarrow> lane_view P lanes' = [])"
proof (induction budget lanes head bytes arbitrary: lanes' head' bytes' rule: head_pass.induct)
  case (2 budget run stopped lanes head bytes)
  show ?case
  proof (cases "\<not> stopped \<and> run \<noteq> [] \<and> \<not> (head \<noteq> [] \<and> bytes + file_bytes (hd run) > budget)")
    case True
    then obtain x xs where x: "\<not> stopped" "run = x # xs" by (cases run) auto
    have cond: "\<not> (head \<noteq> [] \<and> bytes + file_bytes x > budget)" using True x by simp
    obtain ls hh bb where rest: "head_pass budget lanes (head @ [x]) (bytes + file_bytes x) = (ls, hh, bb)"
      by (cases "head_pass budget lanes (head @ [x]) (bytes + file_bytes x)")
    have res: "lanes' = (xs, False) # ls" "head' = hh" using "2.prems"(2) rest x cond by auto
    note IH = "2.IH"(4) [OF x cond _ rest]
    show ?thesis using IH "2.prems"(1) res x by (auto simp: lane_view_Nil [symmetric] split: if_splits)
  next
    case False
    obtain ls hh bb where rest: "head_pass budget lanes head bytes = (ls, hh, bb)"
      by (cases "head_pass budget lanes head bytes")
    have res: "lanes' = (run, True) # ls" "head' = hh"
      using "2.prems"(2) rest False by (auto split: if_splits list.splits prod.splits)
    have IH: "filter P hh @ lane_view P ls = filter P head @ lane_view P lanes \<and> one_lane P ls \<and>
        (lane_view P lanes = [] \<longrightarrow> lane_view P ls = [])"
      using "2.IH"(1) [OF _ _ rest] "2.IH"(2) [OF _ _ _ rest] "2.IH"(3) [OF _ _ _ _ rest] "2.prems"(1) False
      by (cases run) auto
    show ?thesis using IH "2.prems"(1) res by (auto simp: lane_view_Nil [symmetric])
  qed
qed simp

lemma head_rounds_lane_view:
  "one_lane P lanes \<Longrightarrow> head_rounds budget lanes head bytes = (lanes', head', bytes') \<Longrightarrow>
     filter P head' @ lane_view P lanes' = filter P head @ lane_view P lanes \<and> one_lane P lanes'"
proof (induction budget lanes head bytes rule: head_rounds.induct)
  case (1 budget lanes head bytes)
  show ?case
  proof (cases "list_all snd lanes")
    case True
    then show ?thesis using "1.prems" by (auto simp: head_rounds.simps)
  next
    case False
    obtain ls hh bb where step: "head_pass budget lanes head bytes = (ls, hh, bb)"
      by (cases "head_pass budget lanes head bytes")
    have go: "head_rounds budget ls hh bb = (lanes', head', bytes')"
      using "1.prems"(2) False step by (subst (asm) head_rounds.simps) simp
    show ?thesis
      using head_pass_lane_view [OF "1.prems"(1) step] "1.IH" [OF False refl step [symmetric] refl _ go] by simp
  qed
qed

lemma one_lane_view: "one_lane P ls \<Longrightarrow> lane_view P ls = [] \<or> (\<exists>l \<in> set ls. lane_view P ls = filter P (fst l))"
proof (induction ls)
  case (Cons l ls)
  show ?case
  proof (cases "lane_view P ls = []")
    case True
    then show ?thesis by auto
  next
    case False
    then obtain m where m: "m \<in> set ls" "lane_view P ls = filter P (fst m)" using Cons by auto
    then have "filter P (fst l) = []" using False Cons.prems by (auto simp: lane_view_Nil)
    then show ?thesis using m by (intro disjI2 bexI [of _ m]) simp_all
  qed
qed simp

section \<open>The plan\<close>

lemma sorted_map_subseq: "subseq xs ys \<Longrightarrow> sorted (map g ys) \<Longrightarrow> sorted (map g xs)"
  for g :: "'a \<Rightarrow> 'b::linorder"
  by (induction rule: list_emb.induct) (auto dest: list_emb_set)

lemma subseq_set: "subseq xs ys \<Longrightarrow> set xs \<subseteq> set ys"
  by (induction rule: list_emb.induct) auto

lemma distinct_subseq: "subseq xs ys \<Longrightarrow> distinct ys \<Longrightarrow> distinct xs"
  by (induction rule: list_emb.induct) (auto dest: subseq_set)

interpretation by_hlc: js_comparator "\<lambda>a b. compareHLC (bi_hlc (snd a)) (bi_hlc (snd b))"
  "\<lambda>f. bi_hlc (snd (f :: nat \<times> 'a byte_item))"
  by unfold_locales (simp add: compareHLC_le)

interpretation by_preference: js_comparator "opportunistic_compare order"
  "\<lambda>f. (case order of Some p \<Rightarrow> p (bi_value (snd f)) | None \<Rightarrow> 0, file_bytes f)"
  by unfold_locales (auto simp: opportunistic_compare_def Let_def split: option.splits)

abbreviation file_author :: "'a owed_file \<Rightarrow> string" where "file_author f \<equiv> nodeId (bi_hlc (snd f))"

text \<open>An author's eligible files in timestamp order.\<close>

definition author_run :: "'a byte_item list \<Rightarrow> 'a byte_window_budget \<Rightarrow> string \<Rightarrow> 'a owed_file list" where
  "author_run items budget a =
     sort_key (\<lambda>f. bi_hlc (snd f)) (filter (\<lambda>f. file_author f = a) (eligible_files items (skipFile budget)))"

lemma distinct_eligible: "distinct (eligible_files items skip)"
  by (simp add: eligible_files_def)

lemma author_lanes_run:
  "author_lanes files = map (\<lambda>(a, run). (sort_key (\<lambda>f. bi_hlc (snd f)) run, False)) (js_group file_author files)"
  by (simp add: author_lanes_def by_hlc.js_sort_sort_key case_prod_beta')

lemma filter_sort_author:
  "filter (\<lambda>f. file_author f = a) (sort_key g (filter (\<lambda>f. file_author f = b) fs))
     = (if a = b then sort_key g (filter (\<lambda>f. file_author f = b) fs) else [])"
  by (auto simp: filter_empty_conv filter_id_conv)

lemma group_lanes:
  fixes m :: "(string \<times> 'a owed_file list) list"
  assumes "distinct (map fst m)" "\<forall>(b, run) \<in> set m. run = filter (\<lambda>f. file_author f = b) fs"
  shows "one_lane (\<lambda>f. file_author f = a) (map (\<lambda>(b, run). (sort_key g run, False)) m) \<and>
    lane_view (\<lambda>f. file_author f = a) (map (\<lambda>(b, run). (sort_key g run, False)) m) =
      (if a \<in> fst ` set m then sort_key g (filter (\<lambda>f. file_author f = a) fs) else [])"
  using assms
proof (induction m)
  case (Cons kv m)
  obtain b run where kv: "kv = (b, run)" by (cases kv)
  have "filter (\<lambda>f. file_author f = b) (sort_key g run') = []" if "(c, run') \<in> set m" for c run'
  proof -
    have "run' = filter (\<lambda>f. file_author f = c) fs" using Cons.prems(2) that by auto
    moreover have "c \<noteq> b" using Cons.prems(1) that kv by (auto simp: image_iff)
    ultimately show ?thesis by (simp add: filter_sort_author)
  qed
  then have others: "\<forall>l \<in> set (map (\<lambda>(b, run). (sort_key g run, False)) m). filter (\<lambda>f. file_author f = b) (fst l) = []"
    by auto
  have run: "run = filter (\<lambda>f. file_author f = b) fs" and IHp: "distinct (map fst m)"
      "\<forall>(b, run) \<in> set m. run = filter (\<lambda>f. file_author f = b) fs"
    using Cons.prems kv by auto
  show ?case using Cons.IH [OF IHp] others Cons.prems(1) by (cases "a = b") (auto simp: kv run filter_sort_author)
qed simp

lemma author_lanes_view:
  "one_lane (\<lambda>f. file_author f = a) (author_lanes (eligible_files items (skipFile budget)))"
  "lane_view (\<lambda>f. file_author f = a) (author_lanes (eligible_files items (skipFile budget))) = author_run items budget a"
proof -
  let ?fs = "eligible_files items (skipFile budget)"
  have wf: "distinct (map fst (js_group file_author ?fs))"
    using js_wf_group by (auto simp: js_wf_def)
  have runs: "\<forall>(b, run) \<in> set (js_group file_author ?fs). run = filter (\<lambda>f. file_author f = b) ?fs"
    by (auto simp: in_js_group)
  note g = group_lanes [OF wf runs, of a "\<lambda>f. bi_hlc (snd f)"]
  show "one_lane (\<lambda>f. file_author f = a) (author_lanes ?fs)" using g by (simp add: author_lanes_run)
  have "a \<notin> file_author ` set ?fs \<Longrightarrow> filter (\<lambda>f. file_author f = a) ?fs = []"
    by (auto simp: filter_empty_conv)
  then show "lane_view (\<lambda>f. file_author f = a) (author_lanes ?fs) = author_run items budget a"
    using g js_group_keys [of file_author ?fs] by (auto simp: author_lanes_run author_run_def image_image)
qed

lemma js_push_mset: "js_wf m \<Longrightarrow> mset (concat (map snd (js_push f x m))) = mset (concat (map snd m)) + {#x#}"
  by (induction m) (auto simp: js_push_def js_wf_def)

lemma js_pushes_mset:
  "js_wf m \<Longrightarrow> mset (concat (map snd (fold (js_push f) xs m))) = mset (concat (map snd m)) + mset xs"
proof (induction xs arbitrary: m)
  case (Cons x xs)
  have "js_wf (js_push f x m)" using Cons.prems by (simp add: js_push_def)
  then show ?case using Cons by (simp add: js_push_mset)
qed simp

lemma js_group_mset: "mset (concat (map snd (js_group f xs))) = mset xs"
  using js_pushes_mset [OF js_wf_Nil] by (simp add: js_group_def)

lemma author_lanes_mset: "mset (concat (map fst (author_lanes files))) = mset files"
proof -
  have "mset (concat (map fst (map (\<lambda>(a, run). (sort_key g run, False)) m))) = mset (concat (map snd m))"
    for m :: "(string \<times> 'a owed_file list) list" and g :: "'a owed_file \<Rightarrow> hlc"
    by (induction m) auto
  then show ?thesis by (simp only: author_lanes_run js_group_mset)
qed

text \<open>The lanes end with the files the head did not take, each run stopped where it no longer fits.\<close>

lemma window_head_parts:
  obtains lanes bytes where
    "head_rounds (headBytes budget) (author_lanes (eligible_files items (skipFile budget))) [] 0
       = (lanes, window_head items budget, bytes)"
    "head_ok (headBytes budget) (window_head items budget) bytes"
    "mset (window_head items budget) + mset (concat (map fst lanes)) = mset (eligible_files items (skipFile budget))"
    "\<forall>l \<in> set lanes. lane_done (headBytes budget) (window_head items budget) bytes l"
    "\<forall>l \<in> set lanes. \<forall>f \<in> set (fst l). \<forall>g \<in> set (fst l). file_author f = file_author g"
proof -
  let ?lanes = "author_lanes (eligible_files items (skipFile budget))"
  obtain lanes h bytes where run: "head_rounds (headBytes budget) ?lanes [] 0 = (lanes, h, bytes)"
    by (cases "head_rounds (headBytes budget) ?lanes [] 0")
  have h: "h = window_head items budget" using run by (simp add: window_head_def)
  have "\<forall>l \<in> set ?lanes. \<not> snd l" by (auto simp: author_lanes_def)
  then have res: "head_ok (headBytes budget) h bytes"
      "\<exists>parts new. lanes_taken ?lanes lanes parts \<and> h = [] @ new \<and> mset new = mset (concat parts)"
      "\<forall>l \<in> set lanes. lane_done (headBytes budget) h bytes l"
    using head_rounds_result [OF run] by (auto simp: head_ok_def)
  then obtain parts where parts: "lanes_taken ?lanes lanes parts" "mset h = mset (concat parts)" by auto
  have "mset (concat (map fst ?lanes)) = mset (concat parts) + mset (concat (map fst lanes))"
    by (rule lanes_taken_mset [OF parts(1)])
  moreover have "\<forall>l \<in> set ?lanes. \<forall>f \<in> set (fst l). \<forall>g \<in> set (fst l). file_author f = file_author g"
    by (auto simp: author_lanes_run in_js_group)
  then have "\<forall>l \<in> set lanes. \<forall>f \<in> set (fst l). \<forall>g \<in> set (fst l). file_author f = file_author g"
    using lanes_taken_suffix [OF parts(1)] by blast
  ultimately show ?thesis
    by (intro that [of lanes bytes, folded h] run res(1,3)) (simp_all only: parts(2) author_lanes_mset)
qed

abbreviation total_bytes :: "'a owed_file list \<Rightarrow> nat" where
  "total_bytes fs \<equiv> sum_list (map file_bytes fs)"

lemma window_head_run:
  "(\<exists>rest. author_run items budget a = filter (\<lambda>f. file_author f = a) (window_head items budget) @ rest \<and>
      (rest = [] \<or> window_head items budget \<noteq> [] \<and>
        headBytes budget < total_bytes (window_head items budget) + file_bytes (hd rest)))"
  (is "\<exists>rest. _ = ?mine @ rest \<and> ?stop rest")
proof -
  let ?P = "\<lambda>f. file_author f = a"
  obtain lanes bytes where run:
      "head_rounds (headBytes budget) (author_lanes (eligible_files items (skipFile budget))) [] 0
         = (lanes, window_head items budget, bytes)"
    and ok: "head_ok (headBytes budget) (window_head items budget) bytes"
    and stop: "\<forall>l \<in> set lanes. lane_done (headBytes budget) (window_head items budget) bytes l"
    and one: "\<forall>l \<in> set lanes. \<forall>f \<in> set (fst l). \<forall>g \<in> set (fst l). file_author f = file_author g"
    by (rule window_head_parts)
  have view: "?mine @ lane_view ?P lanes = author_run items budget a" "one_lane ?P lanes"
    using head_rounds_lane_view [OF author_lanes_view(1) run, of a] by (simp_all add: author_lanes_view(2))
  have "?stop (lane_view ?P lanes)"
  proof (cases "lane_view ?P lanes = []")
    case False
    then obtain l where l: "l \<in> set lanes" "lane_view ?P lanes = filter ?P (fst l)" "filter ?P (fst l) \<noteq> []"
      using one_lane_view [OF view(2)] by auto
    have "filter ?P (fst l) = fst l"
    proof (rule filter_True, rule ballI)
      fix f assume f: "f \<in> set (fst l)"
      obtain g where g: "g \<in> set (fst l)" "file_author g = a" using l(3) by (auto simp: filter_empty_conv)
      have "file_author f = file_author g" using one l(1) f g(1) by blast
      then show "file_author f = a" using g(2) by simp
    qed
    moreover have "lane_done (headBytes budget) (window_head items budget) bytes l" using stop l(1) by blast
    moreover have "bytes = total_bytes (window_head items budget)" using ok by (simp add: head_ok_def)
    ultimately show ?thesis using l(2,3) by (simp add: lane_done_def)
  qed simp
  then show ?thesis using view(1) by (intro exI [of _ "lane_view ?P lanes"]) simp
qed

lemma window_head_mset: "mset (window_head items budget) \<subseteq># mset (eligible_files items (skipFile budget))"
proof (rule window_head_parts [of budget items])
  fix lanes :: "'a lane list"
  assume "mset (window_head items budget) + mset (concat (map fst lanes)) = mset (eligible_files items (skipFile budget))"
  then show ?thesis by (metis mset_subset_eq_add_left)
qed

lemma window_head_distinct: "distinct (window_head items budget)"
proof (rule window_head_parts [of budget items])
  fix lanes :: "'a lane list"
  let ?rest = "concat (map fst lanes)"
  assume "mset (window_head items budget) + mset ?rest = mset (eligible_files items (skipFile budget))"
  then have "mset (window_head items budget @ ?rest) = mset (eligible_files items (skipFile budget))" by simp
  then have "distinct (window_head items budget @ ?rest)"
    using distinct_eligible by (metis mset_eq_imp_distinct_iff)
  then show ?thesis by simp
qed

lemma window_head_eligible: "set (window_head items budget) \<subseteq> set (eligible_files items (skipFile budget))"
  using set_mset_mono [OF window_head_mset [of items budget]] by simp

lemma window_head_budget:
  "total_bytes (window_head items budget) \<le> headBytes budget \<or> length (window_head items budget) \<le> 1"
  by (rule window_head_parts [of budget items]) (auto simp: head_ok_def)

lemma take_opportunistic_result:
  obtains sub where "take_opportunistic budget maxFiles xs taken bytes = taken @ sub" "subseq sub xs"
    "sub = [] \<or> bytes + total_bytes sub \<le> budget"
    "\<forall>n. maxFiles = Some n \<longrightarrow> length taken \<le> n \<longrightarrow> length (taken @ sub) \<le> n"
    "\<forall>x \<in> set xs - set sub. maxFiles \<noteq> None \<and> the maxFiles \<le> length (taken @ sub) \<or>
       budget < bytes + total_bytes sub + file_bytes x"
proof -
  have "\<exists>sub. take_opportunistic budget maxFiles xs taken bytes = taken @ sub \<and> subseq sub xs \<and>
    (sub = [] \<or> bytes + total_bytes sub \<le> budget) \<and>
    (\<forall>n. maxFiles = Some n \<longrightarrow> length taken \<le> n \<longrightarrow> length (taken @ sub) \<le> n) \<and>
    (\<forall>x \<in> set xs - set sub. maxFiles \<noteq> None \<and> the maxFiles \<le> length (taken @ sub) \<or>
       budget < bytes + total_bytes sub + file_bytes x)"
  proof (induction budget maxFiles xs taken bytes rule: take_opportunistic.induct)
    case (2 budget maxFiles x xs taken bytes)
    show ?case
    proof (cases "case maxFiles of Some n \<Rightarrow> length taken \<ge> n | None \<Rightarrow> False")
      case True
      then show ?thesis by (intro exI [of _ "[]"]) (auto split: option.splits)
    next
      case room: False
      show ?thesis
      proof (cases "bytes + file_bytes x > budget")
        case True
        obtain sub where "take_opportunistic budget maxFiles xs taken bytes = taken @ sub" "subseq sub xs"
          "sub = [] \<or> bytes + total_bytes sub \<le> budget"
          "\<forall>n. maxFiles = Some n \<longrightarrow> length taken \<le> n \<longrightarrow> length (taken @ sub) \<le> n"
          "\<forall>x \<in> set xs - set sub. maxFiles \<noteq> None \<and> the maxFiles \<le> length (taken @ sub) \<or>
             budget < bytes + total_bytes sub + file_bytes x"
          using "2.IH"(1) [OF room True] by blast
        then show ?thesis using room True by (intro exI [of _ sub]) (auto simp del: not_None_eq)
      next
        case False
        obtain sub where sub: "take_opportunistic budget maxFiles xs (taken @ [x]) (bytes + file_bytes x) = (taken @ [x]) @ sub"
          "subseq sub xs" "sub = [] \<or> bytes + file_bytes x + total_bytes sub \<le> budget"
          "\<forall>n. maxFiles = Some n \<longrightarrow> length (taken @ [x]) \<le> n \<longrightarrow> length ((taken @ [x]) @ sub) \<le> n"
          "\<forall>y \<in> set xs - set sub. maxFiles \<noteq> None \<and> the maxFiles \<le> length ((taken @ [x]) @ sub) \<or>
             budget < bytes + file_bytes x + total_bytes sub + file_bytes y"
          using "2.IH"(2) [OF room False] by blast
        have "\<forall>n. maxFiles = Some n \<longrightarrow> length (taken @ x # sub) \<le> n" using sub(4) room by auto
        then show ?thesis using room False sub(1-3,5)
          by (intro exI [of _ "x # sub"]) (auto simp del: not_None_eq simp: add.assoc)
      qed
    qed
  qed auto
  then show ?thesis using that by blast
qed

lemma window_rest_sorted: "set (window_rest items budget) =
    set (eligible_files items (skipFile budget)) - set (window_head items budget)"
  "distinct (window_rest items budget)"
  "sorted (map (\<lambda>f. (case opportunisticOrder budget of Some p \<Rightarrow> p (bi_value (snd f)) | None \<Rightarrow> 0, file_bytes f))
     (window_rest items budget))"
  using distinct_eligible
  by (auto simp: window_rest_def by_preference.set_js_sort by_preference.js_sort_sort_key
      intro!: by_preference.sorted_js_sort distinct_filter)

section \<open>What the plan guarantees\<close>

text \<open>
  Only files whose arrival can move the watermark go in the head allotment: of each author
  the head takes, in timestamp order, exactly the bottom of that author's eligible files and skips
  none of them; it stops at the author's end or at a file its budget has no room for; and the head
  stays within its byte budget unless it is one single file, which goes however large it is.\<close>

theorem head_is_bottom_of_each_author:
  "(\<exists>rest. author_run items budget a = filter (\<lambda>f. file_author f = a) (window_head items budget) @ rest \<and>
      (rest = [] \<or> window_head items budget \<noteq> [] \<and>
        headBytes budget < total_bytes (window_head items budget) + file_bytes (hd rest))) \<and>
    (total_bytes (window_head items budget) \<le> headBytes budget \<or> length (window_head items budget) \<le> 1)"
  by (intro conjI window_head_run window_head_budget)

text \<open>
  C18. The two allotments share out the eligible files: no file is taken twice, a skipped file is
  never taken, every file neither takes is counted as left over. The opportunistic files come
  preferred and smallest first, within their own byte budget and file limit, and a file is passed
  over only because the limit is reached or the budget cannot hold it.\<close>

theorem plan_shares_out_eligible_files:
  "let H = window_head items budget; Opp = window_opportunistic items budget;
       E = eligible_files items (skipFile budget); plan = planByteWindow items budget
   in distinct (H @ Opp) \<and> set (H @ Opp) \<subseteq> set E \<and>
      length (plan_head plan) + length (plan_opportunistic plan) + plan_leftOver plan = length E \<and>
      sorted (map (\<lambda>f. (case opportunisticOrder budget of Some p \<Rightarrow> p (bi_value (snd f)) | None \<Rightarrow> 0, file_bytes f)) Opp) \<and>
      total_bytes Opp \<le> opportunisticBytes budget \<and>
      (case opportunisticMaxFiles budget of Some n \<Rightarrow> length Opp \<le> n | None \<Rightarrow> True) \<and>
      set E - set (H @ Opp) \<subseteq>
        {f. opportunisticMaxFiles budget \<noteq> None \<and> the (opportunisticMaxFiles budget) \<le> length Opp \<or>
            opportunisticBytes budget < total_bytes Opp + file_bytes f}"
proof -
  let ?H = "window_head items budget" and ?O = "window_opportunistic items budget"
  let ?E = "eligible_files items (skipFile budget)" and ?R = "window_rest items budget"
  obtain sub where sub: "?O = [] @ sub" "subseq sub ?R" "sub = [] \<or> 0 + total_bytes sub \<le> opportunisticBytes budget"
    "\<forall>n. opportunisticMaxFiles budget = Some n \<longrightarrow> length ([] :: 'a owed_file list) \<le> n \<longrightarrow> length ([] @ sub) \<le> n"
    "\<forall>x \<in> set ?R - set sub. opportunisticMaxFiles budget \<noteq> None \<and> the (opportunisticMaxFiles budget) \<le> length ([] @ sub) \<or>
       opportunisticBytes budget < 0 + total_bytes sub + file_bytes x"
    by (rule take_opportunistic_result [of "opportunisticBytes budget" "opportunisticMaxFiles budget" ?R "[]" 0,
        folded window_opportunistic_def])
  note rest = window_rest_sorted [where items = items and budget = budget]
  have dis: "distinct (?H @ ?O)"
    using distinct_subseq [OF sub(2) rest(2)] subseq_set [OF sub(2)] rest(1) sub(1) window_head_distinct [of items budget] by auto
  have within: "set (?H @ ?O) \<subseteq> set ?E"
    using subseq_set [OF sub(2)] rest(1) sub(1) window_head_eligible [of items budget] by auto
  have "card (set ?H \<union> set ?O) = length ?H + length ?O" using distinct_card [OF dis] by simp
  moreover have "length ?H + length ?O \<le> length ?E"
    using card_mono [OF _ within] distinct_card [OF dis] distinct_card [OF distinct_eligible, of items "skipFile budget"] by simp
  ultimately have count: "length (plan_head (planByteWindow items budget)) + length (plan_opportunistic (planByteWindow items budget))
      + plan_leftOver (planByteWindow items budget) = length ?E"
    by (simp add: planByteWindow_def Let_def)
  have order: "sorted (map (\<lambda>f. (case opportunisticOrder budget of Some p \<Rightarrow> p (bi_value (snd f)) | None \<Rightarrow> 0, file_bytes f)) ?O)"
    using sub(1,2) rest(3) by (simp add: sorted_map_subseq)
  show ?thesis unfolding Let_def
    using dis within count order sub(1,3,4,5) rest(1) by (auto split: option.splits)
qed

end
