(* ===== verification/Keyset.thy ===== *)
theory Keyset
  imports Js_Prelude
begin

text \<open>
  What every paged query of the stores shares: cell values and their order, SQL's three-valued
  logic, \<open>ORDER BY\<close> with an explicit null position, the keyset predicate that continues after a
  row, and the walk that follows cursors to the end. The SQL the sources build
  (\<open>record-queries.ts\<close>, \<open>app-query.ts\<close>) is modelled by what it selects.

  Text is compared as the engines' binary collations compare it.
\<close>

section \<open>Cells\<close>

datatype qvalue = QBool bool | QNum rat | QText string

type_synonym cell = "qvalue option"

text \<open>The kinds never meet in one column; across kinds the order is SQLite's, numbers before text.\<close>

instantiation qvalue :: linorder
begin

fun less_eq_qvalue :: "qvalue \<Rightarrow> qvalue \<Rightarrow> bool" where
  "less_eq_qvalue (QBool a) (QBool b) = (a \<le> b)"
| "less_eq_qvalue (QBool a) _ = True"
| "less_eq_qvalue (QNum a) (QBool b) = False"
| "less_eq_qvalue (QNum a) (QNum b) = (a \<le> b)"
| "less_eq_qvalue (QNum a) (QText b) = True"
| "less_eq_qvalue (QText a) (QText b) = (a \<le> b)"
| "less_eq_qvalue (QText a) _ = False"

definition less_qvalue :: "qvalue \<Rightarrow> qvalue \<Rightarrow> bool" where
  "less_qvalue a b \<longleftrightarrow> a \<le> b \<and> \<not> b \<le> a"

instance
proof
  fix x y z :: qvalue
  show "x < y \<longleftrightarrow> x \<le> y \<and> \<not> y \<le> x" by (rule less_qvalue_def)
  show "x \<le> x" by (cases x) auto
  show "x \<le> y \<Longrightarrow> y \<le> z \<Longrightarrow> x \<le> z" by (cases x; cases y; cases z) auto
  show "x \<le> y \<Longrightarrow> y \<le> x \<Longrightarrow> x = y" by (cases x; cases y) auto
  show "x \<le> y \<or> y \<le> x" by (cases x; cases y) auto
qed

end

lemma less_qvalue_simps [simp]:
  "QBool a < QBool b \<longleftrightarrow> a < b" "QNum q < QNum r \<longleftrightarrow> q < r" "QText s < QText t \<longleftrightarrow> s < t"
  by (auto simp: less_qvalue_def)

section \<open>SQL's three-valued logic\<close>

type_synonym sql_bool = "bool option"

fun sql_and :: "sql_bool \<Rightarrow> sql_bool \<Rightarrow> sql_bool" where
  "sql_and (Some False) _ = Some False"
| "sql_and _ (Some False) = Some False"
| "sql_and (Some True) (Some True) = Some True"
| "sql_and _ _ = None"

fun sql_or :: "sql_bool \<Rightarrow> sql_bool \<Rightarrow> sql_bool" where
  "sql_or (Some True) _ = Some True"
| "sql_or _ (Some True) = Some True"
| "sql_or (Some False) (Some False) = Some False"
| "sql_or _ _ = None"

definition sql_not :: "sql_bool \<Rightarrow> sql_bool" where "sql_not = map_option Not"

definition sql_cmp :: "(qvalue \<Rightarrow> qvalue \<Rightarrow> bool) \<Rightarrow> cell \<Rightarrow> cell \<Rightarrow> sql_bool" where
  "sql_cmp f a b = (case (a, b) of (Some x, Some y) \<Rightarrow> Some (f x y) | _ \<Rightarrow> None)"

definition sql_is_null :: "cell \<Rightarrow> sql_bool" where "sql_is_null c = Some (c = None)"

definition sql_is_not_null :: "cell \<Rightarrow> sql_bool" where "sql_is_not_null c = Some (c \<noteq> None)"

definition sql_conj :: "sql_bool list \<Rightarrow> sql_bool" where "sql_conj ps = foldr sql_and ps (Some True)"

definition sql_disj :: "sql_bool list \<Rightarrow> sql_bool" where "sql_disj ps = foldr sql_or ps (Some False)"

text \<open>A \<open>WHERE\<close> keeps the rows its predicate is true of.\<close>

abbreviation sql_holds :: "sql_bool \<Rightarrow> bool" where "sql_holds p \<equiv> p = Some True"

lemma sql_known [simp]:
  "sql_and (Some a) (Some b) = Some (a \<and> b)" "sql_or (Some a) (Some b) = Some (a \<or> b)"
  by (cases a; cases b; simp)+

lemma sql_conj_known [simp]: "sql_conj (map (\<lambda>x. Some (P x)) xs) = Some (list_all P xs)"
  by (induction xs) (simp_all add: sql_conj_def)

lemma sql_disj_known [simp]: "sql_disj (map (\<lambda>x. Some (P x)) xs) = Some (list_ex P xs)"
  by (induction xs) (simp_all add: sql_disj_def)

lemma sql_conj_holds: "sql_holds (sql_conj ps) \<longleftrightarrow> (\<forall>p \<in> set ps. sql_holds p)"
proof (induction ps)
  case (Cons p ps)
  have "sql_holds (sql_and p q) \<longleftrightarrow> sql_holds p \<and> sql_holds q" for q
    by (cases "(p, q)" rule: sql_and.cases) auto
  then show ?case using Cons by (simp add: sql_conj_def)
qed (simp add: sql_conj_def)

section \<open>Ordering\<close>

record order_term =
  term_column :: string
  term_desc :: bool
  term_nullsFirst :: bool

text \<open>Where a cell stands under one ordering term: the null flag decides before the value.\<close>

datatype sort_key = NullFirst | Up qvalue | Down qvalue | NullLast

instantiation sort_key :: linorder
begin

fun less_eq_sort_key :: "sort_key \<Rightarrow> sort_key \<Rightarrow> bool" where
  "less_eq_sort_key NullFirst _ = True"
| "less_eq_sort_key (Up a) (Up b) = (a \<le> b)"
| "less_eq_sort_key (Up a) NullFirst = False"
| "less_eq_sort_key (Up a) _ = True"
| "less_eq_sort_key (Down a) (Down b) = (b \<le> a)"
| "less_eq_sort_key (Down a) NullLast = True"
| "less_eq_sort_key (Down a) _ = False"
| "less_eq_sort_key NullLast k = (k = NullLast)"

definition less_sort_key :: "sort_key \<Rightarrow> sort_key \<Rightarrow> bool" where
  "less_sort_key a b \<longleftrightarrow> a \<le> b \<and> \<not> b \<le> a"

instance
proof
  fix x y z :: sort_key
  show "x < y \<longleftrightarrow> x \<le> y \<and> \<not> y \<le> x" by (rule less_sort_key_def)
  show "x \<le> x" by (cases x) auto
  show "x \<le> y \<Longrightarrow> y \<le> z \<Longrightarrow> x \<le> z" by (cases x; cases y; cases z) auto
  show "x \<le> y \<Longrightarrow> y \<le> x \<Longrightarrow> x = y" by (cases x; cases y) auto
  show "x \<le> y \<or> y \<le> x" by (cases x; cases y) auto
qed

end

lemma less_sort_key_simps [simp]:
  "Up a < Up b \<longleftrightarrow> a < b" "Down a < Down b \<longleftrightarrow> b < a"
  "NullFirst < k \<longleftrightarrow> k \<noteq> NullFirst" "\<not> k < NullFirst" "k < NullLast \<longleftrightarrow> k \<noteq> NullLast" "\<not> NullLast < k"
  by (auto simp: less_sort_key_def elim: less_eq_sort_key.elims) (cases k; simp)+

definition sort_rank :: "order_term \<Rightarrow> cell \<Rightarrow> sort_key" where
  "sort_rank t c =
     (case c of
        None \<Rightarrow> if term_nullsFirst t then NullFirst else NullLast
      | Some v \<Rightarrow> if term_desc t then Down v else Up v)"

definition row_rank :: "order_term list \<Rightarrow> ('a \<Rightarrow> string \<Rightarrow> cell) \<Rightarrow> 'a \<Rightarrow> sort_key list" where
  "row_rank order col row = map (\<lambda>t. sort_rank t (col row (term_column t))) order"

definition token_rank :: "order_term list \<Rightarrow> cell list \<Rightarrow> sort_key list" where
  "token_rank order keys = map2 sort_rank order keys"

text \<open>A key of a continuation: whether the value was null, and the value.\<close>

type_synonym cursor_key = "bool \<times> cell"

definition cell_key :: "cell \<Rightarrow> cursor_key" where "cell_key c = (c = None, c)"

lemma sort_rank_inject: "sort_rank t a = sort_rank t b \<longleftrightarrow> a = b"
  by (auto simp: sort_rank_def split: option.splits if_splits)

section \<open>The keyset predicate\<close>

text \<open>Strictly after the key on this term, and equal to it, as the sources spell them.\<close>

definition key_after :: "order_term \<Rightarrow> cursor_key \<Rightarrow> cell \<Rightarrow> sql_bool" where
  "key_after t key c =
     (if fst key then (if term_nullsFirst t then sql_is_not_null c else Some False)
      else let beyond = sql_cmp (if term_desc t then (<) else (>)) c (snd key)
           in if term_nullsFirst t then sql_and (sql_is_not_null c) beyond else sql_or (sql_is_null c) beyond)"

definition key_equal :: "cursor_key \<Rightarrow> cell \<Rightarrow> sql_bool" where
  "key_equal key c = (if fst key then sql_is_null c else sql_and (sql_is_not_null c) (sql_cmp (=) c (snd key)))"

definition keyset_after :: "order_term list \<Rightarrow> cursor_key list \<Rightarrow> ('a \<Rightarrow> string \<Rightarrow> cell) \<Rightarrow> 'a \<Rightarrow> sql_bool" where
  "keyset_after order keys col row =
     (let cell = (\<lambda>i. col row (term_column (order ! i)))
      in sql_disj (map (\<lambda>i. sql_conj (map (\<lambda>j. key_equal (keys ! j) (cell j)) [0..<i]
           @ [key_after (order ! i) (keys ! i) (cell i)])) [0..<length order]))"

lemma key_after_rank: "key_after t (cell_key key) c = Some (sort_rank t key < sort_rank t c)"
  by (cases key; cases c; cases "term_nullsFirst t"; cases "term_desc t")
    (auto simp: key_after_def cell_key_def sort_rank_def sql_cmp_def sql_is_null_def sql_is_not_null_def less_sort_key_def)

lemma key_equal_rank: "key_equal (cell_key key) c = Some (sort_rank t key = sort_rank t c)"
  by (cases key; cases c)
    (auto simp: key_equal_def cell_key_def sort_rank_inject sql_cmp_def sql_is_null_def sql_is_not_null_def)

lemma lex_less_chain:
  fixes xs ys :: "'b::linorder list"
  shows "length xs = length ys \<Longrightarrow>
    xs < ys \<longleftrightarrow> (\<exists>i < length xs. (\<forall>j < i. xs ! j = ys ! j) \<and> xs ! i < ys ! i)"
proof (induction xs ys rule: list_induct2)
  case (Cons x xs y ys)
  show ?case
  proof
    assume "x # xs < y # ys"
    then consider "x < y" | "x = y" "xs < ys" by auto
    then show "\<exists>i < length (x # xs). (\<forall>j < i. (x # xs) ! j = (y # ys) ! j) \<and> (x # xs) ! i < (y # ys) ! i"
    proof cases
      case 1
      then show ?thesis by (intro exI [of _ 0]) simp
    next
      case 2
      then obtain i where "i < length xs" "\<forall>j < i. xs ! j = ys ! j" "xs ! i < ys ! i" using Cons.IH by blast
      then show ?thesis using 2(1) by (intro exI [of _ "Suc i"]) (auto simp: nth_Cons split: nat.splits)
    qed
  next
    assume "\<exists>i < length (x # xs). (\<forall>j < i. (x # xs) ! j = (y # ys) ! j) \<and> (x # xs) ! i < (y # ys) ! i"
    then obtain i where i: "i < length (x # xs)" "\<forall>j < i. (x # xs) ! j = (y # ys) ! j" "(x # xs) ! i < (y # ys) ! i"
      by blast
    show "x # xs < y # ys"
    proof (cases i)
      case 0
      then show ?thesis using i by simp
    next
      case (Suc k)
      then have "x = y" "\<forall>j < k. xs ! j = ys ! j" "xs ! k < ys ! k" "k < length xs"
        using i by (auto dest: spec [of _ 0] spec [of _ "Suc _"])
      then show ?thesis using Cons.IH by auto
    qed
  qed
qed simp

text \<open>The chain of the sources is the lexicographic order, and never unknown.\<close>

lemma keyset_after_rank:
  assumes "length keys = length order"
  shows "keyset_after order (map cell_key keys) col row = Some (token_rank order keys < row_rank order col row)"
proof -
  let ?K = "token_rank order keys" and ?R = "row_rank order col row"
  have len: "length ?K = length ?R" "length ?K = length order" using assms by (simp_all add: token_rank_def row_rank_def)
  have nth: "i < length order \<Longrightarrow> ?K ! i = sort_rank (order ! i) (keys ! i)"
    "i < length order \<Longrightarrow> ?R ! i = sort_rank (order ! i) (col row (term_column (order ! i)))" for i
    using assms by (simp_all add: token_rank_def row_rank_def)
  have chain: "sql_conj (map (\<lambda>j. key_equal (map cell_key keys ! j) (col row (term_column (order ! j)))) [0..<i]
         @ [key_after (order ! i) (map cell_key keys ! i) (col row (term_column (order ! i)))])
       = Some ((\<forall>j < i. ?K ! j = ?R ! j) \<and> ?K ! i < ?R ! i)" if i: "i < length order" for i
  proof -
    have eq: "map (\<lambda>j. key_equal (map cell_key keys ! j) (col row (term_column (order ! j)))) [0..<i]
        = map (\<lambda>j. Some (?K ! j = ?R ! j)) [0..<i]"
      using i nth assms by (intro map_cong [OF refl]) (simp add: key_equal_rank)
    have app: "sql_conj (map (\<lambda>x. Some (P x)) xs @ [Some b]) = Some (list_all P xs \<and> b)" for P b and xs :: "nat list"
      by (induction xs) (simp_all add: sql_conj_def)
    have aft: "key_after (order ! i) (map cell_key keys ! i) c = Some (?K ! i < sort_rank (order ! i) c)" for c
      using i nth assms by (simp add: key_after_rank)
    show ?thesis unfolding eq aft app using i nth by (auto simp: list_all_iff)
  qed
  have "keyset_after order (map cell_key keys) col row
      = sql_disj (map (\<lambda>i. Some ((\<forall>j < i. ?K ! j = ?R ! j) \<and> ?K ! i < ?R ! i)) [0..<length order])"
    unfolding keyset_after_def Let_def by (intro arg_cong [of _ _ sql_disj] map_cong [OF refl] chain) simp
  also have "\<dots> = Some (list_ex (\<lambda>i. (\<forall>j < i. ?K ! j = ?R ! j) \<and> ?K ! i < ?R ! i) [0..<length order])"
    by (rule sql_disj_known)
  also have "list_ex (\<lambda>i. (\<forall>j < i. ?K ! j = ?R ! j) \<and> ?K ! i < ?R ! i) [0..<length order] \<longleftrightarrow> ?K < ?R"
    unfolding lex_less_chain [OF len(1)] len(2) list_ex_iff by auto
  finally show ?thesis .
qed

section \<open>Pages\<close>

text \<open>
  The rows of one statement: those the predicate and the continuation are true of, ordered, and cut
  at the limit when there is one.
\<close>

definition select_rows ::
  "order_term list \<Rightarrow> ('a \<Rightarrow> string \<Rightarrow> cell) \<Rightarrow> ('a \<Rightarrow> bool) \<Rightarrow> cursor_key list option \<Rightarrow> 'a list \<Rightarrow> 'a list" where
  "select_rows order col wanted after table =
     sort_key (row_rank order col)
       (filter (\<lambda>r. wanted r \<and> (case after of None \<Rightarrow> True | Some keys \<Rightarrow> sql_holds (keyset_after order keys col r))) table)"

definition row_keys :: "order_term list \<Rightarrow> ('a \<Rightarrow> string \<Rightarrow> cell) \<Rightarrow> 'a \<Rightarrow> cell list" where
  "row_keys order col row = map (\<lambda>t. col row (term_column t)) order"

lemma token_rank_row_keys: "token_rank order (row_keys order col row) = row_rank order col row"
  by (simp add: token_rank_def row_keys_def row_rank_def zip_map2 zip_same_conv_map comp_def)

lemma select_rows_first: "select_rows order col wanted None table = sort_key (row_rank order col) (filter wanted table)"
  by (simp add: select_rows_def)

lemma select_rows_after:
  "select_rows order col wanted (Some (map cell_key (row_keys order col r))) table =
     filter (\<lambda>x. row_rank order col r < row_rank order col x) (sort_key (row_rank order col) (filter wanted table))"
proof -
  have "keyset_after order (map cell_key (row_keys order col r)) col x = Some (row_rank order col r < row_rank order col x)" for x
    using keyset_after_rank [of "row_keys order col r" order col x]
    by (simp add: token_rank_row_keys) (simp add: row_keys_def)
  then have "select_rows order col wanted (Some (map cell_key (row_keys order col r))) table =
      sort_key (row_rank order col) (filter (\<lambda>x. row_rank order col r < row_rank order col x) (filter wanted table))"
    by (simp add: select_rows_def conj_commute)
  then show ?thesis by (simp add: filter_sort)
qed

text \<open>
  A page of the rows still to come: the shapes of a front part, and where to go on when anything is
  left.
\<close>

definition page_of :: "('a \<Rightarrow> 'b) \<Rightarrow> ('a \<Rightarrow> 'p) \<Rightarrow> 'a list \<Rightarrow> 'b list \<times> 'p option \<Rightarrow> bool" where
  "page_of shape position todo page \<longleftrightarrow>
     (\<exists>front rest. todo = front @ rest \<and> fst page = map shape front \<and>
        (case snd page of None \<Rightarrow> rest = [] | Some p \<Rightarrow> front \<noteq> [] \<and> p = position (last front)))"

text \<open>Following cursors to the end; \<open>None\<close> if the end is never reached.\<close>

partial_function (option) walk :: "('p option \<Rightarrow> 'b list \<times> 'p option) \<Rightarrow> 'p option \<Rightarrow> 'b list option" where
  [code]: "walk fetch p =
     (case fetch p of
        (xs, None) \<Rightarrow> Some xs
      | (xs, Some q) \<Rightarrow> Option.bind (walk fetch (Some q)) (\<lambda>ys. Some (xs @ ys)))"

lemma filter_beyond:
  fixes rank :: "'a \<Rightarrow> 'k::linorder"
  assumes "sorted (map rank (ys @ zs))" "distinct (map rank (ys @ zs))" "ys \<noteq> []"
  shows "filter (\<lambda>x. rank (last ys) < rank x) (ys @ zs) = zs"
proof -
  obtain us u where ys: "ys = us @ [u]" using assms(3) by (cases ys rule: rev_cases) auto
  have "filter (\<lambda>x. rank u < rank x) (us @ [u]) = []"
    using assms(1) by (auto simp: ys sorted_append filter_empty_conv dest!: leD)
  moreover have "filter (\<lambda>x. rank u < rank x) zs = zs"
  proof (rule filter_True, rule ballI)
    fix z assume "z \<in> set zs"
    then have "rank u \<le> rank z" "rank u \<noteq> rank z" using assms(1,2) by (auto simp: ys sorted_append)
    then show "rank u < rank z" by simp
  qed
  ultimately show ?thesis by (simp add: ys)
qed

text \<open>
  The contract of a paged read: for every query and table it is meant for, a page is a front part
  of the wanted rows after its position, in the order of the query, and says whether more follow.
  Under it, following the cursors visits every wanted row exactly once and ends.
\<close>

locale keyset_pages =
  fixes rank :: "'q \<Rightarrow> 'a \<Rightarrow> 'k::linorder"
    and shape :: "'q \<Rightarrow> 'a \<Rightarrow> 'b"
    and wanted :: "'q \<Rightarrow> 'a \<Rightarrow> bool"
    and ok :: "'q \<Rightarrow> 'a list \<Rightarrow> bool"
    and fetch :: "'q \<Rightarrow> 'a list \<Rightarrow> 'p option \<Rightarrow> 'b list \<times> 'p option"
    and position :: "'q \<Rightarrow> 'a \<Rightarrow> 'p"
  assumes ranks_distinct: "ok q rows \<Longrightarrow> distinct (map (rank q) (filter (wanted q) rows))"
    and first_page: "ok q rows \<Longrightarrow> page_of (shape q) (position q) (sort_key (rank q) (filter (wanted q) rows)) (fetch q rows None)"
    and next_page: "ok q rows \<Longrightarrow> r \<in> set rows \<Longrightarrow> wanted q r \<Longrightarrow>
      page_of (shape q) (position q) (filter (\<lambda>x. rank q r < rank q x) (sort_key (rank q) (filter (wanted q) rows)))
        (fetch q rows (Some (position q r)))"
begin

lemma walk_from:
  assumes ok: "ok q rows" and all: "sort_key (rank q) (filter (wanted q) rows) = before @ todo"
    and page: "page_of (shape q) (position q) todo (fetch q rows p)"
  shows "walk (fetch q rows) p = Some (map (shape q) todo)"
  using all page
proof (induction "length todo" arbitrary: before todo p rule: less_induct)
  case less
  let ?S = "sort_key (rank q) (filter (wanted q) rows)"
  have sorted: "sorted (map (rank q) ?S)" by simp
  have "mset (map (rank q) ?S) = mset (map (rank q) (filter (wanted q) rows))" by simp
  then have distinct: "distinct (map (rank q) ?S)" using ranks_distinct [OF ok] mset_eq_imp_distinct_iff by blast
  obtain xs nxt where f: "fetch q rows p = (xs, nxt)" by (cases "fetch q rows p")
  obtain front rest where rest: "todo = front @ rest"
      "case nxt of None \<Rightarrow> rest = [] | Some c \<Rightarrow> front \<noteq> [] \<and> c = position q (last front)"
      and shape: "xs = map (shape q) front"
    using less.prems(2) by (auto simp: page_of_def f cong: option.case_cong)
  show ?case
  proof (cases nxt)
    case None
    then show ?thesis using rest f shape by (subst walk.simps) simp
  next
    case (Some c)
    then have xs: "front \<noteq> []" and c: "c = position q (last front)" using rest(2) by auto
    have last: "last front \<in> set ?S" using xs by (simp add: less.prems(1) rest(1))
    have "filter (\<lambda>x. rank q (last (before @ front)) < rank q x) ((before @ front) @ rest) = rest"
      using sorted distinct xs by (intro filter_beyond) (simp_all add: less.prems(1) rest(1))
    then have after: "filter (\<lambda>x. rank q (last front) < rank q x) ?S = rest" using xs by (simp add: less.prems(1) rest(1))
    have "page_of (shape q) (position q) rest (fetch q rows (Some c))"
      using next_page [OF ok, of "last front"] last by (simp add: c after)
    then have "walk (fetch q rows) (Some c) = Some (map (shape q) rest)"
      using xs by (intro less.hyps [of rest "before @ front"]) (simp_all add: less.prems(1) rest(1))
    then show ?thesis using rest f shape Some by (subst walk.simps) simp
  qed
qed

theorem walk_all: "ok q rows \<Longrightarrow> walk (fetch q rows) None = Some (map (shape q) (sort_key (rank q) (filter (wanted q) rows)))"
  using walk_from [of q rows "[]" "sort_key (rank q) (filter (wanted q) rows)" None] first_page by simp

end

end
