(* ===== verification/Query_Predicates.thy ===== *)
theory Query_Predicates
  imports Keyset
begin

text \<open>
  The predicates of the query grammar, twice: as the SQL both engines run
  (\<open>packages/storage-adapter/src/database/app-query.ts\<close>, \<open>predicateExpression\<close>) and as the
  in-memory adapter evaluates them (\<open>app-query-memory.ts\<close>, \<open>holds\<close>), over the vocabulary of
  \<open>app-query-types.ts\<close>, with the two operators that need care: \<open>prefix\<close>
  (\<open>packages/shared-space-api/src/query/prefix.ts\<close>) and \<open>like\<close> (\<open>query/like.ts\<close>).

  The lemmas show that the prefix range is exactly "starts with", that a validated pattern means
  the same to both evaluators, and on which predicates the two agree.
\<close>

section \<open>Predicates\<close>

datatype compare_op = OpLt | OpLte | OpGt | OpGte

text \<open>The bounds of a prefix are code points: the upper one may lie beyond the 8-bit characters.\<close>

datatype predicate =
    PEq cell
  | PNe cell
  | PCompare compare_op qvalue
  | PIn "cell list"
  | PIs "bool option"
  | PPrefix "nat list" "nat list option"
  | PLike string

type_synonym where_clause = "string \<times> predicate"

abbreviation code_points :: "string \<Rightarrow> nat list" where "code_points s \<equiv> map of_char s"

fun compare_holds :: "compare_op \<Rightarrow> qvalue \<Rightarrow> qvalue \<Rightarrow> bool" where
  "compare_holds OpLt a b = (a < b)"
| "compare_holds OpLte a b = (a \<le> b)"
| "compare_holds OpGt a b = (a > b)"
| "compare_holds OpGte a b = (a \<ge> b)"

section \<open>Prefix ranges\<close>

definition next_point :: "nat \<Rightarrow> nat" where
  "next_point c = (if 55296 \<le> c + 1 \<and> c + 1 \<le> 57343 then 57344 else c + 1)"

text \<open>\<open>prefixUpperBound\<close>: from the end, the first code point that has a successor is replaced by it.\<close>

fun prefix_upper_rev :: "nat list \<Rightarrow> nat list option" where
  "prefix_upper_rev [] = None"
| "prefix_upper_rev (c # cs) =
     (if next_point c > 1114111 then prefix_upper_rev cs else Some (rev (next_point c # cs)))"

definition prefixUpperBound :: "nat list \<Rightarrow> nat list option" where
  "prefixUpperBound prefix = prefix_upper_rev (rev prefix)"

text \<open>A Unicode scalar value: in range, and no surrogate.\<close>

definition scalar :: "nat \<Rightarrow> bool" where
  "scalar c \<longleftrightarrow> c \<le> 1114111 \<and> \<not> (55296 \<le> c \<and> c \<le> 57343)"

definition in_prefix_range :: "nat list \<Rightarrow> nat list option \<Rightarrow> nat list \<Rightarrow> bool" where
  "in_prefix_range lower upper s \<longleftrightarrow> lower \<le> s \<and> (case upper of None \<Rightarrow> True | Some u \<Rightarrow> s < u)"

section \<open>Patterns\<close>

definition LIKE_ESCAPE_CHAR :: char where "LIKE_ESCAPE_CHAR = CHR 0x5C"

definition MAX_LIKE_PATTERN_LENGTH :: nat where "MAX_LIKE_PATTERN_LENGTH = 200"

text \<open>
  SQL's \<open>LIKE\<close>: \<open>%\<close> is any run of characters, \<open>_\<close> any one, and the escape makes the next character
  stand for itself. A pattern that ends in the escape matches nothing.
\<close>

function sql_like :: "char option \<Rightarrow> string \<Rightarrow> string \<Rightarrow> bool" where
  "sql_like esc [] s = (s = [])"
| "sql_like esc (p # ps) s =
     (if Some p = esc
      then (case ps of [] \<Rightarrow> False | q # qs \<Rightarrow> (case s of [] \<Rightarrow> False | c # cs \<Rightarrow> c = q \<and> sql_like esc qs cs))
      else if p = CHR ''%'' then sql_like esc ps s \<or> (case s of [] \<Rightarrow> False | c # cs \<Rightarrow> sql_like esc (p # ps) cs)
      else (case s of [] \<Rightarrow> False | c # cs \<Rightarrow> (p = CHR ''_'' \<or> p = c) \<and> sql_like esc ps cs))"
  by pat_completeness auto

termination sql_like
  by (relation "measure (\<lambda>(_, ps, s). length ps + length s)") auto

text \<open>\<open>likeRegExp\<close>: the pattern as a sequence of expressions, matched against the whole string.\<close>

datatype regex_item = RLiteral char | RAny | RAnyRun

fun likeRegExp :: "string \<Rightarrow> regex_item list" where
  "likeRegExp [] = []"
| "likeRegExp [p] = [if p = CHR ''%'' then RAnyRun else if p = CHR ''_'' then RAny else RLiteral p]"
| "likeRegExp (p # q # ps) =
     (if p = LIKE_ESCAPE_CHAR then RLiteral q # likeRegExp ps
      else (if p = CHR ''%'' then RAnyRun else if p = CHR ''_'' then RAny else RLiteral p) # likeRegExp (q # ps))"

function regex_matches :: "regex_item list \<Rightarrow> string \<Rightarrow> bool" where
  "regex_matches [] s = (s = [])"
| "regex_matches (RLiteral c # rs) s = (case s of [] \<Rightarrow> False | d # ds \<Rightarrow> c = d \<and> regex_matches rs ds)"
| "regex_matches (RAny # rs) s = (case s of [] \<Rightarrow> False | d # ds \<Rightarrow> regex_matches rs ds)"
| "regex_matches (RAnyRun # rs) s = (regex_matches rs s \<or> (case s of [] \<Rightarrow> False | d # ds \<Rightarrow> regex_matches (RAnyRun # rs) ds))"
  by pat_completeness auto

termination regex_matches
  by (relation "measure (\<lambda>(rs, s). length rs + length s)") auto

datatype query_error = QueryParseError string

text \<open>\<open>validateLikePattern\<close>: only the escapes of the wildcards and of itself are accepted.\<close>

fun escapes_ok :: "string \<Rightarrow> query_error + unit" where
  "escapes_ok [] = Inr ()"
| "escapes_ok [p] = (if p = LIKE_ESCAPE_CHAR then Inl (QueryParseError ''like pattern ends in a lone escape'') else Inr ())"
| "escapes_ok (p # q # ps) =
     (if p \<noteq> LIKE_ESCAPE_CHAR then escapes_ok (q # ps)
      else if q \<noteq> CHR ''%'' \<and> q \<noteq> CHR ''_'' \<and> q \<noteq> LIKE_ESCAPE_CHAR then Inl (QueryParseError ''not a like escape'')
      else escapes_ok ps)"

definition validateLikePattern :: "string \<Rightarrow> query_error + string" where
  "validateLikePattern pattern =
     (if pattern = [] then Inl (QueryParseError ''like takes a non-empty pattern'')
      else if length pattern > MAX_LIKE_PATTERN_LENGTH then Inl (QueryParseError ''like pattern is too long'')
      else case escapes_ok pattern of Inl e \<Rightarrow> Inl e | Inr _ \<Rightarrow> Inr pattern)"

section \<open>The two evaluators\<close>

definition sql_text :: "(string \<Rightarrow> bool) \<Rightarrow> cell \<Rightarrow> sql_bool" where
  "sql_text f c = (case c of None \<Rightarrow> None | Some (QText s) \<Rightarrow> Some (f s) | Some _ \<Rightarrow> Some False)"

definition predicateExpression :: "cell \<Rightarrow> predicate \<Rightarrow> sql_bool" where
  "predicateExpression c p =
     (case p of
        PEq v \<Rightarrow> if v = None then sql_is_null c else sql_cmp (=) c v
      | PNe v \<Rightarrow> if v = None then sql_is_not_null c else sql_or (sql_is_null c) (sql_cmp (\<noteq>) c v)
      | PCompare op v \<Rightarrow> sql_cmp (compare_holds op) c (Some v)
      | PIn vs \<Rightarrow> sql_disj (map (sql_cmp (=) c) vs)
      | PIs None \<Rightarrow> sql_is_null c
      | PIs (Some b) \<Rightarrow> sql_cmp (=) c (Some (QBool b))
      | PPrefix lower upper \<Rightarrow> sql_text (\<lambda>s. in_prefix_range lower upper (code_points s)) c
      | PLike pattern \<Rightarrow> sql_text (sql_like (Some LIKE_ESCAPE_CHAR) pattern) c)"

definition sql_where :: "('a \<Rightarrow> string \<Rightarrow> cell) \<Rightarrow> where_clause list \<Rightarrow> 'a \<Rightarrow> bool" where
  "sql_where col clauses row \<longleftrightarrow> (\<forall>(column, p) \<in> set clauses. sql_holds (predicateExpression (col row column) p))"

text \<open>\<open>null\<close> when the two values are not of one comparable kind.\<close>

fun compare_values :: "qvalue \<Rightarrow> qvalue \<Rightarrow> int option" where
  "compare_values (QText a) (QText b) = Some (if a < b then -1 else if b < a then 1 else 0)"
| "compare_values (QNum a) (QNum b) = Some (if a < b then -1 else if b < a then 1 else 0)"
| "compare_values (QBool a) (QBool b) = Some (of_bool a - of_bool b)"
| "compare_values _ _ = None"

fun sign_holds :: "compare_op \<Rightarrow> int \<Rightarrow> bool" where
  "sign_holds OpLt s = (s < 0)"
| "sign_holds OpLte s = (s \<le> 0)"
| "sign_holds OpGt s = (s > 0)"
| "sign_holds OpGte s = (s \<ge> 0)"

definition holds :: "cell \<Rightarrow> predicate \<Rightarrow> bool" where
  "holds c p =
     (case p of
        PEq v \<Rightarrow> (if v = None then c = None else c = v)
      | PIs v \<Rightarrow> (case v of None \<Rightarrow> c = None | Some b \<Rightarrow> c = Some (QBool b))
      | PNe v \<Rightarrow> (if v = None then c \<noteq> None else c = None \<or> c \<noteq> v)
      | PCompare op v \<Rightarrow>
          (case c of None \<Rightarrow> False
           | Some x \<Rightarrow> (case compare_values x v of None \<Rightarrow> False | Some s \<Rightarrow> sign_holds op s))
      | PIn vs \<Rightarrow> c \<in> set vs
      | PPrefix lower upper \<Rightarrow>
          (case c of Some (QText s) \<Rightarrow>
             if code_points s < lower then False
             else (case upper of None \<Rightarrow> True | Some u \<Rightarrow> code_points s < u)
           | _ \<Rightarrow> False)
      | PLike pattern \<Rightarrow> (case c of Some (QText s) \<Rightarrow> regex_matches (likeRegExp pattern) s | _ \<Rightarrow> False))"

definition matches :: "('a \<Rightarrow> string \<Rightarrow> cell) \<Rightarrow> where_clause list \<Rightarrow> 'a \<Rightarrow> bool" where
  "matches col clauses row \<longleftrightarrow> (\<forall>(column, p) \<in> set clauses. holds (col row column) p)"

section \<open>Prefix is "starts with"\<close>

lemma next_point_scalar: "scalar c \<Longrightarrow> next_point c \<le> 1114111 \<Longrightarrow> scalar (next_point c) \<and> c < next_point c"
  by (auto simp: scalar_def next_point_def split: if_splits)

lemma next_point_least: "scalar c \<Longrightarrow> scalar d \<Longrightarrow> c < d \<Longrightarrow> next_point c \<le> d"
  by (auto simp: scalar_def next_point_def split: if_splits)

lemma list_less_prefix: "xs < xs @ y # ys" for xs :: "'a::linorder list"
  by (induction xs) auto

lemma list_le_append: "xs \<le> xs @ ys" for xs :: "'a::linorder list"
  by (cases ys) (auto intro: less_imp_le list_less_prefix)

lemma append_less_cancel: "xs @ ys < xs @ zs \<longleftrightarrow> ys < zs" for xs :: "'a::linorder list"
  by (induction xs) auto

lemma append_le_cancel: "xs @ ys \<le> xs @ zs \<longleftrightarrow> ys \<le> zs" for xs :: "'a::linorder list"
  by (simp add: linorder_not_less [symmetric] append_less_cancel)

text \<open>Split a string against a prefix: it starts with it, or leaves it at one place.\<close>

lemma prefix_cases:
  fixes p s :: "nat list"
  obtains t where "s = p @ t"
    | u v a b t where "p = u @ a # v" "s = u @ b # t" "a \<noteq> b"
    | a v where "p = s @ a # v"
proof (induction p arbitrary: s thesis)
  case Nil
  then show ?case by auto
next
  case (Cons a p)
  show ?case
  proof (cases s)
    case Nil
    then show ?thesis using Cons.prems(3) [of a p] by simp
  next
    case (Cons b s')
    show ?thesis
    proof (cases "a = b")
      case False
      then show ?thesis using Cons.prems(2) [of "[]" a p b s'] Cons by simp
    next
      case True
      have s: "s = a # s'" using Cons True by simp
      show ?thesis
      proof (rule Cons.IH [of s'])
        fix t assume "s' = p @ t"
        then show ?thesis using s by (intro Cons.prems(1) [of t]) simp
      next
        fix u x v y t assume "p = u @ x # v" "s' = u @ y # t" "x \<noteq> y"
        then show ?thesis using s by (intro Cons.prems(2) [of "a # u" x v y t]) simp_all
      next
        fix x v assume "p = s' @ x # v"
        then show ?thesis using s by (intro Cons.prems(3) [of x v]) simp
      qed
    qed
  qed
qed

lemma prefix_upper_rev_shape:
  "prefix_upper_rev cs = None \<Longrightarrow> (\<forall>c \<in> set cs. next_point c > 1114111)"
  "prefix_upper_rev cs = Some w \<Longrightarrow>
     \<exists>u a v. rev cs = u @ a # v \<and> w = u @ [next_point a] \<and> next_point a \<le> 1114111 \<and> (\<forall>c \<in> set v. next_point c > 1114111)"
proof (induction cs rule: prefix_upper_rev.induct)
  case (2 c cs)
  {
    case 1
    then show ?case using 2 by (auto split: if_splits)
  next
    case 2
    show ?case
    proof (cases "next_point c > 1114111")
      case True
      then obtain u a v where "rev cs = u @ a # v" "w = u @ [next_point a]" "next_point a \<le> 1114111"
          "\<forall>c \<in> set v. next_point c > 1114111"
        using 2 "2.IH"(2) by auto
      then show ?thesis using True by (intro exI [of _ u] exI [of _ a] exI [of _ "v @ [c]"]) auto
    next
      case False
      then show ?thesis using 2 by (intro exI [of _ "rev cs"] exI [of _ c] exI [of _ "[]"]) auto
    qed
  }
qed simp_all

text \<open>A scalar string at or above a string of maximal code points starts with it.\<close>

lemma maximal_prefix:
  assumes "\<forall>c \<in> set p. next_point c > 1114111" "list_all scalar p" "list_all scalar s" "p \<le> s"
  shows "\<exists>t. s = p @ t"
proof (rule prefix_cases [of s p])
  fix u a v b t assume *: "p = u @ a # v" "s = u @ b # t" "a \<noteq> b"
  then have "a < b" using assms(4) by (auto simp: append_le_cancel)
  then have "next_point a \<le> b" "scalar b" using assms(2,3) * next_point_least by auto
  then show ?thesis using assms(1) * by (auto simp: scalar_def)
next
  fix a v assume "p = s @ a # v"
  then show ?thesis using assms(4) list_less_prefix [of s a v] by auto
qed blast

lemma in_prefix_range_iff:
  assumes p: "list_all scalar p" and s: "list_all scalar s"
  shows "in_prefix_range p (prefixUpperBound p) s \<longleftrightarrow> (\<exists>t. s = p @ t)"
proof (cases "prefixUpperBound p")
  case None
  then have "\<forall>c \<in> set p. next_point c > 1114111"
    using prefix_upper_rev_shape(1) [of "rev p"] by (simp add: prefixUpperBound_def)
  then show ?thesis using maximal_prefix [OF _ p s] None by (auto simp: in_prefix_range_def list_le_append)
next
  case (Some w)
  then obtain u a v where p_def: "p = u @ a # v" and w: "w = u @ [next_point a]" and a: "next_point a \<le> 1114111"
    and v: "\<forall>c \<in> set v. next_point c > 1114111"
    using prefix_upper_rev_shape(2) [of "rev p" w] by (auto simp: prefixUpperBound_def)
  have a_less: "a < next_point a" using next_point_scalar a p p_def by simp
  show ?thesis
  proof
    assume "\<exists>t. s = p @ t"
    then show "in_prefix_range p (prefixUpperBound p) s"
      using a_less by (auto simp: in_prefix_range_def Some [unfolded p_def] w p_def list_le_append append_less_cancel append_le_cancel)
  next
    assume "in_prefix_range p (prefixUpperBound p) s"
    then have low: "p \<le> s" and up: "s < w" by (simp_all add: in_prefix_range_def Some)
    have "u @ a # v \<le> s" using low p_def by simp
    then obtain t where t: "s = u @ t"
    proof (rule_tac prefix_cases [of s u])
      fix x b c y d assume *: "u = x @ b # c" "s = x @ y # d" "b \<noteq> y"
      then have "b \<le> y" "y \<le> b" using low up by (auto simp: p_def w append_le_cancel append_less_cancel)
      then show thesis using * by simp
    next
      fix b c assume "u = s @ b # c"
      then show thesis using low list_less_prefix [of s b "c @ a # v"] by (simp add: p_def)
    qed (use that in blast)
    then have range: "a # v \<le> t" "t < [next_point a]" using low up by (simp_all add: p_def w append_le_cancel append_less_cancel)
    then obtain b r where b: "t = b # r" by (cases t) auto
    have "b < next_point a \<or> b = next_point a \<and> r < []" using range b by auto
    then have "b < next_point a" by auto
    moreover have "a \<le> b" using range b by auto
    moreover have "\<not> a < b" using next_point_least [of a b] p s \<open>b < next_point a\<close> by (auto simp: p_def t b)
    ultimately have "b = a" by simp
    then have "v \<le> r" using range b by simp
    then have "\<exists>q. r = v @ q" using maximal_prefix [OF v] p s by (simp add: p_def t b)
    then show "\<exists>t. s = p @ t" using t b \<open>b = a\<close> p_def by auto
  qed
qed

section \<open>Patterns mean the same to both\<close>

lemma escapes_ok_like: "escapes_ok ps = Inr () \<Longrightarrow> sql_like (Some LIKE_ESCAPE_CHAR) ps s = regex_matches (likeRegExp ps) s"
proof (induction ps arbitrary: s rule: likeRegExp.induct)
  case 1
  then show ?case by simp
next
  case (2 p)
  have esc: "p \<noteq> LIKE_ESCAPE_CHAR" using 2 by (auto split: if_splits)
  show ?case
  proof (cases "p = CHR ''%''")
    case True
    then show ?thesis using esc by (induction s) simp_all
  next
    case False
    then show ?thesis using esc by (cases s) auto
  qed
next
  case (3 p q ps)
  show ?case
  proof (cases "p = LIKE_ESCAPE_CHAR")
    case True
    then have "escapes_ok ps = Inr ()" using "3.prems" by (simp split: if_splits)
    then show ?thesis using True "3.IH"(1) by (cases s) auto
  next
    case False
    then have ok: "escapes_ok (q # ps) = Inr ()" using "3.prems" by simp
    note IH = "3.IH"(2) [OF False ok]
    show ?thesis
    proof (cases "p = CHR ''%''")
      case True
      show ?thesis
      proof (induction s)
        case Nil
        show ?case using True False IH by simp
      next
        case (Cons c s)
        have "sql_like (Some LIKE_ESCAPE_CHAR) (p # q # ps) (c # s)
            = (sql_like (Some LIKE_ESCAPE_CHAR) (q # ps) (c # s) \<or> sql_like (Some LIKE_ESCAPE_CHAR) (p # q # ps) s)"
          using True False by (subst sql_like.simps) simp
        then show ?case using True False IH Cons.IH by simp
      qed
    next
      case wild: False
      have "sql_like (Some LIKE_ESCAPE_CHAR) (p # q # ps) s
          = (case s of [] \<Rightarrow> False | c # cs \<Rightarrow> (p = CHR ''_'' \<or> p = c) \<and> sql_like (Some LIKE_ESCAPE_CHAR) (q # ps) cs)"
        using wild False by (subst sql_like.simps) simp
      then show ?thesis using wild False IH by (cases s) (auto simp del: sql_like.simps)
    qed
  qed
qed

lemma validateLikePattern_ok: "validateLikePattern p = Inr q \<Longrightarrow> q = p \<and> escapes_ok p = Inr ()"
  by (auto simp: validateLikePattern_def split: if_splits sum.splits)

section \<open>The two evaluators agree\<close>

text \<open>What the parser makes of a clause on a column: values of the column's kind.\<close>

fun same_kind :: "qvalue \<Rightarrow> qvalue \<Rightarrow> bool" where
  "same_kind (QBool _) (QBool _) = True"
| "same_kind (QNum _) (QNum _) = True"
| "same_kind (QText _) (QText _) = True"
| "same_kind _ _ = False"

definition kind_fits :: "qvalue \<Rightarrow> cell \<Rightarrow> bool" where
  "kind_fits k c = (case c of None \<Rightarrow> True | Some v \<Rightarrow> same_kind k v)"

fun predicate_fits :: "qvalue \<Rightarrow> predicate \<Rightarrow> bool" where
  "predicate_fits k (PEq v) = kind_fits k v"
| "predicate_fits k (PNe v) = kind_fits k v"
| "predicate_fits k (PCompare _ v) = same_kind k v"
| "predicate_fits k (PIn vs) = list_all (kind_fits k) vs"
| "predicate_fits k (PIs v) = (case v of None \<Rightarrow> True | Some b \<Rightarrow> same_kind k (QBool b))"
| "predicate_fits k (PPrefix _ _) = same_kind k (QText '''')"
| "predicate_fits k (PLike p) = (same_kind k (QText '''') \<and> validateLikePattern p = Inr p)"

definition in_has_null :: "predicate \<Rightarrow> bool" where
  "in_has_null p = (case p of PIn vs \<Rightarrow> None \<in> set vs | _ \<Rightarrow> False)"

lemma compare_values_sign:
  "same_kind k x \<Longrightarrow> same_kind k v \<Longrightarrow>
     (case compare_values x v of None \<Rightarrow> False | Some s \<Rightarrow> sign_holds op s) = compare_holds op x v"
  by (cases k; cases x; cases v; cases op) auto

lemma sql_or_holds: "sql_holds (sql_or p q) \<longleftrightarrow> sql_holds p \<or> sql_holds q"
  by (cases "(p, q)" rule: sql_or.cases) auto

lemma sql_cmp_eq_holds: "sql_holds (sql_cmp (=) c v) \<longleftrightarrow> c \<noteq> None \<and> c = v"
  by (cases c; cases v) (auto simp: sql_cmp_def)

lemma sql_in_holds: "sql_holds (sql_disj (map (sql_cmp (=) c) vs)) \<longleftrightarrow> c \<noteq> None \<and> c \<in> set vs"
proof (induction vs)
  case (Cons v vs)
  have "sql_disj (map (sql_cmp (=) c) (v # vs)) = sql_or (sql_cmp (=) c v) (sql_disj (map (sql_cmp (=) c) vs))"
    by (simp add: sql_disj_def)
  then show ?case by (simp only: sql_or_holds sql_cmp_eq_holds Cons) auto
qed (simp add: sql_disj_def)

lemma predicate_agrees:
  assumes c: "kind_fits k c" and p: "predicate_fits k p" and null: "c \<noteq> None \<or> \<not> in_has_null p"
  shows "sql_holds (predicateExpression c p) \<longleftrightarrow> holds c p"
proof (cases p)
  case (PCompare op v)
  then show ?thesis using c p
    by (cases c) (simp_all add: predicateExpression_def holds_def sql_cmp_def kind_fits_def compare_values_sign)
next
  case (PIn vs)
  then show ?thesis using null by (cases c) (simp_all add: predicateExpression_def holds_def sql_in_holds in_has_null_def)
next
  case (PIs v)
  then show ?thesis
    by (cases c; cases v) (auto simp: predicateExpression_def holds_def sql_cmp_def sql_is_null_def)
next
  case (PLike pat)
  then have "escapes_ok pat = Inr ()" using p validateLikePattern_ok by auto
  then show ?thesis using PLike c p
    by (cases c; cases "the c"; cases k) (auto simp: predicateExpression_def holds_def sql_text_def escapes_ok_like kind_fits_def)
next
  case (PPrefix lower upper)
  then show ?thesis using c p
    by (cases c; cases "the c"; cases k)
      (auto simp: predicateExpression_def holds_def sql_text_def in_prefix_range_def kind_fits_def not_less)
next
  case (PEq v)
  then show ?thesis by (cases c; cases v) (auto simp: predicateExpression_def holds_def sql_cmp_def sql_is_null_def)
next
  case (PNe v)
  then show ?thesis
    by (cases c; cases v) (auto simp: predicateExpression_def holds_def sql_cmp_def sql_is_null_def sql_is_not_null_def)
qed

definition row_fits :: "(string \<Rightarrow> qvalue) \<Rightarrow> ('a \<Rightarrow> string \<Rightarrow> cell) \<Rightarrow> where_clause list \<Rightarrow> 'a \<Rightarrow> bool" where
  "row_fits kind col clauses row \<longleftrightarrow>
     (\<forall>(column, p) \<in> set clauses. kind_fits (kind column) (col row column) \<and> predicate_fits (kind column) p \<and>
        (col row column \<noteq> None \<or> \<not> in_has_null p))"

lemma where_agrees: "row_fits kind col clauses row \<Longrightarrow> sql_where col clauses row = matches col clauses row"
  unfolding sql_where_def matches_def row_fits_def
  by (intro ball_cong [OF refl]) (auto simp: predicate_agrees)

text \<open>An \<open>in\<close> list with a null: no row's null is in it for SQL, every one is in memory.\<close>

lemma in_null_differs: "\<not> sql_holds (predicateExpression None (PIn [None]))" "holds None (PIn [None])"
  using sql_in_holds [of None "[None]"] by (simp_all add: predicateExpression_def holds_def)

section \<open>Claims\<close>

lemma code_points_scalar: "list_all scalar (code_points s)"
proof -
  have "scalar (of_char c)" for c
    unfolding scalar_def using nat_of_char_less_256 [of c] by linarith
  then show ?thesis by (simp add: list_all_iff)
qed

text \<open>
  C26. The half-open range that \<open>prefix\<close> compiles to finds exactly the values that start with the
  prefix: for any non-surrogate prefix, the range from it to \<open>prefixUpperBound\<close> of it holds for a text
  cell if and only if the text starts with the prefix.
\<close>

theorem prefix_range_is_starts_with:
  assumes "list_all scalar p"
  shows "sql_holds (predicateExpression (Some (QText s)) (PPrefix p (prefixUpperBound p)))
    \<longleftrightarrow> take (length p) (code_points s) = p"
proof -
  have "(\<exists>t. code_points s = p @ t) \<longleftrightarrow> take (length p) (code_points s) = p"
    by (metis append_eq_conv_conj append_take_drop_id)
  then show ?thesis
    using in_prefix_range_iff [OF assms code_points_scalar, of s] by (simp add: predicateExpression_def sql_text_def)
qed

lemma prefix_range_is_starts_with_witness:
  "sql_holds (predicateExpression (Some (QText ''photo-1'')) (PPrefix (code_points ''photo-'') (prefixUpperBound (code_points ''photo-''))))"
  by (subst prefix_range_is_starts_with [OF code_points_scalar]) simp

text \<open>
  A pattern that passes \<open>validateLikePattern\<close> means the same to both evaluators: SQL's \<open>LIKE\<close> with
  the backslash escape, and the regular expression the in-memory adapter builds from it.
\<close>

theorem validated_pattern_means_one_thing:
  assumes "validateLikePattern raw = Inr pattern"
  shows "sql_like (Some LIKE_ESCAPE_CHAR) pattern s = regex_matches (likeRegExp pattern) s"
  using escapes_ok_like validateLikePattern_ok [OF assms] by simp

lemma validated_pattern_means_one_thing_witness:
  "sql_like (Some LIKE_ESCAPE_CHAR) (''50'' @ [CHR 0x5C] @ ''% _ff%'') ''50% off!''
    = regex_matches (likeRegExp (''50'' @ [CHR 0x5C] @ ''% _ff%'')) ''50% off!''"
  by (rule validated_pattern_means_one_thing [of "''50'' @ [CHR 0x5C] @ ''% _ff%''"])
    (simp add: validateLikePattern_def MAX_LIKE_PATTERN_LENGTH_def LIKE_ESCAPE_CHAR_def)

end
