(* ===== verification/App_Query.thy ===== *)
theory App_Query
  imports Query_Predicates
begin

text \<open>
  A parsed row query, run twice (\<open>packages/storage-adapter/src/database\<close>): compiled to SQL
  (\<open>app-query.ts\<close>, \<open>buildAppRowQuery\<close>) and in memory (\<open>app-query-memory.ts\<close>); the page cut under the
  row limit and the response budget (\<open>collectRowPage\<close>); the page token (\<open>app-page-token.ts\<close>).

  A statement is modelled by the rows it answers. A token travels as the JSON value it carries: its
  spelling as base64url text is left out. \<open>JSON.stringify(row).length\<close> is an argument.

  The lemmas show that the two runs answer the same page, and that following the tokens visits every
  wanted row exactly once and ends.
\<close>

section \<open>Queries and tokens\<close>

type_synonym app_row = "(string, cell) js_map"

text \<open>\<open>normalize\<close>: a column the row does not have reads as null.\<close>

definition row_cell :: "app_row \<Rightarrow> string \<Rightarrow> cell" where
  "row_cell row name = (case js_get row name of None \<Rightarrow> None | Some c \<Rightarrow> c)"

record page_token =
  token_order :: string
  token_keys :: "(bool \<times> js_value) list"

record row_query =
  rq_table :: string
  rq_select :: "string list option"
  rq_where :: "where_clause list"
  rq_order :: "order_term list"
  rq_limit :: nat
  rq_pageToken :: "page_token option"
  rq_include :: "string list"

datatype soft_deleted_scope = Exclude | Only | Include

record build_options =
  serverWhere :: "where_clause list"
  excludeSoftDeleted :: bool
  softDeleted :: soft_deleted_scope

definition orderKeyAlias :: "nat \<Rightarrow> string" where
  "orderKeyAlias i = ''__ok'' @ decimal i"

definition isOrderKeyAlias :: "string \<Rightarrow> bool" where
  "isOrderKeyAlias key = js_starts_with key ''__ok''"

definition stripOrderKeys :: "app_row \<Rightarrow> app_row" where
  "stripOrderKeys row = filter (\<lambda>(key, value). \<not> isOrderKeyAlias key) row"

section \<open>Page tokens\<close>

definition term_signature :: "order_term \<Rightarrow> string" where
  "term_signature t = term_column t @ ''.'' @ (if term_desc t then ''desc'' else ''asc'') @ ''.''
     @ (if term_nullsFirst t then ''first'' else ''last'')"

definition appOrderSignature :: "order_term list \<Rightarrow> string" where
  "appOrderSignature order = js_join (CHR '','') (map term_signature order)"

text \<open>\<open>JSON.stringify\<close> and \<open>JSON.parse\<close> of a token, as the value between the two.\<close>

definition encodePageToken :: "page_token \<Rightarrow> js_value" where
  "encodePageToken token = JsObj
     [(''order'', JsStr (token_order token)),
      (''keys'', JsArr (map (\<lambda>(isNull, v). JsObj [(''isNull'', JsBool isNull), (''value'', v)]) (token_keys token)))]"

definition decode_token_key :: "js_value \<Rightarrow> (bool \<times> js_value) option" where
  "decode_token_key key =
     (case js_prop key ''isNull'' of JsBool b \<Rightarrow> Some (b, js_prop key ''value'') | _ \<Rightarrow> None)"

definition not_a_token :: query_error where
  "not_a_token = QueryParseError ''page_token is not a token this server issued''"

definition decodePageToken :: "js_value option \<Rightarrow> order_term list \<Rightarrow> query_error + page_token" where
  "decodePageToken raw order =
     (case raw of
        None \<Rightarrow> Inl not_a_token
      | Some parsed \<Rightarrow>
          (case (js_prop parsed ''order'', js_prop parsed ''keys'') of
             (JsStr signature, JsArr keys) \<Rightarrow>
               if signature \<noteq> appOrderSignature order
               then Inl (QueryParseError ''page_token was cut under a different ordering'')
               else if length keys \<noteq> length order
               then Inl (QueryParseError ''page_token does not describe this ordering'')
               else (case those (map decode_token_key keys) of
                       None \<Rightarrow> Inl not_a_token
                     | Some decoded \<Rightarrow> Inr \<lparr>token_order = signature, token_keys = decoded\<rparr>)
           | _ \<Rightarrow> Inl not_a_token))"

text \<open>The values a query binds, as they stand in a token.\<close>

fun js_of_cell :: "cell \<Rightarrow> js_value" where
  "js_of_cell None = JsNull"
| "js_of_cell (Some (QBool b)) = JsBool b"
| "js_of_cell (Some (QNum q)) = JsNum (JsRat q)"
| "js_of_cell (Some (QText s)) = JsStr s"

fun bind_value :: "js_value \<Rightarrow> cell option" where
  "bind_value JsNull = Some None"
| "bind_value (JsBool b) = Some (Some (QBool b))"
| "bind_value (JsNum (JsRat q)) = Some (Some (QNum q))"
| "bind_value (JsStr s) = Some (Some (QText s))"
| "bind_value _ = None"

definition pageTokenFrom :: "order_term list \<Rightarrow> app_row \<Rightarrow> page_token" where
  "pageTokenFrom order lastRow =
     \<lparr>token_order = appOrderSignature order,
      token_keys = map (\<lambda>(index, t).
        let value = (case row_cell lastRow (orderKeyAlias index) of
                       Some v \<Rightarrow> Some v | None \<Rightarrow> row_cell lastRow (term_column t))
        in (value = None, js_of_cell value)) (enumerate 0 order)\<rparr>"

text \<open>A key whose value no driver binds (an object, a list, none at all) stops the query.\<close>

definition bind_key :: "bool \<times> js_value \<Rightarrow> cursor_key option" where
  "bind_key key = (if fst key then Some (True, None) else map_option (Pair False) (bind_value (snd key)))"

section \<open>The compiled query\<close>

definition sql_columns :: "row_query \<Rightarrow> app_row \<Rightarrow> (string \<times> string) list" where
  "sql_columns q row =
     map (\<lambda>c. (c, c)) (case rq_select q of None \<Rightarrow> js_keys row | Some names \<Rightarrow> names)
     @ map (\<lambda>(index, t). (orderKeyAlias index, term_column t)) (enumerate 0 (rq_order q))"

definition sql_project :: "row_query \<Rightarrow> app_row \<Rightarrow> app_row" where
  "sql_project q row = fold (\<lambda>(name, column) out. js_set name (row_cell row column) out) (sql_columns q row) []"

definition applySoftDelete :: "build_options \<Rightarrow> app_row \<Rightarrow> bool" where
  "applySoftDelete options row =
     (if \<not> excludeSoftDeleted options then True
      else case softDeleted options of
        Include \<Rightarrow> True
      | Only \<Rightarrow> sql_holds (sql_is_not_null (row_cell row ''deleted_at''))
      | Exclude \<Rightarrow> sql_holds (sql_is_null (row_cell row ''deleted_at'')))"

definition query_wants :: "build_options \<Rightarrow> row_query \<Rightarrow> app_row \<Rightarrow> bool" where
  "query_wants options q row \<longleftrightarrow>
     applySoftDelete options row \<and> sql_where row_cell (serverWhere options) row \<and> sql_where row_cell (rq_where q) row"

text \<open>The rows the compiled statement answers over a table; \<open>None\<close> when the driver refuses a key.\<close>

definition bound_keys :: "row_query \<Rightarrow> cursor_key list option option" where
  "bound_keys q =
     (case rq_pageToken q of None \<Rightarrow> Some None | Some token \<Rightarrow> map_option Some (those (map bind_key (token_keys token))))"

definition buildAppRowQuery :: "build_options \<Rightarrow> row_query \<Rightarrow> app_row list \<Rightarrow> app_row list option" where
  "buildAppRowQuery options q table =
     map_option (\<lambda>keys. map (sql_project q)
        (take (rq_limit q + 1) (select_rows (rq_order q) row_cell (query_wants options q) keys table))) (bound_keys q)"

section \<open>The page\<close>

definition RESPONSE_BUDGET_BYTES :: nat where "RESPONSE_BUDGET_BYTES = 4 * 1024 * 1024"

record row_query_result =
  page_rows :: "app_row list"
  truncated :: bool
  page_next :: "js_value option"

fun collect_rows ::
  "(app_row \<Rightarrow> nat) \<Rightarrow> nat \<Rightarrow> app_row list \<Rightarrow> app_row option \<Rightarrow> nat \<Rightarrow> app_row list \<Rightarrow> app_row list \<times> app_row option \<times> bool" where
  "collect_rows json_length limit kept lastRaw bytes [] = (kept, lastRaw, False)"
| "collect_rows json_length limit kept lastRaw bytes (raw # source) =
     (if length kept = limit then (kept, lastRaw, True)
      else let row = stripOrderKeys raw; total = bytes + json_length row
           in if total > RESPONSE_BUDGET_BYTES \<and> kept \<noteq> [] then (kept, lastRaw, True)
              else collect_rows json_length limit (kept @ [row]) (Some raw) total source)"

definition collectRowPage :: "(app_row \<Rightarrow> nat) \<Rightarrow> row_query \<Rightarrow> app_row list \<Rightarrow> row_query_result" where
  "collectRowPage json_length q source =
     (case collect_rows json_length (rq_limit q) [] None 0 source of
        (kept, lastRaw, cut_short) \<Rightarrow>
          \<lparr>page_rows = kept, truncated = cut_short,
           page_next = (case lastRaw of
               Some raw \<Rightarrow> if cut_short then Some (encodePageToken (pageTokenFrom (rq_order q) raw)) else None
             | None \<Rightarrow> None)\<rparr>)"

section \<open>The in-memory run\<close>

definition compareByTerm :: "cell \<Rightarrow> cell \<Rightarrow> order_term \<Rightarrow> int" where
  "compareByTerm a b t =
     (case (a, b) of
        (None, None) \<Rightarrow> 0
      | (None, Some _) \<Rightarrow> if term_nullsFirst t then -1 else 1
      | (Some _, None) \<Rightarrow> if term_nullsFirst t then 1 else -1
      | (Some x, Some y) \<Rightarrow>
          let sign = (case compare_values x y of None \<Rightarrow> 0 | Some s \<Rightarrow> s);
              normalized = (if sign < 0 then -1 else if sign > 0 then 1 else 0)
          in if term_desc t then - normalized else normalized)"

fun compare_rows :: "order_term list \<Rightarrow> app_row \<Rightarrow> app_row \<Rightarrow> int" where
  "compare_rows [] a b = 0"
| "compare_rows (t # order) a b =
     (let decided = compareByTerm (row_cell a (term_column t)) (row_cell b (term_column t)) t
      in if decided \<noteq> 0 then decided else compare_rows order a b)"

fun isAfterToken :: "app_row \<Rightarrow> order_term list \<Rightarrow> cursor_key list \<Rightarrow> bool" where
  "isAfterToken row (t # order) (key # keys) =
     (let decided = compareByTerm (row_cell row (term_column t)) (if fst key then None else snd key) t
      in if decided \<noteq> 0 then decided > 0 else isAfterToken row order keys)"
| "isAfterToken row _ _ = False"

definition project_row :: "row_query \<Rightarrow> app_row \<Rightarrow> app_row" where
  "project_row q row =
     fold (\<lambda>(index, t) out. js_set (orderKeyAlias index) (row_cell row (term_column t)) out) (enumerate 0 (rq_order q))
       (fold (\<lambda>name out. js_set name (row_cell row name) out)
          (case rq_select q of None \<Rightarrow> js_keys row | Some names \<Rightarrow> names) [])"

definition memory_page :: "app_row list \<Rightarrow> row_query \<Rightarrow> cursor_key list option \<Rightarrow> app_row list" where
  "memory_page rows q keys =
     (let sorted = js_sort (compare_rows (rq_order q)) rows;
          continued = (case keys of None \<Rightarrow> sorted | Some ks \<Rightarrow> filter (\<lambda>row. isAfterToken row (rq_order q) ks) sorted)
      in map (project_row q) (take (rq_limit q + 1) continued))"

definition runInMemoryQuery ::
  "(app_row \<Rightarrow> nat) \<Rightarrow> app_row list \<Rightarrow> row_query \<Rightarrow> where_clause list \<Rightarrow> row_query_result option" where
  "runInMemoryQuery json_length rows q server_where =
     map_option (\<lambda>keys. collectRowPage json_length q
       (memory_page (filter (\<lambda>row. matches row_cell server_where row \<and> matches row_cell (rq_where q) row) rows) q keys))
     (bound_keys q)"

text \<open>What the in-memory adapter selects before it runs a query: the compiler's soft-delete rule.\<close>

definition memory_selected :: "build_options \<Rightarrow> app_row list \<Rightarrow> app_row list" where
  "memory_selected options rows =
     (if \<not> excludeSoftDeleted options \<or> softDeleted options = Include then rows
      else filter (\<lambda>row. if softDeleted options = Only then row_cell row ''deleted_at'' \<noteq> None
                        else row_cell row ''deleted_at'' = None) rows)"

text \<open>The page a server answers, from its table.\<close>

definition run_row_query :: "(app_row \<Rightarrow> nat) \<Rightarrow> build_options \<Rightarrow> row_query \<Rightarrow> app_row list \<Rightarrow> row_query_result option" where
  "run_row_query json_length options q table = map_option (collectRowPage json_length q) (buildAppRowQuery options q table)"

section \<open>What a token carries\<close>

lemma isOrderKeyAlias_alias [simp]: "isOrderKeyAlias (orderKeyAlias i)"
  by (simp add: isOrderKeyAlias_def orderKeyAlias_def js_starts_with_def)

lemma orderKeyAlias_inject [simp]: "orderKeyAlias i = orderKeyAlias j \<longleftrightarrow> i = j"
  by (simp add: orderKeyAlias_def decimal_inject)

lemma sql_project_row: "sql_project q = project_row q"
  by (rule ext) (simp add: sql_project_def sql_columns_def project_row_def fold_map comp_def case_prod_unfold)

lemma js_get_aliases:
  "js_get (fold (\<lambda>(index, t) out. js_set (orderKeyAlias index) (f t) out) (enumerate n ts) m) (orderKeyAlias k)
     = (if n \<le> k \<and> k < n + length ts then Some (f (ts ! (k - n))) else js_get m (orderKeyAlias k))"
proof (induction ts arbitrary: n m)
  case (Cons t ts)
  show ?case
  proof (cases "k = n")
    case False
    then have "n \<le> k \<Longrightarrow> (t # ts) ! (k - n) = ts ! (k - Suc n)" by (simp add: nth_Cons' Suc_diff_Suc)
    then show ?thesis using Cons [of "Suc n"] False by auto
  qed (use Cons [of "Suc n"] in simp)
qed auto

lemma js_get_not_alias:
  "\<not> isOrderKeyAlias name \<Longrightarrow>
     js_get (fold (\<lambda>(index, t) out. js_set (orderKeyAlias index) (f t) out) its m) name = js_get m name"
  by (induction its arbitrary: m) (auto simp: split_paired_all)

lemma js_get_names:
  "js_get (fold (\<lambda>name out. js_set name (f name) out) names m) name = (if name \<in> set names then Some (f name) else js_get m name)"
  by (induction names arbitrary: m) auto

lemma js_get_project_alias: "i < length (rq_order q) \<Longrightarrow>
    js_get (project_row q row) (orderKeyAlias i) = Some (row_cell row (term_column (rq_order q ! i)))"
  unfolding project_row_def js_get_aliases by simp

lemma js_get_project_column: "\<not> isOrderKeyAlias name \<Longrightarrow>
    js_get (project_row q row) name
      = (if name \<in> set (case rq_select q of None \<Rightarrow> js_keys row | Some names \<Rightarrow> names) then Some (row_cell row name) else None)"
  unfolding project_row_def by (subst js_get_not_alias, assumption, subst js_get_names) simp

lemma project_row_alias: "i < length (rq_order q) \<Longrightarrow>
    row_cell (project_row q row) (orderKeyAlias i) = row_cell row (term_column (rq_order q ! i))"
  by (simp add: row_cell_def [of "project_row q row"] js_get_project_alias)

lemma project_row_column:
  assumes "\<not> isOrderKeyAlias name" "row_cell row name = None"
  shows "row_cell (project_row q row) name = None"
  using assms by (simp add: row_cell_def [of "project_row q row"] js_get_project_column)

definition plain_order :: "order_term list \<Rightarrow> bool" where
  "plain_order order \<longleftrightarrow> list_all (\<lambda>t. \<not> isOrderKeyAlias (term_column t)) order"

definition token_of :: "order_term list \<Rightarrow> cell list \<Rightarrow> page_token" where
  "token_of order cells = \<lparr>token_order = appOrderSignature order, token_keys = map (\<lambda>c. (c = None, js_of_cell c)) cells\<rparr>"

lemma pageTokenFrom_project:
  assumes "plain_order (rq_order q)"
  shows "pageTokenFrom (rq_order q) (project_row q row) = token_of (rq_order q) (row_keys (rq_order q) row_cell row)"
proof -
  have key: "(case row_cell (project_row q row) (orderKeyAlias i) of
        Some v \<Rightarrow> Some v | None \<Rightarrow> row_cell (project_row q row) (term_column (rq_order q ! i)))
      = row_cell row (term_column (rq_order q ! i))" if i: "i < length (rq_order q)" for i
    using assms i project_row_column [of "term_column (rq_order q ! i)" row q]
    by (auto simp: project_row_alias plain_order_def list_all_length split: option.splits)
  show ?thesis
    unfolding pageTokenFrom_def token_of_def row_keys_def
    by (auto simp: key Let_def nth_enumerate_eq intro!: nth_equalityI)
qed

lemma those_map_Some: "(\<And>x. x \<in> set xs \<Longrightarrow> f x = Some (g x)) \<Longrightarrow> those (map f xs) = Some (map g xs)"
  by (induction xs) auto

lemma decode_encode_token:
  assumes "token_order token = appOrderSignature order" "length (token_keys token) = length order"
  shows "decodePageToken (Some (encodePageToken token)) order = Inr token"
proof -
  have "those (map decode_token_key (map (\<lambda>(isNull, v). JsObj [(''isNull'', JsBool isNull), (''value'', v)]) (token_keys token)))
      = Some (token_keys token)"
    using those_map_Some [of "token_keys token"
        "decode_token_key \<circ> (\<lambda>(isNull, v). JsObj [(''isNull'', JsBool isNull), (''value'', v)])" id]
    by (simp add: decode_token_key_def js_prop_def comp_def case_prod_unfold)
  then show ?thesis
    using assms by (simp add: decodePageToken_def encodePageToken_def js_prop_def)
qed

lemma bind_value_js: "bind_value (js_of_cell c) = Some c"
  by (cases c rule: js_of_cell.cases) simp_all

lemma bind_token_of: "those (map bind_key (token_keys (token_of order cells))) = Some (map cell_key cells)"
  using those_map_Some [of cells "bind_key \<circ> (\<lambda>c. (c = None, js_of_cell c))" cell_key]
  by (simp add: token_of_def bind_key_def cell_key_def bind_value_js comp_def)

section \<open>A page is a front part\<close>

lemma collect_rows_front:
  "collect_rows json_length limit kept seen bytes raws = (out, last', cut_short) \<Longrightarrow> length kept \<le> limit \<Longrightarrow>
     \<exists>n \<le> length raws. out = kept @ map stripOrderKeys (take n raws)
        \<and> last' = (if n = 0 then seen else Some (raws ! (n - 1)))
        \<and> cut_short = (n < length raws) \<and> length kept + n \<le> limit
        \<and> (kept = [] \<longrightarrow> raws \<noteq> [] \<longrightarrow> 0 < limit \<longrightarrow> 0 < n)"
proof (induction raws arbitrary: kept seen bytes)
  case Nil
  then show ?case by simp
next
  case (Cons raw raws)
  let ?total = "bytes + json_length (stripOrderKeys raw)"
  show ?case
  proof (cases "length kept = limit \<or> ?total > RESPONSE_BUDGET_BYTES \<and> kept \<noteq> []")
    case True
    then have "collect_rows json_length limit kept seen bytes (raw # raws) = (kept, seen, True)"
      by (auto simp: Let_def)
    then have "out = kept" "last' = seen" "cut_short" using Cons.prems(1) by simp_all
    then show ?thesis using True Cons.prems(2) by (intro exI [of _ 0]) auto
  next
    case False
    then have "collect_rows json_length limit (kept @ [stripOrderKeys raw]) (Some raw) ?total raws = (out, last', cut_short)"
      using Cons.prems by (auto simp: Let_def split: if_splits)
    then obtain n where "n \<le> length raws" "out = (kept @ [stripOrderKeys raw]) @ map stripOrderKeys (take n raws)"
        "last' = (if n = 0 then Some raw else Some (raws ! (n - 1)))" "cut_short = (n < length raws)"
        "length (kept @ [stripOrderKeys raw]) + n \<le> limit"
      using Cons.IH [of "kept @ [stripOrderKeys raw]"] False Cons.prems by fastforce
    then show ?thesis by (intro exI [of _ "Suc n"]) auto
  qed
qed

lemma collectRowPage_page_of:
  assumes "0 < rq_limit q" "plain_order (rq_order q)"
    and page: "page = collectRowPage json_length q (map (project_row q) (take (rq_limit q + 1) todo))"
  shows "page_of (stripOrderKeys \<circ> project_row q) (\<lambda>r. encodePageToken (token_of (rq_order q) (row_keys (rq_order q) row_cell r)))
     todo (page_rows page, page_next page)"
proof -
  let ?raws = "map (project_row q) (take (rq_limit q + 1) todo)"
  obtain out last' cut_short where c: "collect_rows json_length (rq_limit q) [] None 0 ?raws = (out, last', cut_short)"
    by (cases "collect_rows json_length (rq_limit q) [] None 0 ?raws") auto
  then obtain n where n: "n \<le> length ?raws" "out = map stripOrderKeys (take n ?raws)"
      "last' = (if n = 0 then None else Some (?raws ! (n - 1)))" "cut_short = (n < length ?raws)" "n \<le> rq_limit q"
      "?raws \<noteq> [] \<longrightarrow> 0 < n"
    using collect_rows_front [OF c] assms(1) by auto
  have short: "n < length ?raws \<longleftrightarrow> n < length todo" using n(1,5) by auto
  have out: "out = map (stripOrderKeys \<circ> project_row q) (take n todo)"
    using n(2,5) by (simp add: take_map)
  have fields: "page_rows page = out"
      "page_next page = (case last' of Some raw \<Rightarrow>
         if cut_short then Some (encodePageToken (pageTokenFrom (rq_order q) raw)) else None | None \<Rightarrow> None)"
    using c by (simp_all add: page collectRowPage_def)
  show ?thesis
  proof (cases "n < length todo")
    case False
    then have "take n todo = todo" "\<not> cut_short" using n(4) short by simp_all
    then show ?thesis
      using fields out by (auto simp: page_of_def split: option.splits intro!: exI [of _ todo])
  next
    case True
    then have "0 < n" "cut_short" using n(4,6) short by auto
    then obtain m where m: "n = Suc m" by (cases n) auto
    have last: "last (take n todo) = todo ! m" using True m by (simp add: take_Suc_conv_app_nth)
    have "?raws ! m = project_row q (todo ! m)" using True m n(5) by simp
    then have "page_next page = Some (encodePageToken (pageTokenFrom (rq_order q) (project_row q (todo ! m))))"
      using fields(2) n(3) m \<open>cut_short\<close> by simp
    moreover have "take n todo \<noteq> []" using True m by (cases todo) auto
    ultimately show ?thesis
      using fields(1) out last assms(2) unfolding page_of_def
      by (intro exI [of _ "take n todo"] exI [of _ "drop n todo"]) (simp add: pageTokenFrom_project)
  qed
qed

section \<open>Following the tokens\<close>

text \<open>One request: the token is checked against the ordering, then the query runs.\<close>

definition answer_page ::
  "(app_row \<Rightarrow> nat) \<Rightarrow> build_options \<Rightarrow> row_query \<Rightarrow> app_row list \<Rightarrow> js_value option \<Rightarrow> query_error + row_query_result option" where
  "answer_page json_length options q table sent =
     (case sent of
        None \<Rightarrow> Inr (run_row_query json_length options (q\<lparr>rq_pageToken := None\<rparr>) table)
      | Some raw \<Rightarrow>
          (case decodePageToken (Some raw) (rq_order q) of
             Inl e \<Rightarrow> Inl e
           | Inr token \<Rightarrow> Inr (run_row_query json_length options (q\<lparr>rq_pageToken := Some token\<rparr>) table)))"

text \<open>What a client that follows tokens sees of an answer; a refusal ends its walk.\<close>

definition page_seen :: "query_error + row_query_result option \<Rightarrow> app_row list \<times> js_value option" where
  "page_seen answer =
     (case answer of Inr (Some page) \<Rightarrow> (page_rows page, page_next page) | _ \<Rightarrow> ([], None))"

type_synonym page_request = "(app_row \<Rightarrow> nat) \<times> build_options \<times> row_query \<times> string list"

definition request_rank :: "page_request \<Rightarrow> app_row \<Rightarrow> sort_key list" where
  "request_rank = (\<lambda>(json_length, options, q, pk). row_rank (rq_order q) row_cell)"

definition request_wants :: "page_request \<Rightarrow> app_row \<Rightarrow> bool" where
  "request_wants = (\<lambda>(json_length, options, q, pk). query_wants options q)"

definition request_shape :: "page_request \<Rightarrow> app_row \<Rightarrow> app_row" where
  "request_shape = (\<lambda>(json_length, options, q, pk). stripOrderKeys \<circ> project_row q)"

definition request_position :: "page_request \<Rightarrow> app_row \<Rightarrow> js_value" where
  "request_position = (\<lambda>(json_length, options, q, pk) r.
     encodePageToken (token_of (rq_order q) (row_keys (rq_order q) row_cell r)))"

definition request_page :: "page_request \<Rightarrow> app_row list \<Rightarrow> js_value option \<Rightarrow> app_row list \<times> js_value option" where
  "request_page = (\<lambda>(json_length, options, q, pk) table sent. page_seen (answer_page json_length options q table sent))"

text \<open>A page of at least one row, an ordering that ends with the table's key, and a key that is one.\<close>

definition pageable :: "page_request \<Rightarrow> app_row list \<Rightarrow> bool" where
  "pageable = (\<lambda>(json_length, options, q, pk) table.
     0 < rq_limit q \<and> plain_order (rq_order q) \<and> set pk \<subseteq> term_column ` set (rq_order q)
     \<and> distinct (map (\<lambda>r. map (row_cell r) pk) table))"

lemma row_rank_inject:
  "row_rank order col r = row_rank order col s \<Longrightarrow> c \<in> term_column ` set order \<Longrightarrow> col r c = col s c"
  by (auto simp: row_rank_def sort_rank_inject)

lemma distinct_ranks:
  assumes "set pk \<subseteq> term_column ` set order" "distinct (map (\<lambda>r. map (col r) pk) table)"
  shows "distinct (map (row_rank order col) (filter P table))"
proof -
  have "inj_on (row_rank order col) (set table)"
  proof (rule inj_onI)
    fix r s assume rs: "r \<in> set table" "s \<in> set table" "row_rank order col r = row_rank order col s"
    then have "\<forall>c \<in> set pk. col r c = col s c" using assms(1) row_rank_inject [OF rs(3)] by blast
    then have "map (col r) pk = map (col s) pk" by simp
    then show "r = s" using rs(1,2) assms(2) by (auto simp: distinct_map dest: inj_onD)
  qed
  then show ?thesis
    using assms(2) by (auto simp: distinct_map intro: inj_on_subset)
qed

lemma query_wants_token [simp]: "query_wants options (q\<lparr>rq_pageToken := p\<rparr>) = query_wants options q"
  by (simp add: query_wants_def fun_eq_iff)

lemma project_row_token [simp]: "project_row (q\<lparr>rq_pageToken := p\<rparr>) = project_row q"
  by (simp add: project_row_def fun_eq_iff)

lemma page_seen_front:
  assumes "0 < rq_limit q" "plain_order (rq_order q)" "bound_keys (q\<lparr>rq_pageToken := token\<rparr>) = Some keys"
  shows "page_of (stripOrderKeys \<circ> project_row q)
      (\<lambda>r. encodePageToken (token_of (rq_order q) (row_keys (rq_order q) row_cell r)))
      (select_rows (rq_order q) row_cell (query_wants options q) keys table)
      (page_seen (Inr (run_row_query json_length options (q\<lparr>rq_pageToken := token\<rparr>) table)))"
  using collectRowPage_page_of [of "q\<lparr>rq_pageToken := token\<rparr>" _ json_length
      "select_rows (rq_order q) row_cell (query_wants options q) keys table", OF _ _ refl] assms
  by (simp add: page_seen_def run_row_query_def buildAppRowQuery_def sql_project_row comp_def)

interpretation app_pages: keyset_pages request_rank request_shape request_wants pageable request_page request_position
proof
  fix request :: page_request and table :: "app_row list"
  assume ok: "pageable request table"
  obtain json_length options q pk where request: "request = (json_length, options, q, pk)" by (cases request)
  note defs = request request_rank_def request_wants_def request_shape_def request_position_def request_page_def
  have limit: "0 < rq_limit q" "plain_order (rq_order q)" using ok by (simp_all add: pageable_def request)
  show "distinct (map (request_rank request) (filter (request_wants request) table))"
    using ok distinct_ranks [of pk "rq_order q" row_cell table] by (simp add: pageable_def defs)
  have "bound_keys (q\<lparr>rq_pageToken := None\<rparr>) = Some None" by (simp add: bound_keys_def)
  then show "page_of (request_shape request) (request_position request)
      (sort_key (request_rank request) (filter (request_wants request) table)) (request_page request table None)"
    using page_seen_front [OF limit, of None None options table json_length]
    by (simp add: defs answer_page_def select_rows_first)
  fix r
  assume "r \<in> set table" "request_wants request r"
  let ?t = "token_of (rq_order q) (row_keys (rq_order q) row_cell r)"
  have decoded: "decodePageToken (Some (encodePageToken ?t)) (rq_order q) = Inr ?t"
    by (rule decode_encode_token) (simp_all add: token_of_def row_keys_def)
  have "bound_keys (q\<lparr>rq_pageToken := Some ?t\<rparr>) = Some (Some (map cell_key (row_keys (rq_order q) row_cell r)))"
    by (simp add: bound_keys_def bind_token_of)
  from page_seen_front [OF limit this, of options table json_length]
  show "page_of (request_shape request) (request_position request)
      (filter (\<lambda>x. request_rank request r < request_rank request x)
        (sort_key (request_rank request) (filter (request_wants request) table)))
      (request_page request table (Some (request_position request r)))"
    by (simp add: defs answer_page_def decoded select_rows_after)
qed

section \<open>The in-memory run answers the same page\<close>

lemma compareByTerm_rank:
  assumes "kind_fits k a" "kind_fits k b"
  shows "compareByTerm a b t = (if sort_rank t a < sort_rank t b then -1 else if sort_rank t b < sort_rank t a then 1 else 0)"
proof (cases a; cases b)
  fix x y assume ab: "a = Some x" "b = Some y"
  then have "compare_values x y = Some (if x < y then -1 else if y < x then 1 else 0)"
    using assms by (cases k; cases x; cases y) (auto simp: kind_fits_def)
  then show ?thesis using ab by (auto simp: compareByTerm_def sort_rank_def)
qed (auto simp: compareByTerm_def sort_rank_def less_sort_key_def)

definition order_fits :: "(string \<Rightarrow> qvalue) \<Rightarrow> order_term list \<Rightarrow> app_row \<Rightarrow> bool" where
  "order_fits kind order row \<longleftrightarrow> list_all (\<lambda>t. kind_fits (kind (term_column t)) (row_cell row (term_column t))) order"

lemma compare_rows_rank:
  "order_fits kind order a \<Longrightarrow> order_fits kind order b \<Longrightarrow>
     compare_rows order a b \<le> 0 \<longleftrightarrow> row_rank order row_cell a \<le> row_rank order row_cell b"
proof (induction order)
  case (Cons t order)
  then have "compareByTerm (row_cell a (term_column t)) (row_cell b (term_column t)) t
      = (if sort_rank t (row_cell a (term_column t)) < sort_rank t (row_cell b (term_column t)) then -1
         else if sort_rank t (row_cell b (term_column t)) < sort_rank t (row_cell a (term_column t)) then 1 else 0)"
    by (intro compareByTerm_rank) (auto simp: order_fits_def)
  then show ?case using Cons by (auto simp: order_fits_def row_rank_def Let_def)
qed (simp add: row_rank_def)

lemma isAfterToken_rank:
  "order_fits kind order row \<Longrightarrow> list_all2 (\<lambda>t c. kind_fits (kind (term_column t)) c) order cells \<Longrightarrow>
     isAfterToken row order (map cell_key cells) \<longleftrightarrow> token_rank order cells < row_rank order row_cell row"
proof (induction order arbitrary: cells)
  case (Cons t order)
  then obtain c cs where cells: "cells = c # cs" by (cases cells) auto
  have "compareByTerm (row_cell row (term_column t)) c t
      = (if sort_rank t (row_cell row (term_column t)) < sort_rank t c then -1
         else if sort_rank t c < sort_rank t (row_cell row (term_column t)) then 1 else 0)"
    using Cons.prems cells by (intro compareByTerm_rank) (auto simp: order_fits_def)
  moreover have "(if fst (cell_key c) then None else snd (cell_key c)) = c" by (simp add: cell_key_def)
  ultimately show ?case
    using Cons cells by (auto simp: order_fits_def row_rank_def token_rank_def Let_def)
qed (simp add: row_rank_def token_rank_def)

definition token_cells :: "page_token \<Rightarrow> cell list" where
  "token_cells token = map (\<lambda>(isNull, v). case bind_value v of Some c \<Rightarrow> c | None \<Rightarrow> None) (token_keys token)"

definition token_fits :: "(string \<Rightarrow> qvalue) \<Rightarrow> order_term list \<Rightarrow> page_token \<Rightarrow> bool" where
  "token_fits kind order token \<longleftrightarrow> token = token_of order (token_cells token) \<and>
     list_all2 (\<lambda>t c. kind_fits (kind (term_column t)) c) order (token_cells token)"

text \<open>
  Every cell and value a query touches is of its column's kind, and no \<open>in\<close> list meets a null with a
  null.
\<close>

definition query_fits :: "(string \<Rightarrow> qvalue) \<Rightarrow> build_options \<Rightarrow> row_query \<Rightarrow> app_row list \<Rightarrow> bool" where
  "query_fits kind options q rows \<longleftrightarrow>
     list_all (\<lambda>row. row_fits kind row_cell (serverWhere options) row \<and> row_fits kind row_cell (rq_where q) row
                 \<and> order_fits kind (rq_order q) row) rows
     \<and> (case rq_pageToken q of None \<Rightarrow> True | Some token \<Rightarrow> token_fits kind (rq_order q) token)"

lemma memory_selected_filter: "memory_selected options rows = filter (applySoftDelete options) rows"
proof -
  have "row_cell row ''deleted_at'' \<noteq> None \<longleftrightarrow> sql_holds (sql_is_not_null (row_cell row ''deleted_at''))"
    "row_cell row ''deleted_at'' = None \<longleftrightarrow> sql_holds (sql_is_null (row_cell row ''deleted_at''))" for row
    by (auto simp: sql_is_null_def sql_is_not_null_def)
  then show ?thesis
    by (cases "softDeleted options") (auto simp: memory_selected_def applySoftDelete_def intro!: filter_cong)
qed

lemma bound_token_of: "token_fits kind order token \<Longrightarrow> those (map bind_key (token_keys token)) = Some (map cell_key (token_cells token))"
  unfolding token_fits_def using bind_token_of [of order "token_cells token"] by metis

lemma memory_page_select:
  assumes order: "\<And>row. row \<in> set rows \<Longrightarrow> wanted row \<Longrightarrow> order_fits kind (rq_order q) row"
    and keys: "case keys of None \<Rightarrow> True | Some ks \<Rightarrow> (\<exists>cells. ks = map cell_key cells
        \<and> list_all2 (\<lambda>t c. kind_fits (kind (term_column t)) c) (rq_order q) cells)"
  shows "memory_page (filter wanted rows) q keys
    = map (project_row q) (take (rq_limit q + 1) (select_rows (rq_order q) row_cell wanted keys rows))"
proof -
  let ?rank = "row_rank (rq_order q) row_cell" and ?rows = "filter wanted rows"
  have fits: "row \<in> set ?rows \<Longrightarrow> order_fits kind (rq_order q) row" for row using order by simp
  have sorted: "js_sort (compare_rows (rq_order q)) ?rows = sort_key ?rank ?rows"
    by (rule js_sort_rank) (use fits compare_rows_rank in blast)
  show ?thesis
  proof (cases keys)
    case None
    then show ?thesis by (simp add: memory_page_def sorted select_rows_first)
  next
    case (Some ks)
    then obtain cells where ks: "ks = map cell_key cells"
        and cells: "list_all2 (\<lambda>t c. kind_fits (kind (term_column t)) c) (rq_order q) cells" using keys by auto
    have sql: "sql_holds (keyset_after (rq_order q) ks row_cell row) \<longleftrightarrow> token_rank (rq_order q) cells < ?rank row" for row
      using cells by (simp add: ks keyset_after_rank list_all2_lengthD)
    have mem: "row \<in> set ?rows \<Longrightarrow> isAfterToken row (rq_order q) ks \<longleftrightarrow> token_rank (rq_order q) cells < ?rank row" for row
      unfolding ks by (rule isAfterToken_rank [OF fits cells])
    have "filter (\<lambda>row. isAfterToken row (rq_order q) ks) (sort_key ?rank ?rows)
        = filter (\<lambda>row. token_rank (rq_order q) cells < ?rank row) (sort_key ?rank ?rows)"
      by (intro filter_cong [OF refl] mem) simp
    also have "\<dots> = select_rows (rq_order q) row_cell wanted (Some ks) rows"
      by (simp add: select_rows_def sql filter_sort conj_commute)
    finally show ?thesis by (simp add: memory_page_def sorted Some)
  qed
qed

lemma memory_run_is_sql_run:
  assumes "query_fits kind options q rows"
  shows "runInMemoryQuery json_length (memory_selected options rows) q (serverWhere options)
    = run_row_query json_length options q rows"
proof -
  have fits: "row_fits kind row_cell (serverWhere options) row" "row_fits kind row_cell (rq_where q) row"
      "order_fits kind (rq_order q) row" if "row \<in> set rows" for row
    using assms that by (auto simp: query_fits_def list_all_iff)
  let ?mem = "\<lambda>row. matches row_cell (serverWhere options) row \<and> matches row_cell (rq_where q) row"
  have wanted: "filter ?mem (memory_selected options rows) = filter (query_wants options q) rows"
    unfolding memory_selected_filter filter_filter
    by (intro filter_cong [OF refl]) (auto simp: query_wants_def fits where_agrees [OF fits(1)] where_agrees [OF fits(2)])
  have run: "buildAppRowQuery options q rows = map_option (memory_page (filter (query_wants options q) rows) q) (bound_keys q)"
  proof (cases "rq_pageToken q")
    case None
    then show ?thesis
      using memory_page_select [of rows "query_wants options q" kind q None] fits
      by (simp add: bound_keys_def buildAppRowQuery_def sql_project_row)
  next
    case (Some token)
    then have t: "token_fits kind (rq_order q) token" using assms by (simp add: query_fits_def)
    then have "list_all2 (\<lambda>t c. kind_fits (kind (term_column t)) c) (rq_order q) (token_cells token)"
      by (simp add: token_fits_def)
    then have "memory_page (filter (query_wants options q) rows) q (Some (map cell_key (token_cells token)))
        = map (project_row q) (take (rq_limit q + 1)
            (select_rows (rq_order q) row_cell (query_wants options q) (Some (map cell_key (token_cells token))) rows))"
      by (intro memory_page_select [of _ _ kind]) (use fits in auto)
    then show ?thesis
      by (simp add: bound_keys_def buildAppRowQuery_def sql_project_row Some bound_token_of [OF t])
  qed
  show ?thesis
    unfolding runInMemoryQuery_def run_row_query_def wanted run by (simp add: option.map_comp comp_def)
qed

lemma following_tokens:
  assumes "pageable (json_length, options, q, pk) table"
  shows "walk (\<lambda>sent. page_seen (answer_page json_length options q table sent)) None
    = Some (map (stripOrderKeys \<circ> project_row q)
        (sort_key (row_rank (rq_order q) row_cell) (filter (query_wants options q) table)))"
  using app_pages.walk_all [OF assms]
  by (simp add: request_page_def request_shape_def request_rank_def request_wants_def)

end
