(* ===== verification/Query_Parse.thy ===== *)
theory Query_Parse
  imports App_Query Core_Types Js_Numbers
begin

text \<open>
  The query parser of both data planes (\<open>packages/shared-space-api/src/query/parse.ts\<close> and
  \<open>values.ts\<close>): from a request's parameters to a row query or an aggregate query, or the refusal the
  caller sees. \<open>JSON.parse\<close> of a parameter, and the text of a page token, are arguments.

  The lemmas show what every accepted query promises: values of the column's declared type, an
  ordering that ends in the primary key, a limit within bounds, no server-owned column.
\<close>

section \<open>Failing computations\<close>

definition and_then :: "'e + 'a \<Rightarrow> ('a \<Rightarrow> 'e + 'b) \<Rightarrow> 'e + 'b" where
  "and_then m f = (case m of Inl e \<Rightarrow> Inl e | Inr x \<Rightarrow> f x)"

fun traverse :: "('a \<Rightarrow> 'e + 'b) \<Rightarrow> 'a list \<Rightarrow> 'e + 'b list" where
  "traverse f [] = Inr []"
| "traverse f (x # xs) = and_then (f x) (\<lambda>y. and_then (traverse f xs) (\<lambda>ys. Inr (y # ys)))"

abbreviation refuse :: "string \<Rightarrow> query_error + 'a" where "refuse message \<equiv> Inl (QueryParseError message)"

lemma and_then_Inr: "and_then m f = Inr y \<longleftrightarrow> (\<exists>x. m = Inr x \<and> f x = Inr y)"
  by (cases m) (auto simp: and_then_def)

lemma and_then_simps [simp]: "and_then (Inl e) f = Inl e" "and_then (Inr x) f = f x"
  by (simp_all add: and_then_def)

lemma traverse_Inr: "traverse f xs = Inr ys \<longleftrightarrow> list_all2 (\<lambda>x y. f x = Inr y) xs ys"
  by (induction xs arbitrary: ys) (auto simp: and_then_Inr list_all2_Cons1)

lemma traverse_member: "traverse f xs = Inr ys \<Longrightarrow> y \<in> set ys \<Longrightarrow> \<exists>x \<in> set xs. f x = Inr y"
  unfolding traverse_Inr by (rule list_all2_right)

section \<open>Tables\<close>

record column_info =
  col_name :: string
  col_type :: logical_column_type
  col_notNull :: bool
  col_primaryKey :: bool

record query_table_schema =
  qs_name :: string
  qs_columns :: "column_info list"
  qs_pkColumns :: "string list"
  qs_requiredFilters :: "string list"
  qs_projectionOnly :: "string list"
  qs_orderOnly :: "column_info list"
  qs_includable :: "string list"

record query_params =
  qp_where :: "string option"
  qp_select :: "string option"
  qp_aggregate :: "string option"
  qp_order :: "string option"
  qp_limit :: "string option"
  qp_page_token :: "string option"
  qp_include :: "string option"

datatype aggregate_fn = FnCount | FnSum | FnAvg | FnMin | FnMax

record aggregate_term =
  agg_name :: string
  agg_fn :: aggregate_fn
  agg_col :: "string option"
  agg_distinct :: bool

record aggregate_query =
  aq_table :: string
  aq_groupBy :: "string list"
  aq_aggregates :: "aggregate_term list"
  aq_where :: "where_clause list"
  aq_order :: "order_term list"
  aq_limit :: nat

datatype parsed_query = Rows row_query | Aggregate aggregate_query

definition DEFAULT_LIMIT :: nat where "DEFAULT_LIMIT = 30"

definition MAX_LIMIT :: nat where "MAX_LIMIT = 500"

definition MAX_IN_LIST :: nat where "MAX_IN_LIST = 500"

definition ALL_OPS :: "string list" where
  "ALL_OPS = [''lt'', ''lte'', ''gt'', ''gte'', ''ne'', ''in'', ''is'', ''prefix'', ''like'']"

definition PROJECTION_ONLY_SYSTEM_COLUMNS :: "string list" where
  "PROJECTION_ONLY_SYSTEM_COLUMNS = [''updated_at'', ''node_id'']"

definition SOFT_DELETE_COLUMN :: string where "SOFT_DELETE_COLUMN = ''deleted_at''"

section \<open>Values\<close>

text \<open>
  \<open>CANONICAL_TIMESTAMP_RE\<close>, and what \<open>Date.parse\<close> accepts of such a string: a month, a day up to 31,
  a time of day or the midnight that ends one.
\<close>

definition timestamp_shape :: "string \<Rightarrow> bool" where
  "timestamp_shape s \<longleftrightarrow>
     length s = 24 \<and> s ! 4 = CHR ''-'' \<and> s ! 7 = CHR ''-'' \<and> s ! 10 = CHR ''T'' \<and> s ! 13 = CHR '':''
     \<and> s ! 16 = CHR '':'' \<and> s ! 19 = CHR ''.'' \<and> s ! 23 = CHR ''Z''
     \<and> list_all (\<lambda>i. is_digit (s ! i)) [0, 1, 2, 3, 5, 6, 8, 9, 11, 12, 14, 15, 17, 18, 20, 21, 22]"

definition two_digits :: "string \<Rightarrow> nat \<Rightarrow> nat" where "two_digits s i = digits_value (take 2 (drop i s))"

definition date_parses :: "string \<Rightarrow> bool" where
  "date_parses s \<longleftrightarrow>
     two_digits s 5 \<in> {1..12} \<and> two_digits s 8 \<in> {1..31} \<and> two_digits s 14 < 60 \<and> two_digits s 17 < 60
     \<and> (two_digits s 11 < 24 \<or> two_digits s 11 = 24 \<and> two_digits s 14 = 0 \<and> two_digits s 17 = 0
          \<and> digits_value (take 3 (drop 20 s)) = 0)"

definition isCanonicalTimestamp :: "js_value \<Rightarrow> bool" where
  "isCanonicalTimestamp v = (case v of JsStr s \<Rightarrow> timestamp_shape s \<and> date_parses s | _ \<Rightarrow> False)"

definition bad :: "query_error + 'a" where "bad = refuse ''the value is not of the declared type''"

definition checkValue :: "column_info \<Rightarrow> js_value \<Rightarrow> query_error + cell" where
  "checkValue info v =
     (if v = JsNull then (if col_notNull info then refuse ''a null predicate matches nothing'' else Inr None)
      else case col_type info of
        ColText \<Rightarrow> (case v of JsStr s \<Rightarrow> Inr (Some (QText s)) | _ \<Rightarrow> bad)
      | ColTimestamp \<Rightarrow> (case v of JsStr s \<Rightarrow> if isCanonicalTimestamp v then Inr (Some (QText s)) else bad | _ \<Rightarrow> bad)
      | ColInteger \<Rightarrow> (case v of JsNum (JsRat q) \<Rightarrow> if js_is_integer (JsRat q) then Inr (Some (QNum q)) else bad | _ \<Rightarrow> bad)
      | ColBigint \<Rightarrow> (case v of JsNum (JsRat q) \<Rightarrow> if js_is_integer (JsRat q) then Inr (Some (QNum q)) else bad | _ \<Rightarrow> bad)
      | ColReal \<Rightarrow> (case v of JsNum (JsRat q) \<Rightarrow> Inr (Some (QNum q)) | _ \<Rightarrow> bad)
      | ColBoolean \<Rightarrow>
          (case v of
             JsBool b \<Rightarrow> Inr (Some (QBool b))
           | JsNum (JsRat q) \<Rightarrow> if q = 0 \<or> q = 1 then Inr (Some (QBool (q = 1))) else bad
           | _ \<Rightarrow> bad)
      | ColBlob \<Rightarrow> refuse ''a blob cannot appear in a predicate'')"

definition isNumericColumn :: "column_info \<Rightarrow> bool" where "isNumericColumn info = isNumericColumnType (col_type info)"

definition isOrderableColumn :: "column_info \<Rightarrow> bool" where "isOrderableColumn info = isOrderableColumnType (col_type info)"

section \<open>Columns and lists\<close>

definition splitList :: "string \<Rightarrow> string list" where
  "splitList raw = filter (\<lambda>s. s \<noteq> []) (map js_trim (js_split (CHR '','') raw))"

text \<open>\<open>raw === undefined || raw.trim() === ""\<close>.\<close>

definition absent :: "string option \<Rightarrow> bool" where
  "absent raw = (case raw of None \<Rightarrow> True | Some s \<Rightarrow> js_trim s = [])"

definition parseJsonParam :: "(string \<Rightarrow> js_value option) \<Rightarrow> string \<Rightarrow> query_error + (string \<times> js_value) list" where
  "parseJsonParam json_parse raw =
     (case json_parse raw of
        None \<Rightarrow> refuse ''must be JSON''
      | Some (JsObj entries) \<Rightarrow> Inr entries
      | Some _ \<Rightarrow> refuse ''must be a JSON object'')"

definition columnOf :: "query_table_schema \<Rightarrow> string \<Rightarrow> query_error + column_info" where
  "columnOf schema name =
     (case find (\<lambda>c. col_name c = name) (qs_columns schema) of
        Some info \<Rightarrow> Inr info
      | None \<Rightarrow>
          if list_ex (\<lambda>c. col_name c = name) (qs_orderOnly schema)
          then refuse ''not a column; it may appear in order only''
          else refuse ''not a column'')"

definition orderColumnOf :: "query_table_schema \<Rightarrow> string \<Rightarrow> query_error + column_info" where
  "orderColumnOf schema name =
     (case find (\<lambda>c. col_name c = name) (qs_orderOnly schema) of
        Some declared \<Rightarrow> Inr declared
      | None \<Rightarrow> columnOf schema name)"

section \<open>where\<close>

definition code_points_of :: "string \<Rightarrow> nat list" where "code_points_of s = code_points s"

definition comparison_op :: "string \<Rightarrow> compare_op option" where
  "comparison_op op =
     (if op = ''lt'' then Some OpLt else if op = ''lte'' then Some OpLte
      else if op = ''gt'' then Some OpGt else if op = ''gte'' then Some OpGte else None)"

definition text_column :: "column_info \<Rightarrow> bool" where
  "text_column info \<longleftrightarrow> col_type info = ColText \<or> col_type info = ColTimestamp"

definition predicateFor :: "column_info \<Rightarrow> string \<Rightarrow> js_value \<Rightarrow> query_error + predicate" where
  "predicateFor info op operand =
     (if op \<notin> set ALL_OPS then refuse ''not an operator''
      else case comparison_op op of
        Some c \<Rightarrow>
          if \<not> isOrderableColumn info then refuse ''the column has no ordering''
          else and_then (checkValue info operand) (\<lambda>bound.
            case bound of None \<Rightarrow> refuse ''a comparison against null is never true'' | Some v \<Rightarrow> Inr (PCompare c v))
      | None \<Rightarrow>
          if op = ''ne'' then and_then (checkValue info operand) (\<lambda>v. Inr (PNe v))
          else if op = ''in'' then
            (case operand of
               JsArr vs \<Rightarrow>
                 if vs = [] then refuse ''in with an empty list matches nothing''
                 else if length vs > MAX_IN_LIST then refuse ''in takes at most 500 values''
                 else and_then (traverse (checkValue info) vs) (\<lambda>values. Inr (PIn values))
             | _ \<Rightarrow> refuse ''in takes a JSON array'')
          else if op = ''is'' then
            (case operand of
               JsNull \<Rightarrow> if col_notNull info then refuse ''is null matches nothing'' else Inr (PIs None)
             | JsBool b \<Rightarrow> if col_type info \<noteq> ColBoolean then refuse ''is applies to a boolean column'' else Inr (PIs (Some b))
             | _ \<Rightarrow> refuse ''is takes null, true or false'')
          else if op = ''prefix'' then
            (if \<not> text_column info then refuse ''prefix applies to a text or timestamp column''
             else case operand of
               JsStr s \<Rightarrow>
                 if s = [] then refuse ''prefix takes a non-empty string''
                 else Inr (PPrefix (code_points_of s) (prefixUpperBound (code_points_of s)))
             | _ \<Rightarrow> refuse ''prefix takes a non-empty string'')
          else
            (if \<not> text_column info then refuse ''like applies to a text or timestamp column''
             else case operand of
               JsStr s \<Rightarrow> and_then (validateLikePattern s) (\<lambda>pattern. Inr (PLike pattern))
             | _ \<Rightarrow> refuse ''like takes a string pattern''))"

definition where_entry :: "query_table_schema \<Rightarrow> string \<times> js_value \<Rightarrow> query_error + where_clause list" where
  "where_entry schema = (\<lambda>(name, spec).
     if name = SOFT_DELETE_COLUMN then refuse ''owned by the server''
     else if name \<in> set PROJECTION_ONLY_SYSTEM_COLUMNS \<or> name \<in> set (qs_projectionOnly schema)
     then refuse ''a sync-internal column may appear in select and order only''
     else and_then (columnOf schema name) (\<lambda>info.
       case spec of
         JsObj entries \<Rightarrow>
           if entries = [] then refuse ''an empty object asks nothing''
           else traverse (\<lambda>(op, operand). and_then (predicateFor info op operand) (\<lambda>p. Inr (name, p))) entries
       | _ \<Rightarrow> and_then (checkValue info spec) (\<lambda>v. Inr [(name, PEq v)])))"

definition parseWhere :: "(string \<Rightarrow> js_value option) \<Rightarrow> query_table_schema \<Rightarrow> string option \<Rightarrow> query_error + where_clause list" where
  "parseWhere json_parse schema raw =
     (if absent raw then Inr []
      else and_then (parseJsonParam json_parse (the raw)) (\<lambda>entries.
        and_then (traverse (where_entry schema) entries) (\<lambda>clauses.
          if list_all (\<lambda>required. required \<in> fst ` set (concat clauses)) (qs_requiredFilters schema)
          then Inr (concat clauses) else refuse ''required filters are missing'')))"

section \<open>select, order, limit\<close>

text \<open>\<open>[...new Set(names)]\<close>: the first of each.\<close>

definition js_unique :: "'a list \<Rightarrow> 'a list" where "js_unique xs = rev (remdups (rev xs))"

definition select_name :: "query_table_schema \<Rightarrow> string \<Rightarrow> query_error + string" where
  "select_name schema name =
     (if name = SOFT_DELETE_COLUMN then refuse ''owned by the server''
      else and_then (columnOf schema name) (\<lambda>info. Inr name))"

definition parseSelect :: "query_table_schema \<Rightarrow> string option \<Rightarrow> query_error + string list option" where
  "parseSelect schema raw =
     (if absent raw then Inr None
      else if splitList (the raw) = [] then Inr None
      else and_then (traverse (select_name schema) (splitList (the raw))) (\<lambda>names. Inr (Some (js_unique names))))"

text \<open>The modifiers of one ordering term: the direction, and the null position when one is given.\<close>

fun order_modifiers :: "bool \<Rightarrow> bool option \<Rightarrow> string list \<Rightarrow> query_error + (bool \<times> bool option)" where
  "order_modifiers desc nulls [] = Inr (desc, nulls)"
| "order_modifiers desc nulls (m # ms) =
     (if m = ''asc'' then order_modifiers False nulls ms
      else if m = ''desc'' then order_modifiers True nulls ms
      else if m = ''nullsfirst'' then order_modifiers desc (Some True) ms
      else if m = ''nullslast'' then order_modifiers desc (Some False) ms
      else refuse ''not an order modifier'')"

definition order_term_of :: "(string \<Rightarrow> query_error + unit) \<Rightarrow> string \<Rightarrow> query_error + order_term" where
  "order_term_of resolve raw =
     (let parts = js_split (CHR ''.'') raw
      in if hd parts = [] then refuse ''an order term names no column''
         else and_then (resolve (hd parts)) (\<lambda>_.
           and_then (order_modifiers False None (tl parts)) (\<lambda>(desc, nulls).
             Inr \<lparr>term_column = hd parts, term_desc = desc,
                  term_nullsFirst = (case nulls of None \<Rightarrow> False | Some b \<Rightarrow> b)\<rparr>)))"

definition parseOrder :: "string option \<Rightarrow> (string \<Rightarrow> query_error + unit) \<Rightarrow> query_error + order_term list" where
  "parseOrder raw resolve =
     (if absent raw then Inr [] else traverse (order_term_of resolve) (splitList (the raw)))"

definition parseLimit :: "string option \<Rightarrow> query_error + nat" where
  "parseLimit raw =
     (if absent raw then Inr DEFAULT_LIMIT
      else case js_integer_of (JsNum (number_of_string (the raw))) of
        None \<Rightarrow> refuse ''limit must be a whole number of at least 1''
      | Some n \<Rightarrow>
          if n < 1 then refuse ''limit must be a whole number of at least 1''
          else if n > int MAX_LIMIT then refuse ''limit must be at most 500''
          else Inr (nat n))"

section \<open>aggregate\<close>

definition aggregate_fn_of :: "string \<Rightarrow> aggregate_fn option" where
  "aggregate_fn_of s =
     (if s = ''count'' then Some FnCount else if s = ''sum'' then Some FnSum else if s = ''avg'' then Some FnAvg
      else if s = ''min'' then Some FnMin else if s = ''max'' then Some FnMax else None)"

definition aggregateColumn :: "query_table_schema \<Rightarrow> string \<Rightarrow> query_error + column_info" where
  "aggregateColumn schema name =
     (if name = SOFT_DELETE_COLUMN then refuse ''owned by the server'' else columnOf schema name)"

text \<open>The \<open>count\<close> branch of an entry, and the branch of the other functions.\<close>

definition count_entry :: "query_table_schema \<Rightarrow> string \<Rightarrow> js_value \<Rightarrow> js_value \<Rightarrow> query_error + aggregate_term" where
  "count_entry schema name wanted distinct_col =
     (if wanted \<noteq> JsUndefined \<and> distinct_col \<noteq> JsUndefined then refuse ''sets both col and distinct''
      else if wanted = JsUndefined \<and> distinct_col = JsUndefined
      then Inr \<lparr>agg_name = name, agg_fn = FnCount, agg_col = None, agg_distinct = False\<rparr>
      else case (if wanted = JsUndefined \<or> wanted = JsNull then distinct_col else wanted) of
        JsStr target \<Rightarrow> and_then (aggregateColumn schema target) (\<lambda>info.
          Inr \<lparr>agg_name = name, agg_fn = FnCount, agg_col = Some target, agg_distinct = (distinct_col \<noteq> JsUndefined)\<rparr>)
      | _ \<Rightarrow> refuse ''col/distinct must name a column'')"

definition column_entry :: "query_table_schema \<Rightarrow> string \<Rightarrow> aggregate_fn \<Rightarrow> js_value \<Rightarrow> js_value \<Rightarrow> query_error + aggregate_term" where
  "column_entry schema name fn wanted distinct_col =
     (if distinct_col \<noteq> JsUndefined then refuse ''distinct applies to count only''
      else case wanted of
        JsStr target \<Rightarrow> and_then (aggregateColumn schema target) (\<lambda>info.
          if fn = FnSum \<or> fn = FnAvg
          then (if \<not> isNumericColumn info then refuse ''needs a numeric column''
                else Inr \<lparr>agg_name = name, agg_fn = fn, agg_col = Some target, agg_distinct = False\<rparr>)
          else if \<not> isOrderableColumn info then refuse ''needs an orderable column''
          else Inr \<lparr>agg_name = name, agg_fn = fn, agg_col = Some target, agg_distinct = False\<rparr>)
      | _ \<Rightarrow> refuse ''col must name a column'')"

definition aggregate_entry :: "query_table_schema \<Rightarrow> string \<times> js_value \<Rightarrow> query_error + aggregate_term" where
  "aggregate_entry schema = (\<lambda>(name, spec).
     if list_ex (\<lambda>c. col_name c = name) (qs_columns schema) then refuse ''collides with a column''
     else case spec of
       JsObj _ \<Rightarrow>
         (case (case js_prop spec ''fn'' of JsStr s \<Rightarrow> aggregate_fn_of s | _ \<Rightarrow> None) of
            None \<Rightarrow> refuse ''not an aggregate function''
          | Some fn \<Rightarrow>
              if fn = FnCount then count_entry schema name (js_prop spec ''col'') (js_prop spec ''distinct'')
              else column_entry schema name fn (js_prop spec ''col'') (js_prop spec ''distinct''))
     | _ \<Rightarrow> refuse ''must be an object naming a function'')"

definition parseAggregate ::
  "(string \<Rightarrow> js_value option) \<Rightarrow> query_table_schema \<Rightarrow> string \<Rightarrow> query_error + aggregate_term list" where
  "parseAggregate json_parse schema raw =
     and_then (parseJsonParam json_parse raw) (\<lambda>entries.
       if entries = [] then refuse ''an empty object asks nothing'' else traverse (aggregate_entry schema) entries)"

section \<open>The parser\<close>

text \<open>The ordering a caller asked for, completed with the primary key.\<close>

definition order_with_key :: "string \<Rightarrow> order_term list \<Rightarrow> order_term list" where
  "order_with_key pk order =
     (if list_ex (\<lambda>t. term_column t = pk) order then order
      else order @ [\<lparr>term_column = pk, term_desc = False, term_nullsFirst = False\<rparr>])"

definition complete_order :: "string list \<Rightarrow> order_term list \<Rightarrow> order_term list" where
  "complete_order pkColumns requested = fold order_with_key pkColumns requested"

definition resolve_order :: "query_table_schema \<Rightarrow> string \<Rightarrow> query_error + unit" where
  "resolve_order schema name =
     (if name = SOFT_DELETE_COLUMN then refuse ''owned by the server''
      else and_then (orderColumnOf schema name) (\<lambda>resolved.
        if \<not> isOrderableColumn resolved then refuse ''the column has no ordering'' else Inr ()))"

definition parse_token ::
  "(string \<Rightarrow> js_value option) \<Rightarrow> string option \<Rightarrow> order_term list \<Rightarrow> query_error + page_token option" where
  "parse_token token_json raw order =
     (if absent raw then Inr None
      else and_then (decodePageToken (token_json (the raw)) order) (\<lambda>t. Inr (Some t)))"

definition parseRowQuery ::
  "(string \<Rightarrow> js_value option) \<Rightarrow> query_table_schema \<Rightarrow> query_params \<Rightarrow> where_clause list \<Rightarrow> nat \<Rightarrow> query_error + row_query" where
  "parseRowQuery token_json schema params clauses max_rows =
     and_then (parseSelect schema (qp_select params)) (\<lambda>select.
     and_then (parseOrder (qp_order params) (resolve_order schema)) (\<lambda>requested.
       let order = complete_order (qs_pkColumns schema) requested
       in if order = [] then refuse ''no total ordering exists''
          else and_then (parse_token token_json (qp_page_token params) order) (\<lambda>pageToken.
            let include = (case qp_include params of None \<Rightarrow> [] | Some raw \<Rightarrow> splitList raw)
            in if \<not> list_all (\<lambda>edge. edge \<in> set (qs_includable schema)) include then refuse ''not a relation''
               else Inr \<lparr>rq_table = qs_name schema, rq_select = select, rq_where = clauses, rq_order = order,
                         rq_limit = max_rows, rq_pageToken = pageToken, rq_include = include\<rparr>)))"

definition parseAggregateQuery ::
  "(string \<Rightarrow> js_value option) \<Rightarrow> query_table_schema \<Rightarrow> query_params \<Rightarrow> where_clause list \<Rightarrow> nat \<Rightarrow> query_error + aggregate_query" where
  "parseAggregateQuery json_parse schema params clauses max_rows =
     (if \<not> absent (qp_page_token params) then refuse ''page_token addresses a row''
      else if \<not> absent (qp_include params) then refuse ''include hydrates rows''
      else and_then (parseAggregate json_parse schema (the (qp_aggregate params))) (\<lambda>aggregates.
        and_then (parseSelect schema (qp_select params)) (\<lambda>select.
          let groupBy = (case select of None \<Rightarrow> [] | Some names \<Rightarrow> names);
              outputs = groupBy @ map agg_name aggregates
          in and_then (parseOrder (qp_order params)
                (\<lambda>name. if name \<in> set outputs then Inr () else refuse ''neither a grouping column nor an output''))
               (\<lambda>order. Inr \<lparr>aq_table = qs_name schema, aq_groupBy = groupBy, aq_aggregates = aggregates,
                            aq_where = clauses, aq_order = order, aq_limit = max_rows\<rparr>))))"

definition parseQuery ::
  "(string \<Rightarrow> js_value option) \<Rightarrow> (string \<Rightarrow> js_value option) \<Rightarrow> query_table_schema \<Rightarrow> query_params \<Rightarrow> query_error + parsed_query" where
  "parseQuery json_parse token_json schema params =
     and_then (parseWhere json_parse schema (qp_where params)) (\<lambda>clauses.
     and_then (parseLimit (qp_limit params)) (\<lambda>max_rows.
       if \<not> absent (qp_aggregate params)
       then and_then (parseAggregateQuery json_parse schema params clauses max_rows) (\<lambda>q. Inr (Aggregate q))
       else and_then (parseRowQuery token_json schema params clauses max_rows) (\<lambda>q. Inr (Rows q))))"

section \<open>What an accepted query promises\<close>

definition value_typed :: "column_info \<Rightarrow> cell \<Rightarrow> bool" where
  "value_typed info c =
     (case c of
        None \<Rightarrow> \<not> col_notNull info
      | Some v \<Rightarrow>
          (case (col_type info, v) of
             (ColText, QText s) \<Rightarrow> True
           | (ColTimestamp, QText s) \<Rightarrow> isCanonicalTimestamp (JsStr s)
           | (ColInteger, QNum q) \<Rightarrow> js_is_integer (JsRat q)
           | (ColBigint, QNum q) \<Rightarrow> js_is_integer (JsRat q)
           | (ColReal, QNum q) \<Rightarrow> True
           | (ColBoolean, QBool b) \<Rightarrow> True
           | _ \<Rightarrow> False))"

fun predicate_typed :: "column_info \<Rightarrow> predicate \<Rightarrow> bool" where
  "predicate_typed info (PEq c) = value_typed info c"
| "predicate_typed info (PNe c) = value_typed info c"
| "predicate_typed info (PCompare _ v) = (isOrderableColumn info \<and> value_typed info (Some v))"
| "predicate_typed info (PIn vs) = (vs \<noteq> [] \<and> length vs \<le> MAX_IN_LIST \<and> list_all (value_typed info) vs)"
| "predicate_typed info (PIs None) = (\<not> col_notNull info)"
| "predicate_typed info (PIs (Some _)) = (col_type info = ColBoolean)"
| "predicate_typed info (PPrefix lower upper) = (text_column info \<and> lower \<noteq> [] \<and> upper = prefixUpperBound lower)"
| "predicate_typed info (PLike pattern) = (text_column info \<and> validateLikePattern pattern = Inr pattern)"

definition declared :: "query_table_schema \<Rightarrow> string \<Rightarrow> (column_info \<Rightarrow> bool) \<Rightarrow> bool" where
  "declared schema name P =
     (case find (\<lambda>info. col_name info = name) (qs_columns schema) of None \<Rightarrow> False | Some info \<Rightarrow> P info)"

definition filterable :: "query_table_schema \<Rightarrow> string \<Rightarrow> bool" where
  "filterable schema name \<longleftrightarrow> name \<notin> set (SOFT_DELETE_COLUMN # PROJECTION_ONLY_SYSTEM_COLUMNS @ qs_projectionOnly schema)"

definition where_typed :: "query_table_schema \<Rightarrow> where_clause list \<Rightarrow> bool" where
  "where_typed schema clauses \<longleftrightarrow>
     list_all (\<lambda>(name, p). filterable schema name \<and> declared schema name (\<lambda>info. predicate_typed info p)) clauses"

definition selectable :: "query_table_schema \<Rightarrow> string \<Rightarrow> bool" where
  "selectable schema name \<longleftrightarrow> name \<noteq> SOFT_DELETE_COLUMN \<and> declared schema name (\<lambda>_. True)"

definition sortable :: "query_table_schema \<Rightarrow> string \<Rightarrow> bool" where
  "sortable schema name \<longleftrightarrow> name \<in> set (qs_pkColumns schema) \<or> name \<noteq> SOFT_DELETE_COLUMN
     \<and> (declared schema name isOrderableColumn
        \<or> list_ex (\<lambda>info. col_name info = name \<and> isOrderableColumn info) (qs_orderOnly schema))"

text \<open>A parsed row query: typed filters, the required ones present, a total ordering, a bounded page.\<close>

definition row_query_typed :: "query_table_schema \<Rightarrow> row_query \<Rightarrow> bool" where
  "row_query_typed schema q \<longleftrightarrow>
     where_typed schema (rq_where q)
     \<and> (case rq_select q of None \<Rightarrow> True | Some names \<Rightarrow> list_all (selectable schema) names \<and> distinct names)
     \<and> list_all (\<lambda>t. sortable schema (term_column t)) (rq_order q) \<and> rq_order q \<noteq> []
     \<and> set (qs_pkColumns schema) \<subseteq> term_column ` set (rq_order q)
     \<and> 1 \<le> rq_limit q \<and> rq_limit q \<le> MAX_LIMIT
     \<and> set (rq_include q) \<subseteq> set (qs_includable schema)
     \<and> (case rq_pageToken q of None \<Rightarrow> True | Some token \<Rightarrow>
          token_order token = appOrderSignature (rq_order q) \<and> length (token_keys token) = length (rq_order q))"

fun aggregate_typed :: "query_table_schema \<Rightarrow> aggregate_term \<Rightarrow> bool" where
  "aggregate_typed schema t =
     (\<not> declared schema (agg_name t) (\<lambda>_. True)
      \<and> (agg_distinct t \<longrightarrow> agg_fn t = FnCount)
      \<and> (case agg_col t of
           None \<Rightarrow> agg_fn t = FnCount
         | Some name \<Rightarrow> name \<noteq> SOFT_DELETE_COLUMN \<and> declared schema name (\<lambda>info.
             (agg_fn t \<in> {FnSum, FnAvg} \<longrightarrow> isNumericColumn info) \<and> (agg_fn t \<in> {FnMin, FnMax} \<longrightarrow> isOrderableColumn info))))"

definition aggregate_query_typed :: "query_table_schema \<Rightarrow> aggregate_query \<Rightarrow> bool" where
  "aggregate_query_typed schema q \<longleftrightarrow>
     where_typed schema (aq_where q)
     \<and> list_all (selectable schema) (aq_groupBy q) \<and> distinct (aq_groupBy q)
     \<and> aq_aggregates q \<noteq> [] \<and> list_all (aggregate_typed schema) (aq_aggregates q)
     \<and> term_column ` set (aq_order q) \<subseteq> set (aq_groupBy q) \<union> agg_name ` set (aq_aggregates q)
     \<and> 1 \<le> aq_limit q \<and> aq_limit q \<le> MAX_LIMIT"

lemma checkValue_typed: "checkValue info v = Inr c \<Longrightarrow> value_typed info c"
  by (auto simp: checkValue_def value_typed_def bad_def split: if_splits logical_column_type.splits js_value.splits js_number.splits)

lemma columnOf_declared: "columnOf schema name = Inr info \<Longrightarrow> P info \<Longrightarrow> declared schema name P"
  by (auto simp: columnOf_def declared_def split: option.splits if_splits)

lemma traverse_checkValue:
  assumes "traverse (checkValue info) vs = Inr cs"
  shows "list_all (value_typed info) cs" "length cs = length vs"
  using assms by (auto simp: traverse_Inr list_all2_conv_all_nth list_all_length intro: checkValue_typed)

lemma validated_pattern: "validateLikePattern s = Inr p \<Longrightarrow> validateLikePattern p = Inr p"
  using validateLikePattern_ok by fastforce

lemma in_typed:
  "traverse (checkValue info) vs = Inr cs \<Longrightarrow> vs \<noteq> [] \<Longrightarrow> \<not> MAX_IN_LIST < length vs \<Longrightarrow> predicate_typed info (PIn cs)"
  using traverse_checkValue [of info vs cs] by (cases cs) auto

lemma predicateFor_typed: "predicateFor info op operand = Inr p \<Longrightarrow> predicate_typed info p"
  unfolding predicateFor_def
  by (auto simp: and_then_Inr checkValue_typed code_points_of_def simp del: predicate_typed.simps(4)
      intro: in_typed dest: validated_pattern split: if_splits option.splits js_value.splits)

lemma where_entry_typed:
  assumes "where_entry schema entry = Inr clauses"
  shows "where_typed schema clauses"
proof -
  obtain name spec where e: "entry = (name, spec)" by (cases entry)
  from assms obtain info where info: "columnOf schema name = Inr info" "filterable schema name"
    by (auto simp: where_entry_def e filterable_def and_then_Inr split: if_splits)
  show ?thesis
  proof (cases "\<exists>entries. spec = JsObj entries")
    case True
    then obtain entries where spec: "spec = JsObj entries" by blast
    have "traverse (\<lambda>(op, operand). and_then (predicateFor info op operand) (\<lambda>p. Inr (name, p))) entries = Inr clauses"
      using assms info by (auto simp: where_entry_def e spec filterable_def split: if_splits)
    then have "\<exists>op operand p. predicateFor info op operand = Inr p \<and> c = (name, p)" if "c \<in> set clauses" for c
      using traverse_member [OF _ that] by (fastforce simp: and_then_Inr)
    then show ?thesis
      using info by (fastforce simp: where_typed_def list_all_iff intro: columnOf_declared predicateFor_typed)
  next
    case False
    then obtain v where "checkValue info spec = Inr v" "clauses = [(name, PEq v)]"
      using assms info by (auto simp: where_entry_def e filterable_def and_then_Inr split: if_splits js_value.splits)
    then show ?thesis
      using info by (auto simp: where_typed_def intro!: columnOf_declared checkValue_typed)
  qed
qed

lemma parseWhere_typed:
  assumes "parseWhere json_parse schema raw = Inr clauses"
  shows "where_typed schema clauses"
proof (cases "absent raw")
  case True
  then show ?thesis using assms by (simp add: parseWhere_def where_typed_def)
next
  case False
  then obtain entries parts where parts: "traverse (where_entry schema) entries = Inr parts" "clauses = concat parts"
    using assms by (auto simp: parseWhere_def and_then_Inr split: if_splits)
  have "where_typed schema part" if "part \<in> set parts" for part
    using traverse_member [OF parts(1) that] where_entry_typed by blast
  then show ?thesis by (auto simp: parts(2) where_typed_def list_all_iff)
qed

lemma parseLimit_bounds: "parseLimit raw = Inr n \<Longrightarrow> 1 \<le> n \<and> n \<le> MAX_LIMIT"
  by (auto simp: parseLimit_def DEFAULT_LIMIT_def MAX_LIMIT_def split: if_splits option.splits)

lemma distinct_js_unique [simp]: "distinct (js_unique xs)" "set (js_unique xs) = set xs"
  by (simp_all add: js_unique_def)

lemma parseSelect_typed:
  assumes "parseSelect schema raw = Inr (Some names)"
  shows "list_all (selectable schema) names" "distinct names"
proof -
  obtain parts where parts: "traverse (select_name schema) (splitList (the raw)) = Inr parts" "names = js_unique parts"
    using assms by (auto simp: parseSelect_def and_then_Inr split: if_splits)
  have "selectable schema name" if "name \<in> set parts" for name
  proof -
    have "\<exists>raw'. select_name schema raw' = Inr name" using traverse_member [OF parts(1) that] by blast
    then show ?thesis
      by (auto simp: select_name_def selectable_def and_then_Inr split: if_splits intro: columnOf_declared)
  qed
  then show "list_all (selectable schema) names" "distinct names" by (simp_all add: parts(2) list_all_iff)
qed

lemma order_with_key:
  "set (order_with_key pk order) \<subseteq> set order \<union> {t. term_column t = pk}"
  "insert pk (term_column ` set order) \<subseteq> term_column ` set (order_with_key pk order)"
  by (auto simp: order_with_key_def list_ex_iff)

lemma complete_order:
  "set (complete_order pks requested) \<subseteq> set requested \<union> {t. term_column t \<in> set pks}"
  "set pks \<subseteq> term_column ` set (complete_order pks requested)"
proof -
  have "set (complete_order pks requested) \<subseteq> set requested \<union> {t. term_column t \<in> set pks}
      \<and> set pks \<union> term_column ` set requested \<subseteq> term_column ` set (complete_order pks requested)"
  proof (induction pks arbitrary: requested)
    case (Cons pk pks)
    have step: "complete_order (pk # pks) requested = complete_order pks (order_with_key pk requested)"
      by (simp add: complete_order_def)
    let ?O = "order_with_key pk requested"
    have low: "set (complete_order pks ?O) \<subseteq> set ?O \<union> {t. term_column t \<in> set pks}"
      and up: "set pks \<subseteq> term_column ` set (complete_order pks ?O)"
        "term_column ` set ?O \<subseteq> term_column ` set (complete_order pks ?O)" using Cons.IH [of ?O] by simp_all
    have "set (complete_order pks ?O) \<subseteq> set requested \<union> {t. term_column t \<in> set (pk # pks)}"
      using low order_with_key(1) [of pk requested] by auto
    moreover have "insert pk (term_column ` set requested) \<subseteq> term_column ` set (complete_order pks ?O)"
      using order_with_key(2) up(2) by (rule subset_trans)
    ultimately show ?case unfolding step using up(1) by simp
  qed (simp add: complete_order_def)
  then show "set (complete_order pks requested) \<subseteq> set requested \<union> {t. term_column t \<in> set pks}"
    "set pks \<subseteq> term_column ` set (complete_order pks requested)" by auto
qed

lemma parseOrder_resolved:
  assumes "parseOrder raw resolve = Inr order" "t \<in> set order"
  shows "resolve (term_column t) = Inr ()"
proof -
  have "traverse (order_term_of resolve) (splitList (the raw)) = Inr order"
    using assms by (auto simp: parseOrder_def split: if_splits)
  then obtain part where "order_term_of resolve part = Inr t" using traverse_member [OF _ assms(2)] by blast
  then show ?thesis by (auto simp: order_term_of_def and_then_Inr Let_def split: if_splits)
qed

lemma resolve_order_sortable: "resolve_order schema name = Inr () \<Longrightarrow> sortable schema name"
  by (auto simp: resolve_order_def sortable_def orderColumnOf_def and_then_Inr list_ex_iff find_Some_iff
      split: if_splits option.splits intro!: columnOf_declared)

lemma decodePageToken_ok:
  assumes "decodePageToken raw order = Inr token"
  shows "token_order token = appOrderSignature order" "length (token_keys token) = length order"
proof -
  obtain parsed signature keys decoded where "those (map decode_token_key keys) = Some decoded" "length keys = length order"
      "signature = appOrderSignature order" and token: "token = \<lparr>token_order = signature, token_keys = decoded\<rparr>"
    using assms by (auto simp: decodePageToken_def not_a_token_def split: option.splits prod.splits js_value.splits if_splits)
  moreover have "length ys = length xs" if "those xs = Some ys" for xs :: "(bool \<times> js_value) option list" and ys
    using that by (induction xs arbitrary: ys) (auto split: option.splits)
  ultimately show "token_order token = appOrderSignature order" "length (token_keys token) = length order"
    by (auto simp: token)
qed

lemma parseRowQuery_typed:
  assumes "parseRowQuery token_json schema params clauses max_rows = Inr q"
    and "where_typed schema clauses" "1 \<le> max_rows" "max_rows \<le> MAX_LIMIT"
  shows "row_query_typed schema q"
proof -
  from assms(1) obtain select requested pageToken where
    select: "parseSelect schema (qp_select params) = Inr select" and
    requested: "parseOrder (qp_order params) (resolve_order schema) = Inr requested" and
    q: "rq_select q = select" "rq_where q = clauses" "rq_order q = complete_order (qs_pkColumns schema) requested"
      "rq_limit q = max_rows" "rq_pageToken q = pageToken" "rq_order q \<noteq> []" and
    edges: "list_all (\<lambda>edge. edge \<in> set (qs_includable schema)) (rq_include q)" and
    token: "parse_token token_json (qp_page_token params) (complete_order (qs_pkColumns schema) requested) = Inr pageToken"
    unfolding parseRowQuery_def by (auto simp: and_then_Inr Let_def split: if_splits)
  have "sortable schema (term_column t)" if "t \<in> set (rq_order q)" for t
    using that complete_order(1) [of "qs_pkColumns schema" requested] parseOrder_resolved [OF requested] resolve_order_sortable
    by (auto simp: q sortable_def)
  moreover have "case select of None \<Rightarrow> True | Some names \<Rightarrow> list_all (selectable schema) names \<and> distinct names"
    using select parseSelect_typed by (auto split: option.splits)
  moreover have "case pageToken of None \<Rightarrow> True | Some t \<Rightarrow>
      token_order t = appOrderSignature (rq_order q) \<and> length (token_keys t) = length (rq_order q)"
    using token decodePageToken_ok by (auto simp: parse_token_def and_then_Inr q split: if_splits)
  ultimately show ?thesis
    using assms(2-4) edges complete_order(2) [of "qs_pkColumns schema" requested] q
    unfolding row_query_typed_def list_all_iff by (auto split: option.splits)
qed

lemma aggregateColumn_declared:
  "aggregateColumn schema name = Inr info \<Longrightarrow> P info \<Longrightarrow> name \<noteq> SOFT_DELETE_COLUMN \<and> declared schema name P"
  by (auto simp: aggregateColumn_def split: if_splits intro: columnOf_declared)

lemma undeclared: "\<not> list_ex (\<lambda>c. col_name c = name) (qs_columns schema) \<Longrightarrow> \<not> declared schema name P"
  by (auto simp: declared_def list_ex_iff find_Some_iff split: option.splits dest: nth_mem)

lemma count_entry_typed:
  "count_entry schema name wanted distinct_col = Inr t \<Longrightarrow> \<not> declared schema name (\<lambda>_. True) \<Longrightarrow> aggregate_typed schema t"
  by (auto simp: count_entry_def and_then_Inr split: if_splits js_value.splits dest: aggregateColumn_declared [of _ _ _ "\<lambda>_. True"])

lemma column_entry_typed:
  assumes "column_entry schema name fn wanted distinct_col = Inr t" "\<not> declared schema name (\<lambda>_. True)" "fn \<noteq> FnCount"
  shows "aggregate_typed schema t"
proof -
  obtain target info where info: "aggregateColumn schema target = Inr info"
      "(fn \<in> {FnSum, FnAvg} \<longrightarrow> isNumericColumn info) \<and> (fn \<in> {FnMin, FnMax} \<longrightarrow> isOrderableColumn info)"
      "t = \<lparr>agg_name = name, agg_fn = fn, agg_col = Some target, agg_distinct = False\<rparr>"
    using assms by (cases fn) (auto simp: column_entry_def and_then_Inr split: if_splits js_value.splits)
  show ?thesis
    using aggregateColumn_declared [of schema target info "\<lambda>info. (fn \<in> {FnSum, FnAvg} \<longrightarrow> isNumericColumn info)
        \<and> (fn \<in> {FnMin, FnMax} \<longrightarrow> isOrderableColumn info)"] info(1,2) assms(2)
    by (simp add: info(3))
qed

lemma aggregate_entry_typed: "aggregate_entry schema entry = Inr t \<Longrightarrow> aggregate_typed schema t"
  by (cases entry)
    (auto simp: aggregate_entry_def simp del: aggregate_typed.simps split: if_splits js_value.splits option.splits
      dest: undeclared [where P = "\<lambda>_. True"] intro: count_entry_typed column_entry_typed)

lemma parseAggregateQuery_typed:
  assumes "parseAggregateQuery json_parse schema params clauses max_rows = Inr q"
    and "where_typed schema clauses" "1 \<le> max_rows" "max_rows \<le> MAX_LIMIT"
  shows "aggregate_query_typed schema q"
proof -
  from assms(1) obtain aggregates select order where
    aggregates: "parseAggregate json_parse schema (the (qp_aggregate params)) = Inr aggregates" and
    select: "parseSelect schema (qp_select params) = Inr select" and
    order: "parseOrder (qp_order params) (\<lambda>name. if name \<in> set (aq_groupBy q @ map agg_name aggregates) then Inr ()
        else refuse ''neither a grouping column nor an output'') = Inr order" and
    q: "aq_groupBy q = (case select of None \<Rightarrow> [] | Some names \<Rightarrow> names)" "aq_aggregates q = aggregates"
      "aq_where q = clauses" "aq_order q = order" "aq_limit q = max_rows"
    unfolding parseAggregateQuery_def by (auto simp: and_then_Inr Let_def split: if_splits)
  obtain entries where "entries \<noteq> []" and entries: "traverse (aggregate_entry schema) entries = Inr aggregates"
    using aggregates by (auto simp: parseAggregate_def and_then_Inr split: if_splits)
  then have "aggregates \<noteq> []" by (auto simp: traverse_Inr)
  moreover have "aggregate_typed schema t" if "t \<in> set aggregates" for t
    using traverse_member [OF entries that] aggregate_entry_typed by blast
  moreover have "term_column t \<in> set (aq_groupBy q) \<union> agg_name ` set aggregates" if "t \<in> set order" for t
    using parseOrder_resolved [OF order that] by (simp split: if_splits)
  moreover have "list_all (selectable schema) (aq_groupBy q) \<and> distinct (aq_groupBy q)"
    using select parseSelect_typed by (auto simp: q split: option.splits)
  ultimately show ?thesis
    using assms(2-4) q unfolding aggregate_query_typed_def list_all_iff by auto
qed

lemma parseQuery_typed:
  "parseQuery json_parse token_json schema params = Inr (Rows q) \<Longrightarrow> row_query_typed schema q"
  "parseQuery json_parse token_json schema params = Inr (Aggregate g) \<Longrightarrow> aggregate_query_typed schema g"
  by (auto simp: parseQuery_def and_then_Inr split: if_splits
      dest!: parseWhere_typed parseLimit_bounds intro: parseRowQuery_typed parseAggregateQuery_typed)

text \<open>
  C23. Whatever the parser accepts is well typed. A row query filters declared columns only (never the
  soft-delete column, never a sync-internal one), every value has the declared type of its column,
  comparisons name ordered columns, patterns are validated; its ordering contains the whole primary
  key; its page is between 1 and 500 rows; a continuation matches the ordering. An aggregate query
  groups by declared columns, sums and averages numbers, takes extremes of ordered columns, and
  orders by its own outputs.
\<close>

theorem accepted_query_is_well_typed:
  "case parseQuery json_parse token_json schema params of
     Inl _ \<Rightarrow> True
   | Inr (Rows q) \<Rightarrow> row_query_typed schema q
   | Inr (Aggregate q) \<Rightarrow> aggregate_query_typed schema q"
  using parseQuery_typed by (auto split: sum.splits parsed_query.splits)

section \<open>From a request to its pages\<close>

definition plain_schema :: "query_table_schema \<Rightarrow> bool" where
  "plain_schema schema \<longleftrightarrow>
     list_all (\<lambda>name. \<not> isOrderKeyAlias name) (map col_name (qs_columns schema @ qs_orderOnly schema) @ qs_pkColumns schema)"

definition keyed_by :: "string list \<Rightarrow> app_row list \<Rightarrow> bool" where
  "keyed_by pk table \<longleftrightarrow> distinct (map (\<lambda>r. map (row_cell r) pk) table)"

lemma sortable_named:
  "sortable schema name \<Longrightarrow> name \<in> set (map col_name (qs_columns schema @ qs_orderOnly schema) @ qs_pkColumns schema)"
  by (auto simp: sortable_def declared_def list_ex_iff find_Some_iff split: option.splits)

lemma accepted_pageable:
  assumes "row_query_typed schema q" "plain_schema schema" "keyed_by (qs_pkColumns schema) table"
  shows "pageable (json_length, options, q, qs_pkColumns schema) table"
proof -
  have "\<not> isOrderKeyAlias (term_column t)" if "t \<in> set (rq_order q)" for t
    using that assms(1,2) sortable_named [of schema "term_column t"] by (auto simp: row_query_typed_def plain_schema_def list_all_iff)
  then show ?thesis
    using assms(1,3) by (auto simp: pageable_def row_query_typed_def plain_order_def keyed_by_def list_all_iff)
qed

text \<open>The kind a column's declared type gives its values, and rows whose cells have it.\<close>

definition kind_of_type :: "logical_column_type \<Rightarrow> qvalue" where
  "kind_of_type t =
     (if t = ColBoolean then QBool False else if isNumericColumnType t then QNum 0 else QText '''')"

definition schema_kind :: "query_table_schema \<Rightarrow> string \<Rightarrow> qvalue" where
  "schema_kind schema name =
     (case find (\<lambda>info. col_name info = name) (qs_columns schema @ qs_orderOnly schema) of
        Some info \<Rightarrow> kind_of_type (col_type info)
      | None \<Rightarrow> QText '''')"

definition rows_typed :: "query_table_schema \<Rightarrow> app_row list \<Rightarrow> bool" where
  "rows_typed schema rows \<longleftrightarrow>
     list_all (\<lambda>row. list_all (\<lambda>name. kind_fits (schema_kind schema name) (row_cell row name))
       (map col_name (qs_columns schema @ qs_orderOnly schema) @ qs_pkColumns schema)) rows"

definition no_null_in :: "where_clause list \<Rightarrow> bool" where
  "no_null_in clauses \<longleftrightarrow> list_all (\<lambda>(name, p). \<not> in_has_null p) clauses"

lemma kind_fits_typed: "value_typed info c \<Longrightarrow> kind_fits (kind_of_type (col_type info)) c"
  by (auto simp: value_typed_def kind_fits_def kind_of_type_def isNumericColumnType_def
      split: option.splits logical_column_type.splits qvalue.splits)

lemma kind_of_text: "text_column info \<Longrightarrow> kind_of_type (col_type info) = QText ''''"
  by (auto simp: text_column_def kind_of_type_def isNumericColumnType_def)

lemma predicate_fits_typed: "predicate_typed info p \<Longrightarrow> predicate_fits (kind_of_type (col_type info)) p"
proof (cases p)
  case (PCompare op v)
  assume "predicate_typed info p"
  then show ?thesis using kind_fits_typed [of info "Some v"] PCompare by (simp add: kind_fits_def)
next
  case (PIs v)
  assume "predicate_typed info p"
  then show ?thesis using PIs by (cases v) (simp_all add: kind_of_type_def)
qed (auto simp: kind_of_text list_all_iff kind_fits_typed)

lemma find_append: "find P (xs @ ys) = (case find P xs of Some x \<Rightarrow> Some x | None \<Rightarrow> find P ys)"
  by (induction xs) auto

lemma declared_kind:
  "declared schema name P \<Longrightarrow> \<exists>info. P info \<and> schema_kind schema name = kind_of_type (col_type info)"
  by (auto simp: declared_def schema_kind_def find_append split: option.splits)

lemma typed_row_fits:
  assumes "where_typed schema clauses" "no_null_in clauses" "rows_typed schema rows" "row \<in> set rows"
  shows "row_fits (schema_kind schema) row_cell clauses row"
  unfolding row_fits_def
proof (clarify)
  fix name p
  assume "(name, p) \<in> set clauses"
  then have typed: "declared schema name (\<lambda>info. predicate_typed info p)" and null: "\<not> in_has_null p"
    using assms(1,2) by (auto simp: where_typed_def no_null_in_def list_all_iff)
  have "name \<in> set (map col_name (qs_columns schema))"
    using typed by (auto simp: declared_def find_Some_iff split: option.splits)
  then have "kind_fits (schema_kind schema name) (row_cell row name)"
    using assms(3,4) by (auto simp: rows_typed_def list_all_iff)
  then show "kind_fits (schema_kind schema name) (row_cell row name) \<and> predicate_fits (schema_kind schema name) p
      \<and> (row_cell row name \<noteq> None \<or> \<not> in_has_null p)"
    using declared_kind [OF typed] predicate_fits_typed null by auto
qed

lemma typed_query_fits:
  assumes typed: "row_query_typed schema q" and rows: "rows_typed schema rows"
    and server: "where_typed schema (serverWhere options)" "no_null_in (serverWhere options)"
    and null: "no_null_in (rq_where q)"
    and token: "case rq_pageToken q of None \<Rightarrow> True | Some t \<Rightarrow> token_fits (schema_kind schema) (rq_order q) t"
  shows "query_fits (schema_kind schema) options q rows"
proof -
  have "order_fits (schema_kind schema) (rq_order q) row" if "row \<in> set rows" for row
    using that typed rows sortable_named
    unfolding order_fits_def row_query_typed_def rows_typed_def list_all_iff by blast
  moreover have "where_typed schema (rq_where q)" using typed by (simp add: row_query_typed_def)
  ultimately show ?thesis
    using typed_row_fits [OF server rows] typed_row_fits [OF _ null rows] token
    by (simp add: query_fits_def list_all_iff)
qed

text \<open>
  C24. An accepted request pages completely: over any table keyed by its primary key, a client that
  follows the page tokens of a row query the parser accepted reaches the end and has seen every row
  the query wants exactly once, in the order it asked for, however the row limit and the 4 MB
  response budget cut the pages.
\<close>

theorem accepted_query_pages_completely:
  assumes "parseQuery json_parse token_json schema params = Inr (Rows q)"
    and "plain_schema schema" "keyed_by (qs_pkColumns schema) table"
  shows "walk (\<lambda>sent. page_seen (answer_page json_length options q table sent)) None
    = Some (map (stripOrderKeys \<circ> project_row q)
        (sort_key (row_rank (rq_order q) row_cell) (filter (query_wants options q) table)))"
  by (rule following_tokens [OF accepted_pageable [OF parseQuery_typed(1) [OF assms(1)] assms(2,3)]])

definition sample_schema :: query_table_schema where
  "sample_schema = \<lparr>qs_name = ''notes'',
     qs_columns = [\<lparr>col_name = ''id'', col_type = ColText, col_notNull = True, col_primaryKey = True\<rparr>,
       \<lparr>col_name = ''kind'', col_type = ColText, col_notNull = False, col_primaryKey = False\<rparr>],
     qs_pkColumns = [''id''], qs_requiredFilters = [], qs_projectionOnly = [], qs_orderOnly = [], qs_includable = []\<rparr>"

definition sample_params :: query_params where
  "sample_params = \<lparr>qp_where = Some ''x'', qp_select = None, qp_aggregate = None, qp_order = Some ''kind.desc'',
     qp_limit = Some ''1'', qp_page_token = None, qp_include = None\<rparr>"

definition sample_json :: "string \<Rightarrow> js_value option" where
  "sample_json raw = Some (JsObj [(''kind'', JsObj [(''like'', JsStr ''a%'')])])"

definition sample_query :: row_query where
  "sample_query = \<lparr>rq_table = ''notes'', rq_select = None, rq_where = [(''kind'', PLike ''a%'')],
     rq_order = [\<lparr>term_column = ''kind'', term_desc = True, term_nullsFirst = False\<rparr>,
       \<lparr>term_column = ''id'', term_desc = False, term_nullsFirst = False\<rparr>],
     rq_limit = 1, rq_pageToken = None, rq_include = []\<rparr>"

definition sample_rows :: "app_row list" where
  "sample_rows = [[(''id'', Some (QText ''1'')), (''kind'', Some (QText ''ab''))],
     [(''id'', Some (QText ''2'')), (''kind'', Some (QText ''ac''))]]"

definition sample_options :: build_options where
  "sample_options = \<lparr>serverWhere = [], excludeSoftDeleted = True, softDeleted = Exclude\<rparr>"

lemma sample_parsed: "parseQuery sample_json sample_json sample_schema sample_params = Inr (Rows sample_query)"
  by code_simp

lemma sample_keyed: "plain_schema sample_schema" "keyed_by (qs_pkColumns sample_schema) sample_rows"
  by (simp_all add: plain_schema_def keyed_by_def sample_schema_def sample_rows_def isOrderKeyAlias_def
      js_starts_with_def row_cell_def)

lemma accepted_query_pages_completely_witness:
  "walk (\<lambda>sent. page_seen (answer_page length sample_options sample_query sample_rows sent)) None
    = Some (map (stripOrderKeys \<circ> project_row sample_query)
        (sort_key (row_rank (rq_order sample_query) row_cell) (filter (query_wants sample_options sample_query) sample_rows)))"
  by (rule accepted_query_pages_completely [OF sample_parsed sample_keyed])



text \<open>
  The parser does accept a null inside an \<open>in\<close> list of a nullable column, and there the two differ: the
  in-memory adapter answers the rows that hold null, the engines never do.
\<close>

definition null_in_json :: "string \<Rightarrow> js_value option" where
  "null_in_json raw = Some (JsObj [(''kind'', JsObj [(''in'', JsArr [JsNull])])])"

definition null_in_query :: row_query where
  "null_in_query = sample_query\<lparr>rq_where := [(''kind'', PIn [None])]\<rparr>"

lemma null_in_divides_the_engines:
  "parseQuery null_in_json null_in_json sample_schema sample_params = Inr (Rows null_in_query)"
  "map_option page_rows (runInMemoryQuery length [[(''id'', Some (QText ''1'')), (''kind'', None)]] null_in_query [])
     = Some [[(''id'', Some (QText ''1'')), (''kind'', None)]]"
  "map_option page_rows (run_row_query length (sample_options\<lparr>excludeSoftDeleted := False\<rparr>) null_in_query
     [[(''id'', Some (QText ''1'')), (''kind'', None)]]) = Some []"
proof -
  show "parseQuery null_in_json null_in_json sample_schema sample_params = Inr (Rows null_in_query)"
    by code_simp
  show "map_option page_rows (runInMemoryQuery length [[(''id'', Some (QText ''1'')), (''kind'', None)]] null_in_query [])
     = Some [[(''id'', Some (QText ''1'')), (''kind'', None)]]"
    by (simp add: runInMemoryQuery_def null_in_query_def sample_query_def bound_keys_def matches_def row_cell_def holds_def
        memory_page_def js_sort_def project_row_def collectRowPage_def RESPONSE_BUDGET_BYTES_def
        stripOrderKeys_def isOrderKeyAlias_def orderKeyAlias_def js_starts_with_def decimal.simps decimal_digit_def)
  show "map_option page_rows (run_row_query length (sample_options\<lparr>excludeSoftDeleted := False\<rparr>) null_in_query
     [[(''id'', Some (QText ''1'')), (''kind'', None)]]) = Some []"
    using sql_in_holds [of None "[None]"]
    by (simp add: run_row_query_def buildAppRowQuery_def null_in_query_def sample_query_def bound_keys_def select_rows_def
        query_wants_def sql_where_def predicateExpression_def row_cell_def collectRowPage_def)
qed

end
