(* ===== verification/Record_Store.thy ===== *)
theory Record_Store
  imports Stand_Ins
begin

text \<open>
  The table of records on a node: its rows (\<open>packages/storage-sqlite/src/serialization.ts\<close>), the writes
  of the adapter (\<open>adapter.ts\<close>: \<open>put\<close>, \<open>get\<close>, \<open>delete\<close>, \<open>batch\<close>) and the two unique indexes of the
  schema (\<open>schema/bootstrap.ts\<close>).

  A table is the list of its rows; a write that breaks a unique index is refused and changes nothing.
  The lemmas show that a record reads back as it was written, that every write keeps both uniqueness
  rules, that a batch is all or nothing, and that the duplicate-file index is the id rule.
\<close>

section \<open>Rows\<close>

record sqlite_row =
  row_id :: string
  row_type :: string
  row_created_at :: string
  row_updated_at :: string
  row_node_id :: string
  row_deleted_at :: "string option"
  row_version :: nat
  row_content_hash :: string
  row_object_storage_key :: string
  row_mime_type :: "string option"
  row_size_bytes :: nat
  row_original_filename :: "string option"
  row_origin_app_id :: string
  row_parent_id :: "string option"
  row_stand_in_role :: "string option"
  row_fidelity :: "int option"
  row_canonical_threshold :: "int option"
  row_self_canonical :: "int option"
  row_stand_in_slot :: "string option"

definition role_text :: "stand_in_role \<Rightarrow> string" where
  "role_text r = (case r of Canonical \<Rightarrow> ''canonical'' | Smaller \<Rightarrow> ''smaller'')"

definition recordToRow :: "data_record \<Rightarrow> sqlite_row" where
  "recordToRow r =
     \<lparr>row_id = rec_id r, row_type = rec_type r,
      row_created_at = serializeHLC (createdAt r), row_updated_at = serializeHLC (updatedAt r),
      row_node_id = nodeId (updatedAt r),
      row_deleted_at = map_option serializeHLC (deletedAt r),
      row_version = rec_version r, row_content_hash = contentHash r,
      row_object_storage_key = objectStorageKey r, row_mime_type = mimeType r,
      row_size_bytes = rec_sizeBytes r, row_original_filename = originalFilename r,
      row_origin_app_id = originAppId r, row_parent_id = parentId r,
      row_stand_in_role = map_option role_text (standInRole r), row_fidelity = fidelity r,
      row_canonical_threshold = canonicalThreshold r,
      row_self_canonical = Some (if selfCanonical r then 1 else 0),
      row_stand_in_slot = standInSlot (facts_of_record r)\<rparr>"

text \<open>
  A timestamp column as the clock value it holds. \<open>deserializeHLC\<close> throws when there are not three
  parts; a part that reads as NaN or below zero is no clock value and is reported the same way.
\<close>

definition read_timestamp :: "string \<Rightarrow> js_error + hlc" where
  "read_timestamp s =
     (case deserializeHLC s of
        Inl e \<Rightarrow> Inl e
      | Inr (Some w, Some c, n) \<Rightarrow>
          if w \<ge> 0 \<and> c \<ge> 0 then Inr (HLC (nat w) (nat c) n)
          else Inl (JsError ''not a clock value'')
      | Inr _ \<Rightarrow> Inl (JsError ''not a clock value''))"

text \<open>A column that is null or empty is absent, as JavaScript's truth test reads it.\<close>

definition truthy_text :: "string option \<Rightarrow> string option" where
  "truthy_text c = (case c of Some [] \<Rightarrow> None | _ \<Rightarrow> c)"

definition rowToRecord :: "sqlite_row \<Rightarrow> js_error + data_record" where
  "rowToRecord row =
     (case read_timestamp (row_created_at row) of Inl e \<Rightarrow> Inl e | Inr created \<Rightarrow>
     (case read_timestamp (row_updated_at row) of Inl e \<Rightarrow> Inl e | Inr updated \<Rightarrow>
     (case (case truthy_text (row_deleted_at row) of
              None \<Rightarrow> Inr None | Some s \<Rightarrow> (case read_timestamp s of Inl e \<Rightarrow> Inl e | Inr t \<Rightarrow> Inr (Some t))) of
        Inl e \<Rightarrow> Inl e
      | Inr deleted \<Rightarrow>
          Inr \<lparr>rec_id = row_id row, rec_type = row_type row, createdAt = created, updatedAt = updated,
               deletedAt = deleted, rec_version = row_version row, contentHash = row_content_hash row,
               objectStorageKey = row_object_storage_key row, mimeType = row_mime_type row,
               rec_sizeBytes = row_size_bytes row, originalFilename = row_original_filename row,
               originAppId = row_origin_app_id row, parentId = truthy_text (row_parent_id row),
               standInRole = (case row_stand_in_role row of None \<Rightarrow> None | Some s \<Rightarrow> role_of_value (JsStr s)),
               fidelity = row_fidelity row, canonicalThreshold = row_canonical_threshold row,
               selfCanonical = (row_self_canonical row = Some 1)\<rparr>)))"

section \<open>The table and its writes\<close>

type_synonym record_table = "sqlite_row list"

datatype store_error = UniqueStandInSlot | UniqueFile | UnreadableRow js_error

text \<open>The key of \<open>uq_shared_records_stand_in_slot\<close>: null is distinct from null.\<close>

definition slot_key :: "sqlite_row \<Rightarrow> (string \<times> string) option" where
  "slot_key row = (case (row_parent_id row, row_stand_in_slot row) of (Some p, Some s) \<Rightarrow> Some (p, s) | _ \<Rightarrow> None)"

definition coalesce :: "string option \<Rightarrow> string" where
  "coalesce c = (case c of None \<Rightarrow> [] | Some s \<Rightarrow> s)"

text \<open>The key of \<open>uq_shared_records_parent_filename_hash\<close>, over live rows only.\<close>

definition file_key :: "sqlite_row \<Rightarrow> (string \<times> string \<times> string) option" where
  "file_key row =
     (if row_deleted_at row = None
      then Some (coalesce (row_parent_id row), coalesce (row_original_filename row), row_content_hash row)
      else None)"

definition collides :: "(sqlite_row \<Rightarrow> 'k option) \<Rightarrow> record_table \<Rightarrow> sqlite_row \<Rightarrow> bool" where
  "collides key table row \<longleftrightarrow>
     key row \<noteq> None \<and> list_ex (\<lambda>other. row_id other \<noteq> row_id row \<and> key other = key row) table"

text \<open>\<open>INSERT ... ON CONFLICT (id) DO UPDATE\<close> of every other column.\<close>

definition upsert :: "sqlite_row \<Rightarrow> record_table \<Rightarrow> record_table" where
  "upsert row table =
     (if list_ex (\<lambda>other. row_id other = row_id row) table
      then map (\<lambda>other. if row_id other = row_id row then row else other) table
      else table @ [row])"

definition put_record :: "data_record \<Rightarrow> record_table \<Rightarrow> store_error + record_table" where
  "put_record r table =
     (let row = recordToRow r
      in if collides slot_key table row then Inl UniqueStandInSlot
         else if collides file_key table row then Inl UniqueFile
         else Inr (upsert row table))"

definition get_record :: "string \<Rightarrow> record_table \<Rightarrow> store_error + data_record option" where
  "get_record rid table =
     (case find (\<lambda>row. row_id row = rid) table of
        None \<Rightarrow> Inr None
      | Some row \<Rightarrow> (case rowToRecord row of Inl e \<Rightarrow> Inl (UnreadableRow e) | Inr r \<Rightarrow> Inr (Some r)))"

definition tombstone :: "hlc \<Rightarrow> sqlite_row \<Rightarrow> sqlite_row" where
  "tombstone t row =
     row\<lparr>row_deleted_at := Some (serializeHLC t), row_updated_at := serializeHLC t,
         row_node_id := nodeId t, row_stand_in_slot := None\<rparr>"

definition delete_record :: "string \<Rightarrow> hlc \<Rightarrow> record_table \<Rightarrow> record_table" where
  "delete_record rid t table = map (\<lambda>row. if row_id row = rid then tombstone t row else row) table"

datatype batch_operation = BatchPut data_record | BatchDelete string hlc

definition run_operation :: "batch_operation \<Rightarrow> record_table \<Rightarrow> store_error + record_table" where
  "run_operation operation table =
     (case operation of
        BatchPut r \<Rightarrow> put_record r table
      | BatchDelete rid t \<Rightarrow> Inr (delete_record rid t table))"

text \<open>The operations of a batch in order, up to the first that throws.\<close>

fun run_operations :: "batch_operation list \<Rightarrow> record_table \<Rightarrow> store_error + record_table" where
  "run_operations [] table = Inr table"
| "run_operations (operation # operations) table =
     (case run_operation operation table of Inl e \<Rightarrow> Inl e | Inr table' \<Rightarrow> run_operations operations table')"

text \<open>The table after the batch, and the error it rethrows: a rollback brings the table back.\<close>

definition batch :: "batch_operation list \<Rightarrow> record_table \<Rightarrow> record_table \<times> store_error option" where
  "batch operations table =
     (case run_operations operations table of Inl e \<Rightarrow> (table, Some e) | Inr table' \<Rightarrow> (table', None))"

section \<open>Round trip\<close>

text \<open>Clock values fit their fields and name a node without a colon; a parent id is not empty.\<close>

definition storable :: "data_record \<Rightarrow> bool" where
  "storable r \<longleftrightarrow>
     list_all (\<lambda>t. CHR '':'' \<notin> set (nodeId t)) ([createdAt r, updatedAt r] @ (case deletedAt r of None \<Rightarrow> [] | Some t \<Rightarrow> [t]))
     \<and> parentId r \<noteq> Some []"

lemma read_serialized: "CHR '':'' \<notin> set (nodeId t) \<Longrightarrow> read_timestamp (serializeHLC t) = Inr t"
  by (simp add: read_timestamp_def deserialize_serialize read_of_def)

lemma serializeHLC_not_empty: "serializeHLC t \<noteq> []"
  by (simp add: serializeHLC_def)

lemma role_of_text: "role_of_value (JsStr (role_text r)) = Some r"
  by (cases r) (simp_all add: role_of_value_def role_text_def)

lemma rowToRecord_recordToRow:
  assumes "storable r"
  shows "rowToRecord (recordToRow r) = Inr r"
proof -
  have times: "read_timestamp (serializeHLC (createdAt r)) = Inr (createdAt r)"
      "read_timestamp (serializeHLC (updatedAt r)) = Inr (updatedAt r)"
    using assms by (simp_all add: storable_def read_serialized)
  have deleted: "(case truthy_text (map_option serializeHLC (deletedAt r)) of
        None \<Rightarrow> Inr None | Some s \<Rightarrow> (case read_timestamp s of Inl e \<Rightarrow> Inl e | Inr t \<Rightarrow> Inr (Some t))) = Inr (deletedAt r)"
  proof (cases "deletedAt r")
    case (Some t)
    then have "read_timestamp (serializeHLC t) = Inr t" using assms by (simp add: storable_def read_serialized)
    moreover have "truthy_text (Some (serializeHLC t)) = Some (serializeHLC t)"
      using serializeHLC_not_empty [of t] by (simp add: truthy_text_def split: list.splits)
    ultimately show ?thesis using Some by simp
  qed (simp add: truthy_text_def)
  have "truthy_text (parentId r) = parentId r"
    using assms by (auto simp: truthy_text_def storable_def split: option.splits list.splits)
  then show ?thesis
    unfolding rowToRecord_def
    by (simp add: recordToRow_def times deleted role_of_text split: option.splits)
qed

section \<open>Uniqueness\<close>

text \<open>The rows a table may hold: one per id, and no two that share a key of a unique index.\<close>

definition unique_on :: "(sqlite_row \<Rightarrow> 'k option) \<Rightarrow> record_table \<Rightarrow> bool" where
  "unique_on key table \<longleftrightarrow>
     (\<forall>a \<in> set table. \<forall>b \<in> set table. key a \<noteq> None \<longrightarrow> key a = key b \<longrightarrow> row_id a = row_id b)"

definition table_ok :: "record_table \<Rightarrow> bool" where
  "table_ok table \<longleftrightarrow> distinct (map row_id table) \<and> unique_on slot_key table \<and> unique_on file_key table"

lemma has_id: "list_ex (\<lambda>other. row_id other = rid) table \<longleftrightarrow> rid \<in> row_id ` set table"
  by (auto simp: list_ex_iff)

lemma set_upsert: "set (upsert row table) = insert row {other \<in> set table. row_id other \<noteq> row_id row}"
  by (auto simp: upsert_def list_ex_iff)

lemma ids_upsert:
  "map row_id (upsert row table)
    = (if row_id row \<in> row_id ` set table then map row_id table else map row_id table @ [row_id row])"
  by (auto simp: upsert_def has_id)

lemma distinct_upsert: "distinct (map row_id table) \<Longrightarrow> distinct (map row_id (upsert row table))"
  unfolding ids_upsert by auto

lemma unique_upsert:
  assumes "unique_on key table" "\<not> collides key table row"
  shows "unique_on key (upsert row table)"
  unfolding unique_on_def
proof (intro ballI impI)
  fix a b
  assume ab: "a \<in> set (upsert row table)" "b \<in> set (upsert row table)" "key a \<noteq> None" "key a = key b"
  have fresh: "key other \<noteq> key row" if "other \<in> set table" "row_id other \<noteq> row_id row" "key row \<noteq> None" for other
    using assms(2) that by (auto simp: collides_def list_ex_iff)
  consider "a = row" "b = row" | "a = row" "b \<in> set table" "row_id b \<noteq> row_id row"
    | "b = row" "a \<in> set table" "row_id a \<noteq> row_id row" | "a \<in> set table" "b \<in> set table"
    using ab(1,2) by (auto simp: set_upsert)
  then show "row_id a = row_id b"
    using fresh ab(3,4) assms(1) unfolding unique_on_def by cases (simp, metis, metis, blast)
qed

lemma table_ok_put: "put_record r table = Inr table' \<Longrightarrow> table_ok table \<Longrightarrow> table_ok table'"
  by (auto simp: put_record_def table_ok_def Let_def distinct_upsert unique_upsert split: if_splits)

lemma ids_delete: "map row_id (delete_record rid t table) = map row_id table"
  by (simp add: delete_record_def tombstone_def)

lemma tombstone_simps [simp]:
  "row_id (tombstone t row) = row_id row" "slot_key (tombstone t row) = None" "file_key (tombstone t row) = None"
  by (simp_all add: tombstone_def slot_key_def file_key_def split: option.splits)

lemma unique_delete:
  assumes "unique_on key table" "\<And>row. key (tombstone t row) = None"
  shows "unique_on key (delete_record rid t table)"
  unfolding unique_on_def
proof (intro ballI impI)
  fix a b
  assume ab: "a \<in> set (delete_record rid t table)" "b \<in> set (delete_record rid t table)" "key a \<noteq> None" "key a = key b"
  have kept: "row \<in> set table" if "row \<in> set (delete_record rid t table)" "key row \<noteq> None" for row
    using that assms(2) by (auto simp: delete_record_def split: if_splits)
  have "key b \<noteq> None" using ab(3,4) by metis
  then have "a \<in> set table" "b \<in> set table" using kept ab(1-3) by blast+
  then show "row_id a = row_id b" using ab(3,4) assms(1) unfolding unique_on_def by blast
qed

lemma table_ok_delete: "table_ok table \<Longrightarrow> table_ok (delete_record rid t table)"
  unfolding table_ok_def ids_delete by (simp add: unique_delete)

lemma table_ok_run: "run_operations operations table = Inr table' \<Longrightarrow> table_ok table \<Longrightarrow> table_ok table'"
proof (induction operations table rule: run_operations.induct)
  case (2 operation operations table)
  then obtain next_table where step: "run_operation operation table = Inr next_table"
      "run_operations operations next_table = Inr table'" by (auto split: sum.splits)
  then have "table_ok next_table"
    using 2(3) by (auto simp: run_operation_def table_ok_delete split: batch_operation.splits intro: table_ok_put)
  then show ?case using "2.IH" [OF step(1) step(2)] by simp
qed simp

lemma get_after_put:
  assumes "put_record r table = Inr table'" "distinct (map row_id table)" "storable r"
  shows "get_record rid table' = (if rid = rec_id r then Inr (Some r) else get_record rid table)"
proof -
  let ?row = "recordToRow r"
  have table': "table' = upsert ?row table" using assms(1) by (auto simp: put_record_def Let_def split: if_splits)
  have id: "row_id ?row = rec_id r" by (simp add: recordToRow_def)
  have "find (\<lambda>row. row_id row = rid) (upsert ?row table)
      = (if rid = rec_id r then Some ?row else find (\<lambda>row. row_id row = rid) table)"
  proof (cases "list_ex (\<lambda>other. row_id other = row_id ?row) table")
    case True
    have "find (\<lambda>row. row_id row = rid) (map (\<lambda>other. if row_id other = row_id ?row then ?row else other) xs)
        = (if rid = rec_id r \<and> rid \<in> row_id ` set xs then Some ?row else find (\<lambda>row. row_id row = rid) xs)" for xs
      by (induction xs) (auto simp: id)
    moreover have "rec_id r \<in> row_id ` set table" using True by (simp add: has_id id)
    ultimately show ?thesis using True by (auto simp: upsert_def)
  next
    case False
    have "find P (xs @ ys) = (case find P xs of Some x \<Rightarrow> Some x | None \<Rightarrow> find P ys)" for P and xs ys :: record_table
      by (induction xs) auto
    moreover have "find (\<lambda>row. row_id row = rec_id r) table = None"
      using False by (auto simp: list_ex_iff id find_None_iff)
    ultimately show ?thesis using False by (auto simp: upsert_def id split: option.splits)
  qed
  then show ?thesis using rowToRecord_recordToRow [OF assms(3)] by (auto simp: get_record_def table')
qed

section \<open>The duplicate-file index is the id rule\<close>

text \<open>Records whose id names their own content, live ones at least, and no empty parent.\<close>

definition content_addressed :: "(string \<Rightarrow> nat list) \<Rightarrow> sqlite_row \<Rightarrow> bool" where
  "content_addressed sha256 row \<longleftrightarrow>
     row_id row = contentAddressedId sha256 (row_parent_id row) (row_original_filename row) (row_content_hash row)
     \<and> row_parent_id row \<noteq> Some []"

definition live_content_addressed :: "(string \<Rightarrow> nat list) \<Rightarrow> record_table \<Rightarrow> bool" where
  "live_content_addressed sha256 table \<longleftrightarrow>
     (\<forall>row \<in> set table. row_deleted_at row = None \<longrightarrow> content_addressed sha256 row)"

lemma same_file_same_id:
  assumes "content_addressed sha256 a" "content_addressed sha256 b" "file_key a = file_key b" "file_key a \<noteq> None"
  shows "row_id a = row_id b"
proof -
  have "row_parent_id a = row_parent_id b"
    using assms by (auto simp: file_key_def content_addressed_def coalesce_def split: if_splits option.splits)
  moreover have "coalesce (row_original_filename a) = coalesce (row_original_filename b)"
      "row_content_hash a = row_content_hash b"
    using assms by (auto simp: file_key_def split: if_splits)
  ultimately have "contentAddressedId sha256 (row_parent_id a) (row_original_filename a) (row_content_hash a)
      = contentAddressedId sha256 (row_parent_id b) (row_original_filename b) (row_content_hash b)"
    by (simp add: contentAddressedId_def id_fields_def coalesce_def)
  then show ?thesis using assms(1,2) by (simp add: content_addressed_def)
qed

lemma content_addressed_never_collides:
  assumes "live_content_addressed sha256 table" "content_addressed sha256 row"
  shows "\<not> collides file_key table row"
proof
  assume "collides file_key table row"
  then obtain other where other: "other \<in> set table" "row_id other \<noteq> row_id row" "file_key other = file_key row" "file_key row \<noteq> None"
    by (auto simp: collides_def list_ex_iff)
  then have "content_addressed sha256 other"
    using assms(1) by (auto simp: live_content_addressed_def file_key_def split: if_splits)
  then show False using same_file_same_id [of sha256 other row] assms(2) other by simp
qed

section \<open>The table stores records\<close>

text \<open>What the writes mean for the list of records the table stores.\<close>

definition store_record :: "data_record \<Rightarrow> data_record list \<Rightarrow> data_record list" where
  "store_record r rs =
     (if rec_id r \<in> rec_id ` set rs then map (\<lambda>other. if rec_id other = rec_id r then r else other) rs else rs @ [r])"

definition entomb_record :: "string \<Rightarrow> hlc \<Rightarrow> data_record list \<Rightarrow> data_record list" where
  "entomb_record rid t rs = map (\<lambda>r. if rec_id r = rid then r\<lparr>deletedAt := Some t, updatedAt := t\<rparr> else r) rs"

definition store_operation :: "batch_operation \<Rightarrow> data_record list \<Rightarrow> data_record list" where
  "store_operation operation rs =
     (case operation of BatchPut r \<Rightarrow> store_record r rs | BatchDelete rid t \<Rightarrow> entomb_record rid t rs)"

text \<open>
  The two uniqueness rules on records: one live stand-in of an original per role and size, one live
  record per parent, filename and content.
\<close>

definition same_stand_in :: "data_record \<Rightarrow> data_record \<Rightarrow> bool" where
  "same_stand_in a b \<longleftrightarrow>
     deletedAt a = None \<and> deletedAt b = None \<and> parentId a \<noteq> None \<and> parentId a = parentId b
     \<and> standInRole a = standInRole b
     \<and> (standInRole a = Some Canonical \<or> standInRole a = Some Smaller \<and> fidelity a \<noteq> None \<and> fidelity a = fidelity b)"

definition same_file :: "data_record \<Rightarrow> data_record \<Rightarrow> bool" where
  "same_file a b \<longleftrightarrow>
     deletedAt a = None \<and> deletedAt b = None \<and> coalesce (parentId a) = coalesce (parentId b)
     \<and> coalesce (originalFilename a) = coalesce (originalFilename b) \<and> contentHash a = contentHash b"

definition records_unique :: "data_record list \<Rightarrow> bool" where
  "records_unique rs \<longleftrightarrow>
     distinct (map rec_id rs)
     \<and> (\<forall>a \<in> set rs. \<forall>b \<in> set rs. same_stand_in a b \<or> same_file a b \<longrightarrow> rec_id a = rec_id b)"

lemma recordToRow_id [simp]: "row_id (recordToRow r) = rec_id r"
  by (simp add: recordToRow_def)

lemma tombstone_recordToRow: "tombstone t (recordToRow r) = recordToRow (r\<lparr>deletedAt := Some t, updatedAt := t\<rparr>)"
  by (simp add: tombstone_def recordToRow_def standInSlot_def facts_of_record_def)

lemma run_operation_records:
  assumes "run_operation operation (map recordToRow rs) = Inr table"
  shows "table = map recordToRow (store_operation operation rs)"
proof (cases operation)
  case (BatchPut r)
  then have "table = upsert (recordToRow r) (map recordToRow rs)"
    using assms by (auto simp: run_operation_def put_record_def Let_def split: if_splits)
  then show ?thesis
    by (auto simp: BatchPut upsert_def has_id store_operation_def store_record_def image_iff)
next
  case (BatchDelete rid t)
  then have "table = delete_record rid t (map recordToRow rs)" using assms by (simp add: run_operation_def)
  then show ?thesis
    by (simp add: BatchDelete delete_record_def store_operation_def entomb_record_def tombstone_recordToRow)
qed

lemma run_operations_records:
  "run_operations operations (map recordToRow rs) = Inr table \<Longrightarrow> table = map recordToRow (fold store_operation operations rs)"
proof (induction operations arbitrary: rs)
  case (Cons operation operations)
  then obtain next_table where step: "run_operation operation (map recordToRow rs) = Inr next_table"
      "run_operations operations next_table = Inr table" by (auto split: sum.splits)
  then show ?case using run_operation_records [OF step(1)] Cons.IH by simp
qed simp

lemma slot_key_record:
  assumes "same_stand_in a b"
  shows "slot_key (recordToRow a) \<noteq> None \<and> slot_key (recordToRow a) = slot_key (recordToRow b)"
proof -
  have slot: "slot_key (recordToRow r) = (case parentId r of None \<Rightarrow> None | Some p \<Rightarrow> map_option (Pair p) (standInSlot (facts_of_record r)))" for r
    by (simp add: slot_key_def recordToRow_def split: option.split)
  obtain p where p: "parentId a = Some p" "parentId b = Some p" using assms by (auto simp: same_stand_in_def)
  have live: "deletedAt a = None" "deletedAt b = None" using assms by (simp_all add: same_stand_in_def)
  consider "standInRole a = Some Canonical" "standInRole b = Some Canonical"
    | f where "standInRole a = Some Smaller" "standInRole b = Some Smaller" "fidelity a = Some f" "fidelity b = Some f"
    using assms unfolding same_stand_in_def by (metis not_None_eq)
  then show ?thesis
    using p live by cases (simp_all add: slot standInSlot_def facts_of_record_def)
qed

lemma file_key_record:
  "same_file a b \<Longrightarrow> file_key (recordToRow a) \<noteq> None \<and> file_key (recordToRow a) = file_key (recordToRow b)"
  by (auto simp: same_file_def file_key_def recordToRow_def)

lemma table_ok_records_unique:
  assumes "table_ok (map recordToRow rs)"
  shows "records_unique rs"
proof -
  have "rec_id a = rec_id b" if "a \<in> set rs" "b \<in> set rs" "same_stand_in a b \<or> same_file a b" for a b
  proof -
    have "recordToRow a \<in> set (map recordToRow rs)" "recordToRow b \<in> set (map recordToRow rs)" using that by simp_all
    moreover have "slot_key (recordToRow a) \<noteq> None \<and> slot_key (recordToRow a) = slot_key (recordToRow b)
        \<or> file_key (recordToRow a) \<noteq> None \<and> file_key (recordToRow a) = file_key (recordToRow b)"
      using that(3) slot_key_record file_key_record by blast
    ultimately have "row_id (recordToRow a) = row_id (recordToRow b)"
      using assms unfolding table_ok_def unique_on_def by blast
    then show ?thesis by simp
  qed
  then show ?thesis using assms by (simp add: records_unique_def table_ok_def comp_def)
qed

section \<open>Claims\<close>

text \<open>
  C27. A record reads back as it was written: after a \<open>put\<close> that is accepted, \<open>get\<close> of its id answers
  exactly that record, every field through its column, and \<open>get\<close> of every other id answers as before.
\<close>

theorem record_reads_back_as_written:
  assumes "put_record r table = Inr table'" "distinct (map row_id table)" "storable r"
  shows "get_record rid table' = (if rid = rec_id r then Inr (Some r) else get_record rid table)"
  using assms by (rule get_after_put)

definition sample_record :: data_record where
  "sample_record = \<lparr>rec_id = ''r1'', rec_type = ''image/jpeg'', createdAt = HLC 5 0 ''n'', updatedAt = HLC 7 1 ''m'',
     deletedAt = None, rec_version = 1, contentHash = ''h'', objectStorageKey = ''k'', mimeType = None, rec_sizeBytes = 10,
     originalFilename = Some ''a.jpg'', originAppId = ''photos'', parentId = Some ''p'', standInRole = Some Smaller,
     fidelity = Some 256, canonicalThreshold = None, selfCanonical = False\<rparr>"

lemma sample_put: "put_record sample_record [] = Inr [recordToRow sample_record]"
  by (simp add: put_record_def collides_def upsert_def Let_def)

lemma record_reads_back_as_written_witness:
  "get_record ''r1'' [recordToRow sample_record] = Inr (Some sample_record)"
  using record_reads_back_as_written [OF sample_put, of "''r1''"] by (simp add: storable_def sample_record_def)

text \<open>
  C28. Whatever sequence of puts and deletes runs on an empty store, the table holds exactly the
  records an ideal store would hold, one per id, and among them never two live stand-ins of one
  original with the same role and size, nor two live records with the same parent, filename and
  content.
\<close>

theorem store_never_holds_two_of_one:
  assumes "run_operations operations [] = Inr table"
  shows "table = map recordToRow (fold store_operation operations []) \<and> records_unique (fold store_operation operations [])"
proof -
  have table: "table = map recordToRow (fold store_operation operations [])"
    using run_operations_records [of operations "[]"] assms by simp
  have "table_ok []" by (simp add: table_ok_def unique_on_def)
  then have "table_ok table" by (rule table_ok_run [OF assms])
  then show ?thesis using table table_ok_records_unique by simp
qed

lemma store_never_holds_two_of_one_witness:
  "records_unique (fold store_operation [BatchPut sample_record, BatchDelete ''r1'' (HLC 9 0 ''n'')] [])"
proof -
  have "run_operations [BatchPut sample_record, BatchDelete ''r1'' (HLC 9 0 ''n'')] []
      = Inr (delete_record ''r1'' (HLC 9 0 ''n'') [recordToRow sample_record])"
    by (simp add: run_operation_def sample_put)
  from store_never_holds_two_of_one [OF this] show ?thesis ..
qed

text \<open>
  C29. The duplicate-file index is the id rule: in a store whose live records name their own content,
  a record made by \<open>createDataRecord\<close> from the same hash function is never refused as a duplicate
  file. Only an occupied stand-in slot refuses it, and the store keeps naming its content.
\<close>

theorem created_record_is_never_a_duplicate_file:
  assumes "live_content_addressed sha256 table" "in_parentId inp \<noteq> Some []"
  shows "case put_record (fst (createDataRecord sha256 inp node physicalTime clock)) table of
      Inl e \<Rightarrow> e = UniqueStandInSlot
    | Inr table' \<Rightarrow> live_content_addressed sha256 table'"
proof -
  obtain r where r: "r = fst (createDataRecord sha256 inp node physicalTime clock)" by simp
  have row: "content_addressed sha256 (recordToRow r)"
    using assms(2) by (simp add: r content_addressed_def recordToRow_def createDataRecord_def case_prod_unfold Let_def)
  then have "live_content_addressed sha256 (upsert (recordToRow r) table)"
    using assms(1) by (auto simp: live_content_addressed_def set_upsert)
  then show ?thesis
    unfolding r [symmetric] using content_addressed_never_collides [OF assms(1) row] by (simp add: put_record_def Let_def)
qed

lemma created_record_is_never_a_duplicate_file_witness:
  "case put_record (fst (createDataRecord (\<lambda>_. []) \<lparr>in_type = ''a/b'', in_originAppId = ''x'', in_contentHash = ''h'',
      in_objectStorageKey = ''k'', in_mimeType = None, in_sizeBytes = 1, in_originalFilename = None, in_parentId = None,
      in_standInRole = None, in_fidelity = None, in_canonicalThreshold = None\<rparr> ''n'' 5 (createHLCClock None))) [] of
      Inl e \<Rightarrow> e = UniqueStandInSlot
    | Inr table' \<Rightarrow> live_content_addressed (\<lambda>_. []) table'"
  by (rule created_record_is_never_a_duplicate_file) (simp_all add: live_content_addressed_def)

end
