(* ===== verification/Record_Queries.thy ===== *)
theory Record_Queries
  imports Record_Store App_Query File_Rows
begin

text \<open>
  Queries over the table of records: the statement both backends run
  (\<open>packages/storage-adapter/src/database/record-queries.ts\<close>), the pagination cursor
  (\<open>query-cursor.ts\<close>) and the page the SQLite adapter cuts (\<open>packages/storage-sqlite/src/adapter.ts\<close>,
  \<open>query\<close>).

  A statement is modelled by the rows it answers, each with the ordering values it rides back with.
  The text of a cursor (base64url of JSON) is a pair of functions, an encoder and a decoder. A column
  the table does not have reads as null here; the engines refuse the statement.

  The lemmas show that following cursors visits every matching record exactly once, in order.
\<close>

section \<open>Queries\<close>

datatype filter_test =
    TEq cell | TNeq cell | TGt cell | TGte cell | TLt cell | TLte cell
  | TIn "cell list" | TLike string | TIsNull | TIsNotNull

type_synonym sort_field = "string \<times> bool"

record record_query =
  sel_type :: "string option"
  sel_filters :: "(string \<times> filter_test) list"
  sel_where :: "where_clause list"
  sel_sort :: "sort_field list"
  sel_limit :: "nat option"
  sel_cursor :: "string option"
  sel_excludeLabel :: "(string \<times> string) option"

text \<open>The other tables a statement reads: the labels, and capture times per record of two categories.\<close>

record record_env =
  env_labels :: "record_label list"
  env_image_captured :: "(string, cell) js_map"
  env_video_captured :: "(string, cell) js_map"

definition FIELD_MAP :: "(string \<times> string) list" where
  "FIELD_MAP =
     [(''id'', ''id''), (''type'', ''type''), (''createdAt'', ''created_at''), (''updatedAt'', ''updated_at''),
      (''deletedAt'', ''deleted_at''), (''version'', ''version''), (''contentHash'', ''content_hash''),
      (''objectStorageKey'', ''object_storage_key''), (''mimeType'', ''mime_type''), (''sizeBytes'', ''size_bytes''),
      (''originAppId'', ''origin_app_id''), (''parentId'', ''parent_id''), (''originalFilename'', ''original_filename''),
      (''standInRole'', ''stand_in_role''), (''fidelity'', ''fidelity''), (''canonicalThreshold'', ''canonical_threshold''),
      (''selfCanonical'', ''self_canonical'')]"

definition mapField :: "string \<Rightarrow> string" where
  "mapField field = (case map_of FIELD_MAP field of Some c \<Rightarrow> c | None \<Rightarrow> field)"

definition int_cell :: "int option \<Rightarrow> cell" where "int_cell c = map_option (\<lambda>n. QNum (rat_of_int n)) c"

definition row_column :: "sqlite_row \<Rightarrow> string \<Rightarrow> cell" where
  "row_column row name =
     (case map_of
        [(''id'', Some (QText (row_id row))), (''type'', Some (QText (row_type row))),
         (''created_at'', Some (QText (row_created_at row))), (''updated_at'', Some (QText (row_updated_at row))),
         (''node_id'', Some (QText (row_node_id row))), (''deleted_at'', map_option QText (row_deleted_at row)),
         (''version'', Some (QNum (of_nat (row_version row)))), (''content_hash'', Some (QText (row_content_hash row))),
         (''object_storage_key'', Some (QText (row_object_storage_key row))), (''mime_type'', map_option QText (row_mime_type row)),
         (''size_bytes'', Some (QNum (of_nat (row_size_bytes row)))),
         (''original_filename'', map_option QText (row_original_filename row)),
         (''origin_app_id'', Some (QText (row_origin_app_id row))), (''parent_id'', map_option QText (row_parent_id row)),
         (''stand_in_role'', map_option QText (row_stand_in_role row)), (''fidelity'', int_cell (row_fidelity row)),
         (''canonical_threshold'', int_cell (row_canonical_threshold row)), (''self_canonical'', int_cell (row_self_canonical row)),
         (''stand_in_slot'', map_option QText (row_stand_in_slot row))] name of
        Some c \<Rightarrow> c
      | None \<Rightarrow> None)"

section \<open>Ordering\<close>

definition orderSignature :: "sort_field list \<Rightarrow> string" where
  "orderSignature keys = js_join (CHR '','') (map (\<lambda>(field, desc). field @ '':'' @ (if desc then ''desc'' else ''asc'')) keys)"

record record_ordering =
  ord_keys :: "sort_field list"
  ord_idDesc :: bool
  ord_signature :: string
  ord_bareId :: bool

definition orderingFor :: "record_query \<Rightarrow> record_ordering" where
  "orderingFor query =
     (let sort = sel_sort query;
          bare = \<lparr>ord_keys = [], ord_idDesc = False, ord_signature = ''id:asc'', ord_bareId = True\<rparr>
      in if sort = [] then bare
         else let trailing = (if fst (last sort) = ''id'' then Some (snd (last sort)) else None);
                  keys = (if trailing = None then sort else butlast sort)
              in if keys = [] then
                   (if trailing = Some True
                    then \<lparr>ord_keys = [], ord_idDesc = True, ord_signature = ''id:desc'', ord_bareId = False\<rparr> else bare)
                 else let idDesc = (case trailing of Some d \<Rightarrow> d | None \<Rightarrow> snd (last keys))
                      in \<lparr>ord_keys = keys, ord_idDesc = idDesc,
                          ord_signature = orderSignature (keys @ [(''id'', idDesc)]), ord_bareId = False\<rparr>)"

text \<open>The expression an ordering key compiles to; capture times come from the two joins.\<close>

definition captured_at :: "record_env \<Rightarrow> sqlite_row \<Rightarrow> cell" where
  "captured_at env row =
     (case map_of (env_image_captured env) (row_id row) of
        Some (Some v) \<Rightarrow> Some v
      | _ \<Rightarrow> (case map_of (env_video_captured env) (row_id row) of Some c \<Rightarrow> c | None \<Rightarrow> None))"

definition orderExpression :: "record_env \<Rightarrow> sqlite_row \<Rightarrow> string \<Rightarrow> cell" where
  "orderExpression env row field =
     (if field = ''capturedAt'' then captured_at env row else row_column row (mapField field))"

text \<open>Nulls last on every key, and the id last of all.\<close>

definition order_terms :: "record_ordering \<Rightarrow> order_term list" where
  "order_terms rord =
     map (\<lambda>(field, desc). \<lparr>term_column = field, term_desc = desc, term_nullsFirst = False\<rparr>)
       (ord_keys rord @ [(''id'', ord_idDesc rord)])"

section \<open>Cursors\<close>

record query_cursor =
  cur_order :: string
  cur_keys :: "cell list"
  cur_id :: string

text \<open>\<open>JSON.stringify\<close> of a cursor, as the value it writes.\<close>

definition cursor_payload :: "query_cursor \<Rightarrow> js_value" where
  "cursor_payload c =
     JsArr [JsStr (cur_order c),
            JsArr (map (\<lambda>v. JsArr [js_int (if v = None then 1 else 0), js_of_cell v]) (cur_keys c)),
            JsStr (cur_id c)]"

definition decode_cursor_key :: "js_value \<Rightarrow> cell option" where
  "decode_cursor_key entry =
     (case entry of
        JsArr [flag, v] \<Rightarrow>
          (case bind_value v of
             None \<Rightarrow> None
           | Some c \<Rightarrow>
               if flag \<noteq> js_int 0 \<and> flag \<noteq> js_int 1 then None
               else if (flag = js_int 1) \<noteq> (c = None) then None
               else Some c)
      | _ \<Rightarrow> None)"

definition decodeQueryCursor :: "js_value option \<Rightarrow> string \<Rightarrow> query_cursor option" where
  "decodeQueryCursor parsed order =
     (case parsed of
        Some (JsArr [JsStr encodedOrder, JsArr keys, JsStr rid]) \<Rightarrow>
          if encodedOrder \<noteq> order then None
          else if rid = [] then None
          else map_option (\<lambda>decoded. \<lparr>cur_order = order, cur_keys = decoded, cur_id = rid\<rparr>) (those (map decode_cursor_key keys))
      | _ \<Rightarrow> None)"

text \<open>A cursor's text: what writes it, and what reads it back (\<open>None\<close> when it is not one).\<close>

type_synonym cursor_codec = "(js_value \<Rightarrow> string) \<times> (string \<Rightarrow> js_value option)"

definition encodeQueryCursor :: "cursor_codec \<Rightarrow> query_cursor \<Rightarrow> string" where
  "encodeQueryCursor codec c = fst codec (cursor_payload c)"

section \<open>The statement\<close>

definition truthy :: "string option \<Rightarrow> bool" where "truthy s = (case s of None \<Rightarrow> False | Some t \<Rightarrow> t \<noteq> [])"

definition filter_holds :: "cell \<Rightarrow> filter_test \<Rightarrow> sql_bool" where
  "filter_holds c test =
     (case test of
        TEq v \<Rightarrow> sql_cmp (=) c v
      | TNeq v \<Rightarrow> sql_cmp (\<noteq>) c v
      | TGt v \<Rightarrow> sql_cmp (>) c v
      | TGte v \<Rightarrow> sql_cmp (\<ge>) c v
      | TLt v \<Rightarrow> sql_cmp (<) c v
      | TLte v \<Rightarrow> sql_cmp (\<le>) c v
      | TIn vs \<Rightarrow> sql_disj (map (sql_cmp (=) c) vs)
      | TLike s \<Rightarrow> sql_text (sql_like None (''%'' @ s @ ''%'')) c
      | TIsNull \<Rightarrow> sql_is_null c
      | TIsNotNull \<Rightarrow> sql_is_not_null c)"

text \<open>\<open>NOT EXISTS\<close> a live label of the key on the record.\<close>

definition excluded_by_label :: "record_env \<Rightarrow> string \<times> string \<Rightarrow> sqlite_row \<Rightarrow> bool" where
  "excluded_by_label env = (\<lambda>(appId, key) row.
     list_ex (\<lambda>l. label_recordId l = row_id row \<and> label_appId l = appId \<and> label_key l = key \<and> label_deletedAt l = None)
       (env_labels env))"

definition applyFilters :: "record_env \<Rightarrow> record_query \<Rightarrow> sqlite_row \<Rightarrow> bool" where
  "applyFilters env query row \<longleftrightarrow>
     (truthy (sel_type query) \<longrightarrow> sql_holds (sql_cmp (=) (row_column row ''type'') (map_option QText (sel_type query))))
     \<and> list_all (\<lambda>(field, test). sql_holds (filter_holds (row_column row (mapField field)) test)) (sel_filters query)
     \<and> list_all (\<lambda>(name, p). sql_holds (predicateExpression (row_column row (mapField name)) p)) (sel_where query)
     \<and> (case sel_excludeLabel query of None \<Rightarrow> True | Some label \<Rightarrow> \<not> excluded_by_label env label row)"

text \<open>Strictly after the row a cursor names: the chain of the keys, then the id.\<close>

definition applyCursor :: "record_env \<Rightarrow> record_ordering \<Rightarrow> query_cursor \<Rightarrow> sqlite_row \<Rightarrow> sql_bool" where
  "applyCursor env rord cursor row =
     (let terms = order_terms rord; n = length (ord_keys rord);
          cell = (\<lambda>i. orderExpression env row (fst (ord_keys rord ! i)));
          equal = (\<lambda>i. key_equal (cell_key (cur_keys cursor ! i)) (cell i));
          after = (\<lambda>i. key_after (terms ! i) (cell_key (cur_keys cursor ! i)) (cell i));
          by_id = sql_cmp (if ord_idDesc rord then (<) else (>)) (row_column row ''id'') (Some (QText (cur_id cursor)))
      in sql_disj (map (\<lambda>i. sql_conj (map equal [0..<i] @ [after i])) [0..<n] @ [sql_conj (map equal [0..<n] @ [by_id])]))"

definition continues :: "cursor_codec \<Rightarrow> record_env \<Rightarrow> record_query \<Rightarrow> sqlite_row \<Rightarrow> bool" where
  "continues codec env query row =
     (let rord = orderingFor query
      in if \<not> truthy (sel_cursor query) then True
         else if ord_bareId rord
         then sql_holds (sql_cmp (>) (row_column row ''id'') (map_option QText (sel_cursor query)))
         else case decodeQueryCursor (snd codec (the (sel_cursor query))) (ord_signature rord) of
           Some cursor \<Rightarrow>
             if length (cur_keys cursor) = length (ord_keys rord)
             then sql_holds (applyCursor env rord cursor row) else True
         | None \<Rightarrow> True)"

text \<open>The rows of the statement, ordered, with the values they were ordered on.\<close>

definition order_cells :: "record_env \<Rightarrow> record_ordering \<Rightarrow> sqlite_row \<Rightarrow> cell list" where
  "order_cells env rord row = map (\<lambda>(field, desc). orderExpression env row field) (ord_keys rord)"

definition buildRecordSelect :: "cursor_codec \<Rightarrow> record_env \<Rightarrow> record_query \<Rightarrow> record_table \<Rightarrow> (sqlite_row \<times> cell list) list" where
  "buildRecordSelect codec env query table =
     (let rord = orderingFor query;
          rows = sort_key (row_rank (order_terms rord) (orderExpression env))
            (filter (\<lambda>row. applyFilters env query row \<and> continues codec env query row) table);
          limited = (case sel_limit query of None \<Rightarrow> rows | Some n \<Rightarrow> if n = 0 then rows else take (n + 1) rows)
      in map (\<lambda>row. (row, order_cells env rord row)) limited)"

definition nextCursorFrom :: "cursor_codec \<Rightarrow> record_query \<Rightarrow> sqlite_row \<times> cell list \<Rightarrow> string" where
  "nextCursorFrom codec query last_row =
     (let rord = orderingFor query
      in if ord_bareId rord then row_id (fst last_row)
         else encodeQueryCursor codec
           \<lparr>cur_order = ord_signature rord, cur_keys = snd last_row, cur_id = row_id (fst last_row)\<rparr>)"

record record_page =
  pg_records :: "data_record list"
  pg_nextCursor :: "string option"
  pg_hasMore :: bool

fun read_rows :: "sqlite_row list \<Rightarrow> store_error + data_record list" where
  "read_rows [] = Inr []"
| "read_rows (row # rows) =
     (case rowToRecord row of
        Inl e \<Rightarrow> Inl (UnreadableRow e)
      | Inr r \<Rightarrow> (case read_rows rows of Inl e \<Rightarrow> Inl e | Inr rs \<Rightarrow> Inr (r # rs)))"

definition query_records :: "cursor_codec \<Rightarrow> record_env \<Rightarrow> record_query \<Rightarrow> record_table \<Rightarrow> store_error + record_page" where
  "query_records codec env query table =
     (let rows = buildRecordSelect codec env query table;
          hasMore = (case sel_limit query of None \<Rightarrow> False | Some n \<Rightarrow> n \<noteq> 0 \<and> length rows > n);
          resultRows = (if hasMore then take (the (sel_limit query)) rows else rows)
      in case read_rows (map fst resultRows) of
           Inl e \<Rightarrow> Inl e
         | Inr records \<Rightarrow>
             Inr \<lparr>pg_records = records,
                  pg_nextCursor = (if hasMore then Some (nextCursorFrom codec query (last resultRows)) else None),
                  pg_hasMore = hasMore\<rparr>)"

text \<open>\<open>buildRecordCount\<close> and \<open>buildRecordTypeCounts\<close>, whose groups come in no promised order.\<close>

definition buildRecordCount :: "record_env \<Rightarrow> record_query \<Rightarrow> record_table \<Rightarrow> nat" where
  "buildRecordCount env query table = length (filter (applyFilters env query) table)"

definition buildRecordTypeCounts :: "record_env \<Rightarrow> record_query \<Rightarrow> record_table \<Rightarrow> (string \<times> nat \<times> string) list" where
  "buildRecordTypeCounts env query table =
     map (\<lambda>(t, rows). (t, length rows, Max (row_updated_at ` set rows)))
       (js_group row_type (filter (applyFilters env query) table))"

section \<open>The cursor names a place in the order\<close>

lemma row_column_id [simp]: "row_column row ''id'' = Some (QText (row_id row))"
  by (simp add: row_column_def)

lemma order_id [simp]: "orderExpression env row ''id'' = Some (QText (row_id row))"
  by (simp add: orderExpression_def mapField_def FIELD_MAP_def)

lemma order_terms_simps [simp]:
  "length (order_terms rord) = Suc (length (ord_keys rord))"
  "i < length (ord_keys rord) \<Longrightarrow> term_column (order_terms rord ! i) = fst (ord_keys rord ! i)"
  "order_terms rord ! length (ord_keys rord) = \<lparr>term_column = ''id'', term_desc = ord_idDesc rord, term_nullsFirst = False\<rparr>"
  by (simp_all add: order_terms_def nth_append case_prod_unfold)

definition cursor_cells :: "query_cursor \<Rightarrow> cell list" where
  "cursor_cells cursor = cur_keys cursor @ [Some (QText (cur_id cursor))]"

lemma key_after_id: "key_after \<lparr>term_column = ''id'', term_desc = d, term_nullsFirst = False\<rparr> (cell_key (Some v)) (Some x)
    = sql_cmp (if d then (<) else (>)) (Some x) (Some v)"
  by (simp add: key_after_def cell_key_def sql_is_null_def sql_cmp_def)

lemma applyCursor_keyset:
  assumes "length (cur_keys cursor) = length (ord_keys rord)"
  shows "applyCursor env rord cursor row
    = keyset_after (order_terms rord) (map cell_key (cursor_cells cursor)) (orderExpression env) row"
proof -
  let ?n = "length (ord_keys rord)" and ?keys = "map cell_key (cursor_cells cursor)"
  have keys: "?keys ! i = cell_key (cur_keys cursor ! i)" if "i < ?n" for i
    using that assms by (simp add: cursor_cells_def nth_append)
  have last: "?keys ! ?n = cell_key (Some (QText (cur_id cursor)))"
    using assms by (simp add: cursor_cells_def nth_append)
  have equals: "map (\<lambda>j. key_equal (?keys ! j) (orderExpression env row (term_column (order_terms rord ! j)))) [0..<i]
      = map (\<lambda>j. key_equal (cell_key (cur_keys cursor ! j)) (orderExpression env row (fst (ord_keys rord ! j)))) [0..<i]"
    if "i \<le> ?n" for i
    using that keys by (intro map_cong [OF refl]) simp
  have split: "[0..<Suc ?n] = [0..<?n] @ [?n]" by simp
  show ?thesis
    unfolding keyset_after_def applyCursor_def Let_def order_terms_simps(1) split map_append list.map last
      order_terms_simps(3)
    using keys equals
    by (intro arg_cong [of _ _ sql_disj] arg_cong2 [of _ _ _ _ "(@)"] map_cong [OF refl])
      (simp_all add: key_after_id equals)
qed

definition cursor_of :: "record_ordering \<Rightarrow> record_env \<Rightarrow> sqlite_row \<Rightarrow> query_cursor" where
  "cursor_of rord env row = \<lparr>cur_order = ord_signature rord, cur_keys = order_cells env rord row, cur_id = row_id row\<rparr>"

lemma decode_encoded_cursor:
  assumes "cur_order c = order" "cur_id c \<noteq> []"
  shows "decodeQueryCursor (Some (cursor_payload c)) order = Some c"
proof -
  have "those (map decode_cursor_key (map (\<lambda>v. JsArr [js_int (if v = None then 1 else 0), js_of_cell v]) (cur_keys c)))
      = Some (cur_keys c)"
    using those_map_Some [of "cur_keys c" "decode_cursor_key \<circ> (\<lambda>v. JsArr [js_int (if v = None then 1 else 0), js_of_cell v])" id]
    by (simp add: decode_cursor_key_def bind_value_js comp_def)
  then show ?thesis using assms by (simp add: decodeQueryCursor_def cursor_payload_def)
qed

lemma cursor_cells_of: "cursor_cells (cursor_of rord env row) = row_keys (order_terms rord) (orderExpression env) row"
  by (simp add: cursor_cells_def cursor_of_def order_cells_def row_keys_def order_terms_def case_prod_unfold)

lemma keyset_after_row:
  "sql_holds (keyset_after order (map cell_key (row_keys order col r)) col x) \<longleftrightarrow> row_rank order col r < row_rank order col x"
proof -
  have "length (row_keys order col r) = length order" by (simp add: row_keys_def)
  from keyset_after_rank [OF this, of col x] show ?thesis by (simp add: token_rank_row_keys)
qed

text \<open>A codec reads back what it wrote for this row, and writes something.\<close>

definition codec_ok :: "cursor_codec \<Rightarrow> record_env \<Rightarrow> record_query \<Rightarrow> sqlite_row \<Rightarrow> bool" where
  "codec_ok codec env query row \<longleftrightarrow>
     (let payload = cursor_payload (cursor_of (orderingFor query) env row)
      in fst codec payload \<noteq> [] \<and> snd codec (fst codec payload) = Some payload)"

lemma orderingFor_cursor [simp]: "orderingFor (query\<lparr>sel_cursor := p\<rparr>) = orderingFor query"
  by (simp add: orderingFor_def)

lemma bare_keys: "ord_bareId (orderingFor query) \<Longrightarrow> ord_keys (orderingFor query) = [] \<and> \<not> ord_idDesc (orderingFor query)"
  by (auto simp: orderingFor_def Let_def split: if_splits)

lemma continues_after:
  assumes "codec_ok codec env query row" "row_id row \<noteq> []"
  shows "continues codec env (query\<lparr>sel_cursor := Some (nextCursorFrom codec query (row, order_cells env (orderingFor query) row))\<rparr>) x
    \<longleftrightarrow> row_rank (order_terms (orderingFor query)) (orderExpression env) row
        < row_rank (order_terms (orderingFor query)) (orderExpression env) x"
proof -
  let ?o = "orderingFor query"
  show ?thesis
  proof (cases "ord_bareId ?o")
    case True
    then have "row_rank (order_terms ?o) (orderExpression env) r = [Up (QText (row_id r))]" for r
      using bare_keys [OF True] by (simp add: order_terms_def row_rank_def sort_rank_def)
    then show ?thesis
      using True assms(2) by (simp add: continues_def Let_def truthy_def nextCursorFrom_def sql_cmp_def)
  next
    case False
    let ?c = "cursor_of ?o env row"
    have next_is: "nextCursorFrom codec query (row, order_cells env ?o row) = fst codec (cursor_payload ?c)"
      using False by (simp add: nextCursorFrom_def encodeQueryCursor_def cursor_of_def Let_def)
    have read: "snd codec (fst codec (cursor_payload ?c)) = Some (cursor_payload ?c)" "fst codec (cursor_payload ?c) \<noteq> []"
      using assms(1) by (simp_all add: codec_ok_def Let_def)
    have decoded: "decodeQueryCursor (Some (cursor_payload ?c)) (ord_signature ?o) = Some ?c"
      using assms(2) by (intro decode_encoded_cursor) (simp_all add: cursor_of_def)
    have len: "length (cur_keys ?c) = length (ord_keys ?o)" by (simp add: cursor_of_def order_cells_def)
    show ?thesis
      using False read decoded len
      by (simp add: continues_def Let_def truthy_def next_is applyCursor_keyset [OF len] cursor_cells_of keyset_after_row)
  qed
qed

section \<open>Paging a query\<close>

type_synonym record_request = "cursor_codec \<times> record_env \<times> record_query"

text \<open>
  The loop of a caller that reads every page: what one page contributes and the cursor it goes on
  with, an empty cursor being none. \<open>None\<close> is a loop that never ends.
\<close>

definition answer_rows :: "store_error + record_page \<Rightarrow> (store_error + data_record) list \<times> string option" where
  "answer_rows answer =
     (case answer of
        Inl e \<Rightarrow> ([Inl e], None)
      | Inr page \<Rightarrow> (map Inr (pg_records page),
          if pg_hasMore page \<and> truthy (pg_nextCursor page) then pg_nextCursor page else None))"

definition read_all :: "cursor_codec \<Rightarrow> record_env \<Rightarrow> record_query \<Rightarrow> record_table \<Rightarrow> (store_error + data_record list) option" where
  "read_all codec env query table =
     map_option all_results
       (walk (\<lambda>sent. answer_rows (query_records codec env (query\<lparr>sel_cursor := sent\<rparr>) table)) None)"

definition record_rank :: "record_request \<Rightarrow> data_record \<Rightarrow> sort_key list" where
  "record_rank = (\<lambda>(codec, env, query) r. row_rank (order_terms (orderingFor query)) (orderExpression env) (recordToRow r))"

definition record_wanted :: "record_request \<Rightarrow> data_record \<Rightarrow> bool" where
  "record_wanted = (\<lambda>(codec, env, query) r. applyFilters env query (recordToRow r))"

definition record_position :: "record_request \<Rightarrow> data_record \<Rightarrow> string" where
  "record_position = (\<lambda>(codec, env, query) r.
     nextCursorFrom codec query (recordToRow r, order_cells env (orderingFor query) (recordToRow r)))"

definition record_fetch ::
  "record_request \<Rightarrow> data_record list \<Rightarrow> string option \<Rightarrow> (store_error + data_record) list \<times> string option" where
  "record_fetch = (\<lambda>(codec, env, query) rs sent.
     answer_rows (query_records codec env (query\<lparr>sel_cursor := sent\<rparr>) (map recordToRow rs)))"

text \<open>Records with ids of their own that read back, and a codec that reads the cursors it writes.\<close>

definition record_pageable :: "record_request \<Rightarrow> data_record list \<Rightarrow> bool" where
  "record_pageable = (\<lambda>(codec, env, query) rs.
     distinct (map rec_id rs)
     \<and> list_all (\<lambda>r. storable r \<and> rec_id r \<noteq> [] \<and> codec_ok codec env query (recordToRow r)) rs)"

lemma insort_key_map: "insort_key f (g x) (map g xs) = map g (insort_key (\<lambda>y. f (g y)) x xs)"
  by (induction xs) auto

lemma sort_key_map: "sort_key f (map g xs) = map g (sort_key (\<lambda>y. f (g y)) xs)"
  by (induction xs) (simp_all add: insort_key_map)

lemma read_rows_records: "list_all storable rs \<Longrightarrow> read_rows (map recordToRow rs) = Inr rs"
  by (induction rs) (simp_all add: rowToRecord_recordToRow)

lemma applyFilters_cursor [simp]: "applyFilters env (query\<lparr>sel_cursor := p\<rparr>) = applyFilters env query"
  by (simp add: applyFilters_def fun_eq_iff)

lemma nextCursorFrom_cursor [simp]: "nextCursorFrom codec (query\<lparr>sel_cursor := p\<rparr>) = nextCursorFrom codec query"
  by (simp add: nextCursorFrom_def fun_eq_iff)

lemma selected_records:
  "sort_key (row_rank order col) (filter P (map recordToRow rs))
    = map recordToRow (sort_key (\<lambda>r. row_rank order col (recordToRow r)) (filter (\<lambda>r. P (recordToRow r)) rs))"
  by (simp add: filter_map sort_key_map comp_def)

text \<open>The records a statement answers: the matching ones in order, one more than the page.\<close>

definition todo_records :: "record_request \<Rightarrow> string option \<Rightarrow> data_record list \<Rightarrow> data_record list" where
  "todo_records = (\<lambda>(codec, env, query) sent rs.
     sort_key (record_rank (codec, env, query))
       (filter (\<lambda>r. applyFilters env query (recordToRow r) \<and> continues codec env (query\<lparr>sel_cursor := sent\<rparr>) (recordToRow r)) rs))"

lemma select_records:
  "buildRecordSelect codec env (query\<lparr>sel_cursor := sent\<rparr>) (map recordToRow rs)
    = map (\<lambda>r. (recordToRow r, order_cells env (orderingFor query) (recordToRow r)))
        (let todo = todo_records (codec, env, query) sent rs
         in case sel_limit query of None \<Rightarrow> todo | Some n \<Rightarrow> if n = 0 then todo else take (n + 1) todo)"
proof -
  have rank: "record_rank (codec, env, query) = (\<lambda>r. row_rank (order_terms (orderingFor query)) (orderExpression env) (recordToRow r))"
    by (simp add: record_rank_def)
  show ?thesis
    unfolding buildRecordSelect_def Let_def orderingFor_cursor selected_records applyFilters_cursor
    by (auto simp: todo_records_def rank comp_def take_map split: option.split)
qed

text \<open>The answer to a request, over the records still to come.\<close>

lemma position_not_Nil:
  assumes "codec_ok codec env query (recordToRow r)" "rec_id r \<noteq> []"
  shows "record_position (codec, env, query) r \<noteq> []"
  using assms by (auto simp: record_position_def nextCursorFrom_def Let_def encodeQueryCursor_def codec_ok_def cursor_of_def)

lemma record_page_front:
  assumes readable: "list_all storable rs"
    and cursors: "list_all (\<lambda>r. record_position (codec, env, query) r \<noteq> []) rs"
    and todo: "todo = todo_records (codec, env, query) sent rs"
  shows "page_of Inr (record_position (codec, env, query)) todo (record_fetch (codec, env, query) rs sent)"
proof -
  let ?q = "query\<lparr>sel_cursor := sent\<rparr>"
  let ?row = "\<lambda>r. (recordToRow r, order_cells env (orderingFor query) (recordToRow r))"
  note todo_def = todo [unfolded todo_records_def prod.case]
  have named: "record_position (codec, env, query) r \<noteq> []" if "r \<in> set todo" for r
    using cursors that by (simp add: todo_def list_all_iff)
  have ok: "list_all storable todo" using readable by (simp add: todo_def list_all_iff)
  define limited where "limited = (case sel_limit query of None \<Rightarrow> todo | Some n \<Rightarrow> if n = 0 then todo else take (n + 1) todo)"
  have select: "buildRecordSelect codec env ?q (map recordToRow rs) = map ?row limited"
    unfolding select_records limited_def todo Let_def by simp
  show ?thesis
  proof (cases "\<exists>n. sel_limit query = Some n \<and> n \<noteq> 0 \<and> n < length todo")
    case False
    then have whole: "limited = todo" by (auto simp: limited_def split: option.split)
    have more: "(case sel_limit ?q of None \<Rightarrow> False | Some n \<Rightarrow> n \<noteq> 0 \<and> length todo > n) = False"
      using False by (auto split: option.split)
    have "record_fetch (codec, env, query) rs sent = (map Inr todo, None)"
      unfolding record_fetch_def query_records_def Let_def prod.case select whole length_map more
      using read_rows_records [OF ok] by (simp add: answer_rows_def comp_def)
    then show ?thesis by (simp add: page_of_def)
  next
    case True
    then obtain n where n: "sel_limit query = Some n" "n \<noteq> 0" "n < length todo" by blast
    have front: "list_all storable (take n todo)" using ok by (auto simp: list_all_iff dest: in_set_takeD)
    have lim: "take n limited = take n todo" "n < length limited" using n by (simp_all add: limited_def min_def)
    have nonempty: "take n todo \<noteq> []" using n by auto
    have "last (take n todo) \<in> set todo" using last_in_set [OF nonempty] by (rule in_set_takeD)
    from named [OF this] have again: "truthy (Some (nextCursorFrom codec query (?row (last (take n todo)))))"
      by (simp add: truthy_def record_position_def)
    have "record_fetch (codec, env, query) rs sent = (map Inr (take n todo), Some (record_position (codec, env, query) (last (take n todo))))"
      unfolding record_fetch_def query_records_def Let_def prod.case select length_map
      using read_rows_records [OF front] lim n nonempty again
      by (simp add: answer_rows_def comp_def take_map record_position_def last_map)
    then show ?thesis
      unfolding page_of_def using nonempty by (intro exI [of _ "take n todo"] exI [of _ "drop n todo"]) simp
  qed
qed

interpretation record_pages: keyset_pages record_rank "\<lambda>_. Inr" record_wanted record_pageable record_fetch record_position
proof
  fix request :: record_request and rs :: "data_record list"
  assume ok: "record_pageable request rs"
  obtain codec env query where request: "request = (codec, env, query)" by (cases request)
  have readable: "list_all storable rs" using ok by (simp add: record_pageable_def request list_all_iff)
  have cursors: "list_all (\<lambda>r. record_position (codec, env, query) r \<noteq> []) rs"
    using ok by (simp add: record_pageable_def request list_all_iff position_not_Nil)
  let ?rank = "row_rank (order_terms (orderingFor query)) (orderExpression env)"
  have inj: "r = s" if "r \<in> set rs" "s \<in> set rs" "record_rank request r = record_rank request s" for r s
  proof -
    have "?rank (recordToRow r) = ?rank (recordToRow s)" using that(3) by (simp add: record_rank_def request)
    then have "orderExpression env (recordToRow r) ''id'' = orderExpression env (recordToRow s) ''id''"
      by (rule row_rank_inject) (simp add: order_terms_def)
    then have "rec_id r = rec_id s" by simp
    then show ?thesis using that(1,2) ok by (auto simp: record_pageable_def request distinct_map dest: inj_onD)
  qed
  have "inj_on (record_rank request) (set rs)" by (rule inj_onI) (rule inj)
  then show "distinct (map (record_rank request) (filter (record_wanted request) rs))"
    using ok by (auto simp: distinct_map record_pageable_def request intro: inj_on_subset)
  show "page_of Inr (record_position request) (sort_key (record_rank request) (filter (record_wanted request) rs))
      (record_fetch request rs None)"
    using record_page_front [OF readable cursors refl, of None]
    by (simp add: request record_wanted_def continues_def truthy_def Let_def todo_records_def)
  fix r
  assume r: "r \<in> set rs" "record_wanted request r"
  then have codec: "codec_ok codec env query (recordToRow r)" and rid: "row_id (recordToRow r) \<noteq> []"
    using ok by (auto simp: record_pageable_def request list_all_iff)
  have "continues codec env (query\<lparr>sel_cursor := Some (record_position request r)\<rparr>) (recordToRow x)
      \<longleftrightarrow> record_rank request r < record_rank request x" for x
    using continues_after [OF codec rid, of "recordToRow x"] by (simp add: record_position_def record_rank_def request)
  then show "page_of Inr (record_position request)
      (filter (\<lambda>x. record_rank request r < record_rank request x) (sort_key (record_rank request) (filter (record_wanted request) rs)))
      (record_fetch request rs (Some (record_position request r)))"
    using record_page_front [OF readable cursors refl, of "Some (record_position request r)"]
    by (simp add: request record_wanted_def filter_sort conj_commute todo_records_def)
qed

section \<open>What a read answers\<close>

lemma read_all_complete:
  assumes "record_pageable (codec, env, query) rs"
  shows "read_all codec env query (map recordToRow rs)
    = Some (Inr (sort_key (record_rank (codec, env, query)) (filter (\<lambda>r. applyFilters env query (recordToRow r)) rs)))"
  using record_pages.walk_all [OF assms] by (simp add: read_all_def record_fetch_def record_wanted_def)

lemma query_page:
  assumes "list_all storable rs"
  shows "\<exists>page. query_records codec env query (map recordToRow rs) = Inr page
    \<and> pg_records page = (let todo = todo_records (codec, env, query) (sel_cursor query) rs
        in case sel_limit query of None \<Rightarrow> todo | Some n \<Rightarrow> if n = 0 then todo else take n todo)"
proof -
  define todo where "todo = todo_records (codec, env, query) (sel_cursor query) rs"
  define limited where "limited = (case sel_limit query of None \<Rightarrow> todo | Some n \<Rightarrow> if n = 0 then todo else take (n + 1) todo)"
  define more where "more = (case sel_limit query of None \<Rightarrow> False | Some n \<Rightarrow> n \<noteq> 0 \<and> length limited > n)"
  have select: "buildRecordSelect codec env query (map recordToRow rs)
      = map (\<lambda>r. (recordToRow r, order_cells env (orderingFor query) (recordToRow r))) limited"
    using select_records [where codec = codec and env = env and query = query and sent = "sel_cursor query" and rs = rs]
    unfolding limited_def todo_def Let_def by simp
  have page: "(if more then take (the (sel_limit query)) limited else limited)
      = (case sel_limit query of None \<Rightarrow> todo | Some n \<Rightarrow> if n = 0 then todo else take n todo)"
    by (auto simp: more_def limited_def min_def split: option.splits)
  have "list_all storable todo" using assms by (simp add: todo_def todo_records_def list_all_iff)
  then have "list_all storable (if more then take (the (sel_limit query)) limited else limited)"
    unfolding page by (auto simp: list_all_iff dest: in_set_takeD split: option.split)
  from read_rows_records [OF this] show ?thesis
    unfolding query_records_def Let_def select length_map more_def [symmetric] todo_def [symmetric] page [symmetric]
    by (auto simp: comp_def take_map)
qed

lemma walk_answers:
  fixes fetch :: "'p option \<Rightarrow> 'b list \<times> 'p option"
  assumes "walk fetch p = Some xs" "x \<in> set xs"
  shows "\<exists>q. x \<in> set (fst (fetch q))"
proof -
  have "x \<in> set xs \<longrightarrow> (\<exists>q. x \<in> set (fst (fetch q)))"
  proof (rule walk.raw_induct [where P = "\<lambda>fetch p xs. x \<in> set xs \<longrightarrow> (\<exists>q. x \<in> set (fst (fetch q)))", OF _ assms(1)])
    fix f :: "('p option \<Rightarrow> 'b list \<times> 'p option) \<Rightarrow> 'p option \<Rightarrow> 'b list option"
      and fetch :: "'p option \<Rightarrow> 'b list \<times> 'p option" and p ys
    assume IH: "\<And>fetch p ys. f fetch p = Some ys \<Longrightarrow> x \<in> set ys \<longrightarrow> (\<exists>q. x \<in> set (fst (fetch q)))"
      and body: "(case fetch p of (xs, None) \<Rightarrow> Some xs
        | (xs, Some q) \<Rightarrow> Option.bind (f fetch (Some q)) (\<lambda>ys. Some (xs @ ys))) = Some ys"
    obtain zs nxt where page: "fetch p = (zs, nxt)" by (cases "fetch p")
    show "x \<in> set ys \<longrightarrow> (\<exists>q. x \<in> set (fst (fetch q)))"
    proof (cases nxt)
      case None
      then show ?thesis using body page by (auto intro: exI [of _ p])
    next
      case (Some q)
      then obtain us where us: "f fetch (Some q) = Some us" "ys = zs @ us" using body page by (auto simp: bind_eq_Some_conv)
      show ?thesis using IH [OF us(1)] us(2) page by (auto intro: exI [of _ p])
    qed
  qed
  then show ?thesis using assms(2) by blast
qed

lemma read_rows_set: "read_rows rows = Inr rs \<Longrightarrow> r \<in> set rs \<Longrightarrow> \<exists>row \<in> set rows. rowToRecord row = Inr r"
  by (induction rows arbitrary: rs) (auto split: sum.splits)

lemma query_answers:
  assumes "query_records codec env query table = Inr page" "r \<in> set (pg_records page)"
  shows "\<exists>row \<in> set table. applyFilters env query row \<and> rowToRecord row = Inr r"
proof -
  let ?sel = "buildRecordSelect codec env query table"
  define more where "more = (case sel_limit query of None \<Rightarrow> False | Some n \<Rightarrow> n \<noteq> 0 \<and> length ?sel > n)"
  define rows where "rows = map fst (if more then take (the (sel_limit query)) ?sel else ?sel)"
  have "read_rows rows = Inr (pg_records page)"
    using assms(1) unfolding query_records_def Let_def more_def [symmetric] rows_def [symmetric] by (auto split: sum.splits)
  moreover have "set rows \<subseteq> set (map fst ?sel)" by (auto simp: rows_def dest: in_set_takeD)
  moreover have "set (map fst (buildRecordSelect codec env query table)) \<subseteq> {row \<in> set table. applyFilters env query row}"
    by (auto simp: buildRecordSelect_def Let_def split: option.splits if_splits dest: in_set_takeD)
  ultimately show ?thesis using read_rows_set [OF _ assms(2)] by blast
qed

lemma read_all_answers:
  assumes "read_all codec env query table = Some (Inr rs)" "r \<in> set rs"
  shows "\<exists>row \<in> set table. applyFilters env query row \<and> rowToRecord row = Inr r"
proof -
  obtain xs where walk: "walk (\<lambda>sent. answer_rows (query_records codec env (query\<lparr>sel_cursor := sent\<rparr>) table)) None = Some xs"
      and "all_results xs = Inr rs"
    using assms(1) by (auto simp: read_all_def)
  then have "Inr r \<in> set xs" using assms(2) all_results_Inr by fastforce
  from walk_answers [OF walk this] obtain sent
    where "Inr r \<in> set (fst (answer_rows (query_records codec env (query\<lparr>sel_cursor := sent\<rparr>) table)))" by blast
  then obtain page where "query_records codec env (query\<lparr>sel_cursor := sent\<rparr>) table = Inr page" "r \<in> set (pg_records page)"
    by (auto simp: answer_rows_def split: sum.splits)
  from query_answers [OF this] show ?thesis by simp
qed

text \<open>What the columns a caller filters on say of the record a row reads back as.\<close>

lemma rowToRecord_fields:
  assumes "rowToRecord row = Inr r"
  shows "rec_id r = row_id row" "rec_type r = row_type row" "objectStorageKey r = row_object_storage_key row"
    "parentId r = truthy_text (row_parent_id row)"
    "standInRole r = (case row_stand_in_role row of None \<Rightarrow> None | Some s \<Rightarrow> role_of_value (JsStr s))"
    "fidelity r = row_fidelity row" "row_deleted_at row = None \<Longrightarrow> deletedAt r = None"
    "deletedAt r = None \<Longrightarrow> truthy_text (row_deleted_at row) = None"
  using assms by (auto simp: rowToRecord_def truthy_text_def split: sum.splits option.splits list.splits)

lemma filter_tests [simp]:
  "sql_holds (filter_holds c (TEq v)) \<longleftrightarrow> c \<noteq> None \<and> c = v"
  "sql_holds (filter_holds c (TIn vs)) \<longleftrightarrow> c \<noteq> None \<and> c \<in> set vs"
  "sql_holds (filter_holds c TIsNull) \<longleftrightarrow> c = None"
  "sql_holds (filter_holds c TIsNotNull) \<longleftrightarrow> c \<noteq> None"
  by (cases c; auto simp: filter_holds_def sql_cmp_eq_holds sql_in_holds sql_is_null_def sql_is_not_null_def)+

lemma filter_less [simp]: "sql_holds (filter_holds c (TLt (Some w))) \<longleftrightarrow> (\<exists>x. c = Some x \<and> x < w)"
  by (cases c) (simp_all add: filter_holds_def sql_cmp_def)

lemma filter_columns [simp]:
  "row_column row (mapField ''type'') = Some (QText (row_type row))"
  "row_column row (mapField ''deletedAt'') = map_option QText (row_deleted_at row)"
  "row_column row (mapField ''parentId'') = map_option QText (row_parent_id row)"
  "row_column row (mapField ''standInRole'') = map_option QText (row_stand_in_role row)"
  "row_column row (mapField ''fidelity'') = int_cell (row_fidelity row)"
  "row_column row (mapField ''objectStorageKey'') = Some (QText (row_object_storage_key row))"
  by (simp_all add: mapField_def FIELD_MAP_def row_column_def)

text \<open>A query with filters and a page size alone, as this package's callers write it.\<close>

definition filter_query :: "(string \<times> filter_test) list \<Rightarrow> nat \<Rightarrow> record_query" where
  "filter_query filters limit =
     \<lparr>sel_type = None, sel_filters = filters, sel_where = [], sel_sort = [], sel_limit = Some limit,
      sel_cursor = None, sel_excludeLabel = None\<rparr>"

lemma filter_query_pageable:
  "record_pageable (codec, env, filter_query fs n) rs \<longleftrightarrow> record_pageable (codec, env, filter_query [] 1) rs"
proof -
  have "orderingFor (filter_query fs n) = orderingFor (filter_query [] 1)" by (simp add: orderingFor_def filter_query_def)
  then show ?thesis by (simp add: record_pageable_def codec_ok_def)
qed

lemma filter_query_todo:
  "todo_records (codec, env, filter_query fs n) None rs
    = sort_key (record_rank (codec, env, filter_query fs n)) (filter (\<lambda>r. applyFilters env (filter_query fs n) (recordToRow r)) rs)"
  by (simp add: todo_records_def continues_def truthy_def Let_def)

lemma filter_query_page:
  assumes "list_all storable rs" "0 < n"
  shows "\<exists>page. query_records codec env (filter_query fs n) (map recordToRow rs) = Inr page
    \<and> pg_records page = take n (sort_key (record_rank (codec, env, filter_query fs n))
        (filter (\<lambda>r. applyFilters env (filter_query fs n) (recordToRow r)) rs))"
  using query_page [OF assms(1), where codec = codec and env = env and query = "filter_query fs n"] assms(2)
  by (simp add: filter_query_def filter_query_todo [unfolded filter_query_def])

lemma filter_query_rows:
  "applyFilters env (filter_query filters n) row
    \<longleftrightarrow> list_all (\<lambda>(field, test). sql_holds (filter_holds (row_column row (mapField field)) test)) filters"
  by (simp add: applyFilters_def filter_query_def truthy_def)

section \<open>Claims\<close>

text \<open>
  C30. Following cursors visits every record once: for any filters, grammar predicates, label exclusion,
  ordering (capture times included) and page size, a caller that pages a query until no cursor comes
  back has received every matching record exactly once, in the query's order with the id as the last
  key, and does reach that end.
\<close>

theorem following_cursors_visits_every_record:
  assumes "record_pageable (codec, env, query) rs"
  shows "read_all codec env query (map recordToRow rs)
    = Some (Inr (sort_key (\<lambda>r. row_rank (order_terms (orderingFor query)) (orderExpression env) (recordToRow r))
        (filter (\<lambda>r. applyFilters env query (recordToRow r)) rs)))"
  using read_all_complete [OF assms] by (simp add: record_rank_def)

definition sample_select :: record_query where
  "sample_select = \<lparr>sel_type = None, sel_filters = [(''deletedAt'', TIsNull)], sel_where = [],
     sel_sort = [(''createdAt'', True)], sel_limit = Some 1, sel_cursor = None, sel_excludeLabel = None\<rparr>"

definition no_labels :: record_env where
  "no_labels = \<lparr>env_labels = [], env_image_captured = [], env_video_captured = []\<rparr>"

definition sample_records :: "data_record list" where
  "sample_records = [sample_record, sample_record\<lparr>rec_id := ''r2'', parentId := None\<rparr>]"

text \<open>A codec for the two sample records: it writes the id.\<close>

definition sample_codec :: cursor_codec where
  "sample_codec =
     (\<lambda>v. case v of JsArr [_, _, JsStr rid] \<Rightarrow> rid | _ \<Rightarrow> [],
      \<lambda>s. map_option (\<lambda>r. cursor_payload (cursor_of (orderingFor sample_select) no_labels (recordToRow r)))
            (find (\<lambda>r. rec_id r = s) sample_records))"

lemma following_cursors_visits_every_record_witness:
  "read_all sample_codec no_labels sample_select (map recordToRow sample_records)
    = Some (Inr (sort_key (\<lambda>r. row_rank (order_terms (orderingFor sample_select)) (orderExpression no_labels) (recordToRow r))
        (filter (\<lambda>r. applyFilters no_labels sample_select (recordToRow r)) sample_records)))"
proof (rule following_cursors_visits_every_record)
  have "codec_ok sample_codec no_labels sample_select (recordToRow r)" if "r \<in> set sample_records" for r
    using that by (auto simp: codec_ok_def Let_def sample_codec_def cursor_payload_def cursor_of_def sample_records_def sample_record_def)
  then show "record_pageable (sample_codec, no_labels, sample_select) sample_records"
    by (simp add: record_pageable_def list_all_iff) (simp add: sample_records_def sample_record_def storable_def)
qed

end
