(* ===== verification/Multipart.thy ===== *)
theory Multipart
  imports Records Js_Numbers
begin

text \<open>
  The parts of a large object and its checksums: \<open>object-storage/multipart.ts\<close> and
  \<open>object-storage/checksum.ts\<close> of the storage adapter, and the local digests of
  \<open>packages/sync-engine/src/local-part-digests.ts\<close>.

  Bytes are numbers below 256. The hash, a third-party package, is the argument \<open>sha256\<close>: an incremental hash
  is the bytes it was given so far. Errors are values. The lemmas show that the base64 and the
  hexadecimal forms of a digest are read back, that the streamed digests do not depend on how the
  stream was cut into chunks, and that the parts are the spans the uploader sends.
\<close>

section \<open>Parts\<close>

definition MULTIPART_PART_BYTES :: nat where "MULTIPART_PART_BYTES = 16 * 1024 * 1024"

definition MULTIPART_MAX_PARTS :: nat where "MULTIPART_MAX_PARTS = 10000"

definition multipartPartCount :: "nat \<Rightarrow> nat" where
  "multipartPartCount sizeBytes = max 1 (nat \<lceil>rat_of_nat sizeBytes / of_nat MULTIPART_PART_BYTES\<rceil>)"

text \<open>The offset and the length of a part, numbered from 1.\<close>

definition multipartPartSpan :: "nat \<Rightarrow> nat \<Rightarrow> nat \<times> nat" where
  "multipartPartSpan sizeBytes partNumber =
     (let offset = (int partNumber - 1) * int MULTIPART_PART_BYTES
      in (nat offset, nat (max 0 (min (int MULTIPART_PART_BYTES) (int sizeBytes - offset)))))"

section \<open>Hexadecimal and base64\<close>

definition byte_hex :: "nat \<Rightarrow> string" where "byte_hex b = [hex_digit (b div 16), hex_digit (b mod 16)]"

text \<open>\<open>digestHex()\<close> and \<open>toString("hex")\<close>.\<close>

definition bytes_to_hex :: "nat list \<Rightarrow> string" where "bytes_to_hex bs = concat (map byte_hex bs)"

definition is_sha256_hex :: "string \<Rightarrow> bool" where
  "is_sha256_hex s \<longleftrightarrow>
     length s = 64 \<and> list_all (\<lambda>c. let n = of_char c :: nat in 97 \<le> n \<and> n \<le> 102 \<or> 48 \<le> n \<and> n \<le> 57) s"

text \<open>A \<open>Uint8Array\<close> takes a number modulo 256, and NaN as 0; an odd last digit is left out.\<close>

fun hexToBytes :: "string \<Rightarrow> nat list" where
  "hexToBytes (x # y # hex) =
     (case parse_int_16 [x, y] of Some n \<Rightarrow> nat (n mod 256) | None \<Rightarrow> 0) # hexToBytes hex"
| "hexToBytes _ = []"

definition BASE64_ALPHABET :: string where
  "BASE64_ALPHABET = ''ABCDEFGHIJKLMNOPQRSTUVWXYZabcdefghijklmnopqrstuvwxyz0123456789+/''"

definition group24 :: "nat \<Rightarrow> nat \<Rightarrow> nat \<Rightarrow> nat" where
  "group24 a b c = push_bit 16 a OR push_bit 8 b OR c"

definition sextet :: "nat \<Rightarrow> nat \<Rightarrow> char" where "sextet n shift = BASE64_ALPHABET ! (drop_bit shift n AND 63)"

fun bytesToBase64 :: "nat list \<Rightarrow> string" where
  "bytesToBase64 [] = []"
| "bytesToBase64 [a] = (let n = group24 a 0 0 in [sextet n 18, sextet n 12, CHR ''='', CHR ''=''])"
| "bytesToBase64 [a, b] = (let n = group24 a b 0 in [sextet n 18, sextet n 12, sextet n 6, CHR ''=''])"
| "bytesToBase64 (a # b # c # bytes) =
     (let n = group24 a b c in [sextet n 18, sextet n 12, sextet n 6, sextet n 0]) @ bytesToBase64 bytes"

text \<open>
  \<open>Buffer.from(s, "base64")\<close>: up to the first padding character, over the standard and the URL-safe
  alphabet, every other character skipped and an incomplete last byte left out.
\<close>

fun index_in :: "'a \<Rightarrow> 'a list \<Rightarrow> nat option" where
  "index_in x [] = None"
| "index_in x (y # ys) = (if x = y then Some 0 else map_option Suc (index_in x ys))"

definition base64_value :: "char \<Rightarrow> nat option" where
  "base64_value c =
     (if c = CHR ''-'' then Some 62 else if c = CHR ''_'' then Some 63 else index_in c BASE64_ALPHABET)"

fun sextets_to_bytes :: "nat list \<Rightarrow> nat list" where
  "sextets_to_bytes (a # b # c # d # r) =
     [4 * a + b div 16, 16 * (b mod 16) + c div 4, 64 * (c mod 4) + d] @ sextets_to_bytes r"
| "sextets_to_bytes [a, b, c] = [4 * a + b div 16, 16 * (b mod 16) + c div 4]"
| "sextets_to_bytes [a, b] = [4 * a + b div 16]"
| "sextets_to_bytes _ = []"

definition buffer_from_base64 :: "string \<Rightarrow> nat list" where
  "buffer_from_base64 s = sextets_to_bytes (List.map_filter base64_value (takeWhile (\<lambda>c. c \<noteq> CHR ''='') s))"

definition sha256Base64ToHex :: "string \<Rightarrow> string option" where
  "sha256Base64ToHex base64 =
     (if CHR ''-'' \<in> set base64 then None
      else let buf = buffer_from_base64 base64
           in if length buf \<noteq> 32 then None else Some (bytes_to_hex buf))"

definition requireSha256Hex :: "string \<Rightarrow> js_error option" where
  "requireSha256Hex hex =
     (if is_sha256_hex hex then None else Some (JsError ''expected a 64-character lowercase hex sha256''))"

definition partChecksumBase64 :: "string \<Rightarrow> js_error + string" where
  "partChecksumBase64 hex =
     (case requireSha256Hex hex of Some e \<Rightarrow> Inl e | None \<Rightarrow> Inr (bytesToBase64 (hexToBytes hex)))"

section \<open>Composite checksums\<close>

definition compositeSha256Checksum :: "(nat list \<Rightarrow> nat list) \<Rightarrow> string list \<Rightarrow> js_error + string" where
  "compositeSha256Checksum sha256 parts =
     (if parts = [] then Inl (JsError ''a multipart object has at least one part'')
      else case List.map_filter requireSha256Hex parts of
        e # _ \<Rightarrow> Inl e
      | [] \<Rightarrow>
          let joined = concat (map hexToBytes parts)
          in Inr (bytesToBase64 (hexToBytes (bytes_to_hex (sha256 joined))) @ ''-'' @ js_string_of_int (int (length parts))))"

definition compositePartCount :: "string \<Rightarrow> nat option" where
  "compositePartCount checksum =
     (let ds = drop 45 checksum; n = digits_value ds
      in if list_all (\<lambda>c. c \<in> set BASE64_ALPHABET) (take 43 checksum) \<and> take 2 (drop 43 checksum) = ''=-''
            \<and> ds \<noteq> [] \<and> list_all is_digit ds \<and> 1 \<le> n \<and> n \<le> MULTIPART_MAX_PARTS
         then Some n else None)"

section \<open>The digests of a local copy\<close>

record file_part_digests =
  dg_sha256Hex :: string
  dg_partSha256Hex :: "string list"
  dg_sizeBytes :: nat

record digest_state =
  ds_whole :: "nat list"
  ds_parts :: "string list"
  ds_part :: "nat list"
  ds_inPart :: nat
  ds_size :: nat

text \<open>The inner loop over one chunk: what is left of it goes into the open part, up to its end.\<close>

function digest_rest :: "(nat list \<Rightarrow> nat list) \<Rightarrow> nat list \<Rightarrow> digest_state \<Rightarrow> digest_state" where
  "digest_rest sha256 rest s =
     (if rest = [] \<or> ds_inPart s \<ge> MULTIPART_PART_BYTES then s
      else let n = min (MULTIPART_PART_BYTES - ds_inPart s) (length rest);
               part = ds_part s @ take n rest;
               inPart = ds_inPart s + n
           in digest_rest sha256 (drop n rest)
             (if inPart = MULTIPART_PART_BYTES
              then s\<lparr>ds_parts := ds_parts s @ [bytes_to_hex (sha256 part)], ds_part := [], ds_inPart := 0\<rparr>
              else s\<lparr>ds_part := part, ds_inPart := inPart\<rparr>))"
  by pat_completeness auto

termination
  by (relation "measure (\<lambda>(sha256, rest, s). length rest)") (auto simp: Let_def min_def)

declare digest_rest.simps [simp del]

definition digest_chunk :: "(nat list \<Rightarrow> nat list) \<Rightarrow> nat list \<Rightarrow> digest_state \<Rightarrow> digest_state" where
  "digest_chunk sha256 chunk s =
     digest_rest sha256 chunk (s\<lparr>ds_whole := ds_whole s @ chunk, ds_size := ds_size s + length chunk\<rparr>)"

definition digestStream :: "(nat list \<Rightarrow> nat list) \<Rightarrow> nat list list \<Rightarrow> file_part_digests" where
  "digestStream sha256 chunks =
     (let s = fold (digest_chunk sha256) chunks \<lparr>ds_whole = [], ds_parts = [], ds_part = [], ds_inPart = 0, ds_size = 0\<rparr>;
          parts = (if ds_inPart s > 0 \<or> ds_parts s = [] then ds_parts s @ [bytes_to_hex (sha256 (ds_part s))] else ds_parts s)
      in \<lparr>dg_sha256Hex = bytes_to_hex (sha256 (ds_whole s)), dg_partSha256Hex = parts, dg_sizeBytes = ds_size s\<rparr>)"

section \<open>Digests read back\<close>

lemma parse_byte_hex: "b < 256 \<Longrightarrow> parse_int_16 (byte_hex b) = Some (int b)"
proof -
  assume "b < 256"
  then have d: "b div 16 < 16" "b mod 16 < 16" by auto
  have "parse_int_16 (byte_hex b) = Some (int (parse_hex_run 0 (byte_hex b)))"
    using d by (intro parse_int_16_hex_run) (auto simp: byte_hex_def hex_digit_mod)
  then show ?thesis using d by (simp add: byte_hex_def hex_value_hex_digit)
qed

lemma hexToBytes_cons: "b < 256 \<Longrightarrow> hexToBytes (byte_hex b @ hex) = b # hexToBytes hex"
  using parse_byte_hex [of b] by (simp add: byte_hex_def)

lemma hex_of_bytes: "list_all (\<lambda>b. b < 256) bs \<Longrightarrow> hexToBytes (bytes_to_hex bs) = bs"
  by (induction bs) (simp_all add: bytes_to_hex_def hexToBytes_cons)

lemma hex_inject:
  "list_all (\<lambda>b. b < 256) bs \<Longrightarrow> list_all (\<lambda>b. b < 256) cs \<Longrightarrow> bytes_to_hex bs = bytes_to_hex cs \<longleftrightarrow> bs = cs"
  by (metis hex_of_bytes)

lemma push_bit_or: "c < 2 ^ k \<Longrightarrow> push_bit k a OR c = a * 2 ^ k + (c :: nat)"
proof -
  assume c: "c < 2 ^ k"
  have "push_bit k a + c = push_bit k a OR c"
    by (rule disjunctive_add) (metis c bit_push_bit_iff bit_take_bit_iff linorder_not_less take_bit_nat_eq_self)
  then show ?thesis by (simp add: push_bit_eq_mult)
qed

lemma group24_value:
  assumes "b < 256" "c < 256"
  shows "group24 a b c = a * 65536 + b * 256 + c"
proof -
  have "push_bit 8 b OR c = b * 256 + c" using push_bit_or [of c 8 b] assms by simp
  moreover have "push_bit 16 a OR (b * 256 + c) = a * 65536 + (b * 256 + c)"
    using push_bit_or [of "b * 256 + c" 16 a] assms by simp
  ultimately show ?thesis by (simp add: group24_def or.assoc)
qed

lemma index_in_nth: "distinct xs \<Longrightarrow> n < length xs \<Longrightarrow> index_in (xs ! n) xs = Some n"
  by (induction xs arbitrary: n) (auto simp: nth_Cons' in_set_conv_nth gr0_conv_Suc)

lemma alphabet: "distinct BASE64_ALPHABET" "length BASE64_ALPHABET = 64"
    "CHR ''-'' \<notin> set BASE64_ALPHABET" "CHR ''_'' \<notin> set BASE64_ALPHABET" "CHR ''='' \<notin> set BASE64_ALPHABET"
  by code_simp+

lemma sextet_char: "sextet n k \<in> set BASE64_ALPHABET"
proof -
  have "drop_bit k n AND 63 < 64" using take_bit_nat_less_exp [of 6 "drop_bit k n"] by (simp add: take_bit_eq_mask mask_numeral)
  then show ?thesis unfolding sextet_def using alphabet(2) by (intro nth_mem) simp
qed

lemma sextet_value: "base64_value (sextet n k) = Some (n div 2 ^ k mod 64)"
proof -
  have n: "drop_bit k n AND 63 = n div 2 ^ k mod 64"
    using take_bit_eq_mask [of 6 "drop_bit k n"] by (simp add: take_bit_eq_mod drop_bit_eq_div mask_numeral)
  have "sextet n k \<noteq> CHR ''-''" "sextet n k \<noteq> CHR ''_''" using sextet_char alphabet by metis+
  then show ?thesis
    using index_in_nth [OF alphabet(1), of "n div 2 ^ k mod 64"] alphabet(2) by (simp add: base64_value_def sextet_def n)
qed

lemma sextet_not_pad [simp]: "sextet n k \<noteq> CHR ''=''" using sextet_char alphabet by metis

lemma split_64: "x < 64 \<Longrightarrow> (64 * k + x) mod 64 = x" "x < 64 \<Longrightarrow> (64 * k + x) div 64 = (k :: nat)"
  by simp_all

text \<open>The four sextets of a group of bytes.\<close>

lemma sextets_of_group:
  assumes "a < 256" "b < 256" "c < 256"
  defines "n \<equiv> a * 65536 + b * 256 + (c :: nat)"
  shows "n div 262144 mod 64 = a div 4" "n div 4096 mod 64 = 16 * (a mod 4) + b div 16"
    "n div 64 mod 64 = 4 * (b mod 16) + c div 64" "n mod 64 = c mod 64"
proof -
  define high where "high = 64 * (a div 4) + (16 * (a mod 4) + b div 16)"
  define mid where "mid = 64 * high + (4 * (b mod 16) + c div 64)"
  have "65536 * a = 262144 * (a div 4) + 65536 * (a mod 4)" "256 * b = 4096 * (b div 16) + 256 * (b mod 16)"
      "c = 64 * (c div 64) + c mod 64"
    using div_mult_mod_eq [of a 4] div_mult_mod_eq [of b 16] div_mult_mod_eq [of c 64] by linarith+
  then have n: "n = 64 * mid + c mod 64" unfolding n_def mid_def high_def by (simp add: algebra_simps)
  have b: "a mod 4 < 4" "b div 16 < 16" "b mod 16 < 16" "c div 64 < 4" "c mod 64 < 64" "a div 4 < 64" using assms(1-3) by auto
  show "n mod 64 = c mod 64" unfolding n by simp
  have mid: "n div 64 = mid" unfolding n by simp
  have "4 * (b mod 16) + c div 64 < 64" "16 * (a mod 4) + b div 16 < 64" using b by linarith+
  then have "mid mod 64 = 4 * (b mod 16) + c div 64" "mid div 64 = high" "high mod 64 = 16 * (a mod 4) + b div 16"
      "high div 64 = a div 4" unfolding mid_def high_def by (simp_all only: split_64)
  moreover have "n div 4096 = n div 64 div 64" "n div 262144 = n div 64 div 64 div 64" by (simp_all add: div_mult2_eq [symmetric])
  ultimately show "n div 262144 mod 64 = a div 4" "n div 4096 mod 64 = 16 * (a mod 4) + b div 16"
      "n div 64 mod 64 = 4 * (b mod 16) + c div 64" using b(6) by (simp_all add: mid)
qed

lemma sextets_regroup:
  assumes "a < 256" "b < 256" "c < (256 :: nat)"
  shows "4 * (a div 4) + (16 * (a mod 4) + b div 16) div 16 = a"
    "16 * ((16 * (a mod 4) + b div 16) mod 16) + (4 * (b mod 16) + c div 64) div 4 = b"
    "64 * ((4 * (b mod 16) + c div 64) mod 4) + c mod 64 = c"
proof -
  have "b div 16 < 16" "c div 64 < 4" using assms by auto
  then show "4 * (a div 4) + (16 * (a mod 4) + b div 16) div 16 = a"
    "16 * ((16 * (a mod 4) + b div 16) mod 16) + (4 * (b mod 16) + c div 64) div 4 = b"
    "64 * ((4 * (b mod 16) + c div 64) mod 4) + c mod 64 = c" by simp_all
qed

lemma read_base64_aux:
  "list_all (\<lambda>b. b < 256) bs \<Longrightarrow>
    sextets_to_bytes (List.map_filter base64_value (takeWhile (\<lambda>c. c \<noteq> CHR ''='') (bytesToBase64 bs))) = bs"
proof (induction bs rule: bytesToBase64.induct)
  case (2 a)
  then have "group24 a 0 0 = a * 65536 + 0 * 256 + 0" "a < 256" by (simp_all add: group24_value)
  then show ?case
    using sextets_of_group [of a 0 0] sextets_regroup [of a 0 0] by (simp add: Let_def sextet_value map_filter_simps)
next
  case (3 a b)
  then have "group24 a b 0 = a * 65536 + b * 256 + 0" "a < 256" "b < 256" by (simp_all add: group24_value)
  then show ?case
    using sextets_of_group [of a b 0] sextets_regroup [of a b 0] by (simp add: Let_def sextet_value map_filter_simps)
next
  case (4 a b c bytes)
  then have "group24 a b c = a * 65536 + b * 256 + c" "a < 256" "b < 256" "c < 256" by (simp_all add: group24_value)
  moreover from \<open>a < 256\<close> have "a div 4 < 64" by linarith
  then have top_bits: "4 * (a div 4 mod 64) + a mod 4 = a" by simp
  ultimately show ?case
    using 4 sextets_of_group [of a b c] sextets_regroup [of a b c]
    by (simp add: Let_def sextet_value map_filter_simps) (rule top_bits)
qed (simp add: map_filter_simps)

lemma base64_read_back: "list_all (\<lambda>b. b < 256) bs \<Longrightarrow> buffer_from_base64 (bytesToBase64 bs) = bs"
  unfolding buffer_from_base64_def by (rule read_base64_aux)

lemma base64_chars: "set (bytesToBase64 bs) \<subseteq> insert (CHR ''='') (set BASE64_ALPHABET)"
  by (induction bs rule: bytesToBase64.induct) (auto simp: Let_def sextet_char)

lemma length_base64: "length (bytesToBase64 bs) = 4 * ((length bs + 2) div 3)"
proof (induction bs rule: bytesToBase64.induct)
  case (4 a b c bytes)
  have "(length bytes + 2 + 3) div 3 = (length bytes + 2) div 3 + 1" by (rule div_add_self2) simp
  then show ?case using 4 by (simp add: Let_def add.commute)
qed (simp_all add: Let_def)

definition digest_bytes :: "nat list \<Rightarrow> bool" where
  "digest_bytes bs \<longleftrightarrow> length bs = 32 \<and> list_all (\<lambda>b. b < 256) bs"

lemma whole_checksum:
  assumes "digest_bytes ds"
  shows "sha256Base64ToHex (bytesToBase64 ds) = Some (bytes_to_hex ds)" "compositePartCount (bytesToBase64 ds) = None"
proof -
  have "CHR ''-'' \<notin> set (bytesToBase64 ds)" using base64_chars [of ds] alphabet by auto
  then show "sha256Base64ToHex (bytesToBase64 ds) = Some (bytes_to_hex ds)"
    using assms by (simp add: sha256Base64ToHex_def Let_def base64_read_back digest_bytes_def)
  have "length (take 2 (drop 43 (bytesToBase64 ds))) = 1" using assms by (simp add: length_base64 digest_bytes_def)
  then have "take 2 (drop 43 (bytesToBase64 ds)) \<noteq> ''=-''" by (metis One_nat_def Suc_eq_plus1 length_Cons list.size(3) n_not_Suc_n)
  then show "compositePartCount (bytesToBase64 ds) = None" by (simp add: compositePartCount_def Let_def)
qed

lemma sha256_hex_of_digest:
  assumes "digest_bytes ds"
  shows "is_sha256_hex (bytes_to_hex ds)"
proof -
  have d: "let n = of_char (hex_digit d) :: nat in 97 \<le> n \<and> n \<le> 102 \<or> 48 \<le> n \<and> n \<le> 57" if "d < 16" for d
    using less_16_cases [OF that] by (auto simp: hex_digit_def hex_digits_def)
  have nibble: "b div 16 < 16" "b mod 16 < 16" if "b < 256" for b :: nat using that by auto
  have "length (bytes_to_hex bs) = 2 * length bs" for bs by (induction bs) (simp_all add: bytes_to_hex_def byte_hex_def)
  moreover have "list_all (\<lambda>c. let n = of_char c :: nat in 97 \<le> n \<and> n \<le> 102 \<or> 48 \<le> n \<and> n \<le> 57) (bytes_to_hex bs)"
    if "list_all (\<lambda>b. b < 256) bs" for bs
    using that by (induction bs) (simp_all add: bytes_to_hex_def byte_hex_def d nibble del: Let_def)
  ultimately show ?thesis using assms by (simp add: is_sha256_hex_def digest_bytes_def)
qed

text \<open>The composite of parts whose digests are known, and that it names the digests in order.\<close>

definition composite_of :: "(nat list \<Rightarrow> nat list) \<Rightarrow> nat list list \<Rightarrow> string" where
  "composite_of sha256 parts =
     bytesToBase64 (sha256 (concat (map sha256 parts))) @ ''-'' @ js_string_of_int (int (length parts))"

lemma composite_checksum:
  assumes "\<And>bs. digest_bytes (sha256 bs)" "parts \<noteq> []"
  shows "compositeSha256Checksum sha256 (map (\<lambda>p. bytes_to_hex (sha256 p)) parts) = Inr (composite_of sha256 parts)"
proof -
  have read: "hexToBytes (bytes_to_hex (sha256 p)) = sha256 p" for p
    using assms(1) by (simp add: hex_of_bytes digest_bytes_def)
  have "List.map_filter requireSha256Hex (map (\<lambda>p. bytes_to_hex (sha256 p)) parts) = []"
    using assms(1) by (induction parts) (simp_all add: map_filter_simps requireSha256Hex_def sha256_hex_of_digest)
  then show ?thesis using assms(2) by (simp add: compositeSha256Checksum_def composite_of_def comp_def read)
qed

lemma base64_tail:
  "length bs mod 3 = 2 \<Longrightarrow> \<exists>cs. set cs \<subseteq> set BASE64_ALPHABET \<and> bytesToBase64 bs = cs @ ''=''"
proof (induction bs rule: bytesToBase64.induct)
  case (3 a b)
  then show ?case by (auto simp: Let_def sextet_char append_eq_Cons_conv Cons_eq_append_conv)
next
  case (4 a b c bytes)
  then have "length bytes mod 3 = 2" by (simp add: mod_Suc split: if_splits)
  then obtain cs where "set cs \<subseteq> set BASE64_ALPHABET" "bytesToBase64 bytes = cs @ ''=''" using 4 by blast
  then show ?case
    by (intro exI [of _ "(let n = group24 a b c in [sextet n 18, sextet n 12, sextet n 6, sextet n 0]) @ cs"])
      (auto simp: Let_def sextet_char)
qed auto

lemma digit_char: "d < 10 \<Longrightarrow> is_digit (decimal_digit d) \<and> (of_char (decimal_digit d) :: nat) = 48 + d"
proof -
  assume "d < 10"
  then have "d \<in> {0,1,2,3,4,5,6,7,8,9}" by (simp, arith)
  then show ?thesis by (auto simp: decimal_digit_def is_digit_def)
qed

lemma digits_of_decimal: "list_all is_digit (decimal n) \<and> digits_value (decimal n) = n"
proof (induction n rule: decimal.induct)
  case (1 n)
  have "digits_value (s @ [c]) = 10 * digits_value s + (of_char c - 48)" for s c by (simp add: digits_value_def)
  moreover have "digits_value [c] = of_char c - 48" for c by (simp add: digits_value_def)
  ultimately show ?case
    using 1 digit_char [of n] digit_char [of "n mod 10"] by (cases "n < 10") (simp_all add: decimal.simps [of n])
qed

text \<open>A composite is recognised as one, with its part count.\<close>

lemma composite_recognised:
  assumes "\<And>bs. digest_bytes (sha256 bs)" "1 \<le> length parts" "length parts \<le> MULTIPART_MAX_PARTS"
  shows "compositePartCount (composite_of sha256 parts) = Some (length parts)"
proof -
  let ?b = "bytesToBase64 (sha256 (concat (map sha256 parts)))"
  have "length (sha256 (concat (map sha256 parts))) = 32" using assms(1) by (simp add: digest_bytes_def)
  then have "length ?b = 44" and "\<exists>cs. set cs \<subseteq> set BASE64_ALPHABET \<and> ?b = cs @ ''=''"
    by (simp add: length_base64, intro base64_tail) simp
  then obtain cs where cs: "set cs \<subseteq> set BASE64_ALPHABET" "?b = cs @ ''=''" "length ?b = 44" by blast
  then have "length cs = 43" by simp
  then have "composite_of sha256 parts = cs @ ''=-'' @ decimal (length parts)" "length cs = 43"
    using cs(2) by (simp_all add: composite_of_def js_string_of_int_def)
  then show ?thesis
    using cs(1) assms(2,3) digits_of_decimal [of "length parts"] 
    decimal.simps [of "length parts"]
    by (auto simp: compositePartCount_def Let_def list_all_iff split: if_splits)
qed

lemma concat_digests_inject:
  assumes "\<And>bs. length (sha256 bs) = 32" "length ps = length qs"
    "concat (map sha256 ps) = concat (map sha256 qs)"
  shows "map sha256 ps = map sha256 qs"
  using assms(2,3) by (induction ps qs rule: list_induct2) (simp_all add: assms(1))

lemma composite_inject:
  assumes digest: "\<And>bs. digest_bytes (sha256 bs)" and same: "composite_of sha256 ps = composite_of sha256 qs"
    and inj: "inj_on sha256 S" "concat (map sha256 ps) \<in> S" "concat (map sha256 qs) \<in> S" "set ps \<subseteq> S" "set qs \<subseteq> S"
  shows "ps = qs"
proof -
  have "length (bytesToBase64 (sha256 bs)) = 44" for bs using digest by (simp add: length_base64 digest_bytes_def)
  then have "bytesToBase64 (sha256 (concat (map sha256 ps))) = bytesToBase64 (sha256 (concat (map sha256 qs)))"
      and "js_string_of_int (int (length ps)) = js_string_of_int (int (length qs))"
    using same unfolding composite_of_def by (simp_all add: append_eq_append_conv)
  then have count: "length ps = length qs" and "bytesToBase64 (sha256 (concat (map sha256 ps))) = bytesToBase64 (sha256 (concat (map sha256 qs)))"
    by (simp_all add: js_string_of_int_def decimal_inject)
  then have "sha256 (concat (map sha256 ps)) = sha256 (concat (map sha256 qs))"
    using base64_read_back digest unfolding digest_bytes_def by metis
  then have "concat (map sha256 ps) = concat (map sha256 qs)" using inj(1-3) by (auto dest: inj_onD)
  then have "map sha256 ps = map sha256 qs"
    using concat_digests_inject [of sha256] digest count by (simp add: digest_bytes_def)
  then show ?thesis using inj(1,4,5) by (metis inj_on_map_eq_map inj_on_subset Un_least)
qed

section \<open>The streamed digests\<close>

text \<open>The parts of some bytes: whole ones and a last one, which alone may be empty.\<close>

function parts_of :: "nat \<Rightarrow> nat list \<Rightarrow> nat list list" where
  "parts_of n bs = (if length bs \<le> n \<or> n = 0 then [bs] else take n bs # parts_of n (drop n bs))"
  by pat_completeness auto

termination by (relation "measure (\<lambda>(n, bs). length bs)") auto

declare parts_of.simps [simp del]

lemma concat_parts [simp]: "concat (parts_of n bs) = bs"
proof (induction n bs rule: parts_of.induct)
  case (1 n bs)
  then show ?case by (subst parts_of.simps) (auto simp: min_def)
qed

lemma parts_not_Nil [simp]: "parts_of n bs \<noteq> []"
  by (subst parts_of.simps) simp

lemma parts_of_whole:
  assumes "list_all (\<lambda>p. length p = n) fulls" "length rest < n"
  shows "parts_of n (concat fulls @ rest) = (if rest = [] \<and> fulls \<noteq> [] then fulls else fulls @ [rest])"
  using assms
proof (induction fulls)
  case Nil
  then show ?case by (simp add: parts_of.simps)
next
  case (Cons p fulls)
  show ?case
  proof (cases "fulls = [] \<and> rest = []")
    case True
    then show ?thesis using Cons.prems by (simp add: parts_of.simps)
  next
    case False
    then have "concat fulls @ rest \<noteq> []" using Cons.prems by (cases fulls) auto
    then have "parts_of n (concat (p # fulls) @ rest) = p # parts_of n (concat fulls @ rest)"
      using Cons.prems by (subst parts_of.simps) (auto simp del: concat_eq_Nil_conv)
    moreover have "parts_of n (concat fulls @ rest) = (if rest = [] \<and> fulls \<noteq> [] then fulls else fulls @ [rest])"
      using Cons by simp
    ultimately show ?thesis using False by (cases "rest = []") (simp_all del: concat_eq_Nil_conv)
  qed
qed

definition digest_inv :: "(nat list \<Rightarrow> nat list) \<Rightarrow> nat list \<Rightarrow> digest_state \<Rightarrow> bool" where
  "digest_inv sha256 bytes s \<longleftrightarrow>
     ds_inPart s = length (ds_part s) \<and> ds_inPart s < MULTIPART_PART_BYTES
     \<and> (\<exists>fulls. list_all (\<lambda>p. length p = MULTIPART_PART_BYTES) fulls \<and> bytes = concat fulls @ ds_part s
          \<and> ds_parts s = map (\<lambda>p. bytes_to_hex (sha256 p)) fulls)"

lemma part_size_pos [simp]: "0 < MULTIPART_PART_BYTES" by (simp add: MULTIPART_PART_BYTES_def)

lemma digest_rest_inv:
  "digest_inv sha256 bytes s \<Longrightarrow>
    digest_inv sha256 (bytes @ rest) (digest_rest sha256 rest s)
    \<and> ds_whole (digest_rest sha256 rest s) = ds_whole s \<and> ds_size (digest_rest sha256 rest s) = ds_size s"
proof (induction sha256 rest s arbitrary: bytes rule: digest_rest.induct)
  case (1 sha256 rest s)
  show ?case
  proof (cases "rest = []")
    case True
    then show ?thesis using 1(2) by (simp add: digest_rest.simps)
  next
    case False
    define n where "n = min (MULTIPART_PART_BYTES - ds_inPart s) (length rest)"
    define s' where "s' = (if ds_inPart s + n = MULTIPART_PART_BYTES
      then s\<lparr>ds_parts := ds_parts s @ [bytes_to_hex (sha256 (ds_part s @ take n rest))], ds_part := [], ds_inPart := 0\<rparr>
      else s\<lparr>ds_part := ds_part s @ take n rest, ds_inPart := ds_inPart s + n\<rparr>)"
    have open_part: "\<not> (rest = [] \<or> ds_inPart s \<ge> MULTIPART_PART_BYTES)" using False 1(2) by (simp add: digest_inv_def)
    obtain fulls where fulls: "list_all (\<lambda>p. length p = MULTIPART_PART_BYTES) fulls" "bytes = concat fulls @ ds_part s"
        "ds_parts s = map (\<lambda>p. bytes_to_hex (sha256 p)) fulls" and part: "ds_inPart s = length (ds_part s)"
      using 1(2) by (auto simp: digest_inv_def)
    have "digest_inv sha256 (bytes @ take n rest) s'"
    proof (cases "ds_inPart s + n = MULTIPART_PART_BYTES")
      case True
      then have "length (ds_part s @ take n rest) = MULTIPART_PART_BYTES" using part by (simp add: n_def)
      then show ?thesis using True fulls
        by (auto simp: digest_inv_def s'_def intro!: exI [of _ "fulls @ [ds_part s @ take n rest]"])
    next
      case False
      then have "ds_inPart s + n < MULTIPART_PART_BYTES" using open_part unfolding n_def by linarith
      then show ?thesis using False fulls part by (auto simp: digest_inv_def s'_def n_def)
    qed
    moreover have "digest_rest sha256 rest s = digest_rest sha256 (drop n rest) s'"
      using open_part by (subst digest_rest.simps) (simp add: Let_def n_def s'_def)
    moreover have "ds_whole s' = ds_whole s" "ds_size s' = ds_size s" by (simp_all add: s'_def)
    ultimately show ?thesis
      using 1(1) [OF open_part n_def refl refl, of "bytes @ take n rest"] by (simp add: s'_def)
  qed
qed

lemma digest_chunks_inv:
  "digest_inv sha256 bytes s \<Longrightarrow> ds_whole s = bytes \<Longrightarrow> ds_size s = length bytes \<Longrightarrow>
    (let s' = fold (digest_chunk sha256) chunks s
     in digest_inv sha256 (bytes @ concat chunks) s' \<and> ds_whole s' = bytes @ concat chunks
        \<and> ds_size s' = length (bytes @ concat chunks))"
proof (induction chunks arbitrary: bytes s)
  case (Cons chunk chunks)
  have "digest_inv sha256 bytes (s\<lparr>ds_whole := ds_whole s @ chunk, ds_size := ds_size s + length chunk\<rparr>)"
    using Cons.prems(1) by (simp add: digest_inv_def)
  from digest_rest_inv [OF this, of chunk] show ?case
    using Cons.IH [of "bytes @ chunk" "digest_chunk sha256 chunk s"] Cons.prems(2,3) by (simp add: digest_chunk_def)
qed simp

lemma digestStream_of_bytes:
  "digestStream sha256 chunks =
    (let bytes = concat chunks
     in \<lparr>dg_sha256Hex = bytes_to_hex (sha256 bytes),
         dg_partSha256Hex = map (\<lambda>p. bytes_to_hex (sha256 p)) (parts_of MULTIPART_PART_BYTES bytes),
         dg_sizeBytes = length bytes\<rparr>)"
proof -
  define s where "s = fold (digest_chunk sha256) chunks \<lparr>ds_whole = [], ds_parts = [], ds_part = [], ds_inPart = 0, ds_size = 0\<rparr>"
  have "digest_inv sha256 [] \<lparr>ds_whole = [], ds_parts = [], ds_part = [], ds_inPart = 0, ds_size = 0\<rparr>"
    by (simp add: digest_inv_def)
  from digest_chunks_inv [OF this, of chunks]
  have inv: "digest_inv sha256 (concat chunks) s" "ds_whole s = concat chunks" "ds_size s = length (concat chunks)"
    by (simp_all add: s_def Let_def)
  then obtain fulls where "list_all (\<lambda>p. length p = MULTIPART_PART_BYTES) fulls" "concat chunks = concat fulls @ ds_part s"
      "ds_parts s = map (\<lambda>p. bytes_to_hex (sha256 p)) fulls" "length (ds_part s) < MULTIPART_PART_BYTES"
      "ds_inPart s = length (ds_part s)"
    by (auto simp: digest_inv_def)
  then have "(if ds_inPart s > 0 \<or> ds_parts s = [] then ds_parts s @ [bytes_to_hex (sha256 (ds_part s))] else ds_parts s)
      = map (\<lambda>p. bytes_to_hex (sha256 p)) (parts_of MULTIPART_PART_BYTES (concat chunks))"
    by (auto simp: parts_of_whole)
  then show ?thesis using inv(2,3) unfolding digestStream_def s_def [symmetric] Let_def by simp
qed

text \<open>The parts are as many as the uploader counts, and each is the span it sends.\<close>

lemma count_of_parts: "multipartPartCount n = max 1 ((n + MULTIPART_PART_BYTES - 1) div MULTIPART_PART_BYTES)"
proof -
  let ?m = MULTIPART_PART_BYTES
  have "\<lceil>rat_of_nat n / of_nat ?m\<rceil> = - (- int n div int ?m)"
    using floor_divide_of_int_eq [of "- int n" "int ?m", where 'a = rat] by (simp add: ceiling_def)
  also have "- (- int n div int ?m) = (int n + int ?m - 1) div int ?m" by (simp add: MULTIPART_PART_BYTES_def)
  also have "int n + int ?m - 1 = int (n + ?m - 1)" by (simp add: MULTIPART_PART_BYTES_def)
  finally show ?thesis by (simp only: multipartPartCount_def zdiv_int [symmetric] nat_int)
qed

lemma parts_of_slices:
  assumes "0 < m"
  shows "parts_of m bs = map (\<lambda>i. take m (drop (i * m) bs)) [0..<max 1 ((length bs + m - 1) div m)]"
  using assms
proof (induction m bs rule: parts_of.induct)
  case (1 m bs)
  show ?case
  proof (cases "length bs \<le> m")
    case True
    then have "(length bs + m - 1) div m < 2" using 1(2) by (simp add: less_mult_imp_div_less)
    then have "max 1 ((length bs + m - 1) div m) = 1" by linarith
    then show ?thesis using True by (simp add: parts_of.simps)
  next
    case False
    let ?k = "(length (drop m bs) + m - 1) div m"
    have "length bs + m - 1 = length (drop m bs) + m - 1 + m" using False 1(2) by simp
    then have count: "(length bs + m - 1) div m = Suc ?k" using 1(2) by (simp only: div_add_self2 [of m])
    have "1 * m \<le> length (drop m bs) + m - 1" using False by simp
    then have "1 \<le> ?k" using 1(2) by (metis div_le_mono div_mult_self_is_m)
    then have "parts_of m (drop m bs) = map (\<lambda>i. take m (drop (i * m) (drop m bs))) [0..<?k]"
      using 1 False by (simp add: max_def)
    then have "parts_of m bs = take m bs # map (\<lambda>i. take m (drop (Suc i * m) bs)) [0..<?k]"
      using False 1(2) by (subst parts_of.simps) (simp add: add.commute)
    also have "\<dots> = map (\<lambda>i. take m (drop (i * m) bs)) [0..<Suc ?k]"
      by (simp only: upt_conv_Cons [of 0 "Suc ?k"] map_Suc_upt [symmetric] list.map map_map comp_def) simp
    finally show ?thesis by (simp only: count max_def) simp
  qed
qed

lemma parts_are_spans:
  "parts_of MULTIPART_PART_BYTES bs = map (\<lambda>i. case multipartPartSpan (length bs) (i + 1) of (offset, n) \<Rightarrow> take n (drop offset bs))
    [0..<multipartPartCount (length bs)]"
proof -
  have "take (nat (max 0 (min (int m) (int (length bs) - int i * int m)))) (drop (nat (int i * int m)) bs)
      = take m (drop (i * m) bs)" for m i
  proof -
    define p where "p = i * m"
    have "nat (max 0 (min (int m) (int (length bs) - int p))) = min m (length (drop p bs))" by simp
    moreover have "int i * int m = int p" by (simp add: p_def)
    ultimately show ?thesis by (metis nat_int p_def take_all_iff take_take order_refl)
  qed
  then show ?thesis
    by (simp only: parts_of_slices [OF part_size_pos] count_of_parts multipartPartSpan_def Let_def prod.case) simp
qed
end
