(* ===== verification/Durability.thy ===== *)
theory Durability
  imports Multipart
begin

text \<open>
  Whether the bytes behind a key are safely somewhere else: \<open>packages/sync-engine/src/durability.ts\<close>.

  A probe is a peer's name and its \<open>stat\<close>, an outside service and so an argument. What the stores and
  the local hasher are relied on for is stated by the two predicates of the last section: a store reports
  the size and the checksum of the object it holds, and the local hasher hashes one read of some bytes.
  Texts of the reports are not modelled. The lemmas show that an assessment never throws on digests of
  real bytes, that a replica counts only when the store holds the bytes, and that a true copy is
  recognised in either form.
\<close>

section \<open>Replicas\<close>

datatype object_availability = Instant | Restoring "string option" | Archived string nat

record object_facts =
  of_sizeBytes :: nat
  of_checksumSha256 :: "string option"
  of_storageClass :: "string option"
  of_availability :: object_availability

datatype stat_answer = StatFailed string | StatAbsent | StatFacts object_facts

record replica_probe =
  probe_nodeId :: string
  probe_stat :: "string \<Rightarrow> stat_answer"

datatype replica_state =
  Confirmed | PresentUnverified | SizeMismatch | ChecksumMismatch | AbsentReplica | ProbeFailed

record replica_report =
  rep_nodeId :: string
  rep_state :: replica_state
  rep_readableNow :: bool
  rep_storageClass :: "string option"

record durability_verdict =
  durable :: bool
  confirmedReplicas :: nat
  instantReplicas :: nat
  unverifiedReplicas :: nat
  corruptionSuspected :: bool
  replicas :: "replica_report list"

text \<open>What hashing the local copy answers, when this node can hash it at all.\<close>

datatype local_answer = HashingFailed string | NoLocalCopy | LocalCopy file_part_digests

record durability_query =
  dq_objectStorageKey :: string
  dq_contentHash :: string
  dq_sizeBytes :: nat
  dq_localPartDigests :: "local_answer option"

section \<open>Probing\<close>

definition probeComposite ::
  "(nat list \<Rightarrow> nat list) \<Rightarrow> durability_query \<Rightarrow> string \<Rightarrow> nat \<Rightarrow> js_error + replica_state" where
  "probeComposite sha256 query reported partCount =
     (case dq_localPartDigests query of
        Some (LocalCopy d) \<Rightarrow>
          if dg_sha256Hex d \<noteq> dq_contentHash query \<or> dg_sizeBytes d \<noteq> dq_sizeBytes query then Inr PresentUnverified
          else (case compositeSha256Checksum sha256 (dg_partSha256Hex d) of
            Inl e \<Rightarrow> Inl e
          | Inr expected \<Rightarrow>
              if length (dg_partSha256Hex d) \<noteq> partCount \<or> expected \<noteq> reported then Inr ChecksumMismatch
              else Inr Confirmed)
      | _ \<Rightarrow> Inr PresentUnverified)"

definition replica_of :: "(nat list \<Rightarrow> nat list) \<Rightarrow> durability_query \<Rightarrow> object_facts \<Rightarrow> js_error + replica_state" where
  "replica_of sha256 query facts =
     (if of_sizeBytes facts \<noteq> dq_sizeBytes query then Inr SizeMismatch
      else case of_checksumSha256 facts of
        None \<Rightarrow> Inr PresentUnverified
      | Some checksum \<Rightarrow>
          (case compositePartCount checksum of
             Some partCount \<Rightarrow> probeComposite sha256 query checksum partCount
           | None \<Rightarrow>
               (case sha256Base64ToHex checksum of
                  None \<Rightarrow> Inr PresentUnverified
                | Some reported \<Rightarrow> if reported \<noteq> dq_contentHash query then Inr ChecksumMismatch else Inr Confirmed)))"

definition probeReplica :: "(nat list \<Rightarrow> nat list) \<Rightarrow> durability_query \<Rightarrow> replica_probe \<Rightarrow> js_error + replica_report" where
  "probeReplica sha256 query probe =
     (case probe_stat probe (dq_objectStorageKey query) of
        StatFailed _ \<Rightarrow> Inr \<lparr>rep_nodeId = probe_nodeId probe, rep_state = ProbeFailed, rep_readableNow = False, rep_storageClass = None\<rparr>
      | StatAbsent \<Rightarrow> Inr \<lparr>rep_nodeId = probe_nodeId probe, rep_state = AbsentReplica, rep_readableNow = False, rep_storageClass = None\<rparr>
      | StatFacts facts \<Rightarrow>
          map_sum id (\<lambda>state. \<lparr>rep_nodeId = probe_nodeId probe, rep_state = state,
              rep_readableNow = (of_availability facts = Instant), rep_storageClass = of_storageClass facts\<rparr>)
            (replica_of sha256 query facts))"

definition verdict_of :: "replica_report list \<Rightarrow> durability_verdict" where
  "verdict_of rs =
     (let confirmed = filter (\<lambda>r. rep_state r = Confirmed) rs
      in \<lparr>durable = (length confirmed \<ge> 1), confirmedReplicas = length confirmed,
          instantReplicas = length (filter rep_readableNow confirmed),
          unverifiedReplicas = length (filter (\<lambda>r. rep_state r = PresentUnverified) rs),
          corruptionSuspected = list_ex (\<lambda>r. rep_state r = ChecksumMismatch \<or> rep_state r = SizeMismatch) rs,
          replicas = rs\<rparr>)"

definition assessDurability :: "(nat list \<Rightarrow> nat list) \<Rightarrow> durability_query \<Rightarrow> replica_probe list \<Rightarrow> js_error + durability_verdict" where
  "assessDurability sha256 query probes = map_sum id verdict_of (all_results (map (probeReplica sha256 query) probes))"

section \<open>What a replica is evidence of\<close>

text \<open>
  The documented behaviour of an object store: what it reports of a key it has the object of is the
  object's size and, when it carries one, the checksum S3 computes: of the whole object, or the composite
  over the parts it was assembled from. \<open>known\<close> holds the byte strings that are hashed.
\<close>

definition store_reports ::
  "(nat list \<Rightarrow> nat list) \<Rightarrow> nat list set \<Rightarrow> (string \<Rightarrow> nat list option) \<Rightarrow> (string \<Rightarrow> stat_answer) \<Rightarrow> bool" where
  "store_reports sha256 known holds stat \<longleftrightarrow>
     (\<forall>key facts. stat key = StatFacts facts \<longrightarrow>
        (\<exists>bytes. holds key = Some bytes \<and> of_sizeBytes facts = length bytes
           \<and> (of_checksumSha256 facts = None \<or> of_checksumSha256 facts = Some (bytesToBase64 (sha256 bytes))
              \<or> (\<exists>parts. of_checksumSha256 facts = Some (composite_of sha256 parts) \<and> concat parts = bytes
                   \<and> set parts \<subseteq> known \<and> concat (map sha256 parts) \<in> known))))"

text \<open>A local answer with digests is one read of some bytes.\<close>

definition local_reads :: "(nat list \<Rightarrow> nat list) \<Rightarrow> nat list set \<Rightarrow> local_answer option \<Rightarrow> bool" where
  "local_reads sha256 known answer \<longleftrightarrow>
     (\<forall>d. answer = Some (LocalCopy d) \<longrightarrow>
        (\<exists>chunks. d = digestStream sha256 chunks
           \<and> set (parts_of MULTIPART_PART_BYTES (concat chunks)) \<subseteq> known
           \<and> concat (map sha256 (parts_of MULTIPART_PART_BYTES (concat chunks))) \<in> known))"

definition sound_hash :: "(nat list \<Rightarrow> nat list) \<Rightarrow> nat list set \<Rightarrow> bool" where
  "sound_hash sha256 known \<longleftrightarrow> (\<forall>bs. digest_bytes (sha256 bs)) \<and> inj_on sha256 known"

lemma sound_hashD: "sound_hash sha256 known \<Longrightarrow> digest_bytes (sha256 bs)"
  by (simp add: sound_hash_def)

lemma sound_hash_hex: "sound_hash sha256 known \<Longrightarrow> hexToBytes (bytes_to_hex (sha256 bs)) = sha256 bs"
  by (simp add: hex_of_bytes sound_hashD [unfolded digest_bytes_def])

text \<open>The composite a local copy gives, and that it never throws.\<close>

lemma local_composite:
  assumes "sound_hash sha256 known"
  shows "compositeSha256Checksum sha256 (dg_partSha256Hex (digestStream sha256 chunks))
    = Inr (composite_of sha256 (parts_of MULTIPART_PART_BYTES (concat chunks)))"
  by (simp add: digestStream_of_bytes Let_def composite_checksum [OF sound_hashD [OF assms]])

definition holds_the_bytes :: "(nat list \<Rightarrow> nat list) \<Rightarrow> (string \<Rightarrow> nat list option) \<Rightarrow> string \<Rightarrow> string \<Rightarrow> nat \<Rightarrow> bool" where
  "holds_the_bytes sha256 holds key hash sizeBytes \<longleftrightarrow>
     (\<exists>bytes. holds key = Some bytes \<and> length bytes = sizeBytes \<and> bytes_to_hex (sha256 bytes) = hash)"

lemma composite_evidence:
  assumes hash: "sound_hash sha256 known" and reads: "local_reads sha256 known (dq_localPartDigests query)"
    and parts: "set parts \<subseteq> known" "concat (map sha256 parts) \<in> known"
    and confirmed: "probeComposite sha256 query (composite_of sha256 parts) partCount = Inr Confirmed"
  shows "bytes_to_hex (sha256 (concat parts)) = dq_contentHash query"
proof -
  obtain d where d: "dq_localPartDigests query = Some (LocalCopy d)" "dg_sha256Hex d = dq_contentHash query"
      and same: "compositeSha256Checksum sha256 (dg_partSha256Hex d) = Inr (composite_of sha256 parts)"
    using confirmed by (auto simp: probeComposite_def split: option.splits local_answer.splits if_splits sum.splits)
  obtain chunks where chunks: "d = digestStream sha256 chunks" "set (parts_of MULTIPART_PART_BYTES (concat chunks)) \<subseteq> known"
      "concat (map sha256 (parts_of MULTIPART_PART_BYTES (concat chunks))) \<in> known"
    using reads d(1) by (auto simp: local_reads_def)
  have "composite_of sha256 (parts_of MULTIPART_PART_BYTES (concat chunks)) = composite_of sha256 parts"
    using same local_composite [OF hash, of chunks] by (simp add: chunks(1))
  then have "parts_of MULTIPART_PART_BYTES (concat chunks) = parts"
    using composite_inject [of sha256 "parts_of MULTIPART_PART_BYTES (concat chunks)" parts known] hash chunks(2,3) parts
    by (simp add: sound_hash_def)
  then have "concat parts = concat chunks" using concat_parts by metis
  then show ?thesis using d(2) chunks(1) by (simp add: digestStream_of_bytes Let_def)
qed

lemma replica_evidence:
  assumes hash: "sound_hash sha256 known" and reads: "local_reads sha256 known (dq_localPartDigests query)"
    and store: "store_reports sha256 known holds stat" "stat (dq_objectStorageKey query) = StatFacts facts"
    and confirmed: "replica_of sha256 query facts = Inr Confirmed"
  shows "holds_the_bytes sha256 holds (dq_objectStorageKey query) (dq_contentHash query) (dq_sizeBytes query)"
proof -
  obtain bytes where bytes: "holds (dq_objectStorageKey query) = Some bytes" "of_sizeBytes facts = length bytes"
    and form: "of_checksumSha256 facts = None \<or> of_checksumSha256 facts = Some (bytesToBase64 (sha256 bytes))
      \<or> (\<exists>parts. of_checksumSha256 facts = Some (composite_of sha256 parts) \<and> concat parts = bytes
           \<and> set parts \<subseteq> known \<and> concat (map sha256 parts) \<in> known)"
    using store by (metis store_reports_def)
  have size: "length bytes = dq_sizeBytes query" using confirmed bytes(2) by (auto simp: replica_of_def split: if_splits)
  have "bytes_to_hex (sha256 bytes) = dq_contentHash query"
    using form
  proof (elim disjE exE conjE)
    assume "of_checksumSha256 facts = None"
    then show ?thesis using confirmed by (simp add: replica_of_def split: if_splits)
  next
    assume "of_checksumSha256 facts = Some (bytesToBase64 (sha256 bytes))"
    then show ?thesis
      using confirmed whole_checksum [OF sound_hashD [OF hash], of bytes] by (simp add: replica_of_def split: if_splits)
  next
    fix parts
    assume parts: "of_checksumSha256 facts = Some (composite_of sha256 parts)" "concat parts = bytes"
      "set parts \<subseteq> known" "concat (map sha256 parts) \<in> known"
    have "sha256Base64ToHex (composite_of sha256 parts) = None" by (simp add: sha256Base64ToHex_def composite_of_def)
    then obtain n where "probeComposite sha256 query (composite_of sha256 parts) n = Inr Confirmed"
      using confirmed parts(1) by (auto simp: replica_of_def split: if_splits option.splits)
    from composite_evidence [OF hash reads parts(3,4) this] show ?thesis by (simp add: parts(2))
  qed
  then show ?thesis using bytes(1) size by (auto simp: holds_the_bytes_def)
qed

text \<open>No throw on digests of real bytes.\<close>

lemma probeComposite_total:
  assumes "sound_hash sha256 known" "local_reads sha256 known (dq_localPartDigests query)"
  shows "\<exists>state. probeComposite sha256 query reported n = Inr state"
proof (cases "\<exists>d. dq_localPartDigests query = Some (LocalCopy d)")
  case True
  then obtain chunks where "dq_localPartDigests query = Some (LocalCopy (digestStream sha256 chunks))"
    using assms(2) unfolding local_reads_def by blast
  then show ?thesis using local_composite [OF assms(1), of chunks] by (simp add: probeComposite_def)
next
  case False
  then show ?thesis by (auto simp: probeComposite_def split: option.split local_answer.split)
qed

lemma probeReplica_total:
  assumes "sound_hash sha256 known" "local_reads sha256 known (dq_localPartDigests query)"
  shows "\<exists>report. probeReplica sha256 query probe = Inr report"
proof -
  have "\<exists>state. replica_of sha256 query facts = Inr state" for facts
    using probeComposite_total [OF assms] by (auto simp: replica_of_def split: option.split)
  moreover have "\<exists>report. map_sum id f (Inr x) = Inr report" for f and x by simp
  ultimately show ?thesis
    unfolding probeReplica_def by (cases "probe_stat probe (dq_objectStorageKey query)") (simp_all, metis map_sum.simps(2))
qed

lemma assessed:
  assumes "assessDurability sha256 query probes = Inr verdict"
  shows "verdict = verdict_of (replicas verdict)" "map (probeReplica sha256 query) probes = map Inr (replicas verdict)"
proof -
  obtain rs where rs: "all_results (map (probeReplica sha256 query) probes) = Inr rs" "verdict = verdict_of rs"
    using assms by (cases "all_results (map (probeReplica sha256 query) probes)") (auto simp: assessDurability_def)
  then show "verdict = verdict_of (replicas verdict)" by (simp add: verdict_of_def Let_def)
  show "map (probeReplica sha256 query) probes = map Inr (replicas verdict)"
    using all_results_Inr [OF rs(1)] rs(2) by (simp add: verdict_of_def Let_def)
qed

lemma durable_has_replica: "durable (verdict_of rs) \<longleftrightarrow> (\<exists>r \<in> set rs. rep_state r = Confirmed)"
  by (auto simp: verdict_of_def Let_def Suc_le_eq filter_empty_conv length_greater_0_conv)

lemma durable_evidence:
  assumes hash: "sound_hash sha256 known" and reads: "local_reads sha256 known (dq_localPartDigests query)"
    and stores: "\<And>probe. probe \<in> set probes \<Longrightarrow> store_reports sha256 known (holds probe) (probe_stat probe)"
    and "assessDurability sha256 query probes = Inr verdict" "durable verdict"
  shows "\<exists>probe \<in> set probes. holds_the_bytes sha256 (holds probe) (dq_objectStorageKey query) (dq_contentHash query) (dq_sizeBytes query)"
proof -
  obtain report where report: "report \<in> set (replicas verdict)" "rep_state report = Confirmed"
    using assms(4,5) assessed(1) durable_has_replica by metis
  then have "Inr report \<in> set (map (probeReplica sha256 query) probes)" using assessed(2) [OF assms(4)] by simp
  then obtain probe where probe: "probe \<in> set probes" "probeReplica sha256 query probe = Inr report" by auto
  then obtain facts where facts: "probe_stat probe (dq_objectStorageKey query) = StatFacts facts"
    using report(2) by (auto simp: probeReplica_def split: stat_answer.splits)
  then have "replica_of sha256 query facts = Inr Confirmed"
    using probe(2) report(2) by (cases "replica_of sha256 query facts") (auto simp: probeReplica_def)
  then show ?thesis using replica_evidence [OF hash reads stores [OF probe(1)] facts] probe(1) by blast
qed

lemma assessment_total:
  assumes "sound_hash sha256 known" "local_reads sha256 known (dq_localPartDigests query)"
  shows "\<exists>verdict. assessDurability sha256 query probes = Inr verdict"
  using all_results_total [of "probeReplica sha256 query" probes] probeReplica_total [OF assms]
  by (auto simp: assessDurability_def)

text \<open>A true copy is confirmed: reported whole, or in parts against this node's own copy.\<close>

lemma true_copy_confirmed:
  assumes hash: "sound_hash sha256 known" and size: "of_sizeBytes facts = dq_sizeBytes query" "length bytes = dq_sizeBytes query"
    and content: "bytes_to_hex (sha256 bytes) = dq_contentHash query"
    and form: "of_checksumSha256 facts = Some (bytesToBase64 (sha256 bytes))
      \<or> of_checksumSha256 facts = Some (composite_of sha256 (parts_of MULTIPART_PART_BYTES bytes))
        \<and> length (parts_of MULTIPART_PART_BYTES bytes) \<le> MULTIPART_MAX_PARTS
        \<and> dq_localPartDigests query = Some (LocalCopy (digestStream sha256 [bytes]))"
  shows "replica_of sha256 query facts = Inr Confirmed"
  using form
proof
  assume "of_checksumSha256 facts = Some (bytesToBase64 (sha256 bytes))"
  then show ?thesis using whole_checksum [OF sound_hashD [OF hash], of bytes] size content by (simp add: replica_of_def)
next
  assume "of_checksumSha256 facts = Some (composite_of sha256 (parts_of MULTIPART_PART_BYTES bytes))
      \<and> length (parts_of MULTIPART_PART_BYTES bytes) \<le> MULTIPART_MAX_PARTS
      \<and> dq_localPartDigests query = Some (LocalCopy (digestStream sha256 [bytes]))"
  moreover from this have "compositePartCount (composite_of sha256 (parts_of MULTIPART_PART_BYTES bytes))
      = Some (length (parts_of MULTIPART_PART_BYTES bytes))"
    using composite_recognised [OF sound_hashD [OF hash]] by (simp add: Suc_le_eq)
  moreover have "dg_sha256Hex (digestStream sha256 [bytes]) = dq_contentHash query" "dg_sizeBytes (digestStream sha256 [bytes]) = dq_sizeBytes query"
      "length (dg_partSha256Hex (digestStream sha256 [bytes])) = length (parts_of MULTIPART_PART_BYTES bytes)"
    using size content by (simp_all add: digestStream_of_bytes Let_def)
  moreover have "compositeSha256Checksum sha256 (dg_partSha256Hex (digestStream sha256 [bytes]))
      = Inr (composite_of sha256 (parts_of MULTIPART_PART_BYTES bytes))"
    using local_composite [OF hash, of "[bytes]"] by simp
  ultimately show ?thesis using size by (simp add: replica_of_def probeComposite_def)
qed

section \<open>Claims\<close>

text \<open>
  C31. Letting go is safe: an assessment never throws on digests of real bytes, and a verdict that this
  node may drop its copy means that the store of some probe holds an object at the key with the
  record's size whose bytes hash to the record's content hash, whichever form of checksum the store
  reports. It rests on stores that report their own objects, a local hasher that reads its copy once,
  and no collision among the byte strings hashed.
\<close>

theorem durable_means_a_store_holds_the_bytes:
  assumes "sound_hash sha256 known" "local_reads sha256 known (dq_localPartDigests query)"
    "\<And>probe. probe \<in> set probes \<Longrightarrow> store_reports sha256 known (holds probe) (probe_stat probe)"
  shows "case assessDurability sha256 query probes of
      Inl e \<Rightarrow> False
    | Inr verdict \<Rightarrow> durable verdict \<longrightarrow>
        (\<exists>probe \<in> set probes.
           holds_the_bytes sha256 (holds probe) (dq_objectStorageKey query) (dq_contentHash query) (dq_sizeBytes query))"
  using assessment_total [OF assms(1,2), of probes] durable_evidence [OF assms] by auto

text \<open>A hash without collisions on two byte strings, a store that holds one byte in one part, and its query.\<close>

definition sample_hash :: "nat list \<Rightarrow> nat list" where
  "sample_hash bs = replicate 32 (if bs = [7] then 1 else 0)"

definition sample_store :: "string \<Rightarrow> stat_answer" where
  "sample_store key =
     (if key = ''k'' then StatFacts \<lparr>of_sizeBytes = 1, of_checksumSha256 = Some (composite_of sample_hash [[7]]),
        of_storageClass = None, of_availability = Instant\<rparr> else StatAbsent)"

definition sample_query :: durability_query where
  "sample_query = \<lparr>dq_objectStorageKey = ''k'', dq_contentHash = bytes_to_hex (sample_hash [7]), dq_sizeBytes = 1,
     dq_localPartDigests = Some (LocalCopy (digestStream sample_hash [[7]]))\<rparr>"

lemma sample_hash_sound: "sound_hash sample_hash {[7], replicate 32 1}"
  by (auto simp: sound_hash_def digest_bytes_def sample_hash_def inj_on_def list_all_iff)

lemma sample_parts: "parts_of MULTIPART_PART_BYTES [7] = [[7]]"
  by (simp add: parts_of.simps MULTIPART_PART_BYTES_def)

lemma sample_durable:
  "assessDurability sample_hash sample_query [\<lparr>probe_nodeId = ''cloud'', probe_stat = sample_store\<rparr>]
    = Inr (verdict_of [\<lparr>rep_nodeId = ''cloud'', rep_state = Confirmed, rep_readableNow = True, rep_storageClass = None\<rparr>])"
proof -
  have "replica_of sample_hash sample_query \<lparr>of_sizeBytes = 1, of_checksumSha256 = Some (composite_of sample_hash [[7]]),
      of_storageClass = None, of_availability = Instant\<rparr> = Inr Confirmed"
    by (rule true_copy_confirmed [OF sample_hash_sound, where bytes = "[7]"])
      (simp_all add: sample_query_def sample_parts MULTIPART_MAX_PARTS_def)
  then show ?thesis by (simp add: assessDurability_def probeReplica_def sample_store_def sample_query_def)
qed

lemma sample_reads: "local_reads sample_hash {[7], replicate 32 1} (Some (LocalCopy (digestStream sample_hash [[7]])))"
  by (simp add: local_reads_def) (intro exI [of _ "[[7]]"], simp add: sample_parts sample_hash_def)

lemma sample_reports:
  "store_reports sample_hash {[7], replicate 32 1} (\<lambda>key. if key = ''k'' then Some [7] else None) sample_store"
  by (auto simp: store_reports_def sample_store_def sample_hash_def intro!: exI [of _ "[[7]]"])

lemma durable_means_a_store_holds_the_bytes_witness:
  "holds_the_bytes sample_hash (\<lambda>key. if key = ''k'' then Some [7] else None) ''k'' (bytes_to_hex (sample_hash [7])) 1"
proof -
  have "local_reads sample_hash {[7], replicate 32 1} (dq_localPartDigests sample_query)"
    using sample_reads by (simp add: sample_query_def)
  then show ?thesis
    using durable_means_a_store_holds_the_bytes [OF sample_hash_sound, of sample_query
        "[\<lparr>probe_nodeId = ''cloud'', probe_stat = sample_store\<rparr>]" "\<lambda>_ key. if key = ''k'' then Some [7] else None"] sample_reports
    unfolding sample_durable by (simp add: verdict_of_def Let_def) (simp add: sample_query_def)
qed

end
