(* ===== verification/Free_Up_Space.thy ===== *)
theory Free_Up_Space
  imports Record_Queries Durability
begin

text \<open>
  "Free up space": the pass that removes files a stand-in can replace,
  \<open>packages/sync-engine/src/free-up-space.ts\<close>.

  The local store is the map of the keys it objects to their bytes; its own calls are taken to succeed.
  Hashing a local copy is a function of that store, since an earlier removal takes a copy away. What throws ends
  the pass and leaves the store as far as it got. The texts of refusals are not modelled.

  The lemmas show that only proved files leave the store, that the proof covers the file, its original
  and the canonical stand-in, and that the pass stops once enough is free.
\<close>

section \<open>The request and the report\<close>

type_synonym object_store = "(string, nat list) js_map"

datatype free_scope = Originals | OriginalsAndAboveCeiling
datatype file_kind = OriginalFile | StandInFile
datatype refusal_reason = NotDurable | NoCanonical | RecordMissing
datatype durability_proof = ProofOk | ProofRefused refusal_reason
datatype fault = StoreFault store_error | CodeFault js_error

record free_request =
  fr_bytes :: js_number
  fr_scope :: free_scope
  fr_probes :: "replica_probe list"
  fr_dryRun :: bool

record free_item =
  fi_recordId :: string
  fi_objectStorageKey :: string
  fi_sizeBytes :: nat
  fi_kind :: file_kind

record free_report =
  rp_requestedBytes :: js_number
  rp_freedBytes :: nat
  rp_removed :: "free_item list"
  rp_refused :: "(free_item \<times> refusal_reason) list"
  rp_eligibleBytes :: nat
  rp_dryRun :: bool

text \<open>What the proof reads, and what the pass reads besides: \<open>fd_digests\<close> hashes a key's local copy.\<close>

record proof_deps =
  pd_table :: record_table
  pd_env :: record_env
  pd_codec :: cursor_codec
  pd_standards :: standards

record free_deps = proof_deps +
  fd_ceilingOf :: "blob_candidate \<Rightarrow> ceiling_placement"
  fd_borrowsBytes :: "string \<Rightarrow> bool"
  fd_digests :: "(object_store \<Rightarrow> string \<Rightarrow> local_answer) option"

record free_candidate =
  fc_record :: data_record
  fc_candidate :: blob_candidate
  fc_kind :: file_kind

text \<open>
  \<open>localPartDigestsFor\<close>: the platform's hasher when the store can name the file, and otherwise a
  stream, here of one chunk.
\<close>

definition localPartDigestsFor ::
  "(nat list \<Rightarrow> nat list) \<Rightarrow> (string \<Rightarrow> string option) \<Rightarrow> (string \<Rightarrow> nat \<Rightarrow> local_answer) option
    \<Rightarrow> object_store \<Rightarrow> string \<Rightarrow> local_answer" where
  "localPartDigestsFor sha256 localFileUriFor hashFileParts storage key =
     (case (hashFileParts, localFileUriFor key) of
        (Some hash, Some uri) \<Rightarrow> hash uri MULTIPART_PART_BYTES
      | _ \<Rightarrow> (case js_get storage key of
          Some bytes \<Rightarrow> LocalCopy (digestStream sha256 [bytes])
        | None \<Rightarrow> NoLocalCopy))"

section \<open>What may be removed\<close>

definition ENUMERATION_PAGE :: nat where "ENUMERATION_PAGE = 500"

definition standard_types :: "standards \<Rightarrow> string list" where
  "standard_types st = filter (\<lambda>t. standardsFor t st \<noteq> None) (map type_id TYPES)"

definition scope_shapes :: "free_scope \<Rightarrow> (string \<times> filter_test) list list" where
  "scope_shapes scope =
     [(''parentId'', TIsNull), (''standInRole'', TIsNull)]
     # (if scope = OriginalsAndAboveCeiling
        then [[(''standInRole'', TIn [Some (QText ''canonical''), Some (QText ''smaller'')])]] else [])"

definition shape_query :: "standards \<Rightarrow> (string \<times> filter_test) list \<Rightarrow> record_query" where
  "shape_query st shape =
     filter_query ([(''type'', TIn (map (\<lambda>t. Some (QText t)) (standard_types st))), (''deletedAt'', TIsNull)] @ shape)
       ENUMERATION_PAGE"

definition candidate_of :: "free_deps \<Rightarrow> object_store \<Rightarrow> data_record \<Rightarrow> free_candidate option" where
  "candidate_of deps store r =
     (case blobCandidateForRecord r of
        None \<Rightarrow> None
      | Some c \<Rightarrow>
          if fd_ceilingOf deps c \<noteq> Above then None
          else if fd_borrowsBytes deps (objectStorageKey r) then None
          else if js_get store (objectStorageKey r) = None then None
          else Some \<lparr>fc_record = r, fc_candidate = c,
            fc_kind = (if standInRole r = None then OriginalFile else StandInFile)\<rparr>)"

fun read_shapes :: "free_deps \<Rightarrow> (string \<times> filter_test) list list \<Rightarrow> (store_error + data_record list) option" where
  "read_shapes deps [] = Some (Inr [])"
| "read_shapes deps (shape # shapes) =
     (case read_all (pd_codec deps) (pd_env deps) (shape_query (pd_standards deps) shape) (pd_table deps) of
        None \<Rightarrow> None
      | Some (Inl e) \<Rightarrow> Some (Inl e)
      | Some (Inr rs) \<Rightarrow> map_option (map_sum id ((@) rs)) (read_shapes deps shapes))"

text \<open>Largest first; \<open>None\<close> is a paging loop that never ends.\<close>

definition eligible :: "free_deps \<Rightarrow> object_store \<Rightarrow> free_scope \<Rightarrow> (fault + free_candidate list) option" where
  "eligible deps store scope =
     map_option (map_sum StoreFault
         (\<lambda>rs. sort_key (\<lambda>c. - int (rec_sizeBytes (fc_record c))) (List.map_filter (candidate_of deps store) rs)))
       (read_shapes deps (scope_shapes scope))"

section \<open>What has to be proved\<close>

definition hexHash :: "string \<Rightarrow> string" where
  "hexHash hash = (if js_starts_with hash ''sha256:'' then drop (length ''sha256:'') hash else hash)"

definition canonical_query :: "string \<Rightarrow> record_query" where
  "canonical_query originalId =
     filter_query [(''parentId'', TEq (Some (QText originalId))), (''standInRole'', TEq (Some (QText ''canonical''))),
       (''deletedAt'', TIsNull)] 1"

definition original_of :: "('a) proof_deps_scheme \<Rightarrow> data_record \<Rightarrow> store_error + data_record option" where
  "original_of deps r =
     (if standInRole r = None \<and> parentId r = None then Inr (Some r)
      else case truthy_text (parentId r) of Some p \<Rightarrow> get_record p (pd_table deps) | None \<Rightarrow> Inr None)"

text \<open>A refusal, or the records to prove: a map by id in the order they were added.\<close>

definition addStandInClauses ::
  "('a) proof_deps_scheme \<Rightarrow> data_record \<Rightarrow> (string, data_record) js_map
    \<Rightarrow> fault + (durability_proof + (string, data_record) js_map)" where
  "addStandInClauses deps r toProve =
     (case original_of deps r of
        Inl e \<Rightarrow> Inl (StoreFault e)
      | Inr None \<Rightarrow> Inr (Inl (ProofRefused RecordMissing))
      | Inr (Some original) \<Rightarrow>
          if deletedAt original \<noteq> None \<or> \<not> isStandInOriginal (facts_of_record original)
          then Inr (Inl (ProofRefused RecordMissing))
          else let toProve = js_set (rec_id original) original toProve
               in if originalStatus (facts_of_record original) (pd_standards deps) = Some SelfCanonical then Inr (Inr toProve)
                  else case query_records (pd_codec deps) (pd_env deps) (canonical_query (rec_id original)) (pd_table deps) of
                    Inl e \<Rightarrow> Inl (StoreFault e)
                  | Inr page \<Rightarrow>
                      (case pg_records page of
                         [] \<Rightarrow> Inr (Inl (ProofRefused NoCanonical))
                       | canonical # _ \<Rightarrow> Inr (Inr (js_set (rec_id canonical) canonical toProve))))"

definition record_durability_query :: "(string \<Rightarrow> local_answer) option \<Rightarrow> data_record \<Rightarrow> durability_query" where
  "record_durability_query digests r =
     \<lparr>dq_objectStorageKey = objectStorageKey r, dq_contentHash = hexHash (contentHash r), dq_sizeBytes = rec_sizeBytes r,
      dq_localPartDigests = (case digests of None \<Rightarrow> None | Some hash \<Rightarrow> Some (hash (objectStorageKey r)))\<rparr>"

fun prove_each ::
  "(nat list \<Rightarrow> nat list) \<Rightarrow> (string \<Rightarrow> local_answer) option \<Rightarrow> replica_probe list \<Rightarrow> data_record list \<Rightarrow> fault + durability_proof" where
  "prove_each sha256 digests probes [] = Inr ProofOk"
| "prove_each sha256 digests probes (r # rs) =
     (case assessDurability sha256 (record_durability_query digests r) probes of
        Inl e \<Rightarrow> Inl (CodeFault e)
      | Inr verdict \<Rightarrow>
          if \<not> durable verdict then Inr (ProofRefused NotDurable) else prove_each sha256 digests probes rs)"

definition proveCloudCopies ::
  "(nat list \<Rightarrow> nat list) \<Rightarrow> ('a) proof_deps_scheme \<Rightarrow> (string \<Rightarrow> local_answer) option \<Rightarrow> replica_probe list \<Rightarrow> data_record
    \<Rightarrow> fault + durability_proof" where
  "proveCloudCopies sha256 deps digests probes r =
     (let inStandInCategory = standInRole r \<noteq> None \<or> parentId r \<noteq> None \<or> isStandInOriginal (facts_of_record r)
      in case (if inStandInCategory then addStandInClauses deps r [(rec_id r, r)] else Inr (Inr [(rec_id r, r)])) of
           Inl e \<Rightarrow> Inl e
         | Inr (Inl refusal) \<Rightarrow> Inr refusal
         | Inr (Inr toProve) \<Rightarrow> prove_each sha256 digests probes (map snd toProve))"

section \<open>The pass\<close>

record pass_state =
  ps_store :: object_store
  ps_departed :: "blob_candidate list"
  ps_removed :: "free_item list"
  ps_refused :: "(free_item \<times> refusal_reason) list"
  ps_freed :: nat

text \<open>\<open>Math.max(0, Math.floor(bytes))\<close>, and whether so many bytes are free.\<close>

definition want_bytes :: "js_number \<Rightarrow> js_number" where
  "want_bytes n = (case n of JsRat q \<Rightarrow> JsRat (of_int (max 0 \<lfloor>q\<rfloor>)) | JsNegInf \<Rightarrow> JsRat 0 | _ \<Rightarrow> n)"

definition free_enough :: "js_number \<Rightarrow> nat \<Rightarrow> bool" where
  "free_enough want freed = (case want of JsRat q \<Rightarrow> of_nat freed \<ge> q | JsNegInf \<Rightarrow> True | _ \<Rightarrow> False)"

definition free_item_of :: "free_candidate \<Rightarrow> free_item" where
  "free_item_of c =
     \<lparr>fi_recordId = rec_id (fc_record c), fi_objectStorageKey = objectStorageKey (fc_record c),
      fi_sizeBytes = rec_sizeBytes (fc_record c), fi_kind = fc_kind c\<rparr>"

definition remove_file :: "bool \<Rightarrow> free_candidate \<Rightarrow> pass_state \<Rightarrow> pass_state" where
  "remove_file dryRun c s =
     (let s' = (if dryRun then s
                else s\<lparr>ps_store := js_delete (objectStorageKey (fc_record c)) (ps_store s),
                       ps_departed := ps_departed s @ [fc_candidate c]\<rparr>)
      in s'\<lparr>ps_removed := ps_removed s @ [free_item_of c], ps_freed := ps_freed s + rec_sizeBytes (fc_record c)\<rparr>)"

fun free_pass ::
  "(nat list \<Rightarrow> nat list) \<Rightarrow> free_deps \<Rightarrow> free_request \<Rightarrow> free_candidate list \<Rightarrow> pass_state \<Rightarrow> pass_state \<times> fault option" where
  "free_pass sha256 deps request [] s = (s, None)"
| "free_pass sha256 deps request (c # cs) s =
     (if free_enough (want_bytes (fr_bytes request)) (ps_freed s) then (s, None)
      else case proveCloudCopies sha256 deps (map_option (\<lambda>hash. hash (ps_store s)) (fd_digests deps)) (fr_probes request) (fc_record c) of
        Inl e \<Rightarrow> (s, Some e)
      | Inr (ProofRefused reason) \<Rightarrow> free_pass sha256 deps request cs (s\<lparr>ps_refused := ps_refused s @ [(free_item_of c, reason)]\<rparr>)
      | Inr ProofOk \<Rightarrow> free_pass sha256 deps request cs (remove_file (fr_dryRun request) c s))"

definition freeUpSpaceOn ::
  "(nat list \<Rightarrow> nat list) \<Rightarrow> free_deps \<Rightarrow> free_request \<Rightarrow> object_store \<Rightarrow> (pass_state \<times> (fault + free_report)) option" where
  "freeUpSpaceOn sha256 deps request store =
     (let start = \<lparr>ps_store = store, ps_departed = [], ps_removed = [], ps_refused = [], ps_freed = 0\<rparr>
      in map_option (\<lambda>candidates.
           case candidates of
             Inl e \<Rightarrow> (start, Inl e)
           | Inr cs \<Rightarrow>
               (case free_pass sha256 deps request cs start of
                  (s, Some e) \<Rightarrow> (s, Inl e)
                | (s, None) \<Rightarrow>
                    (s, Inr \<lparr>rp_requestedBytes = want_bytes (fr_bytes request), rp_freedBytes = ps_freed s,
                       rp_removed = ps_removed s, rp_refused = ps_refused s,
                       rp_eligibleBytes = sum_list (map (\<lambda>c. rec_sizeBytes (fc_record c)) cs), rp_dryRun = fr_dryRun request\<rparr>)))
         (eligible deps store (fr_scope request)))"

section \<open>What a removal rests on\<close>

definition cloud_has ::
  "(nat list \<Rightarrow> nat list) \<Rightarrow> (replica_probe \<Rightarrow> string \<Rightarrow> nat list option) \<Rightarrow> replica_probe list \<Rightarrow> data_record \<Rightarrow> bool" where
  "cloud_has sha256 objects probes r \<longleftrightarrow>
     (\<exists>probe \<in> set probes. holds_the_bytes sha256 (objects probe) (objectStorageKey r) (hexHash (contentHash r)) (rec_sizeBytes r))"

text \<open>
  What is relied on: the hash, a local hasher that reads what the store holds, or held before some
  removals, and stores that report what they hold.
\<close>

definition part_of_store :: "object_store \<Rightarrow> object_store \<Rightarrow> bool" where
  "part_of_store store whole \<longleftrightarrow> (\<forall>key. js_get store key = None \<or> js_get store key = js_get whole key)"

definition honest_world ::
  "(nat list \<Rightarrow> nat list) \<Rightarrow> nat list set \<Rightarrow> (replica_probe \<Rightarrow> string \<Rightarrow> nat list option) \<Rightarrow> replica_probe list
    \<Rightarrow> (object_store \<Rightarrow> string \<Rightarrow> local_answer) option \<Rightarrow> object_store \<Rightarrow> bool" where
  "honest_world sha256 known objects probes digests whole \<longleftrightarrow>
     sound_hash sha256 known
     \<and> (\<forall>hash store key. digests = Some hash \<longrightarrow> part_of_store store whole \<longrightarrow> local_reads sha256 known (Some (hash store key)))
     \<and> (\<forall>probe \<in> set probes. store_reports sha256 known (objects probe) (probe_stat probe))"

lemma proved_record:
  assumes "honest_world sha256 known objects probes digests whole" "part_of_store store whole"
    and "assessDurability sha256 (record_durability_query (map_option (\<lambda>hash. hash store) digests) r) probes = Inr verdict"
    and "durable verdict"
  shows "cloud_has sha256 objects probes r"
proof -
  have "local_reads sha256 known (dq_localPartDigests (record_durability_query (map_option (\<lambda>hash. hash store) digests) r))"
    using assms(1,2) by (cases digests) (auto simp: record_durability_query_def honest_world_def local_reads_def)
  from durable_evidence [OF _ this _ assms(3,4), of objects] assms(1) show ?thesis
    by (simp add: honest_world_def cloud_has_def record_durability_query_def)
qed

lemma prove_each_proves:
  assumes "honest_world sha256 known objects probes digests whole" "part_of_store store whole"
    and "prove_each sha256 (map_option (\<lambda>hash. hash store) digests) probes rs = Inr ProofOk" "r \<in> set rs"
  shows "cloud_has sha256 objects probes r"
  using assms(3,4)
proof (induction rs)
  case (Cons q rs)
  then obtain verdict where
      "assessDurability sha256 (record_durability_query (map_option (\<lambda>hash. hash store) digests) q) probes = Inr verdict"
      "durable verdict" "prove_each sha256 (map_option (\<lambda>hash. hash store) digests) probes rs = Inr ProofOk"
    by (auto split: sum.splits if_splits)
  then show ?case using Cons proved_record [OF assms(1,2)] by auto
qed simp

text \<open>Records of the table are one per id.\<close>

definition stored :: "record_table \<Rightarrow> data_record \<Rightarrow> bool" where
  "stored table r \<longleftrightarrow> (\<exists>row \<in> set table. rowToRecord row = Inr r)"

lemma stored_unique:
  assumes "distinct (map row_id table)" "stored table a" "stored table b" "rec_id a = rec_id b"
  shows "a = b"
proof -
  obtain ra rb where rows: "ra \<in> set table" "rowToRecord ra = Inr a" "rb \<in> set table" "rowToRecord rb = Inr b"
    using assms(2,3) by (auto simp: stored_def)
  then have "row_id ra = row_id rb" using assms(4) rowToRecord_fields(1) by metis
  then have "ra = rb" using assms(1) rows(1,3) by (auto simp: distinct_map dest: inj_onD)
  then show ?thesis using rows by simp
qed

lemma get_record_stored:
  assumes "get_record p table = Inr (Some r)"
  shows "stored table r \<and> rec_id r = p"
proof -
  obtain row where "find (\<lambda>row. row_id row = p) table = Some row" "rowToRecord row = Inr r"
    using assms by (auto simp: get_record_def split: option.splits sum.splits)
  then show ?thesis using rowToRecord_fields(1) by (fastforce simp: stored_def find_Some_iff)
qed

lemma canonical_answer:
  assumes "query_records codec env (canonical_query p) table = Inr page" "pg_records page = canonical # rest" "p \<noteq> []"
  shows "stored table canonical \<and> parentId canonical = Some p \<and> standInRole canonical = Some Canonical \<and> deletedAt canonical = None"
proof -
  obtain row where row: "row \<in> set table" "applyFilters env (canonical_query p) row" "rowToRecord row = Inr canonical"
    using query_answers [OF assms(1), of canonical] assms(2) by auto
  then have "row_parent_id row = Some p" "row_stand_in_role row = Some ''canonical''" "row_deleted_at row = None"
    unfolding canonical_query_def filter_query_rows by auto
  then show ?thesis
    using rowToRecord_fields [OF row(3)] row(1,3) assms(3)
    by (auto simp: stored_def role_of_value_def truthy_text_def split: list.splits)
qed

text \<open>What a removed file leaves behind: its original and something to show in its place.\<close>

definition replaceable ::
  "(nat list \<Rightarrow> nat list) \<Rightarrow> (replica_probe \<Rightarrow> string \<Rightarrow> nat list option) \<Rightarrow> replica_probe list \<Rightarrow> ('a) proof_deps_scheme
    \<Rightarrow> data_record \<Rightarrow> bool" where
  "replaceable sha256 objects probes deps r \<longleftrightarrow>
     cloud_has sha256 objects probes r
     \<and> (\<exists>original. (original = r \<or> parentId r = Some (rec_id original) \<and> stored (pd_table deps) original)
          \<and> deletedAt original = None \<and> isStandInOriginal (facts_of_record original) \<and> cloud_has sha256 objects probes original
          \<and> (originalStatus (facts_of_record original) (pd_standards deps) = Some SelfCanonical
             \<or> (\<exists>canonical. stored (pd_table deps) canonical \<and> parentId canonical = Some (rec_id original)
                  \<and> standInRole canonical = Some Canonical \<and> deletedAt canonical = None \<and> cloud_has sha256 objects probes canonical)))"

text \<open>Records are proved once however many roles they play.\<close>

definition by_id :: "record_table \<Rightarrow> (string, data_record) js_map \<Rightarrow> bool" where
  "by_id table m \<longleftrightarrow> list_all (\<lambda>(k, r). k = rec_id r \<and> stored table r) m"

lemma by_id_set:
  assumes "distinct (map row_id table)" "by_id table m" "stored table r"
  shows "by_id table (js_set (rec_id r) r m) \<and> snd ` set (js_set (rec_id r) r m) = insert r (snd ` set m)"
  using assms(2)
proof (induction m)
  case (Cons kv m)
  obtain k q where kv: "kv = (k, q)" by (cases kv)
  have q: "k = rec_id q" "stored table q" using Cons.prems by (simp_all add: by_id_def kv)
  show ?case
  proof (cases "rec_id r = rec_id q")
    case True
    then have "r = q" by (rule stored_unique [OF assms(1,3) q(2)])
    then show ?thesis using Cons.prems q by (simp add: by_id_def kv)
  next
    case False
    then show ?thesis using Cons q by (simp add: by_id_def kv insert_commute)
  qed
qed (simp add: by_id_def assms(3))

lemma clauses_refuse:
  assumes "addStandInClauses deps r toProve = Inr (Inl p)"
  shows "p \<noteq> ProofOk"
proof (cases "original_of deps r")
  case (Inr answer)
  show ?thesis
  proof (cases answer)
    case (Some original)
    then show ?thesis
      using assms Inr by (cases "query_records (pd_codec deps) (pd_env deps) (canonical_query (rec_id original)) (pd_table deps)")
        (auto simp: addStandInClauses_def Let_def split: if_splits list.splits)
  qed (use assms Inr in \<open>auto simp: addStandInClauses_def\<close>)
qed (use assms in \<open>auto simp: addStandInClauses_def\<close>)

lemma clauses_original:
  assumes "addStandInClauses deps r toProve = Inr (Inr all)"
  obtains original where "original_of deps r = Inr (Some original)" "deletedAt original = None"
    "isStandInOriginal (facts_of_record original)"
    "originalStatus (facts_of_record original) (pd_standards deps) = Some SelfCanonical \<Longrightarrow> all = js_set (rec_id original) original toProve"
    "originalStatus (facts_of_record original) (pd_standards deps) \<noteq> Some SelfCanonical \<Longrightarrow>
      \<exists>page canonical rest. query_records (pd_codec deps) (pd_env deps) (canonical_query (rec_id original)) (pd_table deps) = Inr page
        \<and> pg_records page = canonical # rest
        \<and> all = js_set (rec_id canonical) canonical (js_set (rec_id original) original toProve)"
proof (cases "original_of deps r")
  case (Inr answer)
  then obtain original where some: "answer = Some original" using assms by (cases answer) (auto simp: addStandInClauses_def)
  have live: "deletedAt original = None" "isStandInOriginal (facts_of_record original)"
    using assms Inr some by (auto simp: addStandInClauses_def split: if_splits)
  show thesis
  proof (rule that [OF _ live])
    show "original_of deps r = Inr (Some original)" by (simp add: Inr some)
  next
    assume "originalStatus (facts_of_record original) (pd_standards deps) = Some SelfCanonical"
    then show "all = js_set (rec_id original) original toProve"
      using assms live by (simp add: addStandInClauses_def Inr some Let_def)
  next
    assume "originalStatus (facts_of_record original) (pd_standards deps) \<noteq> Some SelfCanonical"
    then show "\<exists>page canonical rest. query_records (pd_codec deps) (pd_env deps) (canonical_query (rec_id original)) (pd_table deps) = Inr page
        \<and> pg_records page = canonical # rest
        \<and> all = js_set (rec_id canonical) canonical (js_set (rec_id original) original toProve)"
      using assms live
      by (cases "query_records (pd_codec deps) (pd_env deps) (canonical_query (rec_id original)) (pd_table deps)")
        (auto simp: addStandInClauses_def Inr some Let_def split: list.splits)
  qed
qed (use assms in \<open>auto simp: addStandInClauses_def\<close>)

lemma proof_covers:
  assumes world: "honest_world sha256 known objects probes digests whole" "part_of_store store whole"
    and table: "distinct (map row_id (pd_table deps))" "list_all (\<lambda>row. row_id row \<noteq> []) (pd_table deps)"
    and r: "stored (pd_table deps) r" "standInRole r \<noteq> None \<or> isStandInOriginal (facts_of_record r)"
    and ok: "proveCloudCopies sha256 deps (map_option (\<lambda>hash. hash store) digests) probes r = Inr ProofOk"
  shows "replaceable sha256 objects probes deps r"
proof -
  have "standInRole r \<noteq> None \<or> parentId r \<noteq> None \<or> isStandInOriginal (facts_of_record r)" using r(2) by blast
  then have "(case addStandInClauses deps r [(rec_id r, r)] of
      Inl e \<Rightarrow> Inl e
    | Inr (Inl refusal) \<Rightarrow> Inr refusal
    | Inr (Inr toProve) \<Rightarrow> prove_each sha256 (map_option (\<lambda>hash. hash store) digests) probes (map snd toProve)) = Inr ProofOk"
    using ok unfolding proveCloudCopies_def Let_def by simp
  then obtain toProve where toProve: "addStandInClauses deps r [(rec_id r, r)] = Inr (Inr toProve)"
      and all: "prove_each sha256 (map_option (\<lambda>hash. hash store) digests) probes (map snd toProve) = Inr ProofOk"
    using clauses_refuse [of deps r "[(rec_id r, r)]"] by (auto split: sum.splits)
  have has: "cloud_has sha256 objects probes q" if "q \<in> snd ` set toProve" for q
    using prove_each_proves [OF world all] that by simp
  from clauses_original [OF toProve] obtain original
    where original: "original_of deps r = Inr (Some original)" "deletedAt original = None" "isStandInOriginal (facts_of_record original)"
      and alone: "originalStatus (facts_of_record original) (pd_standards deps) = Some SelfCanonical \<Longrightarrow>
        toProve = js_set (rec_id original) original [(rec_id r, r)]"
      and paired: "originalStatus (facts_of_record original) (pd_standards deps) \<noteq> Some SelfCanonical \<Longrightarrow>
        \<exists>page canonical rest. query_records (pd_codec deps) (pd_env deps) (canonical_query (rec_id original)) (pd_table deps) = Inr page
          \<and> pg_records page = canonical # rest
          \<and> toProve = js_set (rec_id canonical) canonical (js_set (rec_id original) original [(rec_id r, r)])"
    by blast
  have place: "original = r \<or> parentId r = Some (rec_id original) \<and> stored (pd_table deps) original"
    using original(1) get_record_stored
    by (auto simp: original_of_def truthy_text_def split: if_splits option.splits list.splits)
  then have stored: "stored (pd_table deps) original" using r(1) by blast
  have id: "rec_id original \<noteq> []"
    using stored table(2) rowToRecord_fields(1) by (fastforce simp: stored_def list_all_iff)
  let ?first = "js_set (rec_id original) original [(rec_id r, r)]"
  have first: "by_id (pd_table deps) ?first" "snd ` set ?first = {r, original}"
    using by_id_set [OF table(1) _ stored, of "[(rec_id r, r)]"] r(1) by (auto simp: by_id_def)
  show ?thesis
  proof (cases "originalStatus (facts_of_record original) (pd_standards deps) = Some SelfCanonical")
    case True
    then have "toProve = ?first" by (rule alone)
    then show ?thesis using True first has place original by (auto simp: replaceable_def)
  next
    case False
    then obtain page canonical rest where page: "query_records (pd_codec deps) (pd_env deps) (canonical_query (rec_id original)) (pd_table deps) = Inr page"
        "pg_records page = canonical # rest" "toProve = js_set (rec_id canonical) canonical ?first"
      using paired by blast
    note canonical = canonical_answer [OF page(1,2) id]
    then have "snd ` set toProve = {canonical, r, original}"
      using by_id_set [OF table(1) first(1), of canonical] first(2) by (simp add: page(3))
    then have "cloud_has sha256 objects probes q" if "q = canonical \<or> q = r \<or> q = original" for q using has that by blast
    then have cloud: "cloud_has sha256 objects probes canonical" "cloud_has sha256 objects probes r" "cloud_has sha256 objects probes original"
      by blast+
    show ?thesis
      unfolding replaceable_def
      by (intro conjI exI [of _ original] disjI2 exI [of _ canonical] cloud original(2,3) place) (simp_all add: canonical)
  qed
qed

section \<open>The pass removes only what is proved\<close>

lemma eligible_candidates:
  assumes "eligible deps store scope = Some (Inr cs)" "c \<in> set cs"
  shows "stored (pd_table deps) (fc_record c) \<and> deletedAt (fc_record c) = None
    \<and> (standInRole (fc_record c) \<noteq> None \<or> isStandInOriginal (facts_of_record (fc_record c)))
    \<and> candidate_of deps store (fc_record c) = Some c"
proof -
  obtain rs where rs: "read_shapes deps (scope_shapes scope) = Some (Inr rs)"
      and "set cs = set (List.map_filter (candidate_of deps store) rs)"
  proof (cases "read_shapes deps (scope_shapes scope)")
    case (Some answer)
    then show thesis using assms(1) that by (cases answer) (auto simp: eligible_def)
  qed (use assms(1) in \<open>simp add: eligible_def\<close>)
  then obtain r where r: "r \<in> set rs" "candidate_of deps store r = Some c" using assms(2) by (auto simp: map_filter_def)
  then have c: "fc_record c = r" by (auto simp: candidate_of_def split: option.splits if_splits)
  have "\<exists>shape \<in> set shapes. \<exists>row \<in> set (pd_table deps). applyFilters (pd_env deps) (shape_query (pd_standards deps) shape) row \<and> rowToRecord row = Inr r"
    if "read_shapes deps shapes = Some (Inr rs)" "r \<in> set rs" for shapes rs
    using that
  proof (induction shapes arbitrary: rs)
    case (Cons shape shapes)
    obtain here there where parts: "read_all (pd_codec deps) (pd_env deps) (shape_query (pd_standards deps) shape) (pd_table deps) = Some (Inr here)"
        "read_shapes deps shapes = Some (Inr there)" "rs = here @ there"
    proof (cases "read_shapes deps shapes")
      case None
      then show thesis using Cons.prems(1) by (simp split: option.splits sum.splits)
    next
      case (Some answer)
      then show thesis using Cons.prems(1) that by (cases answer) (auto split: option.splits sum.splits)
    qed
    have "r \<in> set here \<or> r \<in> set there" using Cons.prems(2) parts(3) by simp
    then show ?case using read_all_answers [OF parts(1)] Cons.IH [OF parts(2)] unfolding list.set by blast
  qed simp
  from this [OF rs r(1)] obtain shape row where row: "shape \<in> set (scope_shapes scope)" "row \<in> set (pd_table deps)"
      "applyFilters (pd_env deps) (shape_query (pd_standards deps) shape) row" "rowToRecord row = Inr r" by blast
  have live: "row_deleted_at row = None" and type: "row_type row \<in> set (standard_types (pd_standards deps))"
    using row(3) unfolding shape_query_def filter_query_rows by auto
  have "standInRole r \<noteq> None \<or> isStandInOriginal (facts_of_record r)"
  proof (cases "shape = [(''parentId'', TIsNull), (''standInRole'', TIsNull)]")
    case True
    then have "row_parent_id row = None" "row_stand_in_role row = None"
      using row(3) unfolding shape_query_def filter_query_rows by auto
    then show ?thesis
      using rowToRecord_fields [OF row(4)] type
      by (auto simp: isStandInOriginal_def facts_of_record_def standard_types_def standardsFor_def truthy_text_def)
  next
    case False
    then have "shape = [(''standInRole'', TIn [Some (QText ''canonical''), Some (QText ''smaller'')])]"
      using row(1) by (auto simp: scope_shapes_def split: if_splits)
    then have "row_stand_in_role row = Some ''canonical'' \<or> row_stand_in_role row = Some ''smaller''"
      using row(3) unfolding shape_query_def filter_query_rows by auto
    then show ?thesis using rowToRecord_fields(5) [OF row(4)] by (auto simp: role_of_value_def)
  qed
  then show ?thesis using rowToRecord_fields(7) [OF row(4) live] row(2,4) r(2) c by (auto simp: stored_def)
qed

lemma pass_removes_proved:
  assumes "free_pass sha256 deps request cs s = (s', e)" "js_get (ps_store s) key \<noteq> None" "js_get (ps_store s') key = None"
  shows "\<exists>c \<in> set cs. \<exists>store. objectStorageKey (fc_record c) = key \<and> part_of_store store (ps_store s)
    \<and> proveCloudCopies sha256 deps (map_option (\<lambda>hash. hash store) (fd_digests deps)) (fr_probes request) (fc_record c) = Inr ProofOk"
  using assms
proof (induction sha256 deps request cs s rule: free_pass.induct)
  case (2 sha256 deps request c cs s)
  show ?case
  proof (cases "js_get (ps_store (remove_file (fr_dryRun request) c s)) key = None
      \<and> proveCloudCopies sha256 deps (map_option (\<lambda>hash. hash (ps_store s)) (fd_digests deps)) (fr_probes request) (fc_record c) = Inr ProofOk")
    case True
    then have "objectStorageKey (fc_record c) = key"
      using 2(4) by (auto simp: remove_file_def Let_def split: if_splits)
    then show ?thesis using True by (auto simp: part_of_store_def)
  next
    case False
    have kept: "part_of_store st (ps_store s)" if "part_of_store st (ps_store (remove_file (fr_dryRun request) c s))" for st
      using that by (auto simp: part_of_store_def remove_file_def Let_def split: if_splits)
    show ?thesis using False 2 kept by (auto split: if_splits sum.splits durability_proof.splits)
  qed
qed simp

lemma dry_run_keeps:
  "free_pass sha256 deps request cs s = (s', e) \<Longrightarrow> fr_dryRun request \<Longrightarrow> ps_store s' = ps_store s \<and> ps_departed s' = ps_departed s"
  by (induction sha256 deps request cs s rule: free_pass.induct)
    (auto simp: remove_file_def Let_def split: if_splits sum.splits durability_proof.splits)

lemma pass_stops:
  assumes "free_pass sha256 deps request cs s = (s', e)" "ps_removed s = []" "ps_freed s = 0"
  shows "ps_freed s' = sum_list (map fi_sizeBytes (ps_removed s'))
    \<and> (ps_removed s' = [] \<or> \<not> free_enough (want_bytes (fr_bytes request)) (sum_list (map fi_sizeBytes (butlast (ps_removed s')))))"
proof -
  let ?inv = "\<lambda>s. ps_freed s = sum_list (map fi_sizeBytes (ps_removed s))
    \<and> (ps_removed s = [] \<or> \<not> free_enough (want_bytes (fr_bytes request)) (sum_list (map fi_sizeBytes (butlast (ps_removed s)))))"
  have step: "?inv (remove_file (fr_dryRun request) c s)" if "?inv s" "\<not> free_enough (want_bytes (fr_bytes request)) (ps_freed s)" for c s
    using that by (simp add: remove_file_def Let_def free_item_of_def)
  have "free_pass sha256 deps request cs s = (s', e) \<Longrightarrow> ?inv s \<Longrightarrow> ?inv s'" for cs s
  proof (induction cs arbitrary: s)
    case (Cons c cs)
    then show ?case using step [of s c]
      by (auto split: if_splits sum.splits durability_proof.splits)
  qed simp
  then show ?thesis using assms by simp
qed

text \<open>Two records of one content share one object, and the report counts its bytes twice.\<close>

lemma shared_object_counted_twice:
  assumes "objectStorageKey (fc_record a) = objectStorageKey (fc_record b)" "\<not> fr_dryRun request"
    "\<not> free_enough (want_bytes (fr_bytes request)) (ps_freed s)"
    "\<not> free_enough (want_bytes (fr_bytes request)) (ps_freed s + rec_sizeBytes (fc_record a))"
    "\<And>c store. c \<in> {a, b} \<Longrightarrow> proveCloudCopies sha256 deps (map_option (\<lambda>hash. hash store) (fd_digests deps))
      (fr_probes request) (fc_record c) = Inr ProofOk"
  shows "\<exists>s'. free_pass sha256 deps request [a, b] s = (s', None)
    \<and> ps_freed s' = ps_freed s + rec_sizeBytes (fc_record a) + rec_sizeBytes (fc_record b)
    \<and> (\<forall>key. js_get (ps_store s') key = js_get (js_delete (objectStorageKey (fc_record a)) (ps_store s)) key)"
  using assms by (simp add: remove_file_def Let_def)

section \<open>Claims\<close>

text \<open>
  C32. Freeing space loses nothing: whatever the outcome of a pass, a key the local store held and holds
  no more is the key of a live stored record above this node's ceiling whose bytes are its own, on a
  real run; and some cloud store holds an object of the record's size and content hash, one for its
  live original, and, unless that original stands in for itself, one for its live canonical stand-in.
\<close>

theorem freed_file_survives_in_the_cloud:
  assumes "honest_world sha256 known objects (fr_probes request) (fd_digests deps) store"
    "distinct (map row_id (pd_table deps))" "list_all (\<lambda>row. row_id row \<noteq> []) (pd_table deps)"
    "freeUpSpaceOn sha256 deps request store = Some (s, outcome)"
    "js_get store key \<noteq> None" "js_get (ps_store s) key = None"
  shows "\<exists>r c. stored (pd_table deps) r \<and> objectStorageKey r = key \<and> deletedAt r = None \<and> \<not> fr_dryRun request
    \<and> blobCandidateForRecord r = Some c \<and> fd_ceilingOf deps c = Above \<and> \<not> fd_borrowsBytes deps key
    \<and> replaceable sha256 objects (fr_probes request) deps r"
proof -
  let ?start = "\<lparr>ps_store = store, ps_departed = [], ps_removed = [], ps_refused = [], ps_freed = 0\<rparr>"
  obtain cs e where cs: "eligible deps store (fr_scope request) = Some (Inr cs)"
      and pass: "free_pass sha256 deps request cs ?start = (s, e)"
  proof (cases "eligible deps store (fr_scope request)")
    case (Some answer)
    show thesis
    proof (cases answer)
      case (Inl e)
      then have "?start = s" using Some assms(4) by (simp add: freeUpSpaceOn_def)
      then show thesis using assms(5,6) by auto
    next
      case (Inr cs)
      obtain t e where "free_pass sha256 deps request cs ?start = (t, e)" by (cases "free_pass sha256 deps request cs ?start")
      moreover from this have "t = s"
        using Some Inr assms(4) by (cases e) (simp_all add: freeUpSpaceOn_def)
      ultimately show thesis using that Some Inr by simp
    qed
  qed (use assms(4) in \<open>simp add: freeUpSpaceOn_def\<close>)
  have "js_get (ps_store ?start) key \<noteq> None" using assms(5) by simp
  from pass_removes_proved [OF pass this assms(6)]
  obtain c st where c: "c \<in> set cs" "objectStorageKey (fc_record c) = key" and st: "part_of_store st store"
      and ok: "proveCloudCopies sha256 deps (map_option (\<lambda>hash. hash st) (fd_digests deps)) (fr_probes request) (fc_record c) = Inr ProofOk"
    by auto
  note eligible = eligible_candidates [OF cs c(1)]
  have "\<not> fr_dryRun request" using dry_run_keeps [OF pass] assms(5,6) by auto
  moreover have "replaceable sha256 objects (fr_probes request) deps (fc_record c)"
    using proof_covers [OF assms(1) st assms(2,3) _ _ ok] eligible by blast
  ultimately show ?thesis
    using eligible c(2) by (auto simp: candidate_of_def split: option.splits if_splits intro!: exI [of _ "fc_record c"])
qed

definition sample_photo :: data_record where
  "sample_photo = \<lparr>rec_id = ''p1'', rec_type = ''image/jpeg'', createdAt = HLC 5 0 ''n'', updatedAt = HLC 5 0 ''n'',
     deletedAt = None, rec_version = 1, contentHash = bytes_to_hex (sample_hash [7]), objectStorageKey = ''k'', mimeType = None,
     rec_sizeBytes = 1, originalFilename = Some ''a.jpg'', originAppId = ''photos'', parentId = None, standInRole = None,
     fidelity = None, canonicalThreshold = None, selfCanonical = True\<rparr>"

definition sample_request :: free_request where
  "sample_request = \<lparr>fr_bytes = JsRat 10, fr_scope = Originals,
     fr_probes = [\<lparr>probe_nodeId = ''cloud'', probe_stat = sample_store\<rparr>], fr_dryRun = False\<rparr>"

definition sample_deps :: "data_record list \<Rightarrow> free_deps" where
  "sample_deps rs = \<lparr>pd_table = map recordToRow rs, pd_env = no_labels, pd_codec = sample_codec,
     pd_standards = DEFAULT_STAND_IN_STANDARDS, fd_ceilingOf = \<lambda>_. Above, fd_borrowsBytes = \<lambda>_. False,
     fd_digests = Some (localPartDigestsFor sample_hash (\<lambda>_. None) None)\<rparr>"

lemma sample_type: "''image/jpeg'' \<in> set (standard_types DEFAULT_STAND_IN_STANDARDS)"
proof -
  have "''image/jpeg'' \<in> set (map type_id TYPES)" by (simp add: TYPES_def TYPE_SPECS_def spec_id_def)
  moreover have "typeCategory ''image/jpeg'' = Cat_image" using typeCategory_prefix [of Cat_image "''jpeg''"] by simp
  ultimately show ?thesis by (simp add: standard_types_def standardsFor_def standInCategory_def STAND_IN_CATEGORIES_def)
qed

lemma read_single:
  assumes "storable r" "0 < n"
  shows "read_all codec env (filter_query fs n) [recordToRow r]
    = Some (Inr (if applyFilters env (filter_query fs n) (recordToRow r) then [r] else []))"
proof -
  have "query_records codec env (filter_query fs n\<lparr>sel_cursor := None\<rparr>) [recordToRow r]
      = Inr \<lparr>pg_records = (if applyFilters env (filter_query fs n) (recordToRow r) then [r] else []),
             pg_nextCursor = None, pg_hasMore = False\<rparr>"
  proof (cases "applyFilters env (filter_query fs n) (recordToRow r)")
    case True
    then have "buildRecordSelect codec env (filter_query fs n\<lparr>sel_cursor := None\<rparr>) [recordToRow r] = [(recordToRow r, [])]"
      using assms(2) by (simp add: buildRecordSelect_def continues_def truthy_def Let_def)
        (simp add: filter_query_def orderingFor_def order_cells_def)
    then show ?thesis
      using True assms rowToRecord_recordToRow [OF assms(1)] by (simp add: query_records_def filter_query_def)
  next
    case False
    then have "buildRecordSelect codec env (filter_query fs n\<lparr>sel_cursor := None\<rparr>) [recordToRow r] = []"
      by (simp add: buildRecordSelect_def Let_def filter_query_def)
    then show ?thesis using False by (simp add: query_records_def filter_query_def)
  qed
  then show ?thesis unfolding read_all_def by (subst walk.simps) (simp add: answer_rows_def)
qed

lemma sample_eligible:
  "eligible (sample_deps [sample_photo]) [(''k'', [7])] Originals
    = Some (Inr [\<lparr>fc_record = sample_photo, fc_candidate = the (blobCandidateForRecord sample_photo), fc_kind = OriginalFile\<rparr>])"
proof -
  have "storable sample_photo" by (simp add: storable_def sample_photo_def)
  moreover have "applyFilters no_labels (shape_query DEFAULT_STAND_IN_STANDARDS [(''parentId'', TIsNull), (''standInRole'', TIsNull)]) (recordToRow sample_photo)"
    using sample_type unfolding shape_query_def filter_query_rows by (simp add: sample_photo_def recordToRow_def)
  ultimately have "read_shapes (sample_deps [sample_photo]) (scope_shapes Originals) = Some (Inr [sample_photo])"
    using read_single [of sample_photo ENUMERATION_PAGE]
    by (simp add: scope_shapes_def sample_deps_def shape_query_def ENUMERATION_PAGE_def)
  moreover have "candidate_of (sample_deps [sample_photo]) [(''k'', [7])] sample_photo
      = Some \<lparr>fc_record = sample_photo, fc_candidate = the (blobCandidateForRecord sample_photo), fc_kind = OriginalFile\<rparr>"
    by (simp add: candidate_of_def sample_deps_def sample_photo_def blobCandidateForRecord_def)
  ultimately show ?thesis by (simp add: eligible_def map_filter_simps)
qed

lemma hexHash_bare:
  assumes "is_sha256_hex h"
  shows "hexHash h = h"
proof -
  have "CHR ''s'' \<notin> set h" using assms by (auto simp: is_sha256_hex_def list_all_iff Let_def)
  then have "\<not> js_starts_with h ''sha256:''" by (cases h) (auto simp: js_starts_with_def)
  then show ?thesis by (simp add: hexHash_def)
qed

lemma sample_hex: "hexHash (bytes_to_hex (sample_hash [7])) = bytes_to_hex (sample_hash [7])"
  by (rule hexHash_bare) (rule sha256_hex_of_digest [OF sound_hashD [OF sample_hash_sound]])

lemma sample_proved:
  "proveCloudCopies sample_hash (sample_deps [sample_photo]) (Some (localPartDigestsFor sample_hash (\<lambda>_. None) None [(''k'', [7])]))
    (fr_probes sample_request) sample_photo = Inr ProofOk"
proof -
  have "typeCategory ''image/jpeg'' = Cat_image" using typeCategory_prefix [of Cat_image "''jpeg''"] by simp
  then have "isStandInOriginal (facts_of_record sample_photo)"
      "originalStatus (facts_of_record sample_photo) DEFAULT_STAND_IN_STANDARDS = Some SelfCanonical"
    by (simp_all add: isStandInOriginal_def facts_of_record_def sample_photo_def originalStatus_def standardsFor_def
        standInCategory_def STAND_IN_CATEGORIES_def)
  then have "addStandInClauses (sample_deps [sample_photo]) sample_photo [(rec_id sample_photo, sample_photo)]
      = Inr (Inr [(rec_id sample_photo, sample_photo)])" "isStandInOriginal (facts_of_record sample_photo)"
    by (simp_all add: addStandInClauses_def original_of_def sample_photo_def sample_deps_def)
  moreover have "record_durability_query (Some (localPartDigestsFor sample_hash (\<lambda>_. None) None [(''k'', [7])])) sample_photo = sample_query"
    by (simp add: record_durability_query_def sample_photo_def sample_query_def localPartDigestsFor_def sample_hex)
  ultimately show ?thesis
    by (simp add: proveCloudCopies_def sample_durable sample_request_def verdict_of_def)
qed

lemma sample_pass:
  "freeUpSpaceOn sample_hash (sample_deps [sample_photo]) sample_request [(''k'', [7])]
    = Some (\<lparr>ps_store = [], ps_departed = [the (blobCandidateForRecord sample_photo)],
         ps_removed = [\<lparr>fi_recordId = ''p1'', fi_objectStorageKey = ''k'', fi_sizeBytes = 1, fi_kind = OriginalFile\<rparr>],
         ps_refused = [], ps_freed = 1\<rparr>,
       Inr \<lparr>rp_requestedBytes = JsRat 10, rp_freedBytes = 1,
         rp_removed = [\<lparr>fi_recordId = ''p1'', fi_objectStorageKey = ''k'', fi_sizeBytes = 1, fi_kind = OriginalFile\<rparr>],
         rp_refused = [], rp_eligibleBytes = 1, rp_dryRun = False\<rparr>)"
proof -
  have request: "fr_scope sample_request = Originals" "fr_dryRun sample_request = False" "want_bytes (fr_bytes sample_request) = JsRat 10"
    by (simp_all add: sample_request_def want_bytes_def)
  have digests: "fd_digests (sample_deps [sample_photo]) = Some (localPartDigestsFor sample_hash (\<lambda>_. None) None)"
    by (simp add: sample_deps_def)
  show ?thesis
    by (simp add: freeUpSpaceOn_def request digests sample_eligible sample_proved free_enough_def remove_file_def Let_def)
      (simp add: free_item_of_def sample_photo_def)
qed

lemma freed_file_survives_in_the_cloud_witness:
  "\<exists>r. objectStorageKey r = ''k''
    \<and> replaceable sample_hash (\<lambda>_ key. if key = ''k'' then Some [7] else None) (fr_probes sample_request) (sample_deps [sample_photo]) r"
proof -
  have "honest_world sample_hash {[7], replicate 32 1} (\<lambda>_ key. if key = ''k'' then Some [7] else None) (fr_probes sample_request)
      (fd_digests (sample_deps [sample_photo])) [(''k'', [7])]"
    unfolding honest_world_def
  proof (intro conjI allI impI ballI)
    show "sound_hash sample_hash {[7], replicate 32 1}" by (rule sample_hash_sound)
  next
    fix hash st key
    assume "fd_digests (sample_deps [sample_photo]) = Some hash" "part_of_store st [(''k'', [7])]"
    then have "hash = localPartDigestsFor sample_hash (\<lambda>_. None) None" "js_get st key = None \<or> js_get st key = Some [7]"
      by (auto simp: sample_deps_def part_of_store_def split: if_splits)
    then show "local_reads sample_hash {[7], replicate 32 1} (Some (hash st key))"
      using sample_reads by (elim disjE) (simp_all add: localPartDigestsFor_def, simp add: local_reads_def)
  next
    fix probe
    assume "probe \<in> set (fr_probes sample_request)"
    then show "store_reports sample_hash {[7], replicate 32 1} (\<lambda>key. if key = ''k'' then Some [7] else None) (probe_stat probe)"
      using sample_reports by (simp add: sample_request_def)
  qed
  from freed_file_survives_in_the_cloud [OF this _ _ sample_pass, of "''k''"] show ?thesis
    by (auto simp: sample_deps_def sample_photo_def)
qed

end
