(* ===== verification/Reaper.thy ===== *)
theory Reaper
  imports Free_Up_Space
begin

text \<open>
  The reaper, which deletes the bytes of items deleted longer ago than the retention window:
  \<open>packages/sync-engine/src/reaper.ts\<close>.

  It reads the table of records and changes two things only: the object store and the metadata rows
  that ride on records. What a store answers for \<open>stat\<close> and which keys are borrowed are functions of the
  key; days and times are whole numbers. The texts of refusals are not modelled.

  The lemmas show which keys a pass removes: exactly those the promise to the person allows.
\<close>

section \<open>The pass\<close>

definition MS_PER_DAY :: nat where "MS_PER_DAY = 24 * 60 * 60 * 1000"

datatype reap_refusal = LiveRecord | WithinWindow | ArchivedObject | AbsentObject | BorrowedObject

record reaped_key =
  rk_objectStorageKey :: string
  rk_sizeBytes :: nat
  rk_recordIds :: "string list"

record reap_report =
  rr_keysConsidered :: nat
  rr_reaped :: "reaped_key list"
  rr_reclaimedBytes :: nat
  rr_refused :: "(string \<times> reap_refusal) list"
  rr_retentionDays :: "nat option"
  rr_archivedSkipped :: nat
  rr_dryRun :: bool

record reap_request =
  rq_retentionDays :: "nat option"
  rq_dryRun :: bool
  rq_nowMs :: nat

record reaper_deps =
  rd_table :: record_table
  rd_env :: record_env
  rd_codec :: cursor_codec
  rd_stat :: "string \<Rightarrow> stat_answer"
  rd_borrowsBytes :: "string \<Rightarrow> bool"

text \<open>A metadata row is named by its table and its record.\<close>

record reap_state =
  rs_store :: object_store
  rs_metadata :: "(string \<times> string) list"
  rs_reaped :: "reaped_key list"
  rs_refused :: "(string \<times> reap_refusal) list"
  rs_reclaimed :: nat
  rs_archived :: nat

definition deleteMetadata :: "string \<Rightarrow> string \<Rightarrow> (string \<times> string) list \<Rightarrow> (string \<times> string) list" where
  "deleteMetadata typeId recordId rows = filter (\<lambda>row. row \<noteq> (sqliteMetadataTableName typeId, recordId)) rows"

definition reap_cutoff :: "nat \<Rightarrow> nat \<Rightarrow> string" where
  "reap_cutoff nowMs days = serializeHLC (HLC (nat (max 0 (int nowMs - int days * int MS_PER_DAY))) 0 [])"

definition tombstone_query :: "string \<Rightarrow> record_query" where
  "tombstone_query cutoff = filter_query [(''deletedAt'', TIsNotNull), (''deletedAt'', TLt (Some (QText cutoff)))] ENUMERATION_PAGE"

definition live_query :: "string \<Rightarrow> record_query" where
  "live_query key = filter_query [(''objectStorageKey'', TEq (Some (QText key))), (''deletedAt'', TIsNull)] 1"

definition records_query :: "string \<Rightarrow> record_query" where
  "records_query key = filter_query [(''objectStorageKey'', TEq (Some (QText key)))] ENUMERATION_PAGE"

text \<open>Tombstones past the cutoff by object key, and all records on a key; \<open>None\<close> is a loop that never ends.\<close>

definition tombstonesPastCutoff ::
  "reaper_deps \<Rightarrow> string \<Rightarrow> (store_error + (string, data_record list) js_map) option" where
  "tombstonesPastCutoff deps cutoff =
     map_option (map_sum id (\<lambda>rs. js_group objectStorageKey (filter (\<lambda>r. objectStorageKey r \<noteq> []) rs)))
       (read_all (rd_codec deps) (rd_env deps) (tombstone_query cutoff) (rd_table deps))"

definition recordsOn :: "reaper_deps \<Rightarrow> string \<Rightarrow> (store_error + data_record list) option" where
  "recordsOn deps key = read_all (rd_codec deps) (rd_env deps) (records_query key) (rd_table deps)"

definition newest_stamp :: "data_record list \<Rightarrow> string option" where
  "newest_stamp rs =
     fold (\<lambda>r newest. case deletedAt r of
         None \<Rightarrow> newest
       | Some t \<Rightarrow> (case newest of
           None \<Rightarrow> Some (serializeHLC t)
         | Some m \<Rightarrow> if serializeHLC t > m then Some (serializeHLC t) else newest)) rs None"

text \<open>The verdict on a key: a refusal, or the records whose bytes go.\<close>

definition judge_key ::
  "reaper_deps \<Rightarrow> string \<Rightarrow> object_store \<Rightarrow> string \<Rightarrow> (store_error + (reap_refusal + data_record list)) option" where
  "judge_key deps cutoff store key =
     (case query_records (rd_codec deps) (rd_env deps) (live_query key) (rd_table deps) of
        Inl e \<Rightarrow> Some (Inl e)
      | Inr page \<Rightarrow>
          if pg_records page \<noteq> [] then Some (Inr (Inl LiveRecord))
          else (case recordsOn deps key of
            None \<Rightarrow> None
          | Some (Inl e) \<Rightarrow> Some (Inl e)
          | Some (Inr all) \<Rightarrow>
              Some (Inr
                (if (case newest_stamp all of None \<Rightarrow> True | Some newest \<Rightarrow> newest \<ge> cutoff) then Inl WithinWindow
                 else if rd_borrowsBytes deps key then Inl BorrowedObject
                 else if (case rd_stat deps key of StatFacts facts \<Rightarrow> of_availability facts \<noteq> Instant | _ \<Rightarrow> False)
                 then Inl ArchivedObject
                 else if js_get store key = None then Inl AbsentObject
                 else Inr all))))"

definition refuse_key :: "string \<Rightarrow> reap_refusal \<Rightarrow> reap_state \<Rightarrow> reap_state" where
  "refuse_key key reason s =
     s\<lparr>rs_refused := rs_refused s @ [(key, reason)],
       rs_archived := rs_archived s + (if reason = ArchivedObject then 1 else 0)\<rparr>"

definition delete_metadata_of :: "data_record \<Rightarrow> (string \<times> string) list \<Rightarrow> (string \<times> string) list" where
  "delete_metadata_of r rows =
     (if hasMetadataTable (category_id (typeCategory (rec_type r))) then deleteMetadata (rec_type r) (rec_id r) rows else rows)"

definition reap_key :: "bool \<Rightarrow> string \<Rightarrow> data_record list \<Rightarrow> data_record list \<Rightarrow> reap_state \<Rightarrow> reap_state" where
  "reap_key dryRun key records all s =
     (let sizeBytes = (case records of [] \<Rightarrow> 0 | r # _ \<Rightarrow> rec_sizeBytes r);
          s' = (if dryRun then s
                else s\<lparr>rs_store := js_delete key (rs_store s), rs_metadata := fold delete_metadata_of all (rs_metadata s)\<rparr>)
      in s'\<lparr>rs_reaped := rs_reaped s @ [\<lparr>rk_objectStorageKey = key, rk_sizeBytes = sizeBytes, rk_recordIds = map rec_id all\<rparr>],
            rs_reclaimed := rs_reclaimed s + sizeBytes\<rparr>)"

fun reap_keys ::
  "reaper_deps \<Rightarrow> string \<Rightarrow> bool \<Rightarrow> (string \<times> data_record list) list \<Rightarrow> reap_state \<Rightarrow> (reap_state \<times> store_error option) option" where
  "reap_keys deps cutoff dryRun [] s = Some (s, None)"
| "reap_keys deps cutoff dryRun ((key, records) # entries) s =
     (case judge_key deps cutoff (rs_store s) key of
        None \<Rightarrow> None
      | Some (Inl e) \<Rightarrow> Some (s, Some e)
      | Some (Inr (Inl reason)) \<Rightarrow> reap_keys deps cutoff dryRun entries (refuse_key key reason s)
      | Some (Inr (Inr all)) \<Rightarrow> reap_keys deps cutoff dryRun entries (reap_key dryRun key records all s))"

definition reapDeleted ::
  "reaper_deps \<Rightarrow> reap_request \<Rightarrow> object_store \<Rightarrow> (string \<times> string) list \<Rightarrow> (reap_state \<times> (store_error + reap_report)) option" where
  "reapDeleted deps request store metadata =
     (let start = \<lparr>rs_store = store, rs_metadata = metadata, rs_reaped = [], rs_refused = [], rs_reclaimed = 0, rs_archived = 0\<rparr>
      in case rq_retentionDays request of
           None \<Rightarrow>
             Some (start, Inr \<lparr>rr_keysConsidered = 0, rr_reaped = [], rr_reclaimedBytes = 0, rr_refused = [],
               rr_retentionDays = None, rr_archivedSkipped = 0, rr_dryRun = rq_dryRun request\<rparr>)
         | Some days \<Rightarrow>
             (let cutoff = reap_cutoff (rq_nowMs request) days
              in case tombstonesPastCutoff deps cutoff of
                   None \<Rightarrow> None
                 | Some (Inl e) \<Rightarrow> Some (start, Inl e)
                 | Some (Inr byKey) \<Rightarrow>
                     map_option (\<lambda>(s, e).
                         case e of
                           Some e \<Rightarrow> (s, Inl e)
                         | None \<Rightarrow>
                             (s, Inr \<lparr>rr_keysConsidered = length byKey, rr_reaped = rs_reaped s, rr_reclaimedBytes = rs_reclaimed s,
                               rr_refused = rs_refused s, rr_retentionDays = Some days, rr_archivedSkipped = rs_archived s,
                               rr_dryRun = rq_dryRun request\<rparr>))
                       (reap_keys deps cutoff (rq_dryRun request) byKey start)))"

section \<open>Which keys may go\<close>

text \<open>
  The promise: some record is on the key, every record on it was deleted longer ago than the window, and this
  host holds the bytes itself, readable now.
\<close>

definition reapable :: "reaper_deps \<Rightarrow> nat \<Rightarrow> nat \<Rightarrow> data_record list \<Rightarrow> string \<Rightarrow> bool" where
  "reapable deps nowMs days rs key \<longleftrightarrow>
     key \<noteq> [] \<and> (\<exists>r \<in> set rs. objectStorageKey r = key)
     \<and> (\<forall>r \<in> set rs. objectStorageKey r = key \<longrightarrow>
          (\<exists>t. deletedAt r = Some t \<and> wallTime t + days * MS_PER_DAY < nowMs))
     \<and> \<not> rd_borrowsBytes deps key
     \<and> (\<forall>facts. rd_stat deps key = StatFacts facts \<longrightarrow> of_availability facts = Instant)"

text \<open>A table of records that pages to its end, with clock values that fit their fields.\<close>

definition reap_table :: "reaper_deps \<Rightarrow> data_record list \<Rightarrow> bool" where
  "reap_table deps rs \<longleftrightarrow>
     rd_table deps = map recordToRow rs
     \<and> record_pageable (rd_codec deps, rd_env deps, filter_query [] 1) rs
     \<and> list_all (\<lambda>r. case deletedAt r of None \<Rightarrow> True | Some t \<Rightarrow> hlc_fits t) rs"

lemma stamp_before_cutoff:
  assumes "hlc_fits t" "nowMs < 16 ^ 12"
  shows "serializeHLC t < reap_cutoff nowMs days \<longleftrightarrow> wallTime t + days * MS_PER_DAY < nowMs"
proof -
  let ?w = "nat (max 0 (int nowMs - int days * int MS_PER_DAY))"
  have "0 \<le> int days * int MS_PER_DAY" by simp
  then have "?w \<le> nowMs" by linarith
  then have "hlc_fits (HLC ?w 0 [])" using assms(2) by (simp add: hlc_fits_def)
  from serialize_less [OF assms(1) this] have "serializeHLC t < reap_cutoff nowMs days \<longleftrightarrow> t < HLC ?w 0 []"
    by (simp add: reap_cutoff_def)
  also have "\<dots> \<longleftrightarrow> wallTime t < ?w" by (auto simp: less_hlc_alt)
  also have "\<dots> \<longleftrightarrow> wallTime t + days * MS_PER_DAY < nowMs"
  proof -
    have "int (days * MS_PER_DAY) = int days * int MS_PER_DAY" by simp
    then show ?thesis by linarith
  qed
  finally show ?thesis .
qed

text \<open>Over such a table the judgement of a key is the promise, and never fails.\<close>

lemma newest_stamp_bounds:
  "newest_stamp rs = None \<longleftrightarrow> (\<forall>r \<in> set rs. deletedAt r = None)"
  "newest_stamp rs = Some m \<Longrightarrow> m < cutoff \<longleftrightarrow> (\<forall>r \<in> set rs. \<forall>t. deletedAt r = Some t \<longrightarrow> serializeHLC t < cutoff)"
proof -
  let ?step = "\<lambda>r newest. case deletedAt r of
      None \<Rightarrow> newest
    | Some t \<Rightarrow> (case newest of
        None \<Rightarrow> Some (serializeHLC t)
      | Some m \<Rightarrow> if serializeHLC t > m then Some (serializeHLC t) else newest)"
  have run: "(fold ?step rs start = None \<longleftrightarrow> start = None \<and> (\<forall>r \<in> set rs. deletedAt r = None))
      \<and> (\<forall>m. fold ?step rs start = Some m \<longrightarrow> (m < cutoff \<longleftrightarrow> (\<forall>s. start = Some s \<longrightarrow> s < cutoff)
          \<and> (\<forall>r \<in> set rs. \<forall>t. deletedAt r = Some t \<longrightarrow> serializeHLC t < cutoff)))" for start cutoff rs
  proof (induction rs arbitrary: start)
    case (Cons r rs)
    show ?case
      using Cons.IH [of "?step r start"]
      by (cases "deletedAt r"; cases start) (auto split: if_splits dest: less_trans)
  qed simp
  show "newest_stamp rs = None \<longleftrightarrow> (\<forall>r \<in> set rs. deletedAt r = None)"
    using run [of rs None] by (simp add: newest_stamp_def)
  show "newest_stamp rs = Some m \<Longrightarrow> m < cutoff \<longleftrightarrow> (\<forall>r \<in> set rs. \<forall>t. deletedAt r = Some t \<longrightarrow> serializeHLC t < cutoff)"
    using run [of rs None cutoff] by (simp add: newest_stamp_def)
qed

lemma reap_table_reads:
  assumes "reap_table deps rs"
  obtains xs where "read_all (rd_codec deps) (rd_env deps) (filter_query fs n) (rd_table deps) = Some (Inr xs)"
    "set xs = {r \<in> set rs. applyFilters (rd_env deps) (filter_query fs n) (recordToRow r)}"
proof -
  have "record_pageable (rd_codec deps, rd_env deps, filter_query fs n) rs"
    using assms unfolding filter_query_pageable [where fs = fs and n = n] by (simp add: reap_table_def)
  from read_all_complete [OF this] show thesis using assms that by (simp add: reap_table_def)
qed

lemma record_matches:
  "applyFilters env (live_query key) (recordToRow r) \<longleftrightarrow> objectStorageKey r = key \<and> deletedAt r = None"
  "applyFilters env (records_query key) (recordToRow r) \<longleftrightarrow> objectStorageKey r = key"
  "applyFilters env (tombstone_query cutoff) (recordToRow r) \<longleftrightarrow> (\<exists>t. deletedAt r = Some t \<and> serializeHLC t < cutoff)"
  unfolding live_query_def records_query_def tombstone_query_def filter_query_rows
  by (auto simp: recordToRow_def)

text \<open>What a refusal says of a key: the checks in their order.\<close>

definition refusal_of :: "reaper_deps \<Rightarrow> string \<Rightarrow> object_store \<Rightarrow> data_record list \<Rightarrow> string \<Rightarrow> reap_refusal option" where
  "refusal_of deps cutoff store rs key =
     (let on_key = filter (\<lambda>r. objectStorageKey r = key) rs
      in if list_ex (\<lambda>r. deletedAt r = None) on_key then Some LiveRecord
         else if on_key = [] \<or> list_ex (\<lambda>r. case deletedAt r of None \<Rightarrow> False | Some t \<Rightarrow> cutoff \<le> serializeHLC t) on_key then Some WithinWindow
         else if rd_borrowsBytes deps key then Some BorrowedObject
         else if (case rd_stat deps key of StatFacts facts \<Rightarrow> of_availability facts \<noteq> Instant | _ \<Rightarrow> False) then Some ArchivedObject
         else if js_get store key = None then Some AbsentObject else None)"

lemma judge_key_table:
  assumes "reap_table deps rs"
  shows "\<exists>all. set all = {r \<in> set rs. objectStorageKey r = key}
    \<and> judge_key deps cutoff store key
      = Some (Inr (case refusal_of deps cutoff store rs key of Some reason \<Rightarrow> Inl reason | None \<Rightarrow> Inr all))"
proof -
  have storable: "list_all storable rs" using assms by (simp add: reap_table_def record_pageable_def list_all_iff)
  have table: "rd_table deps = map recordToRow rs" using assms by (simp add: reap_table_def)
  have empty: "sort_key f ys = [] \<longleftrightarrow> ys = []" for f :: "data_record \<Rightarrow> sort_key list" and ys by (metis set_empty set_sort)
  obtain page where page: "query_records (rd_codec deps) (rd_env deps) (live_query key) (rd_table deps) = Inr page"
      "pg_records page = [] \<longleftrightarrow> \<not> (\<exists>r \<in> set rs. objectStorageKey r = key \<and> deletedAt r = None)"
    using filter_query_page [OF storable, of 1 "rd_codec deps" "rd_env deps"
        "[(''objectStorageKey'', TEq (Some (QText key))), (''deletedAt'', TIsNull)]"]
      record_matches(1) [of "rd_env deps" key]
    unfolding live_query_def table by (auto simp: filter_empty_conv empty)
  from reap_table_reads [OF assms, of "[(''objectStorageKey'', TEq (Some (QText key)))]" ENUMERATION_PAGE]
  obtain all where "read_all (rd_codec deps) (rd_env deps) (records_query key) (rd_table deps) = Some (Inr all)"
      "set all = {r \<in> set rs. applyFilters (rd_env deps) (records_query key) (recordToRow r)}"
    unfolding records_query_def by blast
  then have all: "recordsOn deps key = Some (Inr all)" "set all = {r \<in> set rs. objectStorageKey r = key}"
    by (simp_all add: recordsOn_def record_matches(2))
  have live: "list_ex (\<lambda>r. deletedAt r = None) (filter (\<lambda>r. objectStorageKey r = key) rs) \<longleftrightarrow> pg_records page \<noteq> []"
    using page(2) by (auto simp: list_ex_iff)
  have window: "(case newest_stamp all of None \<Rightarrow> True | Some newest \<Rightarrow> newest \<ge> cutoff)
      \<longleftrightarrow> filter (\<lambda>r. objectStorageKey r = key) rs = []
        \<or> list_ex (\<lambda>r. case deletedAt r of None \<Rightarrow> False | Some t \<Rightarrow> cutoff \<le> serializeHLC t) (filter (\<lambda>r. objectStorageKey r = key) rs)"
    if "pg_records page = []"
  proof (cases "newest_stamp all")
    case None
    then show ?thesis using newest_stamp_bounds(1) [of all] all(2) page(2) that by (auto simp: filter_empty_conv)
  next
    case (Some m)
    then have "cutoff \<le> m \<longleftrightarrow> (\<exists>r \<in> set all. \<exists>t. deletedAt r = Some t \<and> cutoff \<le> serializeHLC t)"
      using newest_stamp_bounds(2) [OF Some, of cutoff] by (auto simp: not_less [symmetric])
    moreover have "all \<noteq> []" using Some by (auto simp: newest_stamp_def)
    then have "\<exists>r \<in> set rs. objectStorageKey r = key" using all(2) by (metis (mono_tags, lifting) empty_set equals0I mem_Collect_eq set_empty)
    ultimately show ?thesis using Some all(2) by (auto simp: filter_empty_conv list_ex_iff split: option.splits)
  qed
  show ?thesis
    using all page(1) live window unfolding judge_key_def refusal_of_def Let_def
    by (intro exI [of _ all]) (simp cong: if_cong)
qed

text \<open>The whole loop: each key is judged on the store the pass began with.\<close>

definition metadata_row :: "data_record \<Rightarrow> string \<times> string" where
  "metadata_row r = (sqliteMetadataTableName (rec_type r), rec_id r)"

definition reaped_records :: "(string \<Rightarrow> bool) \<Rightarrow> data_record list \<Rightarrow> data_record set" where
  "reaped_records gone rs =
     {r \<in> set rs. gone (objectStorageKey r) \<and> hasMetadataTable (category_id (typeCategory (rec_type r)))}"

lemma set_delete_metadata:
  "set (fold delete_metadata_of all rows)
    = set rows - metadata_row ` {r \<in> set all. hasMetadataTable (category_id (typeCategory (rec_type r)))}"
  by (induction all arbitrary: rows) (auto simp: delete_metadata_of_def deleteMetadata_def metadata_row_def)

lemma refusal_of_store: "js_get store key = js_get store' key \<Longrightarrow> refusal_of deps cutoff store rs key = refusal_of deps cutoff store' rs key"
  unfolding refusal_of_def by (simp only:)

definition pass_result :: "(string \<Rightarrow> bool) \<Rightarrow> data_record list \<Rightarrow> reap_state \<Rightarrow> reap_state \<Rightarrow> bool" where
  "pass_result gone rs s s' \<longleftrightarrow>
     (\<forall>key. js_get (rs_store s') key = (if gone key then None else js_get (rs_store s) key))
     \<and> set (rs_metadata s') = set (rs_metadata s) - metadata_row ` reaped_records gone rs"

lemma pass_result_compose:
  assumes "pass_result g rs s t" "pass_result h rs t u"
  shows "pass_result (\<lambda>key. g key \<or> h key) rs s u"
proof -
  have "reaped_records (\<lambda>key. g key \<or> h key) rs = reaped_records g rs \<union> reaped_records h rs"
    by (auto simp: reaped_records_def)
  then show ?thesis using assms by (auto simp: pass_result_def image_Un)
qed

lemma reap_keys_result:
  assumes table: "reap_table deps rs"
  shows "distinct (map fst entries) \<Longrightarrow> \<exists>s'. reap_keys deps cutoff dryRun entries s = Some (s', None)
    \<and> pass_result (\<lambda>key. \<not> dryRun \<and> key \<in> fst ` set entries \<and> refusal_of deps cutoff (rs_store s) rs key = None) rs s s'"
proof (induction entries arbitrary: s)
  case Nil
  then show ?case by (simp add: pass_result_def reaped_records_def)
next
  case (Cons entry entries)
  obtain key records where entry: "entry = (key, records)" by (cases entry)
  obtain all where all: "set all = {r \<in> set rs. objectStorageKey r = key}"
      and judged: "judge_key deps cutoff (rs_store s) key
        = Some (Inr (case refusal_of deps cutoff (rs_store s) rs key of Some reason \<Rightarrow> Inl reason | None \<Rightarrow> Inr all))"
    using judge_key_table [OF table] by blast
  define t where "t = (case refusal_of deps cutoff (rs_store s) rs key of
      Some reason \<Rightarrow> refuse_key key reason s | None \<Rightarrow> reap_key dryRun key records all s)"
  have step: "reap_keys deps cutoff dryRun (entry # entries) s = reap_keys deps cutoff dryRun entries t"
    using judged by (simp add: entry t_def split: option.split)
  have first: "pass_result (\<lambda>k. \<not> dryRun \<and> k = key \<and> refusal_of deps cutoff (rs_store s) rs k = None) rs s t"
  proof (cases "refusal_of deps cutoff (rs_store s) rs key")
    case None
    have "metadata_row ` {r \<in> set all. hasMetadataTable (category_id (typeCategory (rec_type r)))}
        = metadata_row ` {r \<in> set rs. objectStorageKey r = key \<and> hasMetadataTable (category_id (typeCategory (rec_type r)))}"
      using all by auto
    then show ?thesis
      using None by (auto simp: t_def pass_result_def reap_key_def Let_def set_delete_metadata reaped_records_def)
  qed (auto simp: t_def pass_result_def refuse_key_def reaped_records_def)
  obtain s' where rest: "reap_keys deps cutoff dryRun entries t = Some (s', None)"
      "pass_result (\<lambda>k. \<not> dryRun \<and> k \<in> fst ` set entries \<and> refusal_of deps cutoff (rs_store t) rs k = None) rs t s'"
    using Cons by (auto simp: entry)
  have same: "refusal_of deps cutoff (rs_store t) rs k = refusal_of deps cutoff (rs_store s) rs k" if "k \<in> fst ` set entries" for k
    using that Cons.prems first by (intro refusal_of_store) (auto simp: entry pass_result_def)
  have gone: "(\<lambda>k. (\<not> dryRun \<and> k = key \<and> refusal_of deps cutoff (rs_store s) rs k = None)
        \<or> (\<not> dryRun \<and> k \<in> fst ` set entries \<and> refusal_of deps cutoff (rs_store t) rs k = None))
      = (\<lambda>k. \<not> dryRun \<and> k \<in> fst ` set (entry # entries) \<and> refusal_of deps cutoff (rs_store s) rs k = None)"
  proof (rule ext)
    fix k
    show "((\<not> dryRun \<and> k = key \<and> refusal_of deps cutoff (rs_store s) rs k = None)
          \<or> (\<not> dryRun \<and> k \<in> fst ` set entries \<and> refusal_of deps cutoff (rs_store t) rs k = None))
        = (\<not> dryRun \<and> k \<in> fst ` set (entry # entries) \<and> refusal_of deps cutoff (rs_store s) rs k = None)"
      using same [of k] by (cases "k \<in> fst ` set entries") (auto simp: entry)
  qed
  note pass_result_compose [OF first rest(2), unfolded gone]
  then show ?case using step rest(1) by simp
qed

text \<open>On the keys the pass considers, no refusal is the promise.\<close>

lemma no_refusal:
  assumes "reap_table deps rs" "nowMs < 16 ^ 12"
  shows "key \<noteq> [] \<and> (\<exists>r \<in> set rs. objectStorageKey r = key \<and> (\<exists>t. deletedAt r = Some t \<and> serializeHLC t < reap_cutoff nowMs days))
      \<and> refusal_of deps (reap_cutoff nowMs days) store rs key = None
    \<longleftrightarrow> reapable deps nowMs days rs key \<and> js_get store key \<noteq> None"
proof -
  have fits: "hlc_fits t" if "r \<in> set rs" "deletedAt r = Some t" for r t
    using assms(1) that by (auto simp: reap_table_def list_all_iff split: option.splits)
  have late: "reap_cutoff nowMs days \<le> serializeHLC t \<longleftrightarrow> \<not> wallTime t + days * MS_PER_DAY < nowMs"
      if "r \<in> set rs" "deletedAt r = Some t" for r t
    using stamp_before_cutoff [OF fits [OF that] assms(2), of days] by (simp add: not_less [symmetric])
  have window: "\<not> list_ex (\<lambda>r. deletedAt r = None) (filter (\<lambda>r. objectStorageKey r = key) rs)
      \<and> \<not> list_ex (\<lambda>r. case deletedAt r of None \<Rightarrow> False | Some t \<Rightarrow> reap_cutoff nowMs days \<le> serializeHLC t) (filter (\<lambda>r. objectStorageKey r = key) rs)
      \<longleftrightarrow> (\<forall>r \<in> set rs. objectStorageKey r = key \<longrightarrow> (\<exists>t. deletedAt r = Some t \<and> wallTime t + days * MS_PER_DAY < nowMs))"
    using late by (auto simp: list_ex_iff split: option.splits)
  have on_key: "filter (\<lambda>r. objectStorageKey r = key) rs = [] \<longleftrightarrow> \<not> (\<exists>r \<in> set rs. objectStorageKey r = key)"
    by (auto simp: filter_empty_conv)
  have found: "(\<exists>t. deletedAt r = Some t \<and> serializeHLC t < reap_cutoff nowMs days)
      \<longleftrightarrow> (\<exists>t. deletedAt r = Some t \<and> wallTime t + days * MS_PER_DAY < nowMs)" if "r \<in> set rs" for r
    using stamp_before_cutoff [OF fits [OF that] assms(2), where days = days] by auto
  have instant: "(case rd_stat deps key of StatFacts facts \<Rightarrow> of_availability facts \<noteq> Instant | _ \<Rightarrow> False)
      \<longleftrightarrow> \<not> (\<forall>facts. rd_stat deps key = StatFacts facts \<longrightarrow> of_availability facts = Instant)"
    by (auto split: stat_answer.splits)
  show ?thesis
    using window found unfolding refusal_of_def reapable_def Let_def on_key instant by (auto split: if_splits)
qed

section \<open>Claims\<close>

text \<open>
  C33. The reaper keeps its promise, both ways: with no readable window a pass changes nothing; otherwise
  it ends without an error, and on a real run the object store has lost exactly the keys whose every
  record was deleted longer ago than the window, whose bytes are this host's own and not archived. The only
  other rows it removes are the metadata rows of records on those keys.
\<close>

theorem reaper_removes_exactly_the_promised:
  assumes "reap_table deps rs" "rq_nowMs request < 16 ^ 12"
  shows "\<exists>s report. reapDeleted deps request store metadata = Some (s, Inr report)
    \<and> (let gone = (\<lambda>key. case rq_retentionDays request of None \<Rightarrow> False
             | Some days \<Rightarrow> \<not> rq_dryRun request \<and> reapable deps (rq_nowMs request) days rs key \<and> js_get store key \<noteq> None)
       in (\<forall>key. js_get (rs_store s) key = (if gone key then None else js_get store key))
          \<and> set (rs_metadata s) = set metadata - metadata_row ` reaped_records gone rs)"
proof (cases "rq_retentionDays request")
  case None
  then show ?thesis by (simp add: reapDeleted_def Let_def reaped_records_def)
next
  case (Some days)
  let ?start = "\<lparr>rs_store = store, rs_metadata = metadata, rs_reaped = [], rs_refused = [], rs_reclaimed = 0, rs_archived = 0\<rparr>"
  let ?cutoff = "reap_cutoff (rq_nowMs request) days"
  obtain xs where xs: "read_all (rd_codec deps) (rd_env deps) (tombstone_query ?cutoff) (rd_table deps) = Some (Inr xs)"
      "set xs = {r \<in> set rs. \<exists>t. deletedAt r = Some t \<and> serializeHLC t < ?cutoff}"
    using reap_table_reads [OF assms(1), of "[(''deletedAt'', TIsNotNull), (''deletedAt'', TLt (Some (QText ?cutoff)))]" ENUMERATION_PAGE]
    unfolding tombstone_query_def [symmetric] record_matches(3) by blast
  let ?byKey = "js_group objectStorageKey (filter (\<lambda>r. objectStorageKey r \<noteq> []) xs)"
  have byKey: "tombstonesPastCutoff deps ?cutoff = Some (Inr ?byKey)" by (simp add: tombstonesPastCutoff_def xs(1))
  have "distinct (map fst ?byKey)" using js_wf_group [of objectStorageKey] by (simp add: js_wf_def)
  from reap_keys_result [OF assms(1) this] obtain s where s:
      "reap_keys deps ?cutoff (rq_dryRun request) ?byKey ?start = Some (s, None)"
      "pass_result (\<lambda>key. \<not> rq_dryRun request \<and> key \<in> fst ` set ?byKey \<and> refusal_of deps ?cutoff store rs key = None) rs ?start s"
    by fastforce
  have keys: "key \<in> fst ` set ?byKey \<longleftrightarrow> key \<noteq> []
      \<and> (\<exists>r \<in> set rs. objectStorageKey r = key \<and> (\<exists>t. deletedAt r = Some t \<and> serializeHLC t < ?cutoff))" for key
    using js_group_keys [of objectStorageKey "filter (\<lambda>r. objectStorageKey r \<noteq> []) xs"] xs(2) by (auto simp: image_iff)
  have gone: "(\<lambda>key. \<not> rq_dryRun request \<and> key \<in> fst ` set ?byKey \<and> refusal_of deps ?cutoff store rs key = None)
      = (\<lambda>key. \<not> rq_dryRun request \<and> reapable deps (rq_nowMs request) days rs key \<and> js_get store key \<noteq> None)"
  proof (rule ext)
    fix key
    show "(\<not> rq_dryRun request \<and> key \<in> fst ` set ?byKey \<and> refusal_of deps ?cutoff store rs key = None)
        = (\<not> rq_dryRun request \<and> reapable deps (rq_nowMs request) days rs key \<and> js_get store key \<noteq> None)"
      using no_refusal [OF assms, of key days store] keys [of key] by argo
  qed
  have "\<exists>report. reapDeleted deps request store metadata = Some (s, Inr report)"
    using s(1) by (simp add: reapDeleted_def Let_def Some byKey)
  then show ?thesis using s(2) [unfolded gone] by (auto simp: pass_result_def Some)
qed

definition sample_tombstone :: data_record where
  "sample_tombstone = sample_photo\<lparr>deletedAt := Some (HLC 5 0 ''n'')\<rparr>"

definition sample_reaper :: reaper_deps where
  "sample_reaper = \<lparr>rd_table = [recordToRow sample_tombstone], rd_env = no_labels,
     rd_codec = (\<lambda>_. ''c'', \<lambda>_. Some (cursor_payload (cursor_of (orderingFor (filter_query [] 1)) no_labels (recordToRow sample_tombstone)))),
     rd_stat = \<lambda>_. StatAbsent, rd_borrowsBytes = \<lambda>_. False\<rparr>"

lemma reaper_removes_exactly_the_promised_witness:
  "\<exists>s report. reapDeleted sample_reaper \<lparr>rq_retentionDays = Some 1, rq_dryRun = False, rq_nowMs = 86400006\<rparr> [(''k'', [7])] []
      = Some (s, Inr report) \<and> js_get (rs_store s) ''k'' = None"
proof -
  have "reap_table sample_reaper [sample_tombstone]"
    by (simp add: reap_table_def record_pageable_def sample_reaper_def codec_ok_def Let_def storable_def sample_tombstone_def
        sample_photo_def hlc_fits_def)
  moreover have "reapable sample_reaper 86400006 1 [sample_tombstone] ''k''"
    by (simp add: reapable_def sample_reaper_def sample_tombstone_def sample_photo_def MS_PER_DAY_def)
  ultimately show ?thesis
    using reaper_removes_exactly_the_promised [of sample_reaper "[sample_tombstone]"
      "\<lparr>rq_retentionDays = Some 1, rq_dryRun = False, rq_nowMs = 86400006\<rparr>" "[(''k'', [7])]" "[]"]
    by (auto simp: Let_def)
qed

end
