(* ===== verification/Stand_In_Slots.thy ===== *)
theory Stand_In_Slots
  imports Record_Queries
begin

text \<open>
  Two stand-ins for one slot, arriving by sync: \<open>packages/sync-engine/src/stand-in-slots.ts\<close>.

  The responder stores an incoming stand-in whose slot is held as its own tombstone; the requester
  tombstones its own holder before the incoming one lands. The lemmas show that after either the slot
  index lets the row in, so that an apply never stops the channel, and that the store stays sound.
\<close>

section \<open>The occupant of a slot\<close>

definition occupant_filters :: "string \<Rightarrow> stand_in_role \<Rightarrow> int option \<Rightarrow> (string \<times> filter_test) list" where
  "occupant_filters parent role fid =
     [(''parentId'', TEq (Some (QText parent))), (''standInRole'', TEq (Some (QText (role_text role))))]
     @ (if role = Smaller then [(''fidelity'', TEq (int_cell fid))] else [])
     @ [(''deletedAt'', TIsNull)]"

definition slotOccupant :: "cursor_codec \<Rightarrow> record_env \<Rightarrow> record_table \<Rightarrow> data_record \<Rightarrow> store_error + data_record option" where
  "slotOccupant codec env table r =
     (case (standInSlot (facts_of_record r), parentId r, standInRole r) of
        (Some slot, Some parent, Some role) \<Rightarrow>
          map_sum id (\<lambda>page. find (\<lambda>other. rec_id other \<noteq> rec_id r) (pg_records page))
            (query_records codec env (filter_query (occupant_filters parent role (fidelity r)) 2) table)
      | _ \<Rightarrow> Inr None)"

definition tombstoneOf :: "string \<Rightarrow> nat \<Rightarrow> data_record \<Rightarrow> clock_state \<Rightarrow> data_record \<times> clock_state" where
  "tombstoneOf node physicalTime r clock =
     (let (t, clock') = clock_now node physicalTime clock
      in (r\<lparr>deletedAt := Some t, updatedAt := t, rec_version := rec_version r + 1\<rparr>, clock'))"

text \<open>The row to store, whom it lost to, and the clock.\<close>

definition admitIncomingStandIn ::
  "cursor_codec \<Rightarrow> record_env \<Rightarrow> record_table \<Rightarrow> data_record \<Rightarrow> string \<Rightarrow> nat \<Rightarrow> clock_state
    \<Rightarrow> store_error + data_record \<times> string option \<times> clock_state" where
  "admitIncomingStandIn codec env table incoming node physicalTime clock =
     (case slotOccupant codec env table incoming of
        Inl e \<Rightarrow> Inl e
      | Inr None \<Rightarrow> Inr (incoming, None, clock)
      | Inr (Some occupant) \<Rightarrow>
          let (row, clock') = tombstoneOf node physicalTime incoming clock in Inr (row, Some (rec_id occupant), clock'))"

text \<open>The table after the loser is tombstoned, the loser's tombstone, and the clock.\<close>

definition yieldSlotToIncoming ::
  "cursor_codec \<Rightarrow> record_env \<Rightarrow> record_table \<Rightarrow> data_record \<Rightarrow> string \<Rightarrow> nat \<Rightarrow> clock_state
    \<Rightarrow> store_error + record_table \<times> data_record option \<times> clock_state" where
  "yieldSlotToIncoming codec env table incoming node physicalTime clock =
     (case slotOccupant codec env table incoming of
        Inl e \<Rightarrow> Inl e
      | Inr None \<Rightarrow> Inr (table, None, clock)
      | Inr (Some occupant) \<Rightarrow>
          let (row, clock') = tombstoneOf node physicalTime occupant clock
          in map_sum id (\<lambda>table'. (table', Some row, clock')) (put_record row table))"

section \<open>The occupant is what the index would refuse\<close>

lemma slot_key_of_record:
  "slot_key (recordToRow r) = (case parentId r of None \<Rightarrow> None | Some p \<Rightarrow> map_option (Pair p) (standInSlot (facts_of_record r)))"
  by (simp add: slot_key_def recordToRow_def split: option.split)

lemma record_slot:
  "standInSlot (facts_of_record r) = Some slot \<longleftrightarrow>
     deletedAt r = None \<and> parentId r \<noteq> None
     \<and> (standInRole r = Some Canonical \<and> slot = ''canonical''
        \<or> standInRole r = Some Smaller \<and> (\<exists>f. fidelity r = Some f \<and> slot = js_string_of_int f))"
  by (auto simp: standInSlot_def facts_of_record_def split: option.splits stand_in_role.splits)

lemma same_slot_key:
  assumes "slot_key (recordToRow a) = Some k"
  shows "slot_key (recordToRow b) = Some k \<longleftrightarrow> same_stand_in a b"
proof
  assume "slot_key (recordToRow b) = Some k"
  then obtain p slot where k: "parentId a = Some p" "standInSlot (facts_of_record a) = Some slot"
      "parentId b = Some p" "standInSlot (facts_of_record b) = Some slot"
    using assms by (auto simp: slot_key_of_record split: option.splits)
  from standInSlot_eq [OF k(2,4)]
  have "standInRole a = standInRole b \<and> (standInRole a = Some Smaller \<longrightarrow> fidelity a = fidelity b)"
    by (simp add: facts_of_record_def)
  moreover have "deletedAt a = None" "deletedAt b = None"
      "standInRole a = Some Canonical \<or> standInRole a = Some Smaller \<and> fidelity a \<noteq> None"
    using k(2,4) by (auto simp: record_slot)
  ultimately show "same_stand_in a b" using k(1,3) by (auto simp: same_stand_in_def)
next
  assume "same_stand_in a b"
  then show "slot_key (recordToRow b) = Some k" using slot_key_record assms by metis
qed

lemma occupant_row:
  "applyFilters env (filter_query (occupant_filters parent role fid) n) (recordToRow other) \<longleftrightarrow>
     parentId other = Some parent \<and> standInRole other = Some role \<and> (role = Smaller \<longrightarrow> fid \<noteq> None \<and> fidelity other = fid)
     \<and> deletedAt other = None"
proof -
  have role [simp]: "role_text x = role_text y \<longleftrightarrow> x = y" for x y
    by (cases x; cases y) (auto simp: role_text_def)
  have cell [simp]: "int_cell x = int_cell y \<longleftrightarrow> x = y" "int_cell x = None \<longleftrightarrow> x = None" for x y
    by (cases x; cases y) (simp_all add: int_cell_def)
  have row [simp]: "row_parent_id (recordToRow other) = parentId other" "row_stand_in_role (recordToRow other) = map_option role_text (standInRole other)"
      "row_fidelity (recordToRow other) = fidelity other" "row_deleted_at (recordToRow other) = map_option serializeHLC (deletedAt other)"
    by (simp_all add: recordToRow_def)
  show ?thesis
    unfolding filter_query_rows occupant_filters_def by (cases role) auto
qed

lemma occupant_match:
  assumes "standInSlot (facts_of_record r) = Some slot" "parentId r = Some parent" "standInRole r = Some role"
  shows "applyFilters env (filter_query (occupant_filters parent role (fidelity r)) n) (recordToRow other) \<longleftrightarrow> same_stand_in r other"
proof -
  have "deletedAt r = None" "role = Canonical \<or> role = Smaller \<and> fidelity r \<noteq> None"
    using assms by (auto simp: record_slot)
  then show ?thesis unfolding occupant_row same_stand_in_def using assms(2,3) by (cases role) auto
qed

section \<open>After the occupant, the row fits\<close>

text \<open>A table the slot index holds on, as the writes keep it, whose records read back.\<close>

definition slot_table :: "data_record list \<Rightarrow> bool" where
  "slot_table rs \<longleftrightarrow> table_ok (map recordToRow rs) \<and> list_all storable rs"

lemma slot_table_unique:
  assumes "slot_table rs" "a \<in> set rs" "b \<in> set rs" "same_stand_in r a" "same_stand_in r b"
  shows "a = b"
proof -
  have "same_stand_in a b" using assms(4,5) unfolding same_stand_in_def by metis
  moreover have "records_unique rs" using assms(1) table_ok_records_unique by (simp add: slot_table_def)
  ultimately have "rec_id a = rec_id b" "distinct (map rec_id rs)" using assms(2,3) by (auto simp: records_unique_def)
  then show ?thesis using assms(2,3) by (auto simp: distinct_map dest: inj_onD)
qed

lemma at_most_one: "(\<And>a b. a \<in> set xs \<Longrightarrow> b \<in> set xs \<Longrightarrow> a = b) \<Longrightarrow> distinct xs \<Longrightarrow> length xs \<le> 1"
  by (metis One_nat_def card_le_Suc0_iff_eq distinct_card finite_set)

lemma slotOccupant_finds:
  assumes "slot_table rs"
  shows "\<exists>occupant. slotOccupant codec env (map recordToRow rs) r = Inr occupant
    \<and> (case occupant of
         None \<Rightarrow> \<not> collides slot_key (map recordToRow rs) (recordToRow r)
       | Some other \<Rightarrow> other \<in> set rs \<and> rec_id other \<noteq> rec_id r \<and> same_stand_in r other)"
proof (cases "\<exists>slot parent role. standInSlot (facts_of_record r) = Some slot \<and> parentId r = Some parent \<and> standInRole r = Some role")
  case True
  then obtain slot parent role where r: "standInSlot (facts_of_record r) = Some slot" "parentId r = Some parent" "standInRole r = Some role"
    by blast
  let ?q = "filter_query (occupant_filters parent role (fidelity r)) 2"
  let ?found = "sort_key (record_rank (codec, env, ?q)) (filter (same_stand_in r) rs)"
  have storable: "list_all storable rs" using assms by (simp add: slot_table_def)
  obtain page where page: "query_records codec env ?q (map recordToRow rs) = Inr page" "pg_records page = take 2 ?found"
    using filter_query_page [OF storable, of 2 codec env "occupant_filters parent role (fidelity r)"]
    unfolding occupant_match [OF r] by auto
  have "distinct rs" using assms by (auto simp: slot_table_def table_ok_def comp_def distinct_map)
  then have "length ?found \<le> 1"
    using slot_table_unique [OF assms] by (intro at_most_one) auto
  then have records: "pg_records page = ?found" using page(2) by simp
  have occupant: "slotOccupant codec env (map recordToRow rs) r = Inr (find (\<lambda>other. rec_id other \<noteq> rec_id r) ?found)"
    using page(1) records by (simp add: slotOccupant_def r)
  have key: "slot_key (recordToRow r) = Some (parent, slot)" by (simp add: slot_key_of_record r)
  show ?thesis
  proof (cases "find (\<lambda>other. rec_id other \<noteq> rec_id r) ?found")
    case None
    then have "rec_id other = rec_id r" if "other \<in> set rs" "same_stand_in r other" for other
      using that by (auto simp: find_None_iff)
    then have "\<not> collides slot_key (map recordToRow rs) (recordToRow r)"
      unfolding collides_def key list_ex_iff using same_slot_key [OF key] by fastforce
    then show ?thesis using occupant None by simp
  next
    case (Some other)
    have "x \<in> set xs \<and> P x" if "find P xs = Some x" for P x and xs :: "data_record list"
      using that by (auto simp: find_Some_iff in_set_conv_nth)
    from this [OF Some] have "other \<in> set ?found" "rec_id other \<noteq> rec_id r" by blast+
    then show ?thesis using occupant Some by auto
  qed
next
  case False
  have "standInSlot (facts_of_record r) = None"
  proof (cases "standInSlot (facts_of_record r)")
    case (Some slot)
    then have "(\<exists>parent. parentId r = Some parent) \<and> (\<exists>role. standInRole r = Some role)" by (auto simp: record_slot)
    then show ?thesis using False Some by blast
  qed
  then have "slot_key (recordToRow r) = None" by (simp add: slot_key_of_record split: option.split)
  moreover have "slotOccupant codec env (map recordToRow rs) r = Inr None"
    using False by (auto simp: slotOccupant_def split: option.splits)
  ultimately show ?thesis by (simp add: collides_def)
qed

lemma tombstone_has_no_slot:
  "slot_key (recordToRow (fst (tombstoneOf node t r clock))) = None" "file_key (recordToRow (fst (tombstoneOf node t r clock))) = None"
proof -
  have deleted: "deletedAt (fst (tombstoneOf node t r clock)) \<noteq> None" by (simp add: tombstoneOf_def Let_def case_prod_unfold)
  then show "slot_key (recordToRow (fst (tombstoneOf node t r clock))) = None"
    unfolding slot_key_of_record by (simp add: standInSlot_def facts_of_record_def split: option.split)
  show "file_key (recordToRow (fst (tombstoneOf node t r clock))) = None"
    using deleted by (simp add: file_key_def recordToRow_def)
qed

lemma admitted_row_fits:
  assumes "slot_table rs"
  shows "\<exists>row lostTo clock'. admitIncomingStandIn codec env (map recordToRow rs) incoming node t clock = Inr (row, lostTo, clock')
    \<and> put_record row (map recordToRow rs) \<noteq> Inl UniqueStandInSlot"
proof -
  obtain occupant where occupant: "slotOccupant codec env (map recordToRow rs) incoming = Inr occupant"
      "occupant = None \<Longrightarrow> \<not> collides slot_key (map recordToRow rs) (recordToRow incoming)"
    using slotOccupant_finds [OF assms, of codec env incoming] by (auto split: option.splits)
  show ?thesis
  proof (cases occupant)
    case None
    then show ?thesis using occupant by (simp add: admitIncomingStandIn_def put_record_def Let_def)
  next
    case (Some other)
    have "put_record (fst (tombstoneOf node t incoming clock)) (map recordToRow rs) \<noteq> Inl UniqueStandInSlot"
      using tombstone_has_no_slot by (simp add: put_record_def Let_def collides_def)
    then show ?thesis using occupant(1) Some by (auto simp: admitIncomingStandIn_def case_prod_unfold Let_def)
  qed
qed

lemma yielded_slot_is_free:
  assumes "slot_table rs"
  shows "\<exists>table' loser clock'. yieldSlotToIncoming codec env (map recordToRow rs) incoming node t clock = Inr (table', loser, clock')
    \<and> table_ok table' \<and> put_record incoming table' \<noteq> Inl UniqueStandInSlot"
proof -
  have ok: "table_ok (map recordToRow rs)" using assms by (simp add: slot_table_def)
  obtain occupant where occupant: "slotOccupant codec env (map recordToRow rs) incoming = Inr occupant"
      and found: "case occupant of
         None \<Rightarrow> \<not> collides slot_key (map recordToRow rs) (recordToRow incoming)
       | Some other \<Rightarrow> other \<in> set rs \<and> rec_id other \<noteq> rec_id incoming \<and> same_stand_in incoming other"
    using slotOccupant_finds [OF assms, of codec env incoming] by blast
  show ?thesis
  proof (cases occupant)
    case None
    then show ?thesis using occupant found ok by (simp add: yieldSlotToIncoming_def put_record_def Let_def)
  next
    case (Some other)
    then have other: "other \<in> set rs" "same_stand_in incoming other" using found by simp_all
    let ?row = "fst (tombstoneOf node t other clock)"
    have id: "rec_id ?row = rec_id other" by (simp add: tombstoneOf_def Let_def case_prod_unfold)
    have put: "put_record ?row (map recordToRow rs) = Inr (upsert (recordToRow ?row) (map recordToRow rs))"
      using tombstone_has_no_slot by (simp add: put_record_def Let_def collides_def)
    have "\<not> collides slot_key (upsert (recordToRow ?row) (map recordToRow rs)) (recordToRow incoming)"
    proof
      assume "collides slot_key (upsert (recordToRow ?row) (map recordToRow rs)) (recordToRow incoming)"
      then obtain k b where k: "slot_key (recordToRow incoming) = Some k" "b \<in> set (upsert (recordToRow ?row) (map recordToRow rs))" "slot_key b = Some k"
        by (auto simp: collides_def list_ex_iff)
      then obtain q where q: "q \<in> set rs" "rec_id q \<noteq> rec_id other" "slot_key (recordToRow q) = Some k"
        using tombstone_has_no_slot(1) [of node t other clock] by (auto simp: set_upsert id)
      then have "same_stand_in incoming q" using same_slot_key [OF k(1)] by simp
      then show False using slot_table_unique [OF assms q(1) other(1) _ other(2)] q(2) by blast
    qed
    moreover have "table_ok (upsert (recordToRow ?row) (map recordToRow rs))" by (rule table_ok_put [OF put ok])
    ultimately show ?thesis
      using occupant Some put by (simp add: yieldSlotToIncoming_def case_prod_unfold Let_def) (simp add: put_record_def Let_def)
  qed
qed

section \<open>Claims\<close>

text \<open>
  C34. An incoming stand-in never stops a channel: over any sound store, what the responder admits is
  never refused by the slot index; and after the requester yields, the store is sound and lets the
  incoming stand-in take the slot. Neither step fails.
\<close>

theorem stand_in_conflict_never_wedges_sync:
  assumes "slot_table rs"
  shows "(\<exists>row lostTo clock'. admitIncomingStandIn codec env (map recordToRow rs) incoming node t clock = Inr (row, lostTo, clock')
      \<and> put_record row (map recordToRow rs) \<noteq> Inl UniqueStandInSlot)
    \<and> (\<exists>table' loser clock'. yieldSlotToIncoming codec env (map recordToRow rs) incoming node t clock = Inr (table', loser, clock')
      \<and> table_ok table' \<and> put_record incoming table' \<noteq> Inl UniqueStandInSlot)"
  using admitted_row_fits [OF assms] yielded_slot_is_free [OF assms] by blast

lemma stand_in_conflict_never_wedges_sync_witness:
  "\<exists>table' loser clock'. yieldSlotToIncoming sample_codec no_labels [recordToRow sample_record] (sample_record\<lparr>rec_id := ''r3''\<rparr>)
      ''n'' 9 (createHLCClock None) = Inr (table', loser, clock')
    \<and> put_record (sample_record\<lparr>rec_id := ''r3''\<rparr>) table' \<noteq> Inl UniqueStandInSlot"
proof -
  have "slot_table [sample_record]"
    by (simp add: slot_table_def table_ok_def unique_on_def storable_def sample_record_def)
  from stand_in_conflict_never_wedges_sync [OF this, of sample_codec no_labels "sample_record\<lparr>rec_id := ''r3''\<rparr>" "''n''" 9 "createHLCClock None"]
  show ?thesis by auto
qed

end
