(* ===== verification/Last_Write_Wins.thy ===== *)
theory Last_Write_Wins
  imports Js_Prelude
begin

text \<open>
  The contract every replicated table of the program follows: of two versions of one thing the
  one with the newer timestamp stays, and a version no newer than the one held changes nothing.
  The lemmas show what a store under this contract holds after a run of writes: for each key the
  newest version seen, whatever the order of the writes and however often each was repeated.

  The interface is interpreted on the app tables (\<open>App_Rows\<close>) and on the label table
  (\<open>Exchange_Apply\<close>).
\<close>

locale last_write_wins =
  fixes key :: "'v \<Rightarrow> 'k"
    and stamp :: "'v \<Rightarrow> 't::linorder"
    and held :: "'s \<Rightarrow> 'k \<Rightarrow> 'v option"
    and merge :: "'v \<Rightarrow> 's \<Rightarrow> 's"
    and good :: "'v \<Rightarrow> bool"
    and intact :: "'s \<Rightarrow> bool"
  assumes held_merge: "intact s \<Longrightarrow> good v \<Longrightarrow>
      held (merge v s) k
        = (if k = key v \<and> (case held s k of None \<Rightarrow> True | Some w \<Rightarrow> stamp w < stamp v) then Some v else held s k)"
    and intact_merge: "intact s \<Longrightarrow> good v \<Longrightarrow> intact (merge v s)"
    and held_key: "intact s \<Longrightarrow> held s k = Some v \<Longrightarrow> key v = k"
begin

text \<open>Every version that a store and a run of writes know of a key.\<close>

definition known :: "'s \<Rightarrow> 'v set \<Rightarrow> 'k \<Rightarrow> 'v set" where
  "known s vs k = {v \<in> vs. key v = k} \<union> {w. held s k = Some w}"

text \<open>A timestamp names one version.\<close>

definition one_version :: "'s \<Rightarrow> 'v set \<Rightarrow> bool" where
  "one_version s vs \<longleftrightarrow> (\<forall>k. inj_on stamp (known s vs k))"

lemma intact_run: "intact s \<Longrightarrow> (\<forall>v \<in> set vs. good v) \<Longrightarrow> intact (fold merge vs s)"
  by (induction vs arbitrary: s) (auto intro: intact_merge)

lemma run_holds_newest:
  assumes "intact s" "\<forall>v \<in> set vs. good v"
  shows "(held (fold merge vs s) k = None \<longleftrightarrow> known s (set vs) k = {})
    \<and> (\<forall>w. held (fold merge vs s) k = Some w \<longrightarrow> w \<in> known s (set vs) k \<and> (\<forall>v \<in> known s (set vs) k. stamp v \<le> stamp w))"
  using assms(2)
proof (induction vs rule: rev_induct)
  case Nil
  then show ?case by (auto simp: known_def)
next
  case (snoc v vs)
  let ?s = "fold merge vs s"
  have good: "good v" and ih: "\<forall>v \<in> set vs. good v" using snoc.prems by auto
  have ok: "intact ?s" using assms(1) ih by (rule intact_run)
  have known: "known s (insert v (set vs)) k = (if key v = k then insert v (known s (set vs) k) else known s (set vs) k)"
    by (auto simp: known_def)
  have new: "held (merge v ?s) k
      = (if k = key v \<and> (case held ?s k of None \<Rightarrow> True | Some w \<Rightarrow> stamp w < stamp v) then Some v else held ?s k)"
    using held_merge [OF ok good] .
  show ?case
  proof (cases "held ?s k")
    case None
    then show ?thesis using snoc.IH [OF ih] by (auto simp: new known)
  next
    case (Some w)
    then have w: "w \<in> known s (set vs) k" "\<forall>u \<in> known s (set vs) k. stamp u \<le> stamp w"
      using snoc.IH [OF ih] by auto
    have "stamp u \<le> stamp v" if "stamp w < stamp v" "u \<in> known s (set vs) k" for u
      using w(2) that by (meson less_imp_le order_trans)
    then show ?thesis using Some w by (auto simp: new known)
  qed
qed

text \<open>The store after a run depends only on which versions were written.\<close>

lemma run_order_free:
  assumes "intact s" "\<forall>v \<in> set vs. good v" "set vs = set vs'" "one_version s (set vs)"
  shows "held (fold merge vs s) k = held (fold merge vs' s) k"
proof -
  have good': "\<forall>v \<in> set vs'. good v" using assms by simp
  note a = run_holds_newest [OF assms(1,2), of k] and b = run_holds_newest [OF assms(1) good', of k]
  have inj: "inj_on stamp (known s (set vs) k)" using assms(4) by (simp add: one_version_def)
  show ?thesis
  proof (cases "held (fold merge vs s) k")
    case None
    then show ?thesis using a b assms(3) by (cases "held (fold merge vs' s) k") auto
  next
    case (Some w)
    then obtain u where u: "held (fold merge vs' s) k = Some u"
      using a b assms(3) by (cases "held (fold merge vs' s) k") auto
    have mem: "w \<in> known s (set vs) k" "u \<in> known s (set vs) k" using a b Some u assms(3) by auto
    have "stamp u \<le> stamp w" using a Some mem(2) by blast
    moreover have "stamp w \<le> stamp u" using b u mem(1) assms(3) by auto
    ultimately have "stamp w = stamp u" by simp
    then have "w = u" using inj mem by (simp add: inj_on_eq_iff)
    then show ?thesis using Some u by simp
  qed
qed

text \<open>Two stores that exchange everything they hold end alike.\<close>

lemma exchange_converges:
  assumes "intact s" "intact t" "\<forall>v \<in> set vs \<union> set us. good v"
    and from_s: "\<And>v k. held s k = Some v \<longleftrightarrow> v \<in> set vs \<and> key v = k"
    and from_t: "\<And>v k. held t k = Some v \<longleftrightarrow> v \<in> set us \<and> key v = k"
    and inj: "\<And>v u. v \<in> set vs \<union> set us \<Longrightarrow> u \<in> set vs \<union> set us \<Longrightarrow> key v = key u \<Longrightarrow> stamp v = stamp u \<Longrightarrow> v = u"
  shows "held (fold merge us s) k = held (fold merge vs t) k"
proof -
  have ok: "\<forall>v \<in> set us. good v" "\<forall>v \<in> set vs. good v" using assms(3) by auto
  have known: "known s (set us) k = known t (set vs) k"
    by (auto simp: known_def from_s from_t)
  note a = run_holds_newest [OF assms(1) ok(1), of k] and b = run_holds_newest [OF assms(2) ok(2), of k]
  show ?thesis
  proof (cases "held (fold merge us s) k")
    case None
    then show ?thesis using a b known by (cases "held (fold merge vs t) k") auto
  next
    case (Some w)
    then obtain u where u: "held (fold merge vs t) k = Some u"
      using a b known by (cases "held (fold merge vs t) k") auto
    have mem: "w \<in> known s (set us) k" "u \<in> known s (set us) k" using a b Some u known by auto
    have "stamp u \<le> stamp w" "stamp w \<le> stamp u" using a b Some u mem known by auto
    then have "stamp w = stamp u" by simp
    moreover have "w \<in> set vs \<union> set us" "u \<in> set vs \<union> set us" "key w = key u"
      using mem by (auto simp: known_def from_s)
    ultimately show ?thesis using inj Some u by metis
  qed
qed

text \<open>A version no newer than the one held is a no-op, so replaying a run changes nothing.\<close>

lemma replay_keeps:
  assumes "intact s" "\<forall>v \<in> set vs. good v" "one_version s (set vs)"
  shows "held (fold merge (vs @ vs) s) k = held (fold merge vs s) k"
  using run_order_free [OF assms(1,2) _ assms(3), of "vs @ vs" k] by simp

end

end
