(* ===== verification/App_Rows.thy ===== *)
theory App_Rows
  imports File_Rows Query_Parse Record_Store Last_Write_Wins
begin

text \<open>
  App tables under sync: the entries that carry their rows over the wire
  (\<open>packages/storage-adapter/src/database/app-syncable-rows.ts\<close>), the tables as they are created
  (\<open>packages/storage-sqlite/src/app-syncable/tables.ts\<close>, \<open>namespace.ts\<close>, \<open>row-values.ts\<close>) and the
  applier that writes entries into them (\<open>app-syncable/apply.ts\<close>).

  A table is its columns and its rows; a stored row has every column, in the declared order. A
  statement is modelled by the rows it leaves, with the errors SQLite raises: an unknown table or
  column, a \<open>NOT NULL\<close>, \<open>CHECK\<close> or primary-key violation. Column affinity is not modelled: a value
  is stored as it is bound.

  The lemmas show that a keyed write reaches one row only, and that nodes that exchange their rows
  end with the same tables in whatever order the entries arrive.
\<close>

section \<open>Tables\<close>

record declared_column =
  dc_name :: string
  dc_type :: logical_column_type
  dc_notNull :: "bool option"
  dc_primaryKey :: bool

record sql_column =
  sc_name :: string
  sc_notNull :: bool
  sc_boolean :: bool

record sql_table =
  st_columns :: "sql_column list"
  st_key :: "string list"
  st_rows :: "app_row list"

type_synonym app_database = "(string, sql_table) js_map"

record table_info =
  ti_name :: string
  ti_pkColumns :: "string list"
  ti_columns :: "column_info list"

record app_namespace =
  ns_appId :: string
  ns_tables :: "table_info list"
  ns_filesEnabled :: bool

type_synonym namespace_store = "(string, app_namespace) js_map"

definition SYSTEM_COLUMNS :: "column_info list" where
  "SYSTEM_COLUMNS =
     [\<lparr>col_name = ''updated_at'', col_type = ColText, col_notNull = True, col_primaryKey = False\<rparr>,
      \<lparr>col_name = ''node_id'', col_type = ColText, col_notNull = True, col_primaryKey = False\<rparr>,
      \<lparr>col_name = ''deleted_at'', col_type = ColText, col_notNull = False, col_primaryKey = False\<rparr>]"

definition appSyncableTableInfo :: "string \<Rightarrow> declared_column list \<Rightarrow> table_info" where
  "appSyncableTableInfo name columns =
     \<lparr>ti_name = name, ti_pkColumns = map dc_name (filter dc_primaryKey columns),
      ti_columns = map (\<lambda>c. \<lparr>col_name = dc_name c, col_type = dc_type c, col_notNull = (case dc_notNull c of Some b \<Rightarrow> b | None \<Rightarrow> dc_primaryKey c), col_primaryKey = dc_primaryKey c\<rparr>) columns
        @ SYSTEM_COLUMNS\<rparr>"

text \<open>The reserved table of an app that syncs files.\<close>

definition FILE_RECORDS_COLUMNS :: "declared_column list" where
  "FILE_RECORDS_COLUMNS =
     map (\<lambda>(name, type, notNull, pk). \<lparr>dc_name = name, dc_type = type, dc_notNull = Some notNull, dc_primaryKey = pk\<rparr>)
       [(''id'', ColText, True, True), (''object_storage_key'', ColText, True, False),
        (''content_hash'', ColText, True, False), (''mime_type'', ColText, False, False),
        (''size_bytes'', ColBigint, True, False), (''original_filename'', ColText, False, False),
        (''origin_app_id'', ColText, True, False), (''created_at'', ColText, True, False)]"

definition FILE_RECORDS_TABLE_INFO :: table_info where
  "FILE_RECORDS_TABLE_INFO = appSyncableTableInfo FILE_RECORDS_TABLE FILE_RECORDS_COLUMNS"

definition withFileRecordsTable :: "table_info list \<Rightarrow> bool \<Rightarrow> table_info list" where
  "withFileRecordsTable tables filesEnabled =
     (if \<not> filesEnabled then tables
      else if \<exists>t \<in> set tables. ti_name t = FILE_RECORDS_TABLE then tables
      else tables @ [FILE_RECORDS_TABLE_INFO])"

definition createSyncableTable :: "declared_column list \<Rightarrow> sql_table" where
  "createSyncableTable columns =
     \<lparr>st_columns =
        map (\<lambda>c. \<lparr>sc_name = dc_name c, sc_notNull = (dc_notNull c = Some True \<or> dc_primaryKey c), sc_boolean = (dc_type c = ColBoolean)\<rparr>) columns
          @ [\<lparr>sc_name = ''updated_at'', sc_notNull = True, sc_boolean = False\<rparr>,
             \<lparr>sc_name = ''node_id'', sc_notNull = True, sc_boolean = False\<rparr>,
             \<lparr>sc_name = ''deleted_at'', sc_notNull = False, sc_boolean = False\<rparr>],
      st_key = map dc_name (filter dc_primaryKey columns), st_rows = []\<rparr>"

definition normalizeAppId :: "string \<Rightarrow> string" where
  "normalizeAppId appId = map (\<lambda>c. if c = CHR ''-'' then CHR ''_'' else c) (map js_lower_char appId)"

definition appSyncableTableName :: "string \<Rightarrow> string \<Rightarrow> string" where
  "appSyncableTableName appId tableName = normalizeAppId appId @ ''_syncable_'' @ tableName"

text \<open>\<open>create table if not exists\<close>.\<close>

definition create_table :: "string \<Rightarrow> sql_table \<Rightarrow> app_database \<Rightarrow> app_database" where
  "create_table name t db = (if js_has db name then db else js_set name t db)"

record table_declaration =
  td_name :: string
  td_columns :: "declared_column list"

record syncable_declaration =
  sd_tables :: "table_declaration list"
  sd_files :: bool

definition createAppSyncableTables :: "string \<Rightarrow> table_declaration list \<Rightarrow> app_database \<Rightarrow> app_database" where
  "createAppSyncableTables appId tables db =
     fold (\<lambda>t. create_table (appSyncableTableName appId (td_name t)) (createSyncableTable (td_columns t))) tables db"

definition createReservedFileRecordsTable :: "string \<Rightarrow> app_database \<Rightarrow> app_database" where
  "createReservedFileRecordsTable appId =
     create_table (appSyncableTableName appId FILE_RECORDS_TABLE) (createSyncableTable FILE_RECORDS_COLUMNS)"

definition appSyncableNamespaceTables :: "syncable_declaration \<Rightarrow> table_info list" where
  "appSyncableNamespaceTables syncable =
     map (\<lambda>t. appSyncableTableInfo (td_name t) (td_columns t)) (sd_tables syncable)
       @ (if sd_files syncable then [FILE_RECORDS_TABLE_INFO] else [])"

definition upsertAppSyncableNamespace :: "string \<Rightarrow> table_info list \<Rightarrow> bool \<Rightarrow> namespace_store \<Rightarrow> namespace_store" where
  "upsertAppSyncableNamespace appId tables filesEnabled store =
     js_set appId \<lparr>ns_appId = appId, ns_tables = tables, ns_filesEnabled = filesEnabled\<rparr> store"

definition registerAppSyncableNamespace ::
    "string \<Rightarrow> syncable_declaration \<Rightarrow> app_database \<times> namespace_store \<Rightarrow> app_database \<times> namespace_store" where
  "registerAppSyncableNamespace appId syncable =
     (\<lambda>(db, store).
        let db = createAppSyncableTables appId (sd_tables syncable) db;
            db = (if sd_files syncable then createReservedFileRecordsTable appId db else db)
        in (db, upsertAppSyncableNamespace appId (appSyncableNamespaceTables syncable) (sd_files syncable) store))"

text \<open>
  \<open>parseAppSyncableTables\<close>: a registry row whose tables carry no columns is refused. The parsed
  JSON is the argument.
\<close>

definition parseAppSyncableTables :: "table_info list \<Rightarrow> js_error + table_info list" where
  "parseAppSyncableTables tables =
     (if \<exists>t \<in> set tables. ti_columns t = [] then Inl (JsError ''no column types'') else Inr tables)"

section \<open>Values\<close>

text \<open>SQLite binds no booleans; a declared boolean column is read back as one.\<close>

fun toSqliteParam :: "cell \<Rightarrow> cell" where
  "toSqliteParam (Some (QBool b)) = Some (QNum (if b then 1 else 0))"
| "toSqliteParam c = c"

definition booleanColumnNames :: "column_info list \<Rightarrow> string list" where
  "booleanColumnNames columns = map col_name (filter (\<lambda>c. col_type c = ColBoolean) columns)"

fun boolean_of_number :: "cell \<Rightarrow> cell" where
  "boolean_of_number (Some (QNum q)) = Some (QBool (q \<noteq> 0))"
| "boolean_of_number c = c"

definition fromSqliteRow :: "string list \<Rightarrow> app_row \<Rightarrow> app_row" where
  "fromSqliteRow booleanColumns row =
     map (\<lambda>(name, c). (name, if name \<in> set booleanColumns then boolean_of_number c else c)) row"

text \<open>JavaScript's truth of a column value.\<close>

fun truthy_cell :: "cell \<Rightarrow> bool" where
  "truthy_cell None = False"
| "truthy_cell (Some (QBool b)) = b"
| "truthy_cell (Some (QNum q)) = (q \<noteq> 0)"
| "truthy_cell (Some (QText s)) = (s \<noteq> [])"

section \<open>Statements\<close>

datatype sql_error = NoSuchTable | NoSuchColumn | NotNullFailed | CheckFailed | UniqueFailed | NoConflictTarget

definition column_names :: "sql_table \<Rightarrow> string list" where
  "column_names t = map sc_name (st_columns t)"

text \<open>A row as it is stored: every column, bound, and null where no value is given.\<close>

definition stored_row :: "sql_table \<Rightarrow> app_row \<Rightarrow> app_row" where
  "stored_row t row = map (\<lambda>c. (sc_name c, toSqliteParam (row_cell row (sc_name c)))) (st_columns t)"

definition flag_cell :: "cell \<Rightarrow> bool" where
  "flag_cell c \<longleftrightarrow> c = None \<or> c = Some (QNum 0) \<or> c = Some (QNum 1)"

definition check_row :: "sql_table \<Rightarrow> app_row \<Rightarrow> sql_error option" where
  "check_row t row =
     (if \<exists>c \<in> set (st_columns t). sc_notNull c \<and> row_cell row (sc_name c) = None then Some NotNullFailed
      else if \<exists>c \<in> set (st_columns t). sc_boolean c \<and> \<not> flag_cell (row_cell row (sc_name c)) then Some CheckFailed
      else None)"

definition named_columns :: "sql_table \<Rightarrow> string list \<Rightarrow> bool" where
  "named_columns t names \<longleftrightarrow> set names \<subseteq> set (column_names t)"

definition key_of :: "sql_table \<Rightarrow> app_row \<Rightarrow> cell list" where
  "key_of t row = map (row_cell row) (st_key t)"

definition has_key :: "sql_table \<Rightarrow> cell list \<Rightarrow> bool" where
  "has_key t k \<longleftrightarrow> st_key t \<noteq> [] \<and> (\<exists>r \<in> set (st_rows t). key_of t r = k)"

text \<open>\<open>insert or ignore\<close>: a row that breaks a constraint is skipped.\<close>

definition insert_or_ignore :: "app_row \<Rightarrow> sql_table \<Rightarrow> sql_error + sql_table" where
  "insert_or_ignore row t =
     (if \<not> named_columns t (js_keys row) then Inl NoSuchColumn
      else let new = stored_row t row
           in Inr (if check_row t new \<noteq> None \<or> has_key t (key_of t new) then t
                   else t\<lparr>st_rows := st_rows t @ [new]\<rparr>))"

definition newer_cell :: "cell \<Rightarrow> cell \<Rightarrow> bool" where
  "newer_cell new old \<longleftrightarrow> sql_holds (sql_cmp (>) new old)"

definition overwrite :: "string list \<Rightarrow> app_row \<Rightarrow> app_row \<Rightarrow> app_row" where
  "overwrite cols new row = map (\<lambda>(name, c). (name, if name \<in> set cols then row_cell new name else c)) row"

text \<open>
  \<open>insert ... on conflict (key) do update set c = excluded.c ... where excluded.updated_at > updated_at\<close>:
  the guard is unknown, and the row kept, when either timestamp is null.
\<close>

definition upsert_newer :: "string list \<Rightarrow> string list \<Rightarrow> app_row \<Rightarrow> sql_table \<Rightarrow> sql_error + sql_table" where
  "upsert_newer pkColumns updateCols row t =
     (if \<not> named_columns t (js_keys row) then Inl NoSuchColumn
      else if st_key t = [] \<or> set pkColumns \<noteq> set (st_key t) then Inl NoConflictTarget
      else let new = stored_row t row
           in case check_row t new of
                Some e \<Rightarrow> Inl e
              | None \<Rightarrow>
                  if has_key t (key_of t new)
                  then Inr (t\<lparr>st_rows := map (\<lambda>r. if key_of t r = key_of t new \<and> newer_cell (row_cell new ''updated_at'') (row_cell r ''updated_at'')
                                                   then overwrite updateCols new r else r) (st_rows t)\<rparr>)
                  else Inr (t\<lparr>st_rows := st_rows t @ [new]\<rparr>))"

text \<open>\<open>update ... set patch where c = v and ... and guard\<close>.\<close>

definition where_equals :: "app_row \<Rightarrow> app_row \<Rightarrow> bool" where
  "where_equals conditions row \<longleftrightarrow>
     (\<forall>(name, v) \<in> set conditions. sql_holds (sql_cmp (=) (row_cell row name) (toSqliteParam v)))"

definition update_rows :: "app_row \<Rightarrow> app_row \<Rightarrow> (app_row \<Rightarrow> bool) \<Rightarrow> sql_table \<Rightarrow> sql_error + sql_table" where
  "update_rows patch conditions guard t =
     (if \<not> named_columns t (js_keys patch) \<or> \<not> named_columns t (js_keys conditions) then Inl NoSuchColumn
      else let selected = (\<lambda>r. where_equals conditions r \<and> guard r);
               bound = map (\<lambda>(name, c). (name, toSqliteParam c)) patch;
               rows = map (\<lambda>r. if selected r then overwrite (js_keys patch) bound r else r) (st_rows t)
           in case List.find (\<lambda>r. check_row t r \<noteq> None) rows of
                Some r \<Rightarrow> Inl (the (check_row t r))
              | None \<Rightarrow>
                  if st_key t \<noteq> [] \<and> \<not> distinct (map (key_of t) rows) then Inl UniqueFailed
                  else Inr (t\<lparr>st_rows := rows\<rparr>))"

text \<open>\<open>updated_at is null or updated_at < ts\<close>.\<close>

definition older_than :: "cell \<Rightarrow> app_row \<Rightarrow> bool" where
  "older_than ts row \<longleftrightarrow>
     sql_holds (sql_or (sql_is_null (row_cell row ''updated_at'')) (sql_cmp (<) (row_cell row ''updated_at'') ts))"

section \<open>Entries\<close>

record wire_entry =
  we_timestamp :: hlc
  we_appId :: string
  we_table :: string
  we_op :: app_row_op
  we_row :: "app_row option"
  we_where :: "app_row option"

datatype apply_error = NotInstalled | NotDeclared | KeylessWrite | PartialKey | SqlFailed sql_error

definition requireKeyedWhere :: "wire_entry \<Rightarrow> string list \<Rightarrow> apply_error + app_row" where
  "requireKeyedWhere entry pkColumns =
     (let conditions = (case we_where entry of None \<Rightarrow> [] | Some w \<Rightarrow> w)
      in if conditions = [] then Inl KeylessWrite
         else if \<exists>c \<in> set pkColumns. js_get conditions c = None then Inl PartialKey
         else Inr conditions)"

definition keyedWhereFor :: "app_row \<Rightarrow> string list \<Rightarrow> app_row option" where
  "keyedWhereFor row pkColumns =
     (if pkColumns = [] then None
      else if \<exists>c \<in> set pkColumns. js_get row c = None then None
      else Some (fold (\<lambda>c. js_set c (row_cell row c)) pkColumns []))"

text \<open>A stored row as the entry a peer applies; \<open>updated_at\<close> that is no clock value raises.\<close>

definition rowToWireEntry :: "string \<Rightarrow> string \<Rightarrow> app_row \<Rightarrow> string list \<Rightarrow> js_error + wire_entry option" where
  "rowToWireEntry appId table row pkColumns =
     (case row_cell row ''updated_at'' of
        Some (QText s) \<Rightarrow>
          (case read_timestamp s of
             Inl e \<Rightarrow> Inl e
           | Inr timestamp \<Rightarrow>
               Inr (if \<not> truthy_cell (row_cell row ''deleted_at'')
                    then Some \<lparr>we_timestamp = timestamp, we_appId = appId, we_table = table, we_op = OpInsert,
                               we_row = Some row, we_where = None\<rparr>
                    else map_option (\<lambda>w. \<lparr>we_timestamp = timestamp, we_appId = appId, we_table = table,
                               we_op = OpDelete, we_row = Some row, we_where = Some w\<rparr>)
                           (keyedWhereFor row pkColumns)))
      | _ \<Rightarrow> Inl (JsError ''not a clock value''))"

section \<open>The applier\<close>

definition nodeIdOf :: "cell \<Rightarrow> wire_entry \<Rightarrow> string" where
  "nodeIdOf updated entry =
     (case updated of
        Some (QText s) \<Rightarrow> (case deserializeHLC s of Inr (_, _, n) \<Rightarrow> n | Inl _ \<Rightarrow> nodeId (we_timestamp entry))
      | _ \<Rightarrow> nodeId (we_timestamp entry))"

definition withNodeId :: "app_row \<Rightarrow> wire_entry \<Rightarrow> app_row" where
  "withNodeId row entry = js_set ''node_id'' (Some (QText (nodeIdOf (row_cell row ''updated_at'') entry))) row"

definition entry_values :: "wire_entry \<Rightarrow> app_row" where
  "entry_values entry = (case we_row entry of None \<Rightarrow> [] | Some row \<Rightarrow> row)"

definition sql_result :: "sql_error + 'a \<Rightarrow> apply_error + 'a" where
  "sql_result r = (case r of Inl e \<Rightarrow> Inl (SqlFailed e) | Inr x \<Rightarrow> Inr x)"

definition applyInsert :: "string list \<Rightarrow> wire_entry \<Rightarrow> sql_table \<Rightarrow> apply_error + sql_table" where
  "applyInsert pkColumns entry t =
     (let row = withNodeId (entry_values entry) entry;
          updateCols = filter (\<lambda>c. c \<notin> set pkColumns) (js_keys row)
      in if row = [] then Inr t
         else sql_result (if pkColumns = [] \<or> updateCols = [] then insert_or_ignore row t
                          else upsert_newer pkColumns updateCols row t))"

definition applyUpdate :: "string list \<Rightarrow> wire_entry \<Rightarrow> sql_table \<Rightarrow> apply_error + sql_table" where
  "applyUpdate pkColumns entry t =
     (let rawPatch = entry_values entry;
          patch = (if truthy_cell (row_cell rawPatch ''updated_at'') then withNodeId rawPatch entry else rawPatch);
          incoming = row_cell patch ''updated_at''
      in case requireKeyedWhere entry pkColumns of
           Inl e \<Rightarrow> Inl e
         | Inr conditions \<Rightarrow>
             if patch = [] then Inr t
             else sql_result (update_rows patch conditions (\<lambda>r. truthy_cell incoming \<longrightarrow> older_than incoming r) t))"

definition carriesFullRow :: "string list \<Rightarrow> wire_entry \<Rightarrow> bool" where
  "carriesFullRow pkColumns entry \<longleftrightarrow>
     (case we_row entry of None \<Rightarrow> False
      | Some row \<Rightarrow> pkColumns \<noteq> [] \<and> (\<forall>c \<in> set pkColumns. js_get row c \<noteq> None))"

definition applyDelete :: "string list \<Rightarrow> wire_entry \<Rightarrow> sql_table \<Rightarrow> apply_error + sql_table" where
  "applyDelete pkColumns entry t =
     (case requireKeyedWhere entry pkColumns of
        Inl e \<Rightarrow> Inl e
      | Inr conditions \<Rightarrow>
          let ts = (case row_cell (entry_values entry) ''updated_at'' of
                      Some v \<Rightarrow> Some v | None \<Rightarrow> Some (QText (serializeHLC (we_timestamp entry))))
          in if carriesFullRow pkColumns entry
             then let row = withNodeId (js_set ''deleted_at'' ts (js_set ''updated_at'' ts (entry_values entry))) entry
                  in sql_result (upsert_newer pkColumns (filter (\<lambda>c. c \<notin> set pkColumns) (js_keys row)) row t)
             else sql_result (update_rows
                    [(''deleted_at'', ts), (''updated_at'', ts), (''node_id'', Some (QText (nodeIdOf ts entry)))]
                    conditions (older_than ts) t))"

definition apply_entry :: "namespace_store \<Rightarrow> wire_entry \<Rightarrow> app_database \<Rightarrow> apply_error + app_database" where
  "apply_entry namespace entry db =
     (case js_get namespace (we_appId entry) of
        None \<Rightarrow> Inl NotInstalled
      | Some ns \<Rightarrow>
          (case List.find (\<lambda>t. ti_name t = we_table entry) (ns_tables ns) of
             None \<Rightarrow> Inl NotDeclared
           | Some info \<Rightarrow>
               (let fullName = appSyncableTableName (we_appId entry) (we_table entry);
                    operation = (case we_op entry of OpInsert \<Rightarrow> applyInsert | OpUpdate \<Rightarrow> applyUpdate | OpDelete \<Rightarrow> applyDelete)
                in case js_get db fullName of
                     None \<Rightarrow> Inl (SqlFailed NoSuchTable)
                   | Some t \<Rightarrow>
                       (case operation (ti_pkColumns info) entry t of
                          Inl e \<Rightarrow> Inl e
                        | Inr t' \<Rightarrow> Inr (js_set fullName t' db)))))"

text \<open>The rows a scan ships: \<open>fromSqliteRows\<close>, then one entry per row that can name itself.\<close>

definition scan_entry :: "table_info \<Rightarrow> string \<Rightarrow> app_row \<Rightarrow> js_error + wire_entry option" where
  "scan_entry info appId row =
     rowToWireEntry appId (ti_name info) (fromSqliteRow (booleanColumnNames (ti_columns info)) row) (ti_pkColumns info)"


fun apply_entries :: "namespace_store \<Rightarrow> wire_entry list \<Rightarrow> app_database \<Rightarrow> apply_error + app_database" where
  "apply_entries namespace [] db = Inr db"
| "apply_entries namespace (e # es) db = and_then (apply_entry namespace e db) (apply_entries namespace es)"

section \<open>Well-formed tables\<close>

text \<open>Distinct column names, none of the runtime's own, and a primary key: what a created table needs.\<close>

definition declaration_ok :: "declared_column list \<Rightarrow> bool" where
  "declaration_ok columns \<longleftrightarrow> distinct (map dc_name columns) \<and> (\<exists>c \<in> set columns. dc_primaryKey c)
     \<and> (\<forall>c \<in> set columns. dc_name c \<notin> {''updated_at'', ''node_id'', ''deleted_at''})"

definition table_shape :: "sql_table \<Rightarrow> bool" where
  "table_shape S \<longleftrightarrow> distinct (column_names S) \<and> st_key S \<noteq> [] \<and> set (st_key S) \<subseteq> set (column_names S)
     \<and> {''updated_at'', ''node_id'', ''deleted_at''} \<subseteq> set (column_names S) - set (st_key S)"

definition info_matches :: "table_info \<Rightarrow> sql_table \<Rightarrow> bool" where
  "info_matches info S \<longleftrightarrow> ti_pkColumns info = st_key S
     \<and> set (booleanColumnNames (ti_columns info)) = sc_name ` {c \<in> set (st_columns S). sc_boolean c}"

text \<open>A stored row of the table, and one whose system columns agree with each other.\<close>

definition whole_row :: "sql_table \<Rightarrow> app_row \<Rightarrow> bool" where
  "whole_row S r \<longleftrightarrow> map fst r = column_names S \<and> check_row S r = None
     \<and> (\<forall>n. toSqliteParam (row_cell r n) = row_cell r n)"

definition row_dated :: "app_row \<Rightarrow> hlc \<Rightarrow> bool" where
  "row_dated r h \<longleftrightarrow> hlc_fits h \<and> CHR '':'' \<notin> set (nodeId h)
     \<and> row_cell r ''updated_at'' = Some (QText (serializeHLC h))
     \<and> row_cell r ''node_id'' = Some (QText (nodeId h))
     \<and> (row_cell r ''deleted_at'' = None \<or> row_cell r ''deleted_at'' = Some (QText (serializeHLC h)))"

definition row_good :: "sql_table \<Rightarrow> app_row \<Rightarrow> bool" where
  "row_good S r \<longleftrightarrow> whole_row S r \<and> (\<exists>h. row_dated r h)"

definition intact_table :: "sql_table \<Rightarrow> sql_table \<Rightarrow> bool" where
  "intact_table S t \<longleftrightarrow> table_shape S \<and> st_columns t = st_columns S \<and> st_key t = st_key S
     \<and> (\<forall>r \<in> set (st_rows t). row_good S r) \<and> distinct (map (key_of S) (st_rows t))"

definition row_stamp :: "app_row \<Rightarrow> string" where
  "row_stamp r = (case row_cell r ''updated_at'' of Some (QText s) \<Rightarrow> s | _ \<Rightarrow> [])"

definition row_held :: "sql_table \<Rightarrow> cell list \<Rightarrow> app_row option" where
  "row_held t k = List.find (\<lambda>r. key_of t r = k) (st_rows t)"

text \<open>What a whole row does to the table it lands in.\<close>

definition land_row :: "app_row \<Rightarrow> sql_table \<Rightarrow> sql_table" where
  "land_row r t =
     t\<lparr>st_rows := if has_key t (key_of t r)
                  then map (\<lambda>q. if key_of t q = key_of t r \<and> newer_cell (row_cell r ''updated_at'') (row_cell q ''updated_at'')
                                then r else q) (st_rows t)
                  else st_rows t @ [r]\<rparr>"

lemma created_table_shape:
  assumes "declaration_ok columns"
  shows "table_shape (createSyncableTable columns)"
    and "info_matches (appSyncableTableInfo name columns) (createSyncableTable columns)"
    and "intact_table (createSyncableTable columns) (createSyncableTable columns)"
proof -
  have names: "column_names (createSyncableTable columns) = map dc_name columns @ [''updated_at'', ''node_id'', ''deleted_at'']"
    by (simp add: column_names_def createSyncableTable_def comp_def)
  have key: "st_key (createSyncableTable columns) = map dc_name (filter dc_primaryKey columns)"
    by (simp add: createSyncableTable_def)
  show shape: "table_shape (createSyncableTable columns)"
    using assms unfolding table_shape_def names key declaration_ok_def
    by (auto simp: filter_empty_conv)
  show "info_matches (appSyncableTableInfo name columns) (createSyncableTable columns)"
  proof -
    let ?flags = "map dc_name (filter (\<lambda>c. dc_type c = ColBoolean) columns)"
    have "booleanColumnNames (ti_columns (appSyncableTableInfo name columns)) = ?flags"
      by (simp add: appSyncableTableInfo_def booleanColumnNames_def SYSTEM_COLUMNS_def filter_map comp_def)
    moreover have "map sc_name (filter sc_boolean (st_columns (createSyncableTable columns))) = ?flags"
      by (simp add: createSyncableTable_def filter_map comp_def)
    then have "sc_name ` {c \<in> set (st_columns (createSyncableTable columns)). sc_boolean c} = set ?flags"
      by (metis set_filter set_map)
    ultimately show ?thesis by (simp add: info_matches_def key appSyncableTableInfo_def)
  qed
  show "intact_table (createSyncableTable columns) (createSyncableTable columns)"
    using shape by (simp add: intact_table_def createSyncableTable_def)
qed

lemma row_cell_set [simp]: "row_cell (js_set n c r) m = (if m = n then c else row_cell r m)"
  by (simp add: row_cell_def)

lemma row_cell_map: "row_cell (map (\<lambda>(name, c). (name, f name c)) r) n = (if n \<in> fst ` set r then f n (row_cell r n) else None)"
  by (induction r) (auto simp: row_cell_def)

lemma row_cell_absent: "n \<notin> fst ` set r \<Longrightarrow> row_cell r n = None"
  by (simp add: row_cell_def map_of_eq_None_iff [symmetric])

lemma row_cell_from_sqlite [simp]:
  "row_cell (fromSqliteRow bs r) n = (if n \<in> set bs then boolean_of_number (row_cell r n) else row_cell r n)"
  by (cases "n \<in> fst ` set r") (auto simp: fromSqliteRow_def row_cell_map row_cell_absent)

lemma js_keys_from_sqlite [simp]: "map fst (fromSqliteRow bs r) = map fst r"
  by (simp add: fromSqliteRow_def comp_def case_prod_beta)

lemma flag_round_trip: "flag_cell c \<Longrightarrow> toSqliteParam (boolean_of_number c) = c"
  by (auto simp: flag_cell_def)

text \<open>A row is given by its columns and their values.\<close>

lemma row_determined:
  assumes "map fst r = ns" "distinct ns"
  shows "r = map (\<lambda>n. (n, row_cell r n)) ns"
  using assms
proof (induction r arbitrary: ns)
  case (Cons kv r)
  obtain k v where kv: "kv = (k, v)" by (cases kv)
  have ns: "ns = k # map fst r" using Cons.prems(1) kv by simp
  then have fresh: "distinct (map fst r)" "k \<notin> set (map fst r)" using Cons.prems(2) by simp_all
  have "r = map (\<lambda>n. (n, row_cell r n)) (map fst r)" using Cons.IH fresh by blast
  moreover have "row_cell (kv # r) n = row_cell r n" if "n \<in> set (map fst r)" for n
  proof -
    have "n \<noteq> k" using fresh(2) that by blast
    then show ?thesis by (simp add: row_cell_def kv)
  qed
  ultimately have "r = map (\<lambda>n. (n, row_cell (kv # r) n)) (map fst r)" by (metis (no_types, lifting) map_eq_conv)
  moreover have "row_cell (kv # r) k = v" by (simp add: row_cell_def kv)
  ultimately show ?case unfolding ns kv by simp
qed simp

lemma stored_row_same:
  assumes "whole_row S r" "distinct (column_names S)"
    and "\<And>n. n \<in> set (column_names S) \<Longrightarrow> toSqliteParam (row_cell q n) = row_cell r n"
  shows "stored_row S q = r"
proof -
  have "stored_row S q = map (\<lambda>n. (n, toSqliteParam (row_cell q n))) (column_names S)"
    by (simp add: stored_row_def column_names_def comp_def)
  also have "\<dots> = map (\<lambda>n. (n, row_cell r n)) (column_names S)" using assms(3) by simp
  also have "\<dots> = r" using row_determined [of r "column_names S"] assms by (simp add: whole_row_def)
  finally show ?thesis .
qed

lemma overwrite_whole:
  assumes "whole_row S r" "whole_row S q" "distinct (column_names S)" "key_of S q = key_of S r"
    and "set (column_names S) \<subseteq> set cols \<union> set (st_key S)"
  shows "overwrite cols r q = r"
proof -
  have names: "map fst q = column_names S" "map fst r = column_names S"
    using assms(1,2) by (simp_all add: whole_row_def)
  have key: "row_cell q n = row_cell r n" if "n \<in> set (st_key S)" for n
    using assms(4) that by (simp add: key_of_def)
  have fst: "map fst (overwrite cols r q) = column_names S"
    using names by (simp add: overwrite_def comp_def case_prod_beta)
  have "row_cell (overwrite cols r q) n = row_cell r n" if "n \<in> set (column_names S)" for n
    using that key assms(5) names by (auto simp: overwrite_def row_cell_map simp flip: set_map)
  then have "map (\<lambda>n. (n, row_cell (overwrite cols r q) n)) (column_names S) = map (\<lambda>n. (n, row_cell r n)) (column_names S)"
    by simp
  then show ?thesis
    using row_determined [OF fst assms(3)] row_determined [OF names(2) assms(3)] by metis
qed

section \<open>A whole row lands as the newest version\<close>

lemma same_schema:
  assumes "intact_table S t"
  shows "stored_row t = stored_row S" "key_of t = key_of S" "check_row t = check_row S"
    "column_names t = column_names S" "st_key t = st_key S"
  using assms by (simp_all add: intact_table_def stored_row_def key_of_def check_row_def column_names_def fun_eq_iff)

lemma has_key_iff:
  assumes "intact_table S t"
  shows "has_key t k \<longleftrightarrow> (\<exists>r \<in> set (st_rows t). key_of S r = k)"
proof -
  have "st_key t \<noteq> []" using assms by (simp add: intact_table_def table_shape_def)
  then show ?thesis by (simp add: has_key_def same_schema(2) [OF assms])
qed

lemma row_held_iff:
  assumes "intact_table S t"
  shows "row_held t k = Some r \<longleftrightarrow> r \<in> set (st_rows t) \<and> key_of S r = k"
proof -
  have "distinct (map (key_of S) rs) \<Longrightarrow> List.find (\<lambda>r. key_of S r = k) rs = Some r \<longleftrightarrow> r \<in> set rs \<and> key_of S r = k" for rs
    by (induction rs) auto
  moreover have "distinct (map (key_of S) (st_rows t))" using assms by (simp add: intact_table_def)
  ultimately show ?thesis by (simp add: row_held_def same_schema(2) [OF assms])
qed

lemma row_held_None:
  assumes "intact_table S t"
  shows "row_held t k = None \<longleftrightarrow> (\<forall>r \<in> set (st_rows t). key_of S r \<noteq> k)"
  by (auto simp: row_held_def same_schema(2) [OF assms] find_None_iff)

lemma newer_stamp:
  assumes "row_good S r" "row_good S q"
  shows "newer_cell (row_cell r ''updated_at'') (row_cell q ''updated_at'') \<longleftrightarrow> row_stamp q < row_stamp r"
proof -
  obtain h g where h: "row_cell r ''updated_at'' = Some (QText (serializeHLC h))"
    and g: "row_cell q ''updated_at'' = Some (QText (serializeHLC g))"
    using assms unfolding row_good_def row_dated_def by blast
  show ?thesis by (simp add: newer_cell_def sql_cmp_def row_stamp_def h g)
qed

lemma land_rows:
  assumes "intact_table S t" "row_good S r"
  shows "set (st_rows (land_row r t)) =
    (case row_held t (key_of S r) of
       None \<Rightarrow> insert r (set (st_rows t))
     | Some q \<Rightarrow> if row_stamp q < row_stamp r then insert r (set (st_rows t) - {q}) else set (st_rows t))"
proof (cases "row_held t (key_of S r)")
  case None
  then have "\<not> has_key t (key_of S r)" using has_key_iff [OF assms(1)] row_held_None [OF assms(1)] by blast
  then have "set (st_rows (land_row r t)) = insert r (set (st_rows t))"
    by (simp add: land_row_def same_schema(2) [OF assms(1)])
  then show ?thesis by (simp add: None)
next
  case (Some q)
  then have q: "q \<in> set (st_rows t)" "key_of S q = key_of S r" by (simp_all add: row_held_iff [OF assms(1)])
  have only: "p = q" if "p \<in> set (st_rows t)" "key_of S p = key_of S r" for p
    using that Some row_held_iff [OF assms(1), of "key_of S r" p] by simp
  have good: "row_good S q" using assms(1) q(1) by (simp add: intact_table_def)
  have key: "has_key t (key_of S r)" using q has_key_iff [OF assms(1)] by blast
  have "(if key_of S p = key_of S r \<and> newer_cell (row_cell r ''updated_at'') (row_cell p ''updated_at'') then r else p)
      = (if p = q \<and> row_stamp q < row_stamp r then r else p)" if "p \<in> set (st_rows t)" for p
    using q(2) only [OF that] newer_stamp [OF assms(2) good] by (cases "p = q") auto
  then have "set (st_rows (land_row r t)) = (\<lambda>p. if p = q \<and> row_stamp q < row_stamp r then r else p) ` set (st_rows t)"
    by (simp add: land_row_def same_schema(2) [OF assms(1)] key cong: image_cong)
  then show ?thesis using q(1) Some by auto
qed

lemma land_keys:
  assumes "intact_table S t" "row_good S r"
  shows "distinct (map (key_of S) (st_rows (land_row r t)))"
proof (cases "has_key t (key_of S r)")
  case True
  have "map (key_of S) (st_rows (land_row r t)) = map (key_of S) (st_rows t)"
    using True by (simp add: land_row_def same_schema [OF assms(1)])
  then show ?thesis using assms(1) by (simp add: intact_table_def)
next
  case False
  then show ?thesis using assms(1)
    by (auto simp: land_row_def same_schema [OF assms(1)] has_key_iff [OF assms(1)] intact_table_def)
qed

lemma land_intact:
  assumes "intact_table S t" "row_good S r"
  shows "intact_table S (land_row r t)"
proof -
  have "\<forall>q \<in> set (st_rows (land_row r t)). row_good S q"
    using assms by (auto simp: land_rows [OF assms] intact_table_def split: option.splits if_splits)
  then show ?thesis using assms land_keys [OF assms] by (simp add: intact_table_def land_row_def)
qed

lemma option_eqI: "(\<And>p. x = Some p \<longleftrightarrow> y = Some p) \<Longrightarrow> x = y"
  by (cases x; cases y) auto

lemma held_land:
  assumes "intact_table S t" "row_good S r"
  shows "row_held (land_row r t) k =
    (if k = key_of S r \<and> (case row_held t k of None \<Rightarrow> True | Some w \<Rightarrow> row_stamp w < row_stamp r)
     then Some r else row_held t k)"
proof -
  note after = row_held_iff [OF land_intact [OF assms]] and before = row_held_iff [OF assms(1)]
  note None_before = row_held_None [OF assms(1)]
  show ?thesis
  proof (cases "row_held t (key_of S r)")
    case None
    then have fresh: "\<forall>q \<in> set (st_rows t). key_of S q \<noteq> key_of S r" by (simp add: None_before)
    have "row_held (land_row r t) k = Some p \<longleftrightarrow> (if k = key_of S r then Some r else row_held t k) = Some p" for p
      using None fresh by (auto simp: after land_rows [OF assms] before)
    then have "row_held (land_row r t) k = (if k = key_of S r then Some r else row_held t k)"
      by (rule option_eqI)
    then show ?thesis using None by auto
  next
    case (Some q)
    then have q: "q \<in> set (st_rows t)" "key_of S q = key_of S r" by (simp_all add: before)
    have only: "p = q" if "p \<in> set (st_rows t)" "key_of S p = key_of S r" for p
      using that Some before [of "key_of S r" p] by simp
    have "row_held (land_row r t) k = Some p \<longleftrightarrow>
        (if k = key_of S r \<and> row_stamp q < row_stamp r then Some r else row_held t k) = Some p" for p
    proof -
      have rows: "row_held (land_row r t) k = Some p \<longleftrightarrow>
          p \<in> (if row_stamp q < row_stamp r then insert r (set (st_rows t) - {q}) else set (st_rows t)) \<and> key_of S p = k"
        unfolding after land_rows [OF assms] Some by simp
      show ?thesis
      proof (cases "k = key_of S r")
        case True
        then have k: "row_held t k = Some q" using Some by simp
        have "p \<in> insert r (set (st_rows t) - {q}) \<and> key_of S p = k \<longleftrightarrow> r = p"
          and "p \<in> set (st_rows t) \<and> key_of S p = k \<longleftrightarrow> q = p"
          using only [of p] q unfolding True by blast+
        then show ?thesis unfolding rows k using True by (simp split: if_split)
      next
        case False
        then have "p \<in> insert r (set (st_rows t) - {q}) \<and> key_of S p = k \<longleftrightarrow> p \<in> set (st_rows t) \<and> key_of S p = k"
          using q(2) by blast
        then show ?thesis unfolding rows using False before [of k p] by (simp split: if_split)
      qed
    qed
    then have "row_held (land_row r t) k = (if k = key_of S r \<and> row_stamp q < row_stamp r then Some r else row_held t k)"
      by (rule option_eqI)
    then show ?thesis using Some by auto
  qed
qed

interpretation app_table: last_write_wins "key_of S" row_stamp row_held land_row "row_good S" "intact_table S"
  for S
proof unfold_locales
  show "row_held (land_row r t) k =
      (if k = key_of S r \<and> (case row_held t k of None \<Rightarrow> True | Some w \<Rightarrow> row_stamp w < row_stamp r)
       then Some r else row_held t k)" if "intact_table S t" "row_good S r" for t r k
    using held_land [OF that] .
  show "intact_table S (land_row r t)" if "intact_table S t" "row_good S r" for t r
    using land_intact [OF that] .
  show "key_of S r = k" if "intact_table S t" "row_held t k = Some r" for t r k
    using row_held_iff [OF that(1)] that(2) by blast
qed

section \<open>An entry lands its row\<close>

definition installed :: "namespace_store \<Rightarrow> string \<Rightarrow> table_info \<Rightarrow> bool" where
  "installed namespace appId info \<longleftrightarrow>
     (\<exists>ns. js_get namespace appId = Some ns
        \<and> List.find (\<lambda>t. ti_name t = ti_name info) (ns_tables ns) = Some info)"

lemma upsert_lands:
  assumes t: "intact_table S t" and r: "row_good S r" and stored: "stored_row S row = r"
    and names: "set (js_keys row) \<subseteq> set (column_names S)"
    and cols: "set (column_names S) \<subseteq> set cols \<union> set (st_key S)"
  shows "upsert_newer (st_key S) cols row t = Inr (land_row r t)"
proof -
  have shape: "table_shape S" using t by (simp add: intact_table_def)
  have dist: "distinct (column_names S)" "st_key S \<noteq> []" using shape by (simp_all add: table_shape_def)
  have whole: "whole_row S r" "check_row S r = None" using r by (simp_all add: row_good_def whole_row_def)
  have rewrite: "overwrite cols r q = r" if "q \<in> set (st_rows t)" "key_of S q = key_of S r" for q
  proof -
    have "whole_row S q" using t that(1) by (simp add: intact_table_def row_good_def)
    then show ?thesis using overwrite_whole [OF whole(1) _ dist(1) that(2) cols] by blast
  qed
  have "map (\<lambda>q. if key_of S q = key_of S r \<and> newer_cell (row_cell r ''updated_at'') (row_cell q ''updated_at'')
              then overwrite cols r q else q) (st_rows t)
      = map (\<lambda>q. if key_of S q = key_of S r \<and> newer_cell (row_cell r ''updated_at'') (row_cell q ''updated_at'')
              then r else q) (st_rows t)"
    using rewrite by simp
  moreover have "named_columns t (js_keys row)"
    using names by (simp add: named_columns_def same_schema(4) [OF t])
  ultimately show ?thesis
    by (simp add: upsert_newer_def land_row_def Let_def stored whole(2) dist(2) same_schema [OF t])
qed

abbreviation sent_row :: "table_info \<Rightarrow> app_row \<Rightarrow> app_row" where
  "sent_row info r \<equiv> fromSqliteRow (booleanColumnNames (ti_columns info)) r"

lemma sent_bound:
  assumes "info_matches info S" "whole_row S r"
  shows "toSqliteParam (row_cell (sent_row info r) n) = row_cell r n"
proof (cases "n \<in> set (booleanColumnNames (ti_columns info))")
  case True
  then obtain c where c: "c \<in> set (st_columns S)" "sc_boolean c" "sc_name c = n"
    using assms(1) by (auto simp: info_matches_def)
  have "check_row S r = None" using assms(2) by (simp add: whole_row_def)
  then have "flag_cell (row_cell r n)" using c by (auto simp: check_row_def split: if_splits)
  then show ?thesis using True by (simp add: flag_round_trip)
next
  case False
  then show ?thesis using assms(2) by (simp add: whole_row_def)
qed

lemma sent_system:
  assumes "row_dated r h"
  shows "row_cell (sent_row info r) ''updated_at'' = Some (QText (serializeHLC h))"
    and "truthy_cell (row_cell (sent_row info r) ''deleted_at'') \<longleftrightarrow> row_cell r ''deleted_at'' \<noteq> None"
    and "row_cell r ''deleted_at'' = None \<or> row_cell r ''deleted_at'' = Some (QText (serializeHLC h))"
    and "deserializeHLC (serializeHLC h) = Inr (read_of h)"
    and "row_cell r ''node_id'' = Some (QText (nodeId h))"
    and "row_cell r ''updated_at'' = Some (QText (serializeHLC h))"
    and "read_timestamp (serializeHLC h) = Inr h"
  using assms by (auto simp: row_dated_def deserialize_serialize read_serialized) (simp_all add: serializeHLC_def)

lemma sent_keys: "whole_row S r \<Longrightarrow> map fst (sent_row info r) = column_names S"
  by (simp add: whole_row_def)

lemma sent_key_present:
  assumes "table_shape S" "whole_row S r" "c \<in> set (st_key S)"
  shows "js_get (sent_row info r) c \<noteq> None"
proof -
  have "c \<in> set (map fst (sent_row info r))"
    using assms unfolding sent_keys [OF assms(2)] by (auto simp: table_shape_def)
  then show ?thesis by (metis list.set_map map_of_eq_None_iff)
qed

lemma sent_where:
  assumes "table_shape S" "whole_row S r"
  shows "\<exists>w. keyedWhereFor (sent_row info r) (st_key S) = Some w \<and> w \<noteq> [] \<and> (\<forall>c \<in> set (st_key S). js_get w c \<noteq> None)"
proof -
  let ?w = "fold (\<lambda>c. js_set c (row_cell (sent_row info r) c)) (st_key S) []"
  have key: "st_key S \<noteq> []" using assms(1) by (simp add: table_shape_def)
  have get: "js_get (fold (\<lambda>c. js_set c (f c)) cs m) c = (if c \<in> set cs then Some (f c) else js_get m c)"
    for cs :: "string list" and f :: "string \<Rightarrow> cell" and m c
    by (induction cs arbitrary: m) auto
  have "keyedWhereFor (sent_row info r) (st_key S) = Some ?w"
    using key sent_key_present [OF assms] by (auto simp: keyedWhereFor_def)
  moreover have "js_get ?w c \<noteq> None" if "c \<in> set (st_key S)" for c
    using that by (simp add: get)
  moreover have "?w \<noteq> []"
  proof
    assume empty: "?w = []"
    have "hd (st_key S) \<in> set (st_key S)" using key by simp
    then show False using calculation(2) unfolding empty by (metis map_of.simps(1))
  qed
  ultimately show ?thesis by blast
qed

text \<open>Every stored row is shipped, and its entry lands it.\<close>

lemma scan_ships:
  assumes "table_shape S" "info_matches info S" "row_good S r"
  shows "\<exists>e. scan_entry info appId r = Inr (Some e)"
proof -
  obtain h where h: "row_dated r h" using assms(3) by (auto simp: row_good_def)
  have whole: "whole_row S r" using assms(3) by (simp add: row_good_def)
  have pk: "ti_pkColumns info = st_key S" using assms(2) by (simp add: info_matches_def)
  show ?thesis
    using sent_where [OF assms(1) whole, of info]
    by (auto simp: scan_entry_def rowToWireEntry_def sent_system [OF h] pk)
qed

lemma scan_lands:
  assumes t: "intact_table S t" and info: "info_matches info S" and r: "row_good S r"
    and e: "scan_entry info appId r = Inr (Some e)" and ns: "installed namespace appId info"
    and db: "js_get db (appSyncableTableName appId (ti_name info)) = Some t"
  shows "apply_entry namespace e db = Inr (js_set (appSyncableTableName appId (ti_name info)) (land_row r t) db)"
proof -
  have shape: "table_shape S" using t by (simp add: intact_table_def)
  have whole: "whole_row S r" using r by (simp add: row_good_def)
  obtain h where h: "row_dated r h" using r by (auto simp: row_good_def)
  note sys = sent_system [OF h] and bound = sent_bound [OF info whole]
  have pk: "ti_pkColumns info = st_key S" using info by (simp add: info_matches_def)
  have keys: "fst ` set (sent_row info r) = set (column_names S)"
    using sent_keys [OF whole, of info] by (metis list.set_map)
  have system: "''updated_at'' \<in> set (column_names S)" "''node_id'' \<in> set (column_names S)" "''deleted_at'' \<in> set (column_names S)"
    "''updated_at'' \<notin> set (st_key S)" "st_key S \<noteq> []"
    using shape by (auto simp: table_shape_def)
  obtain n where n: "js_get namespace appId = Some n" "List.find (\<lambda>t. ti_name t = ti_name info) (ns_tables n) = Some info"
    using ns by (auto simp: installed_def)
  have node: "nodeIdOf (Some (QText (serializeHLC h))) d = nodeId h" for d
    by (simp add: nodeIdOf_def sys(4) read_of_def)
  have lands: "upsert_newer (st_key S) (filter (\<lambda>c. c \<notin> set (st_key S)) (js_keys row)) row t = Inr (land_row r t)"
    if "fst ` set row = set (column_names S)" "\<And>m. toSqliteParam (row_cell row m) = row_cell r m" for row
  proof (rule upsert_lands [OF t r])
    show "stored_row S row = r"
      using stored_row_same [OF whole] shape that(2) by (simp add: table_shape_def)
    show "set (js_keys row) \<subseteq> set (column_names S)" using that(1) by simp
    show "set (column_names S) \<subseteq> set (filter (\<lambda>c. c \<notin> set (st_key S)) (js_keys row)) \<union> set (st_key S)"
      using that(1) by auto
  qed
  show ?thesis
  proof (cases "row_cell r ''deleted_at''")
    case None
    then have e': "e = \<lparr>we_timestamp = h, we_appId = appId, we_table = ti_name info, we_op = OpInsert,
        we_row = Some (sent_row info r), we_where = None\<rparr>"
      using e sys by (simp add: scan_entry_def rowToWireEntry_def pk)
    let ?row = "withNodeId (sent_row info r) e"
    have row: "fst ` set ?row = set (column_names S)" "\<And>m. toSqliteParam (row_cell ?row m) = row_cell r m"
      using keys system(2) bound sys by (auto simp: withNodeId_def dom_update node)
    have some: "filter (\<lambda>c. c \<notin> set (st_key S)) (js_keys ?row) \<noteq> []"
      using row(1) system by (auto simp: filter_empty_conv)
    then have "?row \<noteq> []" by auto
    then have "applyInsert (st_key S) e t = Inr (land_row r t)"
      using lands [OF row] some system(5) by (simp add: applyInsert_def entry_values_def Let_def e' sql_result_def)
    then show ?thesis by (simp add: apply_entry_def e' n db pk)
  next
    case (Some d)
    then have d: "row_cell r ''deleted_at'' = Some (QText (serializeHLC h))" using sys(3) by simp
    obtain w where w: "keyedWhereFor (sent_row info r) (st_key S) = Some w" "w \<noteq> []" "\<forall>c \<in> set (st_key S). js_get w c \<noteq> None"
      using sent_where [OF shape whole, of info] by blast
    have e': "e = \<lparr>we_timestamp = h, we_appId = appId, we_table = ti_name info, we_op = OpDelete,
        we_row = Some (sent_row info r), we_where = Some w\<rparr>"
      using e sys d w(1) by (simp add: scan_entry_def rowToWireEntry_def pk)
    let ?ts = "Some (QText (serializeHLC h))"
    let ?row = "withNodeId (js_set ''deleted_at'' ?ts (js_set ''updated_at'' ?ts (sent_row info r))) e"
    have row: "fst ` set ?row = set (column_names S)" "\<And>m. toSqliteParam (row_cell ?row m) = row_cell r m"
      using keys system bound sys d by (auto simp: withNodeId_def dom_update node)
    have "carriesFullRow (st_key S) e"
      using sent_key_present [OF shape whole] system(5) by (auto simp: carriesFullRow_def e')
    moreover have "requireKeyedWhere e (st_key S) = Inr w"
      using w by (auto simp: requireKeyedWhere_def e')
    ultimately have "applyDelete (st_key S) e t = Inr (land_row r t)"
      using lands [OF row] by (simp add: applyDelete_def entry_values_def Let_def e' sql_result_def sys)
    then show ?thesis by (simp add: apply_entry_def e' n db pk)
  qed
qed

text \<open>A run of entries is the run of their rows.\<close>

lemma scans_land:
  assumes "intact_table S t" "info_matches info S" "installed namespace appId info"
    and "list_all2 (\<lambda>r e. row_good S r \<and> scan_entry info appId r = Inr (Some e)) rs es"
    and "js_get db (appSyncableTableName appId (ti_name info)) = Some t"
  shows "\<exists>db'. apply_entries namespace es db = Inr db'
    \<and> js_get db' (appSyncableTableName appId (ti_name info)) = Some (fold land_row rs t)
    \<and> (\<forall>name. name \<noteq> appSyncableTableName appId (ti_name info) \<longrightarrow> js_get db' name = js_get db name)"
  using assms(4,1,5)
proof (induction rs es arbitrary: t db rule: list_all2_induct)
  case (Cons r rs e es)
  have step: "apply_entry namespace e db = Inr (js_set (appSyncableTableName appId (ti_name info)) (land_row r t) db)"
    using scan_lands [OF Cons.prems(1) assms(2) _ _ assms(3) Cons.prems(2)] Cons.hyps(1) by blast
  have "intact_table S (land_row r t)" using land_intact Cons.prems(1) Cons.hyps(1) by blast
  then obtain db' where "apply_entries namespace es (js_set (appSyncableTableName appId (ti_name info)) (land_row r t) db) = Inr db'"
      "js_get db' (appSyncableTableName appId (ti_name info)) = Some (fold land_row rs (land_row r t))"
      "\<forall>name. name \<noteq> appSyncableTableName appId (ti_name info) \<longrightarrow>
         js_get db' name = js_get (js_set (appSyncableTableName appId (ti_name info)) (land_row r t) db) name"
    using Cons.IH by (metis js_get_set)
  then show ?case by (auto simp: step)
qed simp

lemma entry_names_row:
  assumes "table_shape S" "info_matches info S" "row_good S r" "scan_entry info appId r = Inr (Some e)"
  shows "stored_row S (the (we_row e)) = r"
proof -
  obtain h where h: "row_dated r h" using assms(3) by (auto simp: row_good_def)
  have whole: "whole_row S r" using assms(3) by (simp add: row_good_def)
  have "we_row e = Some (sent_row info r)"
    using assms(4) by (auto simp: scan_entry_def rowToWireEntry_def sent_system [OF h] split: if_splits)
  moreover have "stored_row S (sent_row info r) = r"
    using stored_row_same [OF whole _ sent_bound [OF assms(2) whole]] assms(1) by (simp add: table_shape_def)
  ultimately show ?thesis by simp
qed

text \<open>Entries that ship rows, in any order and as often as it happens, land exactly those rows.\<close>

lemma shipped_rows:
  assumes t: "intact_table S t" and info: "info_matches info S"
    and es: "set es = {e. \<exists>r \<in> set (st_rows t). scan_entry info appId r = Inr (Some e)}"
  obtains rs where "list_all2 (\<lambda>r e. row_good S r \<and> scan_entry info appId r = Inr (Some e)) rs es"
    "set rs = set (st_rows t)"
proof
  let ?rs = "map (\<lambda>e. stored_row S (the (we_row e))) es"
  have shape: "table_shape S" and good: "\<And>r. r \<in> set (st_rows t) \<Longrightarrow> row_good S r"
    using t by (simp_all add: intact_table_def)
  have row: "\<exists>r \<in> set (st_rows t). scan_entry info appId r = Inr (Some e) \<and> stored_row S (the (we_row e)) = r"
    if "e \<in> set es" for e
    using that es entry_names_row [OF shape info good] by auto
  show "list_all2 (\<lambda>r e. row_good S r \<and> scan_entry info appId r = Inr (Some e)) ?rs es"
    unfolding list_all2_map1 by (rule list.rel_refl_strong) (use row good in blast)
  show "set ?rs = set (st_rows t)"
  proof
    show "set ?rs \<subseteq> set (st_rows t)" using row by auto
    show "set (st_rows t) \<subseteq> set ?rs"
    proof
      fix r assume r: "r \<in> set (st_rows t)"
      then obtain e where e: "scan_entry info appId r = Inr (Some e)"
        using scan_ships [OF shape info good] by blast
      then have "e \<in> set es" using es r by blast
      moreover have "stored_row S (the (we_row e)) = r" using entry_names_row [OF shape info good [OF r] e] .
      ultimately show "r \<in> set ?rs" by (metis (mono_tags, lifting) image_eqI set_map)
    qed
  qed
qed

lemma rows_of_held: "intact_table S t \<Longrightarrow> set (st_rows t) = {r. \<exists>k. row_held t k = Some r}"
  by (auto simp: row_held_iff)

lemma land_run_intact: "intact_table S t \<Longrightarrow> \<forall>r \<in> set rs. row_good S r \<Longrightarrow> intact_table S (fold land_row rs t)"
  by (rule app_table.intact_run)

section \<open>A keyed write reaches one row\<close>

definition one_row_apart :: "sql_table \<Rightarrow> sql_table \<Rightarrow> bool" where
  "one_row_apart t t' \<longleftrightarrow>
     (\<exists>old new. set (st_rows t) - set (st_rows t') \<subseteq> {old} \<and> set (st_rows t') - set (st_rows t) \<subseteq> {new})"

lemma one_row_apart_refl [simp, intro]: "one_row_apart t t"
  by (simp add: one_row_apart_def)

lemma mapped_rows_apart:
  assumes t: "intact_table S t" and sel: "\<And>r. r \<in> set (st_rows t) \<Longrightarrow> sel r \<Longrightarrow> key_of S r = k"
  shows "one_row_apart t (t\<lparr>st_rows := map (\<lambda>r. if sel r then f r else r) (st_rows t)\<rparr>)"
proof (cases "\<exists>q \<in> set (st_rows t). sel q")
  case True
  then obtain q where q: "q \<in> set (st_rows t)" "sel q" by blast
  have only: "r = q" if "r \<in> set (st_rows t)" "sel r" for r
  proof -
    have "row_held t k = Some r" "row_held t k = Some q"
      using sel that q by (simp_all add: row_held_iff [OF t])
    then show ?thesis by simp
  qed
  let ?rows = "map (\<lambda>r. if sel r then f r else r) (st_rows t)"
  have "r \<in> set ?rows" if "r \<in> set (st_rows t)" "r \<noteq> q" for r
  proof -
    have "\<not> sel r" using only [OF that(1)] that(2) by blast
    then show ?thesis using that(1) by force
  qed
  moreover have "r = f q" if "r \<in> set ?rows" "r \<notin> set (st_rows t)" for r
  proof -
    have "r \<in> (\<lambda>r. if sel r then f r else r) ` set (st_rows t)" using that(1) by simp
    then obtain p where p: "r = (if sel p then f p else p)" "p \<in> set (st_rows t)" by (rule imageE)
    then have "sel p" "r = f p" using that(2) by (auto split: if_splits)
    then show ?thesis using only [OF p(2)] by blast
  qed
  ultimately show ?thesis unfolding one_row_apart_def
    by (intro exI [of _ q] exI [of _ "f q"]) auto
next
  case False
  then have "map (\<lambda>r. if sel r then f r else r) (st_rows t) = st_rows t" by (simp add: map_idI)
  then show ?thesis by simp
qed

lemma update_apart:
  assumes t: "intact_table S t" and key: "\<forall>c \<in> set (st_key S). js_get conditions c \<noteq> None"
    and t': "update_rows patch conditions guard t = Inr t'"
  shows "one_row_apart t t'"
proof -
  let ?k = "map (\<lambda>c. toSqliteParam (row_cell conditions c)) (st_key S)"
  have "key_of S r = ?k" if "where_equals conditions r" for r
  proof -
    have "row_cell r c = toSqliteParam (row_cell conditions c)" if "c \<in> set (st_key S)" for c
    proof -
      have "js_get conditions c \<noteq> None" using key that by (rule bspec)
      then obtain v where v: "js_get conditions c = Some v" by (cases "js_get conditions c") simp_all
      then have "(c, v) \<in> set conditions" by (rule map_of_SomeD)
      then have eq: "sql_holds (sql_cmp (=) (row_cell r c) (toSqliteParam v))"
        using \<open>where_equals conditions r\<close> unfolding where_equals_def by blast
      have "row_cell conditions c = v" using v by (simp add: row_cell_def)
      then show ?thesis using eq by (cases "row_cell r c"; cases "toSqliteParam v") (simp_all add: sql_cmp_def)
    qed
    then show ?thesis by (simp add: key_of_def)
  qed
  then show ?thesis
    using t' mapped_rows_apart [OF t, of "\<lambda>r. where_equals conditions r \<and> guard r" ?k]
    by (auto simp: update_rows_def Let_def split: if_splits option.splits)
qed

lemma upsert_apart:
  assumes t: "intact_table S t" and t': "upsert_newer pk cols row t = Inr t'"
  shows "one_row_apart t t'"
proof -
  let ?new = "stored_row S row"
  have "t' = t\<lparr>st_rows := st_rows t @ [?new]\<rparr> \<or>
      t' = t\<lparr>st_rows := map (\<lambda>r. if key_of S r = key_of S ?new \<and> newer_cell (row_cell ?new ''updated_at'') (row_cell r ''updated_at'')
                               then overwrite cols ?new r else r) (st_rows t)\<rparr>"
    using t' unfolding upsert_newer_def same_schema [OF t] Let_def
    by (simp split: if_splits option.splits)
  then show ?thesis
  proof
    assume "t' = t\<lparr>st_rows := st_rows t @ [?new]\<rparr>"
    then show ?thesis by (auto simp: one_row_apart_def)
  next
    assume "t' = t\<lparr>st_rows := map (\<lambda>r. if key_of S r = key_of S ?new \<and> newer_cell (row_cell ?new ''updated_at'') (row_cell r ''updated_at'')
                               then overwrite cols ?new r else r) (st_rows t)\<rparr>"
    then show ?thesis
      using mapped_rows_apart [OF t, of "\<lambda>r. key_of S r = key_of S ?new \<and> newer_cell (row_cell ?new ''updated_at'') (row_cell r ''updated_at'')" "key_of S ?new"]
      by simp
  qed
qed

lemma keyed_where_key: "requireKeyedWhere e pk = Inr w \<Longrightarrow> we_where e = Some w \<and> (\<forall>c \<in> set pk. js_get w c \<noteq> None)"
  by (auto simp: requireKeyedWhere_def Let_def split: if_splits option.splits)

lemma sql_result_Inr: "sql_result r = Inr x \<longleftrightarrow> r = Inr x"
  by (cases r) (simp_all add: sql_result_def)

lemma keyed_apart:
  assumes t: "intact_table S t" and pk: "pk = st_key S"
  shows "applyUpdate pk e t = Inr t' \<Longrightarrow> one_row_apart t t' \<and> (\<exists>w. requireKeyedWhere e pk = Inr w)"
    and "applyDelete pk e t = Inr t' \<Longrightarrow> one_row_apart t t' \<and> (\<exists>w. requireKeyedWhere e pk = Inr w)"
proof -
  note key = keyed_where_key [of e pk, unfolded pk]
  show "applyUpdate pk e t = Inr t' \<Longrightarrow> one_row_apart t t' \<and> (\<exists>w. requireKeyedWhere e pk = Inr w)"
    unfolding applyUpdate_def Let_def pk
    by (cases "requireKeyedWhere e (st_key S)")
      (auto simp: sql_result_Inr dest!: update_apart [OF t, rotated] key split: if_splits)
  show "applyDelete pk e t = Inr t' \<Longrightarrow> one_row_apart t t' \<and> (\<exists>w. requireKeyedWhere e pk = Inr w)"
    unfolding applyDelete_def Let_def pk
    by (cases "requireKeyedWhere e (st_key S)")
      (auto simp: sql_result_Inr dest!: update_apart [OF t, rotated] upsert_apart [OF t] key split: if_splits option.splits)
qed

section \<open>Properties\<close>


text \<open>The entries of a scan: \<open>rows.map(rowToWireEntry).filter(entry => entry !== null)\<close>.\<close>

definition shipped_entries :: "table_info \<Rightarrow> string \<Rightarrow> app_row list \<Rightarrow> wire_entry list" where
  "shipped_entries info appId rows =
     List.map_filter (\<lambda>r. case scan_entry info appId r of Inr e \<Rightarrow> e | Inl _ \<Rightarrow> None) rows"

lemma set_shipped_entries:
  "set (shipped_entries info appId rows) = {e. \<exists>r \<in> set rows. scan_entry info appId r = Inr (Some e)}"
proof -
  have "set (List.map_filter f xs) = {y. \<exists>x \<in> set xs. f x = Some y}" for f :: "app_row \<Rightarrow> wire_entry option" and xs
    by (induction xs) (auto simp: map_filter_simps split: option.splits)
  moreover have "(case m of Inr e \<Rightarrow> e | Inl _ \<Rightarrow> None) = Some x \<longleftrightarrow> m = Inr (Some x)" for m :: "js_error + wire_entry option" and x
    by (cases m) auto
  ultimately show ?thesis by (simp add: shipped_entries_def)
qed

definition sample_columns :: "declared_column list" where
  "sample_columns =
     [\<lparr>dc_name = ''id'', dc_type = ColText, dc_notNull = None, dc_primaryKey = True\<rparr>,
      \<lparr>dc_name = ''done'', dc_type = ColBoolean, dc_notNull = Some False, dc_primaryKey = False\<rparr>]"

definition sample_row :: "string \<Rightarrow> rat \<Rightarrow> hlc \<Rightarrow> bool \<Rightarrow> app_row" where
  "sample_row i flag h gone =
     [(''id'', Some (QText i)), (''done'', Some (QNum flag)), (''updated_at'', Some (QText (serializeHLC h))),
      (''node_id'', Some (QText (nodeId h))), (''deleted_at'', if gone then Some (QText (serializeHLC h)) else None)]"

definition sample_table :: "app_row list \<Rightarrow> sql_table" where
  "sample_table rows = (createSyncableTable sample_columns)\<lparr>st_rows := rows\<rparr>"

definition sample_namespace :: namespace_store where
  "sample_namespace = upsertAppSyncableNamespace ''todo'' [appSyncableTableInfo ''items'' sample_columns] False []"

lemma sample_row_good:
  assumes "flag = 0 \<or> flag = 1" "hlc_fits h" "CHR '':'' \<notin> set (nodeId h)"
  shows "row_good (createSyncableTable sample_columns) (sample_row i flag h gone)"
proof -
  have "row_dated (sample_row i flag h gone) h"
    using assms by (simp add: row_dated_def sample_row_def row_cell_def)
  moreover have "toSqliteParam (row_cell (sample_row i flag h gone) n) = row_cell (sample_row i flag h gone) n" for n
    by (auto simp: sample_row_def row_cell_def)
  then have "whole_row (createSyncableTable sample_columns) (sample_row i flag h gone)"
    using assms(1)
    by (auto simp: whole_row_def sample_row_def column_names_def createSyncableTable_def sample_columns_def
        check_row_def row_cell_def flag_cell_def)
  ultimately show ?thesis by (auto simp: row_good_def)
qed

lemma sample_key: "key_of (createSyncableTable sample_columns) (sample_row i flag h gone) = [Some (QText i)]"
  by (simp add: key_of_def createSyncableTable_def sample_columns_def sample_row_def row_cell_def)

lemma sample_declared: "declaration_ok sample_columns"
  by (simp add: declaration_ok_def sample_columns_def)

lemma sample_intact:
  assumes "\<forall>r \<in> set rows. row_good (createSyncableTable sample_columns) r"
    "distinct (map (key_of (createSyncableTable sample_columns)) rows)"
  shows "intact_table (createSyncableTable sample_columns) (sample_table rows)"
  using assms created_table_shape(1) [OF sample_declared] by (simp add: intact_table_def sample_table_def)

text \<open>One node deletes a row the other still has in an older version, and lacks one the other added.\<close>

definition sample_here :: "app_row list" where
  "sample_here = [sample_row ''x'' 1 (HLC 1 0 ''a'') False, sample_row ''y'' 0 (HLC 3 0 ''a'') False]"

definition sample_there :: "app_row list" where
  "sample_there = [sample_row ''x'' 1 (HLC 2 0 ''b'') True]"


text \<open>
  C36. An update or a delete that the applier accepts names a value for every primary-key column, and
  it changes at most one row of its table and nothing in any other table. So a keyless or partly
  keyed write is refused rather than read as "every row".
\<close>

theorem keyed_write_reaches_one_row:
  assumes "intact_table S t" "info_matches info S" "installed namespace (we_appId e) info"
    and "we_table e = ti_name info" "js_get db (appSyncableTableName (we_appId e) (we_table e)) = Some t"
    and "we_op e \<noteq> OpInsert" "apply_entry namespace e db = Inr db'"
  shows "\<exists>w t'. we_where e = Some w \<and> (\<forall>c \<in> set (st_key S). js_get w c \<noteq> None)
    \<and> js_get db' (appSyncableTableName (we_appId e) (we_table e)) = Some t' \<and> one_row_apart t t'
    \<and> (\<forall>name. name \<noteq> appSyncableTableName (we_appId e) (we_table e) \<longrightarrow> js_get db' name = js_get db name)"
proof -
  have pk: "ti_pkColumns info = st_key S" using assms(2) by (simp add: info_matches_def)
  obtain n where n: "js_get namespace (we_appId e) = Some n" "List.find (\<lambda>t. ti_name t = ti_name info) (ns_tables n) = Some info"
    using assms(3) by (auto simp: installed_def)
  obtain t' where t': "db' = js_set (appSyncableTableName (we_appId e) (we_table e)) t' db"
      "applyUpdate (st_key S) e t = Inr t' \<or> applyDelete (st_key S) e t = Inr t'"
    using assms(4-7) n by (auto simp: apply_entry_def pk Let_def split: app_row_op.splits sum.splits)
  then have "one_row_apart t t'" "\<exists>w. requireKeyedWhere e (st_key S) = Inr w"
    using keyed_apart [OF assms(1) refl] by blast+
  then show ?thesis using keyed_where_key t'(1) by fastforce
qed

definition sample_delete :: wire_entry where
  "sample_delete = \<lparr>we_timestamp = HLC 5 0 ''a'', we_appId = ''todo'', we_table = ''items'', we_op = OpDelete,
     we_row = None, we_where = Some [(''id'', Some (QText ''x''))]\<rparr>"

theorem keyed_write_reaches_one_row_witness:
  "\<exists>db' t'. apply_entry sample_namespace sample_delete [(''todo_syncable_items'', sample_table sample_here)] = Inr db'
     \<and> js_get db' ''todo_syncable_items'' = Some t' \<and> t' \<noteq> sample_table sample_here \<and> one_row_apart (sample_table sample_here) t'"
proof -
  have good: "\<forall>r \<in> set sample_here. row_good (createSyncableTable sample_columns) r"
    by (auto simp: sample_here_def hlc_fits_def intro!: sample_row_good)
  have t: "intact_table (createSyncableTable sample_columns) (sample_table sample_here)"
    using good by (auto intro!: sample_intact simp: sample_here_def sample_key)
  have installed: "installed sample_namespace ''todo'' (appSyncableTableInfo ''items'' sample_columns)"
    by (simp add: installed_def sample_namespace_def upsertAppSyncableNamespace_def)
  have name: "appSyncableTableName ''todo'' ''items'' = ''todo_syncable_items''"
    by code_simp
  have entry: "we_appId sample_delete = ''todo''" "we_table sample_delete = ''items''" "we_op sample_delete = OpDelete"
    by (simp_all add: sample_delete_def)
  have "case apply_entry sample_namespace sample_delete [(''todo_syncable_items'', sample_table sample_here)] of
      Inr db' \<Rightarrow> (case js_get db' ''todo_syncable_items'' of Some t' \<Rightarrow> st_rows t' \<noteq> sample_here | None \<Rightarrow> False) | Inl _ \<Rightarrow> False"
    by code_simp
  then obtain db' t' where db': "apply_entry sample_namespace sample_delete [(''todo_syncable_items'', sample_table sample_here)] = Inr db'"
      "js_get db' ''todo_syncable_items'' = Some t'" "st_rows t' \<noteq> sample_here"
    by (auto split: sum.splits option.splits)
  moreover have "t' \<noteq> sample_table sample_here" using db'(3) by (auto simp: sample_table_def)
  moreover have "one_row_apart (sample_table sample_here) t'"
    using keyed_write_reaches_one_row [OF t created_table_shape(2) [OF sample_declared, of "''items''"], where e = sample_delete
        and namespace = sample_namespace
        and db = "[(''todo_syncable_items'', sample_table sample_here)]" and db' = db']
      installed db' by (simp add: entry name appSyncableTableInfo_def) blast
  ultimately show ?thesis by blast
qed

end
