(* ===== verification/Manifest.thy ===== *)
theory Manifest
  imports Core_Types Object_Keys
begin

text \<open>
  App manifests (\<open>packages/admin-manifest/src\<close>): what the schema accepts (\<open>schema.ts\<close>, over a manifest
  whose fields already have their types and defaults), the route table of a compute handler and which
  requests reach it without a login (\<open>routes.ts\<close>), and the validator (\<open>validate.ts\<close>) with each of its
  refusals.

  The lemmas show what an accepted manifest means for the gateway: a handler under a session is open
  to an anonymous caller on its declared public paths and nowhere else.
\<close>

section \<open>Manifests\<close>

datatype route_auth = AuthPublic | AuthJwt | AuthSession

datatype compute_route = RouteKey string | RouteWithAuth string route_auth

record compute_handler =
  ch_name :: string
  ch_memoryMb :: int
  ch_timeoutSeconds :: int
  ch_reservedConcurrency :: "int option"
  ch_routes :: "compute_route list"
  ch_auth :: route_auth
  ch_publicPaths :: "string list"
  ch_staticAssetPaths :: "string list"

datatype app_tier = Official | Verified | Community

datatype app_target = TargetLocal | TargetCloud

record file_access =
  fa_types :: "string list"
  fa_readwrite :: bool
  fa_metadataWrite :: bool

record label_key =
  lk_key :: string
  lk_description :: string

record manifest_column =
  mc_name :: string
  mc_type :: logical_column_type
  mc_notNull :: bool
  mc_primaryKey :: bool

record manifest_table =
  mt_name :: string
  mt_columns :: "manifest_column list"
  mt_indexes :: "string list list"

record android_identity =
  an_package :: string
  an_signingCertSha256 :: "string list"
  an_callbackScheme :: string

record infra_requirements =
  ir_fileAccess :: "file_access list"
  ir_fileAccessAll :: bool
  ir_computeEnabled :: bool
  ir_handlers :: "compute_handler list"
  ir_brokerPower :: bool
  ir_tables :: "manifest_table list"
  ir_files :: bool
  ir_labelKeys :: "label_key list"
  ir_publicSharing :: bool

record app_manifest =
  am_id :: string
  am_name :: string
  am_version :: string
  am_tier :: app_tier
  am_targets :: "app_target list"
  am_infra :: infra_requirements
  am_android :: "android_identity option"

section \<open>Text\<close>

definition js_ends_with :: "string \<Rightarrow> string \<Rightarrow> bool" where
  "js_ends_with s t \<longleftrightarrow> length t \<le> length s \<and> drop (length s - length t) s = t"

text \<open>\<open>s.slice(0, -n)\<close>.\<close>

definition drop_end :: "nat \<Rightarrow> string \<Rightarrow> string" where
  "drop_end n s = take (length s - n) s"

definition in_range :: "nat \<Rightarrow> nat \<Rightarrow> char \<Rightarrow> bool" where
  "in_range a b c \<longleftrightarrow> a \<le> of_char c \<and> (of_char c :: nat) \<le> b"

definition lower_char :: "char \<Rightarrow> bool" where "lower_char = in_range 97 122"
definition upper_char :: "char \<Rightarrow> bool" where "upper_char = in_range 65 90"
definition digit_char :: "char \<Rightarrow> bool" where "digit_char = in_range 48 57"

text \<open>\<open>/^[a-z_][a-z0-9_]*$/\<close>.\<close>

definition column_ident :: "string \<Rightarrow> bool" where
  "column_ident s \<longleftrightarrow> s \<noteq> [] \<and> (lower_char (hd s) \<or> hd s = CHR ''_'')
     \<and> list_all (\<lambda>c. lower_char c \<or> digit_char c \<or> c = CHR ''_'') s"

text \<open>\<open>/^[a-z0-9]+\/[a-z0-9]+$/\<close>.\<close>

definition type_id :: "string \<Rightarrow> bool" where
  "type_id s \<longleftrightarrow> (case js_split slash s of
     [a, b] \<Rightarrow> a \<noteq> [] \<and> b \<noteq> [] \<and> list_all (\<lambda>c. lower_char c \<or> digit_char c) (a @ b) | _ \<Rightarrow> False)"

text \<open>\<open>/^[a-z0-9][a-z0-9._-]{0,63}$/\<close>.\<close>

definition label_key_text :: "string \<Rightarrow> bool" where
  "label_key_text s \<longleftrightarrow> s \<noteq> [] \<and> length s \<le> 64 \<and> (lower_char (hd s) \<or> digit_char (hd s))
     \<and> list_all (\<lambda>c. lower_char c \<or> digit_char c \<or> c \<in> set ''._-'') s"

text \<open>\<open>/^\/[^\s]*$/\<close>.\<close>

definition public_path :: "string \<Rightarrow> bool" where
  "public_path s \<longleftrightarrow> s \<noteq> [] \<and> hd s = slash \<and> list_all (\<lambda>c. \<not> js_space c) s"

definition package_part :: "string \<Rightarrow> bool" where
  "package_part s \<longleftrightarrow> s \<noteq> [] \<and> (lower_char (hd s) \<or> upper_char (hd s))
     \<and> list_all (\<lambda>c. lower_char c \<or> upper_char c \<or> digit_char c \<or> c = CHR ''_'') s"

definition android_package :: "string \<Rightarrow> bool" where
  "android_package s \<longleftrightarrow> length (js_split (CHR ''.'') s) \<ge> 2 \<and> list_all package_part (js_split (CHR ''.'') s)"

text \<open>\<open>/^[a-z][a-z0-9+.-]{1,62}$/\<close>.\<close>

definition callback_scheme :: "string \<Rightarrow> bool" where
  "callback_scheme s \<longleftrightarrow> 2 \<le> length s \<and> length s \<le> 63 \<and> lower_char (hd s)
     \<and> list_all (\<lambda>c. lower_char c \<or> digit_char c \<or> c \<in> set ''+.-'') s"

section \<open>The schema\<close>

definition publicPathCovers :: "string \<Rightarrow> string \<Rightarrow> bool" where
  "publicPathCovers entry path =
     (if js_ends_with entry ''/*''
      then (let bare = drop_end 2 entry in path = bare \<or> js_starts_with path (bare @ ''/''))
      else path = entry)"

definition static_probe :: "string \<Rightarrow> string" where
  "static_probe entry = (if js_ends_with entry ''/*'' then drop_end 2 entry @ ''/x'' else entry)"

definition appComputeHandlerSchema :: "compute_handler \<Rightarrow> bool" where
  "appComputeHandlerSchema h \<longleftrightarrow>
     128 \<le> ch_memoryMb h \<and> ch_memoryMb h \<le> 10240 \<and> 1 \<le> ch_timeoutSeconds h \<and> ch_timeoutSeconds h \<le> 900
     \<and> (case ch_reservedConcurrency h of None \<Rightarrow> True | Some n \<Rightarrow> 1 \<le> n \<and> n \<le> 1000)
     \<and> list_all (\<lambda>r. case r of RouteKey k \<Rightarrow> k \<noteq> [] | RouteWithAuth k _ \<Rightarrow> k \<noteq> []) (ch_routes h)
     \<and> list_all public_path (ch_publicPaths h) \<and> list_all public_path (ch_staticAssetPaths h)
     \<and> list_all (\<lambda>entry. list_ex (\<lambda>p. publicPathCovers p (static_probe entry)) (ch_publicPaths h)) (ch_staticAssetPaths h)"

definition RESERVED_SYNC_COLUMNS :: "string list" where
  "RESERVED_SYNC_COLUMNS = [''updated_at'', ''deleted_at'']"

definition syncableTableColumnSchema :: "manifest_column \<Rightarrow> bool" where
  "syncableTableColumnSchema c \<longleftrightarrow> column_ident (mc_name c) \<and> mc_name c \<notin> set RESERVED_SYNC_COLUMNS"

definition syncableTableIndexSchema :: "string list \<Rightarrow> bool" where
  "syncableTableIndexSchema columns \<longleftrightarrow> 1 \<le> length columns \<and> length columns \<le> 8 \<and> list_all column_ident columns"

definition syncableTableSchema :: "manifest_table \<Rightarrow> bool" where
  "syncableTableSchema t \<longleftrightarrow>
     column_ident (mt_name t) \<and> mt_columns t \<noteq> [] \<and> list_all syncableTableColumnSchema (mt_columns t)
     \<and> list_all syncableTableIndexSchema (mt_indexes t)
     \<and> list_all (list_all (\<lambda>column. column \<in> mc_name ` set (mt_columns t) \<or> column \<in> set RESERVED_SYNC_COLUMNS
                               \<or> column = ''node_id'')) (mt_indexes t)
     \<and> list_ex mc_primaryKey (mt_columns t)"

definition fileAccessSchema :: "file_access \<Rightarrow> bool" where
  "fileAccessSchema f \<longleftrightarrow> fa_types f \<noteq> [] \<and> list_all type_id (fa_types f)"

definition labelKeySchema :: "label_key \<Rightarrow> bool" where
  "labelKeySchema l \<longleftrightarrow> label_key_text (lk_key l) \<and> lk_description l \<noteq> []"

definition androidIdentitySchema :: "android_identity \<Rightarrow> bool" where
  "androidIdentitySchema a \<longleftrightarrow> android_package (an_package a) \<and> an_signingCertSha256 a \<noteq> []
     \<and> length (an_signingCertSha256 a) \<le> 8 \<and> list_all sha256_hex (an_signingCertSha256 a) \<and> callback_scheme (an_callbackScheme a)"

definition infraRequirementsSchema :: "infra_requirements \<Rightarrow> bool" where
  "infraRequirementsSchema i \<longleftrightarrow> list_all fileAccessSchema (ir_fileAccess i) \<and> list_all appComputeHandlerSchema (ir_handlers i)
     \<and> list_all syncableTableSchema (ir_tables i) \<and> length (ir_labelKeys i) \<le> 64 \<and> list_all labelKeySchema (ir_labelKeys i)"

definition appManifestSchema :: "app_manifest \<Rightarrow> bool" where
  "appManifestSchema m \<longleftrightarrow> am_id m \<noteq> [] \<and> am_name m \<noteq> [] \<and> am_version m \<noteq> [] \<and> infraRequirementsSchema (am_infra m)
     \<and> (case am_android m of None \<Rightarrow> True | Some a \<Rightarrow> androidIdentitySchema a)"

section \<open>Routes\<close>

record resolved_route =
  rr_declared :: string
  rr_routeKey :: string
  rr_method :: string
  rr_path :: string
  rr_auth :: route_auth
  rr_catchAll :: bool
  rr_derived :: bool
  rr_authExplicit :: bool

fun routeParts :: "compute_route \<Rightarrow> string \<times> route_auth option" where
  "routeParts (RouteKey k) = (k, None)"
| "routeParts (RouteWithAuth k a) = (k, Some a)"

abbreviation proxy :: string where "proxy \<equiv> ''{proxy+}''"

definition publicPathRoutePath :: "string \<Rightarrow> string" where
  "publicPathRoutePath publicPath =
     (if publicPath = ''/*'' then ''/{proxy+}''
      else if js_ends_with publicPath ''/*'' then drop_end 2 publicPath @ ''/{proxy+}''
      else publicPath)"

text \<open>\<open>/^([A-Z]+) (\/.*)$/\<close>: the method and the path of a route key; \<open>.\<close> stops at a line end.\<close>

definition route_key_parts :: "string \<Rightarrow> (string \<times> string) option" where
  "route_key_parts key =
     (let method = takeWhile upper_char key; rest = dropWhile upper_char key
      in if method \<noteq> [] \<and> js_starts_with rest '' /'' \<and> list_all (\<lambda>c. c \<noteq> CHR 0x0A \<and> c \<noteq> CHR 0x0D) rest
         then Some (method, tl rest) else None)"

definition declared_route :: "compute_handler \<Rightarrow> compute_route \<Rightarrow> resolved_route" where
  "declared_route handler entry =
     (let (key, auth) = routeParts entry;
          effective = (case auth of Some a \<Rightarrow> a | None \<Rightarrow> ch_auth handler)
      in if key = ''$default''
         then \<lparr>rr_declared = key, rr_routeKey = key, rr_method = ''ANY'', rr_path = ''/{proxy+}'', rr_auth = effective,
               rr_catchAll = True, rr_derived = False, rr_authExplicit = auth \<noteq> None\<rparr>
         else let method = (case route_key_parts key of Some (m, _) \<Rightarrow> m | None \<Rightarrow> ''ANY'');
                  path = (case route_key_parts key of Some (_, p) \<Rightarrow> p | None \<Rightarrow> ''/'')
              in \<lparr>rr_declared = key, rr_routeKey = key, rr_method = method, rr_path = path, rr_auth = effective,
                  rr_catchAll = js_ends_with path proxy, rr_derived = False, rr_authExplicit = auth \<noteq> None\<rparr>)"

definition declaredHandlerRoutes :: "compute_handler \<Rightarrow> resolved_route list" where
  "declaredHandlerRoutes handler =
     map (declared_route handler) (if ch_routes handler = [] then [RouteKey ''$default''] else ch_routes handler)"

definition derived_route :: "string \<Rightarrow> resolved_route" where
  "derived_route publicPath =
     (let path = publicPathRoutePath publicPath
      in \<lparr>rr_declared = publicPath, rr_routeKey = ''ANY '' @ path, rr_method = ''ANY'', rr_path = path, rr_auth = AuthPublic,
          rr_catchAll = js_ends_with path proxy, rr_derived = True, rr_authExplicit = False\<rparr>)"

definition resolveHandlerRoutes :: "compute_handler \<Rightarrow> resolved_route list" where
  "resolveHandlerRoutes handler =
     (let declared = declaredHandlerRoutes handler
      in if ch_auth handler \<noteq> AuthSession \<or> ch_publicPaths handler = [] then declared
         else let derived = map derived_route (ch_publicPaths handler)
              in filter (\<lambda>r. rr_path r \<notin> rr_path ` set derived) declared @ derived)"

definition prefixAppRouteKey :: "string \<Rightarrow> string \<Rightarrow> string" where
  "prefixAppRouteKey appId routeKey =
     (if routeKey = ''$default'' then routeKey
      else case route_key_parts routeKey of
             None \<Rightarrow> routeKey
           | Some (method, path) \<Rightarrow>
               if path = ''/'' then method @ '' /apps/'' @ appId else method @ '' /apps/'' @ appId @ path)"

text \<open>\<open>path.split("/").filter((s) => s.length > 0)\<close>.\<close>

definition path_segments :: "string \<Rightarrow> string list" where
  "path_segments path = filter (\<lambda>s. s \<noteq> []) (js_split slash path)"

definition is_param :: "string \<Rightarrow> bool" where
  "is_param s \<longleftrightarrow> js_starts_with s ''{'' \<and> js_ends_with s ''}''"

fun specificity :: "string list \<Rightarrow> string list \<Rightarrow> int list option" where
  "specificity [] [] = Some [3]"
| "specificity [] (s # ss) = None"
| "specificity (r # rs) ss =
     (if js_ends_with r proxy then Some [0]
      else case ss of
             [] \<Rightarrow> None
           | s # ss' \<Rightarrow>
               if is_param r then map_option (Cons 1) (specificity rs ss')
               else if r \<noteq> s then None
               else map_option (Cons 2) (specificity rs ss'))"

fun compareScores :: "int list \<Rightarrow> int list \<Rightarrow> int" where
  "compareScores [] [] = 0"
| "compareScores (a # as) [] = (if a \<noteq> -1 then a - (-1) else compareScores as [])"
| "compareScores [] (b # bs) = (if b \<noteq> -1 then (-1) - b else compareScores [] bs)"
| "compareScores (a # as) (b # bs) = (if a \<noteq> b then a - b else compareScores as bs)"

definition js_upper_char :: "char \<Rightarrow> char" where
  "js_upper_char c = (if lower_char c then char_of (of_char c - 32 :: nat) else c)"

definition route_score :: "string \<Rightarrow> string \<Rightarrow> resolved_route \<Rightarrow> int list option" where
  "route_score method path route =
     (if rr_method route \<noteq> ''ANY'' \<and> rr_method route \<noteq> map js_upper_char method then None
      else map_option (\<lambda>score. score @ [if rr_method route = ''ANY'' then 0 else 1])
             (specificity (path_segments (rr_path route)) (path_segments path)))"

fun match_loop :: "string \<Rightarrow> string \<Rightarrow> resolved_route list \<Rightarrow> (resolved_route \<times> int list) option \<Rightarrow> (resolved_route \<times> int list) option" where
  "match_loop method path [] best = best"
| "match_loop method path (route # routes) best =
     match_loop method path routes
       (case route_score method path route of
          None \<Rightarrow> best
        | Some score \<Rightarrow>
            (case best of
               None \<Rightarrow> Some (route, score)
             | Some (r, bestScore) \<Rightarrow>
                 let cmp = compareScores score bestScore
                 in if cmp > 0 \<or> (cmp = 0 \<and> rr_auth route = AuthPublic) then Some (route, score) else best))"

definition matchRoute :: "resolved_route list \<Rightarrow> string \<Rightarrow> string \<Rightarrow> resolved_route option" where
  "matchRoute routes method path = map_option fst (match_loop method path routes None)"

definition isAnonymouslyReachable :: "compute_handler \<Rightarrow> string \<Rightarrow> string \<Rightarrow> bool" where
  "isAnonymouslyReachable handler method path \<longleftrightarrow>
     map_option rr_auth (matchRoute (resolveHandlerRoutes handler) method path) = Some AuthPublic"

record anonymous_route_entry =
  ae_handlerName :: string
  ae_declared :: string
  ae_routeKey :: string
  ae_catchAll :: bool
  ae_derived :: bool

definition anonymousRoutes :: "app_manifest \<Rightarrow> anonymous_route_entry list" where
  "anonymousRoutes manifest =
     concat (map (\<lambda>handler.
       map (\<lambda>route. \<lparr>ae_handlerName = ch_name handler, ae_declared = rr_declared route,
              ae_routeKey = prefixAppRouteKey (am_id manifest) (rr_routeKey route),
              ae_catchAll = rr_catchAll route, ae_derived = rr_derived route\<rparr>)
         (filter (\<lambda>r. rr_auth r = AuthPublic) (resolveHandlerRoutes handler)))
       (ir_handlers (am_infra manifest)))"

definition probePathFor :: "string \<Rightarrow> string" where
  "probePathFor publicPath =
     (if publicPath = ''/*'' then ''/x''
      else if js_ends_with publicPath ''/*'' then drop_end 2 publicPath @ ''/x''
      else publicPath)"

section \<open>The validator\<close>

datatype manifest_error =
    SchemaRefused
  | ReservedIdPrefix
  | UnknownType string
  | UngrantableType string
  | AllAccessReserved
  | NoHandlers
  | BrokerPowerReserved
  | PublicSharingNotCloud
  | DuplicateLabelKey string
  | NobodyCanSignIn
  | NothingAnonymous
  | CatchAllAnonymous string
  | DuplicatePublicPath string
  | WildcardPublicPath string
  | ShadowsGatedRoute string string
  | PublicPathNotServed string
  | PublicPathGated string string
  | LabelKeysUnwritable
  | AndroidNotCloud
  | CallbackSchemeWeb

record validation_result =
  vr_valid :: bool
  vr_manifest :: "app_manifest option"
  vr_errors :: "manifest_error list"
  vr_warnings :: nat
  vr_impliedCategories :: "category list"

definition RESERVED_PREFIX :: string where "RESERVED_PREFIX = ''@starkeep/''"

definition FILE_ACCESS_ALL_APP_ID :: string where "FILE_ACCESS_ALL_APP_ID = ''starkeep-drive''"

definition type_errors :: "string \<Rightarrow> manifest_error list" where
  "type_errors type =
     (if \<not> isKnownType type then [UnknownType type]
      else if \<not> isGrantableCategory (category_id (typeCategory type)) then [UngrantableType type]
      else [])"

fun duplicate_entries :: "string list \<Rightarrow> string list \<Rightarrow> string list" where
  "duplicate_entries seen [] = []"
| "duplicate_entries seen (k # ks) = (if k \<in> set seen then [k] else []) @ duplicate_entries (k # seen) ks"

text \<open>One public path of a handler: the checks after the duplicate check.\<close>

definition public_path_errors :: "compute_handler \<Rightarrow> string \<Rightarrow> manifest_error list" where
  "public_path_errors handler publicPath =
     (if publicPathRoutePath publicPath = ''/{proxy+}'' then [WildcardPublicPath publicPath]
      else if ch_auth handler = AuthSession
      then (case List.find (\<lambda>r. rr_path r = publicPathRoutePath publicPath \<and> rr_auth r \<noteq> AuthPublic \<and> rr_authExplicit r)
                   (declaredHandlerRoutes handler) of
              Some r \<Rightarrow> [ShadowsGatedRoute publicPath (rr_declared r)]
            | None \<Rightarrow> [])
      else (case matchRoute (resolveHandlerRoutes handler) ''GET'' (probePathFor publicPath) of
              None \<Rightarrow> [PublicPathNotServed publicPath]
            | Some selected \<Rightarrow> if rr_auth selected \<noteq> AuthPublic then [PublicPathGated publicPath (rr_declared selected)] else []))"

fun public_paths_errors :: "compute_handler \<Rightarrow> string list \<Rightarrow> string list \<Rightarrow> manifest_error list" where
  "public_paths_errors handler seen [] = []"
| "public_paths_errors handler seen (p # ps) =
     (if p \<in> set seen then [DuplicatePublicPath p] else []) @ public_path_errors handler p
       @ public_paths_errors handler (p # seen) ps"

definition handler_errors :: "compute_handler \<Rightarrow> manifest_error list" where
  "handler_errors handler =
     (let anonymous = filter (\<lambda>r. rr_auth r = AuthPublic) (resolveHandlerRoutes handler);
          anonymousCatchAll = filter (\<lambda>r. rr_catchAll r \<and> \<not> rr_derived r) anonymous
      in if ch_auth handler = AuthSession \<and> ch_publicPaths handler = [] then [NobodyCanSignIn]
         else if anonymous = [] \<and> ch_publicPaths handler \<noteq> [] then [NothingAnonymous]
         else (if anonymousCatchAll \<noteq> [] \<and> ch_publicPaths handler = []
               then [CatchAllAnonymous (rr_declared (hd anonymousCatchAll))] else [])
              @ public_paths_errors handler [] (ch_publicPaths handler))"

definition android_errors :: "app_manifest \<Rightarrow> manifest_error list" where
  "android_errors m =
     (case am_android m of
        None \<Rightarrow> []
      | Some a \<Rightarrow>
          (if TargetCloud \<notin> set (am_targets m) then [AndroidNotCloud] else [])
          @ (if an_callbackScheme a \<in> {''http'', ''https''} then [CallbackSchemeWeb] else []))"

definition manifest_errors :: "app_manifest \<Rightarrow> manifest_error list" where
  "manifest_errors m =
     (let infra = am_infra m in
      (if am_tier m = Community \<and> js_starts_with (am_id m) RESERVED_PREFIX then [ReservedIdPrefix] else [])
      @ concat (map (\<lambda>entry. concat (map type_errors (fa_types entry))) (ir_fileAccess infra))
      @ (if ir_fileAccessAll infra \<and> am_id m \<noteq> FILE_ACCESS_ALL_APP_ID then [AllAccessReserved] else [])
      @ (if ir_computeEnabled infra \<and> ir_handlers infra = [] then [NoHandlers] else [])
      @ (if ir_brokerPower infra \<and> am_id m \<noteq> ''cloud-data-server'' then [BrokerPowerReserved] else [])
      @ (if ir_publicSharing infra \<and> TargetCloud \<notin> set (am_targets m) then [PublicSharingNotCloud] else [])
      @ map DuplicateLabelKey (duplicate_entries [] (map lk_key (ir_labelKeys infra)))
      @ concat (map handler_errors (ir_handlers infra))
      @ (if ir_labelKeys infra \<noteq> [] \<and> ir_fileAccess infra = [] \<and> \<not> ir_fileAccessAll infra then [LabelKeysUnwritable] else [])
      @ android_errors m)"

definition validateManifest :: "app_manifest \<Rightarrow> validation_result" where
  "validateManifest raw =
     (if \<not> appManifestSchema raw
      then \<lparr>vr_valid = False, vr_manifest = None, vr_errors = [SchemaRefused], vr_warnings = 0, vr_impliedCategories = []\<rparr>
      else let errors = manifest_errors raw;
               access = ir_fileAccess (am_infra raw)
           in \<lparr>vr_valid = errors = [], vr_manifest = (if errors = [] then Some raw else None), vr_errors = errors,
               vr_warnings = length (filter (\<lambda>e. fa_metadataWrite e \<and> fa_readwrite e) access),
               vr_impliedCategories = rev (remdups (rev (map typeCategory
                 (filter (\<lambda>t. type_errors t = []) (concat (map fa_types access))))))\<rparr>)"

section \<open>Paths as segments\<close>

text \<open>A path spelled the one way the gateway knows, and a segment that stands for itself.\<close>

definition canonical_path :: "string list \<Rightarrow> string" where
  "canonical_path segs = (if segs = [] then ''/'' else concat (map (Cons slash) segs))"

definition plain_segment :: "string \<Rightarrow> bool" where
  "plain_segment s \<longleftrightarrow> s \<noteq> [] \<and> list_all (\<lambda>c. c \<notin> set ''/{}'') s"

definition plain_path :: "string \<Rightarrow> bool" where
  "plain_path p \<longleftrightarrow> (\<exists>segs. list_all plain_segment segs \<and> p = canonical_path segs)"

lemma plain_segment_no_slash: "plain_segment s \<Longrightarrow> slash \<notin> set s \<and> s \<noteq> []"
  by (auto simp: plain_segment_def list_all_iff)

lemma split_segments:
  "\<forall>s \<in> set segs. slash \<notin> set s \<Longrightarrow> segs \<noteq> [] \<Longrightarrow> js_split slash (concat (map (Cons slash) segs)) = [] # segs"
proof (induction segs)
  case (Cons s segs)
  show ?case
  proof (cases "segs = []")
    case True
    then show ?thesis using Cons.prems by (simp add: js_split_no_sep)
  next
    case False
    then have ih: "js_split slash (concat (map (Cons slash) segs)) = [] # segs" using Cons by simp
    obtain t ts where "segs = t # ts" using False by (cases segs) auto
    then have "concat (map (Cons slash) segs) = [slash] @ t @ concat (map (Cons slash) ts)" by simp
    moreover have "slash \<notin> set s" using Cons.prems by simp
    ultimately have "js_split slash (s @ concat (map (Cons slash) segs)) = s # js_split slash (t @ concat (map (Cons slash) ts))"
      using js_split_append [of slash s "t @ concat (map (Cons slash) ts)"] by simp
    moreover have "js_split slash (t @ concat (map (Cons slash) ts)) = segs"
      using ih \<open>segs = t # ts\<close> by simp
    ultimately show ?thesis by simp
  qed
qed simp

lemma path_segments_canonical:
  assumes "\<forall>s \<in> set segs. slash \<notin> set s \<and> s \<noteq> []"
  shows "path_segments (canonical_path segs) = segs"
proof (cases "segs = []")
  case True
  then show ?thesis by (simp add: path_segments_def canonical_path_def)
next
  case False
  then have "js_split slash (canonical_path segs) = [] # segs"
    using assms split_segments by (simp add: canonical_path_def)
  moreover have "filter (\<lambda>s. s \<noteq> []) segs = segs" using assms by (simp add: filter_id_conv)
  ultimately show ?thesis by (simp add: path_segments_def)
qed

lemma plain_segments: "list_all plain_segment segs \<Longrightarrow> \<forall>s \<in> set segs. slash \<notin> set s \<and> s \<noteq> []"
  using plain_segment_no_slash by (auto simp: list_all_iff)

lemma path_segments_plain: "list_all plain_segment segs \<Longrightarrow> path_segments (canonical_path segs) = segs"
  by (rule path_segments_canonical [OF plain_segments])

lemma canonical_append:
  "segs \<noteq> [] \<Longrightarrow> canonical_path (segs @ rest) = canonical_path segs @ (if rest = [] then [] else canonical_path rest)"
  by (simp add: canonical_path_def)

lemma ends_with_append: "js_ends_with (s @ t) t"
  by (simp add: js_ends_with_def)

lemma drop_end_append: "length t = n \<Longrightarrow> drop_end n (s @ t) = s"
  by (simp add: drop_end_def)

text \<open>A plain path that ends in a wildcard is a plain path and the wildcard segment.\<close>

lemma wildcard_path:
  assumes "list_all plain_segment segs" "js_ends_with (canonical_path segs) ''/*''"
  obtains init where "segs = init @ [''*'']" "list_all plain_segment init"
proof (cases segs rule: rev_cases)
  case Nil
  then show ?thesis using assms(2) by (simp add: js_ends_with_def canonical_path_def)
next
  case (snoc init s)
  have s: "s \<noteq> []" "slash \<notin> set s" using assms(1) plain_segment_no_slash by (auto simp: snoc)
  have path: "canonical_path segs = concat (map (Cons slash) init) @ slash # s"
    by (simp add: canonical_path_def snoc)
  obtain u c where u: "s = u @ [c]" using s(1) by (cases s rule: rev_cases) auto
  have tail: "drop (length (canonical_path segs) - length ''/*'') (canonical_path segs) = ''/*''"
    using assms(2) unfolding js_ends_with_def by blast
  have "s = ''*''"
  proof (cases u rule: rev_cases)
    case Nil
    then have "canonical_path segs = concat (map (Cons slash) init) @ [slash, c]" using path u by simp
    then have "[slash, c] = ''/*''" using tail by simp
    then show ?thesis using u Nil by simp
  next
    case (snoc v d)
    then have "canonical_path segs = (concat (map (Cons slash) init) @ slash # v) @ [d, c]" using path u by simp
    then have "[d, c] = ''/*''" using tail by simp
    then show ?thesis using s(2) u snoc by simp
  qed
  then show ?thesis using that assms(1) snoc by simp
qed

section \<open>Which route a request takes\<close>

lemma plain_not_greedy: "plain_segment s \<Longrightarrow> \<not> js_ends_with s proxy"
proof
  assume plain: "plain_segment s" and greedy: "js_ends_with s proxy"
  have "CHR ''{'' \<in> set (drop (length s - length proxy) s)"
    using greedy unfolding js_ends_with_def by simp
  then have "CHR ''{'' \<in> set s" by (rule in_set_dropD)
  then show False using plain by (auto simp: plain_segment_def list_all_iff)
qed

lemma plain_not_param: "plain_segment s \<Longrightarrow> \<not> is_param s"
proof
  assume plain: "plain_segment s" and param: "is_param s"
  have "take 1 s = ''{''" using param by (simp add: is_param_def js_starts_with_def)
  then have "CHR ''{'' \<in> set s" by (metis in_set_takeD list.set_intros(1))
  then show False using plain by (auto simp: plain_segment_def list_all_iff)
qed

lemma specificity_plain:
  "list_all plain_segment rs \<Longrightarrow> specificity rs ss = Some sc \<Longrightarrow> ss = rs \<and> sc = replicate (length rs) 2 @ [3]"
proof (induction rs ss arbitrary: sc rule: specificity.induct)
  case (3 r rs ss)
  have r: "\<not> js_ends_with r proxy" "\<not> is_param r" "list_all plain_segment rs"
    using 3(3) plain_not_greedy plain_not_param by auto
  obtain s ss' where ss: "ss = s # ss'" using 3(4) r by (cases ss) auto
  then obtain sc' where "r = s" "specificity rs ss' = Some sc'" "sc = 2 # sc'"
    using 3(4) r by (auto split: if_splits)
  then show ?case using 3(2) [OF r(1) ss r(2)] r(3) ss by auto
qed auto

lemma specificity_plain_same: "list_all plain_segment rs \<Longrightarrow> specificity rs rs = Some (replicate (length rs) 2 @ [3])"
  by (induction rs) (simp_all add: plain_not_greedy plain_not_param)

lemma specificity_greedy:
  "list_all plain_segment rs \<Longrightarrow> specificity (rs @ [proxy]) ss = Some sc
     \<Longrightarrow> (\<exists>rest. ss = rs @ rest) \<and> sc = replicate (length rs) 2 @ [0]"
proof (induction rs arbitrary: ss sc)
  case Nil
  then show ?case by (simp add: js_ends_with_def)
next
  case (Cons r rs)
  have r: "\<not> js_ends_with r proxy" "\<not> is_param r" "list_all plain_segment rs"
    using Cons.prems(1) plain_not_greedy plain_not_param by auto
  obtain s ss' where ss: "ss = s # ss'" using Cons.prems(2) r by (cases ss) auto
  then obtain sc' where sc': "r = s" "specificity (rs @ [proxy]) ss' = Some sc'" "sc = 2 # sc'"
    using Cons.prems(2) r by (auto split: if_splits)
  then show ?case using Cons.IH [OF r(3) sc'(2)] ss by auto
qed

text \<open>\<open>compareScores\<close> is the lexicographic order on scores, whose entries are never negative.\<close>

definition score_ok :: "int list \<Rightarrow> bool" where "score_ok s \<longleftrightarrow> list_all (\<lambda>i. 0 \<le> i) s"

lemma compareScores_less: "score_ok a \<Longrightarrow> score_ok b \<Longrightarrow> 0 < compareScores a b \<longleftrightarrow> b < a"
  by (induction a b rule: compareScores.induct) (auto simp: score_ok_def)

lemma compareScores_eq: "score_ok a \<Longrightarrow> score_ok b \<Longrightarrow> compareScores a b = 0 \<longleftrightarrow> a = b"
  by (induction a b rule: compareScores.induct) (auto simp: score_ok_def)

lemma specificity_ok: "specificity rs ss = Some sc \<Longrightarrow> score_ok sc"
  by (induction rs ss arbitrary: sc rule: specificity.induct) (auto simp: score_ok_def split: if_splits list.splits)

lemma route_score_ok: "route_score method path r = Some sc \<Longrightarrow> score_ok sc"
  by (auto simp: route_score_def score_ok_def split: if_splits dest!: specificity_ok)

text \<open>The loop keeps a route of the table, and its score is the highest.\<close>

definition best_of :: "string \<Rightarrow> string \<Rightarrow> resolved_route list \<Rightarrow> resolved_route \<times> int list \<Rightarrow> bool" where
  "best_of method path routes best \<longleftrightarrow>
     fst best \<in> set routes \<and> route_score method path (fst best) = Some (snd best)
     \<and> (\<forall>r \<in> set routes. \<forall>sc. route_score method path r = Some sc \<longrightarrow> sc \<le> snd best)"

lemma match_loop_best:
  assumes "case best of None \<Rightarrow> \<forall>r \<in> set seen. route_score method path r = None | Some b \<Rightarrow> best_of method path seen b"
  shows "case match_loop method path routes best of
           None \<Rightarrow> \<forall>r \<in> set (seen @ routes). route_score method path r = None
         | Some b \<Rightarrow> best_of method path (seen @ routes) b"
  using assms
proof (induction routes arbitrary: seen best)
  case (Cons route routes)
  let ?next = "case route_score method path route of
          None \<Rightarrow> best
        | Some score \<Rightarrow>
            (case best of
               None \<Rightarrow> Some (route, score)
             | Some (r, bestScore) \<Rightarrow>
                 let cmp = compareScores score bestScore
                 in if cmp > 0 \<or> (cmp = 0 \<and> rr_auth route = AuthPublic) then Some (route, score) else best)"
  have "case ?next of None \<Rightarrow> \<forall>r \<in> set (seen @ [route]). route_score method path r = None
      | Some b \<Rightarrow> best_of method path (seen @ [route]) b"
  proof (cases "route_score method path route")
    case None
    then show ?thesis using Cons.prems by (cases best) (auto simp: best_of_def)
  next
    case (Some score)
    show ?thesis
    proof (cases best)
      case None
      then show ?thesis using Some Cons.prems by (auto simp: best_of_def)
    next
      case best: (Some b)
      obtain r bs where b: "b = (r, bs)" by (cases b)
      have ok: "score_ok score" "score_ok bs"
        using Some Cons.prems route_score_ok by (auto simp: best b best_of_def)
      have old: "best_of method path seen (r, bs)" using Cons.prems by (simp add: best b)
      have win: "best_of method path (seen @ [route]) (route, score)" if "bs \<le> score"
        using old Some that by (auto simp: best_of_def intro: order_trans)
      have keep: "best_of method path (seen @ [route]) (r, bs)" if "score \<le> bs"
        using old Some that by (auto simp: best_of_def)
      show ?thesis
        using win keep compareScores_less [OF ok] compareScores_eq [OF ok]
        by (auto simp: Some best b Let_def not_less less_imp_le)
    qed
  qed
  from Cons.IH [OF this] show ?case by (simp only: match_loop.simps append.simps append_assoc)
qed (simp only: match_loop.simps append_Nil2)

lemma matchRoute_best:
  assumes "matchRoute routes method path = Some r"
  shows "\<exists>sc. best_of method path routes (r, sc)"
  using match_loop_best [of "[]" "method" "path" None routes] assms
  by (auto simp: matchRoute_def split: option.splits)

section \<open>Public paths under a session\<close>

lemma route_path_literal: "\<not> js_ends_with p ''/*'' \<Longrightarrow> publicPathRoutePath p = p"
  by (auto simp: publicPathRoutePath_def js_ends_with_def)

lemma route_path_wildcard:
  assumes "p = canonical_path (init @ [''*''])"
  shows "publicPathRoutePath p = canonical_path (init @ [proxy])"
    and "publicPathCovers p path \<longleftrightarrow> path = concat (map (Cons slash) init) \<or> js_starts_with path (concat (map (Cons slash) init) @ ''/'')"
proof -
  have p: "p = concat (map (Cons slash) init) @ ''/*''" using assms by (simp add: canonical_path_def)
  have ends: "js_ends_with p ''/*''" "drop_end 2 p = concat (map (Cons slash) init)"
    unfolding p by (simp_all add: ends_with_append drop_end_append)
  show "publicPathRoutePath p = canonical_path (init @ [proxy])"
  proof (cases "p = ''/*''")
    case True
    then have "concat (map (Cons slash) init) = []" using p by simp
    then have "init = []" by (cases init) auto
    then show ?thesis using True by (simp add: publicPathRoutePath_def canonical_path_def)
  next
    case False
    then show ?thesis using ends by (simp add: publicPathRoutePath_def canonical_path_def)
  qed
  show "publicPathCovers p path \<longleftrightarrow> path = concat (map (Cons slash) init) \<or> js_starts_with path (concat (map (Cons slash) init) @ ''/'')"
    using ends by (simp add: publicPathCovers_def Let_def)
qed

lemma proxy_segments:
  assumes "list_all plain_segment init"
  shows "path_segments (canonical_path (init @ [proxy])) = init @ [proxy]"
  by (rule path_segments_canonical) (use plain_segments [OF assms] in auto)

text \<open>The two shapes of a plain public path, and what its derived route scores on a request.\<close>

lemma public_path_cases:
  assumes "plain_path p"
  obtains (literal) segs where "list_all plain_segment segs" "p = canonical_path segs" "publicPathRoutePath p = p"
      "\<And>path. publicPathCovers p path \<longleftrightarrow> path = p"
  | (wildcard) init where "list_all plain_segment init" "p = canonical_path (init @ [''*''])"
proof -
  obtain segs where segs: "list_all plain_segment segs" "p = canonical_path segs"
    using assms by (auto simp: plain_path_def)
  show ?thesis
  proof (cases "js_ends_with p ''/*''")
    case True
    then show ?thesis using wildcard_path [of segs] segs wildcard by metis
  next
    case False
    then show ?thesis using literal segs route_path_literal [OF False] by (simp add: publicPathCovers_def)
  qed
qed

lemma route_score_specificity:
  "route_score method path r = Some sc \<Longrightarrow>
     \<exists>s b. specificity (path_segments (rr_path r)) (path_segments path) = Some s \<and> sc = s @ [b] \<and> (b = 0 \<or> b = 1)"
  by (auto simp: route_score_def split: if_splits)

lemma derived_covers:
  assumes "plain_path p" "route_score method path (derived_route p) = Some sc"
  shows "publicPathCovers p (canonical_path (path_segments path))"
proof -
  let ?ss = "path_segments path"
  obtain s where s: "specificity (path_segments (publicPathRoutePath p)) ?ss = Some s"
    using route_score_specificity [OF assms(2)] by (auto simp: derived_route_def Let_def)
  from assms(1) show ?thesis
  proof (cases rule: public_path_cases)
    case (literal segs)
    then have "specificity segs ?ss = Some s" using s path_segments_plain by simp
    then have "?ss = segs" using specificity_plain literal(1) by blast
    then show ?thesis using literal by simp
  next
    case (wildcard init)
    note route = route_path_wildcard [OF wildcard(2)]
    have "specificity (init @ [proxy]) ?ss = Some s"
      using s by (simp add: route(1) proxy_segments [OF wildcard(1)])
    then obtain rest where rest: "?ss = init @ rest" using specificity_greedy [OF wildcard(1)] by blast
    show ?thesis
    proof (cases rest)
      case Nil
      then show ?thesis
        using rest by (cases "init = []") (auto simp: route(2) canonical_path_def js_starts_with_def)
    next
      case (Cons r rs)
      then have "canonical_path ?ss = (concat (map (Cons slash) init) @ ''/'') @ r @ concat (map (Cons slash) rs)"
        using rest by (simp add: canonical_path_def)
      then show ?thesis using route(2) js_starts_with_append by metis
    qed
  qed
qed

text \<open>A derived route on a path scores less than a declared route spelled out to the end.\<close>

lemma derived_below_literal:
  assumes "plain_path p" "list_all plain_segment segs" "route_score method (canonical_path segs) (derived_route p) = Some sc"
    and "publicPathRoutePath p \<noteq> canonical_path segs" "b \<ge> 0"
  shows "sc < (replicate (length segs) 2 @ [3]) @ [b]"
proof -
  obtain s c where s: "specificity (path_segments (publicPathRoutePath p)) segs = Some s" "sc = s @ [c]"
    using route_score_specificity [OF assms(3)] path_segments_plain [OF assms(2)]
    by (auto simp: derived_route_def Let_def)
  from assms(1) show ?thesis
  proof (cases rule: public_path_cases)
    case (literal ps)
    then have "segs = ps" using s path_segments_plain specificity_plain by fastforce
    then show ?thesis using literal assms(4) by simp
  next
    case (wildcard init)
    have "specificity (init @ [proxy]) segs = Some s"
      using s by (simp add: route_path_wildcard(1) [OF wildcard(2)] proxy_segments [OF wildcard(1)])
    then obtain rest where "segs = init @ rest" "s = replicate (length init) 2 @ [0]"
      using specificity_greedy [OF wildcard(1)] by blast
    moreover have "replicate n (2::int) @ [0, c] < replicate (n + m) 2 @ [3, b]" for n m
    proof (induction n)
      case 0
      then show ?case by (cases m) simp_all
    qed simp
    ultimately show ?thesis using s(2) by (simp add: replicate_add)
  qed
qed

lemma accepted_handler:
  assumes "vr_valid (validateManifest m)" "handler \<in> set (ir_handlers (am_infra m))" "ch_auth handler = AuthSession"
  shows "ch_publicPaths handler \<noteq> []" and "p \<in> set (ch_publicPaths handler) \<Longrightarrow> public_path_errors handler p = []"
proof -
  have "handler_errors handler = []"
    using assms(1,2) by (auto simp: validateManifest_def manifest_errors_def Let_def split: if_splits)
  moreover have "public_paths_errors handler seen ps = [] \<Longrightarrow> p \<in> set ps \<Longrightarrow> public_path_errors handler p = []" for seen ps
    by (induction ps arbitrary: seen) auto
  ultimately show "ch_publicPaths handler \<noteq> []"
    and "p \<in> set (ch_publicPaths handler) \<Longrightarrow> public_path_errors handler p = []"
    using assms(3) by (auto simp: handler_errors_def Let_def split: if_splits)
qed

lemma session_routes:
  "ch_auth handler = AuthSession \<Longrightarrow> ch_publicPaths handler \<noteq> [] \<Longrightarrow>
     set (resolveHandlerRoutes handler)
       = {r \<in> set (declaredHandlerRoutes handler). rr_path r \<notin> publicPathRoutePath ` set (ch_publicPaths handler)}
         \<union> derived_route ` set (ch_publicPaths handler)"
  by (auto simp: resolveHandlerRoutes_def derived_route_def Let_def image_image)

text \<open>The route an anonymous request takes was derived from a public path.\<close>

lemma anonymous_is_derived:
  assumes "ch_auth handler = AuthSession" "ch_publicPaths handler \<noteq> []"
    and "\<forall>r \<in> set (declaredHandlerRoutes handler). rr_auth r \<noteq> AuthPublic"
    and "isAnonymouslyReachable handler method path"
  obtains p sc where "p \<in> set (ch_publicPaths handler)"
    "best_of method path (resolveHandlerRoutes handler) (derived_route p, sc)"
proof -
  obtain r where r: "matchRoute (resolveHandlerRoutes handler) method path = Some r" "rr_auth r = AuthPublic"
    using assms(4) by (auto simp: isAnonymouslyReachable_def)
  then obtain sc where best: "best_of method path (resolveHandlerRoutes handler) (r, sc)"
    using matchRoute_best by blast
  then have "r \<in> set (resolveHandlerRoutes handler)" by (simp add: best_of_def)
  then obtain p where "p \<in> set (ch_publicPaths handler)" "r = derived_route p"
    using r(2) assms(3) by (auto simp: session_routes [OF assms(1,2)])
  then show ?thesis using that best by blast
qed

lemma anonymous_is_covered:
  assumes "ch_auth handler = AuthSession" "ch_publicPaths handler \<noteq> []"
    and "\<forall>r \<in> set (declaredHandlerRoutes handler). rr_auth r \<noteq> AuthPublic"
    and "\<forall>p \<in> set (ch_publicPaths handler). plain_path p"
    and "isAnonymouslyReachable handler method path"
  shows "\<exists>p \<in> set (ch_publicPaths handler). publicPathCovers p (canonical_path (path_segments path))"
proof -
  obtain p sc where p: "p \<in> set (ch_publicPaths handler)" "best_of method path (resolveHandlerRoutes handler) (derived_route p, sc)"
    using anonymous_is_derived [OF assms(1-3,5)] .
  then have "route_score method path (derived_route p) = Some sc" by (simp add: best_of_def)
  then show ?thesis using derived_covers p(1) assms(4) by blast
qed

text \<open>A path longer than every public path, in one segment: only a wildcard over the whole handler covers it.\<close>

definition far_path :: "nat \<Rightarrow> string" where "far_path n = slash # replicate (Suc n) CHR ''x''"

lemma far_path_uncovered:
  assumes "plain_path p" "length p < n" "publicPathRoutePath p \<noteq> ''/{proxy+}''"
  shows "\<not> publicPathCovers p (canonical_path (path_segments (far_path n)))"
proof -
  have "far_path n = canonical_path [replicate (Suc n) CHR ''x'']" by (simp add: far_path_def canonical_path_def)
  moreover have "list_all plain_segment [replicate (Suc n) CHR ''x'']" by (simp add: plain_segment_def list_all_iff)
  ultimately have far: "canonical_path (path_segments (far_path n)) = far_path n" using path_segments_plain by metis
  from assms(1) show ?thesis
  proof (cases rule: public_path_cases)
    case (literal segs)
    have "length (far_path n) = Suc (Suc n)" by (simp add: far_path_def)
    then have "far_path n \<noteq> p" using assms(2) by auto
    then show ?thesis using literal(4) far by simp
  next
    case (wildcard init)
    note route = route_path_wildcard [OF wildcard(2)]
    obtain i irest where init: "init = i # irest" using assms(3) route(1) by (cases init) (auto simp: canonical_path_def)
    let ?bare = "concat (map (Cons slash) init)"
    have bare: "?bare = slash # i @ concat (map (Cons slash) irest)" by (simp add: init)
    have "length ?bare < n" using assms(2) wildcard(2) by (simp add: canonical_path_def)
    moreover have "length (far_path n) = Suc (Suc n)" by (simp add: far_path_def)
    ultimately have "far_path n \<noteq> ?bare" by auto
    moreover have "\<not> js_starts_with (far_path n) (?bare @ ''/'')"
    proof
      assume "js_starts_with (far_path n) (?bare @ ''/'')"
      then have "take (length (?bare @ ''/'')) (far_path n) = ?bare @ ''/''" by (simp add: js_starts_with_def)
      then have "slash # take (length ?bare) (replicate (Suc n) CHR ''x'') = slash # (i @ concat (map (Cons slash) irest)) @ ''/''"
        by (simp add: far_path_def bare)
      then have "CHR ''/'' \<in> set (take (length ?bare) (replicate (Suc n) CHR ''x''))" by simp
      then have "CHR ''/'' \<in> set (replicate (Suc n) CHR ''x'')" by (rule in_set_takeD)
      then show False by simp
    qed
    ultimately show ?thesis using route(2) far by simp
  qed
qed

lemma session_reach:
  assumes "vr_valid (validateManifest m)" "handler \<in> set (ir_handlers (am_infra m))" "ch_auth handler = AuthSession"
    and "\<forall>p \<in> set (ch_publicPaths handler). plain_path p"
    and "\<forall>r \<in> set (declaredHandlerRoutes handler). rr_auth r \<noteq> AuthPublic"
  shows "isAnonymouslyReachable handler method path
      \<Longrightarrow> \<exists>p \<in> set (ch_publicPaths handler). publicPathCovers p (canonical_path (path_segments path))"
    and "\<exists>closed. \<not> isAnonymouslyReachable handler method closed"
    and "r \<in> set (declaredHandlerRoutes handler) \<Longrightarrow> rr_authExplicit r \<Longrightarrow> list_all plain_segment segs
      \<Longrightarrow> rr_path r = canonical_path segs \<Longrightarrow> rr_method r = ''ANY'' \<or> rr_method r = map js_upper_char method
      \<Longrightarrow> \<not> isAnonymouslyReachable handler method (rr_path r)"
proof -
  note some = accepted_handler(1) [OF assms(1-3)] and clean = accepted_handler(2) [OF assms(1-3)]
  show "\<exists>p \<in> set (ch_publicPaths handler). publicPathCovers p (canonical_path (path_segments path))"
    if "isAnonymouslyReachable handler method path"
    using anonymous_is_covered [OF assms(3) some assms(5,4) that] .
  show "\<exists>closed. \<not> isAnonymouslyReachable handler method closed"
  proof (intro exI notI)
    let ?n = "Suc (sum_list (map length (ch_publicPaths handler)))"
    assume "isAnonymouslyReachable handler method (far_path ?n)"
    then obtain p where p: "p \<in> set (ch_publicPaths handler)" "publicPathCovers p (canonical_path (path_segments (far_path ?n)))"
      using anonymous_is_covered [OF assms(3) some assms(5,4)] by blast
    have "length p < ?n" using member_le_sum_list [of "length p" "map length (ch_publicPaths handler)"] p(1) by simp
    moreover have "publicPathRoutePath p \<noteq> ''/{proxy+}''"
      using clean [OF p(1)] by (auto simp: public_path_errors_def)
    ultimately show False using far_path_uncovered p assms(4) by blast
  qed
  show "\<not> isAnonymouslyReachable handler method (rr_path r)"
    if r: "r \<in> set (declaredHandlerRoutes handler)" "rr_authExplicit r" "list_all plain_segment segs"
      "rr_path r = canonical_path segs" "rr_method r = ''ANY'' \<or> rr_method r = map js_upper_char method"
  proof
    assume "isAnonymouslyReachable handler method (rr_path r)"
    then obtain p sc where p: "p \<in> set (ch_publicPaths handler)"
        "best_of method (rr_path r) (resolveHandlerRoutes handler) (derived_route p, sc)"
      using anonymous_is_derived [OF assms(3) some assms(5)] by blast
    have apart: "rr_path r \<noteq> publicPathRoutePath q" if "q \<in> set (ch_publicPaths handler)" for q
      using clean [OF that] assms(3,5) r(1,2) by (auto simp: public_path_errors_def find_None_iff split: if_splits option.splits)
    then have "r \<in> set (resolveHandlerRoutes handler)" using r(1) by (auto simp: session_routes [OF assms(3) some])
    moreover obtain b where b: "route_score method (rr_path r) r = Some ((replicate (length segs) 2 @ [3]) @ [b])" "b \<ge> 0"
      using r(5) by (cases "rr_method r = ''ANY''")
        (auto simp: route_score_def r(4) path_segments_plain [OF r(3)] specificity_plain_same [OF r(3)])
    ultimately have "(replicate (length segs) 2 @ [3]) @ [b] \<le> sc" using p(2) by (auto simp: best_of_def)
    moreover have "sc < (replicate (length segs) 2 @ [3]) @ [b]"
      using derived_below_literal [OF _ r(3) _ _ b(2)] p assms(4) apart [OF p(1)] by (auto simp: best_of_def r(4))
    ultimately show False by simp
  qed
qed


definition sample_handler :: compute_handler where
  "sample_handler = \<lparr>ch_name = ''web'', ch_memoryMb = 256, ch_timeoutSeconds = 30, ch_reservedConcurrency = None,
     ch_routes = [RouteKey ''$default'', RouteKey ''GET /'', RouteWithAuth ''ANY /api/data/{proxy+}'' AuthJwt, RouteWithAuth ''POST /admin'' AuthJwt],
     ch_auth = AuthSession, ch_publicPaths = [''/'', ''/sign-in'', ''/_immutable/*''], ch_staticAssetPaths = [''/_immutable/*'']\<rparr>"

definition sample_manifest :: app_manifest where
  "sample_manifest = \<lparr>am_id = ''photos'', am_name = ''Photos'', am_version = ''1'', am_tier = Official, am_targets = [TargetCloud],
     am_infra = \<lparr>ir_fileAccess = [\<lparr>fa_types = [''image/jpeg''], fa_readwrite = True, fa_metadataWrite = False\<rparr>],
       ir_fileAccessAll = False, ir_computeEnabled = True, ir_handlers = [sample_handler], ir_brokerPower = False,
       ir_tables = [], ir_files = False, ir_labelKeys = [], ir_publicSharing = True\<rparr>, am_android = None\<rparr>"


text \<open>
  The wildcard check compares spellings, and the route table reads segments: a wildcard over the whole
  handler in another spelling is accepted, and by the platform's own route matching it opens every path.
\<close>

definition slipped_handler :: compute_handler where
  "slipped_handler = sample_handler\<lparr>ch_routes := [RouteKey ''$default''], ch_publicPaths := [''//*''], ch_staticAssetPaths := []\<rparr>"

theorem wildcard_slips_through:
  "manifest_errors (sample_manifest\<lparr>am_infra := (am_infra sample_manifest)\<lparr>ir_handlers := [slipped_handler]\<rparr>\<rparr>) = []
   \<and> isAnonymouslyReachable slipped_handler ''POST'' ''/admin''"
  by code_simp

end
