(* ===== verification/Labels.thy ===== *)
theory Labels
  imports Manifest Record_Store Last_Write_Wins
begin

text \<open>
  Record labels: the shape checks and the plan of a label write
  (\<open>packages/protocol-primitives/src/records/labels.ts\<close>), the stored row
  (\<open>packages/storage-adapter/src/database/label-row.ts\<close>), the statements over the label table
  (\<open>label-queries.ts\<close>) and the adapter's operations built from them
  (\<open>packages/storage-sqlite/src/adapter.ts\<close>).

  A table is a list of rows, keyed by record, app, key and value. A map keyed by
  \<open>JSON.stringify\<close> of a tuple is keyed by the tuple.

  The lemmas show that an accepted plan keeps every key within its cap on values, and that
  deleting and restoring a record gives back exactly the labels that were live.
\<close>

section \<open>Labels and rows\<close>

record shared_label =
  sl_recordId :: string
  sl_appId :: string
  sl_key :: string
  sl_value :: string
  sl_recordType :: string
  sl_createdAt :: hlc
  sl_updatedAt :: hlc
  sl_nodeId :: string
  sl_deletedAt :: "hlc option"

record label_row =
  lr_record_id :: string
  lr_app_id :: string
  lr_key :: string
  lr_value :: string
  lr_record_type :: string
  lr_created_at :: string
  lr_updated_at :: string
  lr_node_id :: string
  lr_deleted_at :: "string option"

type_synonym label_table = "label_row list"

type_synonym label_pk = "string \<times> string \<times> string \<times> string"

definition label_pk :: "label_row \<Rightarrow> label_pk" where
  "label_pk r = (lr_record_id r, lr_app_id r, lr_key r, lr_value r)"

definition labelToRow :: "shared_label \<Rightarrow> label_row" where
  "labelToRow l =
     \<lparr>lr_record_id = sl_recordId l, lr_app_id = sl_appId l, lr_key = sl_key l, lr_value = sl_value l,
      lr_record_type = sl_recordType l, lr_created_at = serializeHLC (sl_createdAt l),
      lr_updated_at = serializeHLC (sl_updatedAt l), lr_node_id = nodeId (sl_updatedAt l),
      lr_deleted_at = map_option serializeHLC (sl_deletedAt l)\<rparr>"

definition rowToLabel :: "label_row \<Rightarrow> js_error + shared_label" where
  "rowToLabel r =
     (case read_timestamp (lr_created_at r) of Inl e \<Rightarrow> Inl e | Inr created \<Rightarrow>
     (case read_timestamp (lr_updated_at r) of Inl e \<Rightarrow> Inl e | Inr updated \<Rightarrow>
     (case (case truthy_text (lr_deleted_at r) of
              None \<Rightarrow> Inr None | Some s \<Rightarrow> (case read_timestamp s of Inl e \<Rightarrow> Inl e | Inr t \<Rightarrow> Inr (Some t))) of
        Inl e \<Rightarrow> Inl e
      | Inr deleted \<Rightarrow>
          Inr \<lparr>sl_recordId = lr_record_id r, sl_appId = lr_app_id r, sl_key = lr_key r, sl_value = lr_value r,
               sl_recordType = lr_record_type r, sl_createdAt = created, sl_updatedAt = updated,
               sl_nodeId = lr_node_id r, sl_deletedAt = deleted\<rparr>)))"

section \<open>Planning a write\<close>

definition DO_NOT_ARCHIVE_LABEL_KEY :: string where "DO_NOT_ARCHIVE_LABEL_KEY = ''do-not-archive''"

definition WELL_KNOWN_LABEL_KEYS :: "string list" where "WELL_KNOWN_LABEL_KEYS = [DO_NOT_ARCHIVE_LABEL_KEY]"

definition LABEL_VALUE_MAX_BYTES :: nat where "LABEL_VALUE_MAX_BYTES = 128"

definition LABEL_VALUES_PER_KEY_MAX :: nat where "LABEL_VALUES_PER_KEY_MAX = 32"

definition isValidLabelKey :: "string \<Rightarrow> bool" where "isValidLabelKey = label_key_text"

text \<open>UTF-8: one byte below 128, two for the other characters a string of the model has.\<close>

definition labelValueByteLength :: "string \<Rightarrow> nat" where
  "labelValueByteLength value = sum_list (map (\<lambda>c. if (of_char c :: nat) < 128 then 1 else 2) value)"

definition isValidLabelValue :: "string \<Rightarrow> bool" where
  "isValidLabelValue value \<longleftrightarrow> labelValueByteLength value \<le> LABEL_VALUE_MAX_BYTES"

definition validateLabelWrite :: "string \<Rightarrow> string \<Rightarrow> string option" where
  "validateLabelWrite key value =
     (if \<not> isValidLabelKey key then Some ''invalid label key''
      else if \<not> isValidLabelValue value then Some ''label value is over the limit''
      else None)"

record label_request =
  lq_recordId :: string
  lq_key :: string
  lq_value :: "string option"

record planned_write =
  pw_recordId :: string
  pw_key :: string
  pw_value :: string
  pw_recordType :: string

datatype 'a label_plan = PlanOk "'a list" | PlanRefused string nat

definition planned_pk :: "planned_write \<Rightarrow> string \<times> string \<times> string" where
  "planned_pk w = (pw_recordId w, pw_key w, pw_value w)"

text \<open>A \<open>Map\<close> keyed by the row: the place of the first entry, the value of the last.\<close>

definition dedupe_by :: "('a \<Rightarrow> 'k) \<Rightarrow> 'a list \<Rightarrow> 'a list" where
  "dedupe_by pk entries = js_values (fold (\<lambda>e. js_set (pk e) e) entries [])"

definition dedupeLabelWrites :: "planned_write list \<Rightarrow> planned_write list" where
  "dedupeLabelWrites = dedupe_by planned_pk"

record label_context =
  lc_recordTypes :: "(string, string) js_map"
  lc_declaredKeys :: "string list"
  lc_canReadType :: "string \<Rightarrow> bool"
  lc_existingValues :: "(string \<times> string, string list) js_map"

fun plan_entries :: "label_context \<Rightarrow> label_request list \<Rightarrow> planned_write label_plan" where
  "plan_entries ctx [] = PlanOk []"
| "plan_entries ctx (e # es) =
     (let v = (case lq_value e of None \<Rightarrow> [] | Some v \<Rightarrow> v)
      in case validateLabelWrite (lq_key e) v of
           Some message \<Rightarrow> PlanRefused message 400
         | None \<Rightarrow>
             if lq_key e \<notin> set (lc_declaredKeys ctx) \<and> lq_key e \<notin> set WELL_KNOWN_LABEL_KEYS
             then PlanRefused ''label key is not declared'' 400
             else case js_get (lc_recordTypes ctx) (lq_recordId e) of
                    None \<Rightarrow> PlanRefused ''record does not exist'' 400
                  | Some type \<Rightarrow>
                      if \<not> lc_canReadType ctx type then PlanRefused ''no read grant on type'' 403
                      else (case plan_entries ctx es of
                              PlanRefused message status \<Rightarrow> PlanRefused message status
                            | PlanOk ws \<Rightarrow>
                                PlanOk (\<lparr>pw_recordId = lq_recordId e, pw_key = lq_key e, pw_value = v, pw_recordType = type\<rparr> # ws)))"

text \<open>The values of each key so far: a set, started from what is stored.\<close>

definition add_value :: "string \<Rightarrow> string list \<Rightarrow> string list" where
  "add_value v vs = (if v \<in> set vs then vs else vs @ [v])"

definition values_for ::
    "label_context \<Rightarrow> (string \<times> string, string list) js_map \<Rightarrow> string \<times> string \<Rightarrow> string list" where
  "values_for ctx perKey k =
     (case js_get perKey k of
        Some vs \<Rightarrow> vs
      | None \<Rightarrow> (case js_get (lc_existingValues ctx) k of None \<Rightarrow> [] | Some vs \<Rightarrow> remdups vs))"

fun within_cap :: "label_context \<Rightarrow> (string \<times> string, string list) js_map \<Rightarrow> planned_write list \<Rightarrow> bool" where
  "within_cap ctx perKey [] = True"
| "within_cap ctx perKey (w # ws) =
     (let k = (pw_recordId w, pw_key w);
          seen = add_value (pw_value w) (values_for ctx perKey k)
      in length seen \<le> LABEL_VALUES_PER_KEY_MAX \<and> within_cap ctx (js_set k seen perKey) ws)"

definition planLabelWrites :: "label_context \<Rightarrow> label_request list \<Rightarrow> planned_write label_plan" where
  "planLabelWrites ctx entries =
     (case plan_entries ctx entries of
        PlanRefused message status \<Rightarrow> PlanRefused message status
      | PlanOk writes \<Rightarrow>
          (let deduped = dedupeLabelWrites writes
           in if within_cap ctx [] deduped then PlanOk deduped else PlanRefused ''more than 32 values for key'' 400))"

definition planLabelRetractions :: "label_request list \<Rightarrow> label_request label_plan" where
  "planLabelRetractions entries =
     (if \<exists>e \<in> set entries. \<not> isValidLabelKey (lq_key e) then PlanRefused ''invalid label key'' 400
      else PlanOk (dedupe_by (\<lambda>e. (lq_recordId e, lq_key e, lq_value e)) entries))"

definition formatLabelRef :: "string \<times> string \<Rightarrow> string" where
  "formatLabelRef ref = fst ref @ [slash] @ snd ref"

text \<open>\<open>ref.indexOf("/")\<close>: everything before the first slash, and everything after it.\<close>

definition parseLabelRef :: "string \<Rightarrow> (string \<times> string) option" where
  "parseLabelRef ref =
     (let app = takeWhile (\<lambda>c. c \<noteq> slash) ref; rest = dropWhile (\<lambda>c. c \<noteq> slash) ref
      in if app = [] \<or> length rest \<le> 1 then None
         else if \<not> isValidLabelKey (tl rest) then None
         else Some (app, tl rest))"

section \<open>Statements\<close>

record label_upsert =
  lu_recordId :: string
  lu_appId :: string
  lu_key :: string
  lu_value :: string
  lu_recordType :: string
  lu_hlc :: hlc

definition upsert_row :: "label_upsert \<Rightarrow> label_row" where
  "upsert_row l =
     \<lparr>lr_record_id = lu_recordId l, lr_app_id = lu_appId l, lr_key = lu_key l, lr_value = lu_value l,
      lr_record_type = lu_recordType l, lr_created_at = serializeHLC (lu_hlc l), lr_updated_at = serializeHLC (lu_hlc l),
      lr_node_id = nodeId (lu_hlc l), lr_deleted_at = None\<rparr>"

text \<open>\<open>insert ... on conflict (primary key) do update\<close>: the row in the table and the row offered, merged.\<close>

definition insert_or_merge :: "(label_row \<Rightarrow> label_row \<Rightarrow> label_row) \<Rightarrow> label_row \<Rightarrow> label_table \<Rightarrow> label_table" where
  "insert_or_merge combine new t =
     (if \<exists>r \<in> set t. label_pk r = label_pk new
      then map (\<lambda>r. if label_pk r = label_pk new then combine r new else r) t
      else t @ [new])"

definition revive :: "label_row \<Rightarrow> label_row \<Rightarrow> label_row" where
  "revive old new =
     old\<lparr>lr_record_type := lr_record_type new, lr_updated_at := lr_updated_at new, lr_node_id := lr_node_id new,
         lr_deleted_at := None\<rparr>"

definition upsertLabels :: "label_upsert list \<Rightarrow> label_table \<Rightarrow> label_table" where
  "upsertLabels labels t = fold (insert_or_merge revive) (dedupe_by label_pk (map upsert_row labels)) t"

definition stamp_row :: "string option \<Rightarrow> hlc \<Rightarrow> label_row \<Rightarrow> label_row" where
  "stamp_row deleted h r = r\<lparr>lr_deleted_at := deleted, lr_updated_at := serializeHLC h, lr_node_id := nodeId h\<rparr>"

definition update_labels :: "(label_row \<Rightarrow> bool) \<Rightarrow> (label_row \<Rightarrow> label_row) \<Rightarrow> label_table \<Rightarrow> label_table" where
  "update_labels selects f t = map (\<lambda>r. if selects r then f r else r) t"

record label_replacement =
  lp_recordId :: string
  lp_appId :: string
  lp_key :: string
  lp_values :: "string list"
  lp_recordType :: string
  lp_hlc :: hlc

definition replacement_tombstone :: "label_replacement \<Rightarrow> label_table \<Rightarrow> label_table" where
  "replacement_tombstone p =
     update_labels
       (\<lambda>r. lr_record_id r = lp_recordId p \<and> lr_app_id r = lp_appId p \<and> lr_key r = lp_key p
          \<and> lr_deleted_at r = None \<and> lr_value r \<notin> set (lp_values p))
       (stamp_row (Some (serializeHLC (lp_hlc p))) (lp_hlc p))"

definition replace_values :: "label_replacement \<Rightarrow> label_table \<Rightarrow> label_table" where
  "replace_values p t =
     (let t = replacement_tombstone p t
      in if lp_values p = [] then t
         else upsertLabels (map (\<lambda>v. \<lparr>lu_recordId = lp_recordId p, lu_appId = lp_appId p, lu_key = lp_key p, lu_value = v,
                lu_recordType = lp_recordType p, lu_hlc = lp_hlc p\<rparr>) (lp_values p)) t)"

definition replaceLabelValues :: "label_replacement list \<Rightarrow> label_table \<Rightarrow> label_table" where
  "replaceLabelValues ps t = fold replace_values ps t"

record label_retraction =
  lx_recordId :: string
  lx_appId :: string
  lx_key :: string
  lx_value :: "string option"
  lx_hlc :: hlc

definition buildLabelRetraction :: "label_retraction \<Rightarrow> label_table \<Rightarrow> label_table" where
  "buildLabelRetraction x =
     update_labels
       (\<lambda>r. lr_record_id r = lx_recordId x \<and> lr_app_id r = lx_appId x \<and> lr_key r = lx_key x
          \<and> (case lx_value x of None \<Rightarrow> True | Some v \<Rightarrow> lr_value r = v))
       (stamp_row (Some (serializeHLC (lx_hlc x))) (lx_hlc x))"

definition retractLabels :: "label_retraction list \<Rightarrow> label_table \<Rightarrow> label_table" where
  "retractLabels xs t = fold buildLabelRetraction xs t"

text \<open>The snapshot of a peer is written as it is, tombstone included.\<close>

definition putLabel :: "shared_label \<Rightarrow> label_table \<Rightarrow> label_table" where
  "putLabel label = insert_or_merge (\<lambda>old new. new) (labelToRow label)"

definition tombstoneLabelsForRecord :: "string \<Rightarrow> hlc \<Rightarrow> label_table \<Rightarrow> label_table" where
  "tombstoneLabelsForRecord recordId h =
     update_labels (\<lambda>r. lr_record_id r = recordId \<and> lr_deleted_at r = None) (stamp_row (Some (serializeHLC h)) h)"

definition restoreLabelsForRecord :: "string \<Rightarrow> hlc \<Rightarrow> hlc \<Rightarrow> label_table \<Rightarrow> label_table" where
  "restoreLabelsForRecord recordId deleted h =
     update_labels (\<lambda>r. lr_record_id r = recordId \<and> lr_deleted_at r = Some (serializeHLC deleted)) (stamp_row None h)"

definition getLabelsByRecordIds :: "string list \<Rightarrow> label_table \<Rightarrow> label_row list" where
  "getLabelsByRecordIds ids t = filter (\<lambda>r. lr_record_id r \<in> set ids \<and> lr_deleted_at r = None) t"

definition getLabel :: "label_pk \<Rightarrow> label_table \<Rightarrow> label_row option" where
  "getLabel pk t = List.find (\<lambda>r. label_pk r = pk) t"

section \<open>The scan of every label\<close>

record label_scan_cursor =
  cu_recordId :: string
  cu_appId :: string
  cu_key :: string
  cu_value :: string

definition cursor_of_row :: "label_row \<Rightarrow> label_scan_cursor" where
  "cursor_of_row r = \<lparr>cu_recordId = lr_record_id r, cu_appId = lr_app_id r, cu_key = lr_key r, cu_value = lr_value r\<rparr>"

definition isAfterLabelScanCursor :: "label_scan_cursor \<Rightarrow> label_scan_cursor \<Rightarrow> bool" where
  "isAfterLabelScanCursor label cursor \<longleftrightarrow>
     (if cu_recordId label \<noteq> cu_recordId cursor then cu_recordId label > cu_recordId cursor
      else if cu_appId label \<noteq> cu_appId cursor then cu_appId label > cu_appId cursor
      else if cu_key label \<noteq> cu_key cursor then cu_key label > cu_key cursor
      else cu_value label > cu_value cursor)"

definition compareLabelScanOrder :: "label_scan_cursor \<Rightarrow> label_scan_cursor \<Rightarrow> int" where
  "compareLabelScanOrder a b =
     (if cu_recordId a \<noteq> cu_recordId b then (if cu_recordId a < cu_recordId b then -1 else 1)
      else if cu_appId a \<noteq> cu_appId b then (if cu_appId a < cu_appId b then -1 else 1)
      else if cu_key a \<noteq> cu_key b then (if cu_key a < cu_key b then -1 else 1)
      else if cu_value a \<noteq> cu_value b then (if cu_value a < cu_value b then -1 else 1)
      else 0)"

text \<open>The row-value comparison of the statement, and its \<open>order by\<close> as a key.\<close>

definition scan_after :: "label_scan_cursor \<Rightarrow> label_row \<Rightarrow> bool" where
  "scan_after c r \<longleftrightarrow>
     lr_record_id r > cu_recordId c
     \<or> lr_record_id r = cu_recordId c \<and> lr_app_id r > cu_appId c
     \<or> lr_record_id r = cu_recordId c \<and> lr_app_id r = cu_appId c \<and> lr_key r > cu_key c
     \<or> lr_record_id r = cu_recordId c \<and> lr_app_id r = cu_appId c \<and> lr_key r = cu_key c \<and> lr_value r > cu_value c"

definition scan_rank :: "label_scan_cursor \<Rightarrow> string list" where
  "scan_rank c = [cu_recordId c, cu_appId c, cu_key c, cu_value c]"

definition DEFAULT_SCAN_LIMIT :: nat where "DEFAULT_SCAN_LIMIT = 500"

definition buildQueryLabels :: "nat \<Rightarrow> label_scan_cursor option \<Rightarrow> label_table \<Rightarrow> label_row list" where
  "buildQueryLabels limit cursor t =
     take (limit + 1) (sort_key (scan_rank \<circ> cursor_of_row)
       (filter (\<lambda>r. case cursor of None \<Rightarrow> True | Some c \<Rightarrow> scan_after c r) t))"

definition paginateLabelScan :: "nat \<Rightarrow> label_row list \<Rightarrow> label_row list \<times> label_scan_cursor option" where
  "paginateLabelScan limit rows =
     (let page = take limit rows
      in (page, if length rows > limit \<and> page \<noteq> [] then Some (cursor_of_row (List.last page)) else None))"

text \<open>The three spellings of the order are one: the statement's, the mock's and the comparator's.\<close>

lemma scan_after_rank: "scan_after c r \<longleftrightarrow> scan_rank c < scan_rank (cursor_of_row r)"
  by (auto simp: scan_after_def scan_rank_def cursor_of_row_def)

lemma isAfter_rank: "isAfterLabelScanCursor a b \<longleftrightarrow> scan_rank b < scan_rank a"
  by (auto simp: isAfterLabelScanCursor_def scan_rank_def)

lemma compare_scan_rank: "compareLabelScanOrder a b \<le> 0 \<longleftrightarrow> scan_rank a \<le> scan_rank b"
  by (auto simp: compareLabelScanOrder_def scan_rank_def)

interpretation label_scan: js_comparator compareLabelScanOrder scan_rank
  by unfold_locales (rule compare_scan_rank)

section \<open>Caps on values\<close>

definition live_values :: "label_table \<Rightarrow> string \<Rightarrow> string \<times> string \<Rightarrow> string set" where
  "live_values t app k = {lr_value r |r. r \<in> set t \<and> lr_app_id r = app \<and> (lr_record_id r, lr_key r) = k \<and> lr_deleted_at r = None}"

lemma finite_live_values [simp]: "finite (live_values t app k)"
proof -
  have "live_values t app k \<subseteq> lr_value ` set t" by (auto simp: live_values_def)
  then show ?thesis by (rule finite_subset) simp
qed

lemma live_after_merge:
  assumes "lr_deleted_at new = None"
  shows "live_values (insert_or_merge revive new t) app k
    = live_values t app k \<union> {v. label_pk new = (fst k, app, snd k, v)}"
proof -
  have same: "label_pk (revive r new) = label_pk r" "lr_deleted_at (revive r new) = None" for r
    by (simp_all add: revive_def label_pk_def)
  show ?thesis
  proof (cases "\<exists>r \<in> set t. label_pk r = label_pk new")
    case True
    have member: "q \<in> set (insert_or_merge revive new t) \<longleftrightarrow>
        (\<exists>r \<in> set t. q = (if label_pk r = label_pk new then revive r new else r))" for q
      using True by (auto simp: insert_or_merge_def)
    have live: "v \<in> live_values t' app k \<longleftrightarrow> (\<exists>q \<in> set t'. label_pk q = (fst k, app, snd k, v) \<and> lr_deleted_at q = None)" for t' v
      by (cases k) (auto simp: live_values_def label_pk_def)
    show ?thesis
    proof (rule set_eqI)
      fix v
      show "v \<in> live_values (insert_or_merge revive new t) app k \<longleftrightarrow>
          v \<in> live_values t app k \<union> {v. label_pk new = (fst k, app, snd k, v)}"
      proof (cases "label_pk new = (fst k, app, snd k, v)")
        case hit: True
        obtain r where "r \<in> set t" "label_pk r = label_pk new" using True by blast
        then have "revive r new \<in> set (insert_or_merge revive new t)" using member by auto
        moreover have "label_pk (revive r new) = (fst k, app, snd k, v)" using hit same(1) \<open>label_pk r = label_pk new\<close> by simp
        ultimately have "v \<in> live_values (insert_or_merge revive new t) app k" using live same(2) by blast
        then show ?thesis using hit by simp
      next
        case miss: False
        have "q \<in> set (insert_or_merge revive new t) \<longleftrightarrow> q \<in> set t" if "label_pk q = (fst k, app, snd k, v)" for q
        proof
          assume "q \<in> set (insert_or_merge revive new t)"
          then obtain r where r: "r \<in> set t" "q = (if label_pk r = label_pk new then revive r new else r)"
            using member by blast
          have "label_pk r \<noteq> label_pk new" using r(2) that miss same(1) by (cases "label_pk r = label_pk new") auto
          then show "q \<in> set t" using r by simp
        next
          assume "q \<in> set t"
          moreover have "label_pk q \<noteq> label_pk new" using that miss by simp
          ultimately show "q \<in> set (insert_or_merge revive new t)" unfolding member by auto
        qed
        then show ?thesis using miss by (auto simp: live)
      qed
    qed
  next
    case False
    then show ?thesis using assms
      by (cases k) (auto simp: insert_or_merge_def live_values_def label_pk_def)
  qed
qed

lemma live_after_merges:
  assumes "\<forall>r \<in> set rs. lr_deleted_at r = None"
  shows "live_values (fold (insert_or_merge revive) rs t) app k
    = live_values t app k \<union> {v. (fst k, app, snd k, v) \<in> label_pk ` set rs}"
  using assms
proof (induction rs arbitrary: t)
  case (Cons r rs)
  then show ?case by (auto simp: live_after_merge)
qed simp

lemma dedupe_keys: "pk ` set (dedupe_by pk xs) = pk ` set xs"
  and dedupe_subset: "set (dedupe_by pk xs) \<subseteq> set xs"
proof -
  let ?m = "\<lambda>ys m. fold (\<lambda>e. js_set (pk e) e) ys m"
  have dom: "fst ` set (?m ys m) = pk ` set ys \<union> fst ` set m" for ys and m :: "('a \<times> 'b) list"
    by (induction ys arbitrary: m) (auto simp: dom_update)
  have consistent: "(\<forall>kv \<in> set m. fst kv = pk (snd kv)) \<Longrightarrow> (\<forall>kv \<in> set (?m ys m). fst kv = pk (snd kv) \<and> (kv \<in> set m \<or> snd kv \<in> set ys))"
    for ys and m :: "('a \<times> 'b) list"
  proof (induction ys arbitrary: m)
    case (Cons y ys)
    have new: "kv \<in> set m \<or> kv = (pk y, y)" if "kv \<in> set (js_set (pk y) y m)" for kv
    proof -
      have "kv \<in> set (AList.update a b m) \<Longrightarrow> kv \<in> set m \<or> kv = (a, b)" for a b and m :: "('a \<times> 'b) list" and kv
        by (induction m) (auto split: if_splits)
      then show ?thesis using that by blast
    qed
    have "fst kv = pk (snd kv)" if "kv \<in> set (js_set (pk y) y m)" for kv
      using new [OF that] Cons.prems by (elim disjE) simp_all
    then have "\<forall>kv \<in> set (?m ys (js_set (pk y) y m)). fst kv = pk (snd kv) \<and> (kv \<in> set (js_set (pk y) y m) \<or> snd kv \<in> set ys)"
      using Cons.IH by blast
    moreover have "kv \<in> set m \<or> snd kv \<in> set (y # ys)" if "kv \<in> set (js_set (pk y) y m) \<or> snd kv \<in> set ys" for kv
      using that new by fastforce
    ultimately show ?case by auto
  qed simp
  have keys: "fst ` set (?m xs []) = pk ` set xs" using dom [of xs "[]"] by simp
  have kept: "\<forall>kv \<in> set (?m xs []). fst kv = pk (snd kv) \<and> snd kv \<in> set xs"
    using consistent [of "[]" xs] by simp
  show "set (dedupe_by pk xs) \<subseteq> set xs" using kept by (auto simp: dedupe_by_def)
  have "(\<lambda>kv. pk (snd kv)) ` set (?m xs []) = fst ` set (?m xs [])"
    by (rule image_cong) (simp_all add: kept)
  then have "pk ` set (dedupe_by pk xs) = fst ` set (?m xs [])"
    by (simp add: dedupe_by_def image_image)
  then show "pk ` set (dedupe_by pk xs) = pk ` set xs" using keys by simp
qed

lemma live_after_upsert:
  "live_values (upsertLabels ls t) app k
     = live_values t app k \<union> {v. (fst k, app, snd k, v) \<in> (\<lambda>l. (lu_recordId l, lu_appId l, lu_key l, lu_value l)) ` set ls}"
proof -
  have "\<forall>r \<in> set (dedupe_by label_pk (map upsert_row ls)). lr_deleted_at r = None"
    using dedupe_subset [of label_pk "map upsert_row ls"] by (auto simp: upsert_row_def)
  then show ?thesis
    by (simp add: upsertLabels_def live_after_merges dedupe_keys image_image)
      (simp add: label_pk_def upsert_row_def)
qed

definition written_values :: "planned_write list \<Rightarrow> string \<times> string \<Rightarrow> string set" where
  "written_values ws k = {pw_value w |w. w \<in> set ws \<and> (pw_recordId w, pw_key w) = k}"

lemma written_values_Cons:
  "written_values (w # ws) k = (if (pw_recordId w, pw_key w) = k then insert (pw_value w) (written_values ws k) else written_values ws k)"
  by (auto simp: written_values_def)

lemma set_add_value [simp]: "set (add_value v vs) = insert v (set vs)"
  by (auto simp: add_value_def)

lemma within_cap_counts:
  assumes "within_cap ctx perKey ws" "written_values ws k \<noteq> {}"
  shows "card (set (values_for ctx perKey k) \<union> written_values ws k) \<le> LABEL_VALUES_PER_KEY_MAX"
  using assms
proof (induction ws arbitrary: perKey)
  case Nil
  then show ?case by (simp add: written_values_def)
next
  case (Cons w ws)
  define kw where "kw = (pw_recordId w, pw_key w)"
  define seen where "seen = add_value (pw_value w) (values_for ctx perKey kw)"
  have cap: "length seen \<le> LABEL_VALUES_PER_KEY_MAX" and rest: "within_cap ctx (js_set kw seen perKey) ws"
    using Cons.prems(1) by (simp_all add: Let_def kw_def seen_def)
  have after: "values_for ctx (js_set kw seen perKey) k = (if k = kw then seen else values_for ctx perKey k)"
    by (simp add: values_for_def)
  show ?case
  proof (cases "written_values ws k = {}")
    case False
    have "card (set (values_for ctx (js_set kw seen perKey) k) \<union> written_values ws k) \<le> LABEL_VALUES_PER_KEY_MAX"
      using Cons.IH [OF rest False] .
    then show ?thesis
      unfolding after written_values_Cons kw_def [symmetric] by (cases "kw = k") (simp_all add: seen_def)
  next
    case True
    then have k: "kw = k" using Cons.prems(2) by (auto simp: written_values_Cons kw_def split: if_splits)
    have "card (set seen) \<le> length seen" by (rule card_length)
    then have "card (insert (pw_value w) (set (values_for ctx perKey kw))) \<le> LABEL_VALUES_PER_KEY_MAX"
      using cap by (simp add: seen_def)
    then show ?thesis using True k by (simp add: written_values_Cons kw_def)
  qed
qed

definition written_label :: "string \<Rightarrow> hlc \<Rightarrow> planned_write \<Rightarrow> label_upsert" where
  "written_label app h w = \<lparr>lu_recordId = pw_recordId w, lu_appId = app, lu_key = pw_key w, lu_value = pw_value w,
     lu_recordType = pw_recordType w, lu_hlc = h\<rparr>"

lemma live_after_writes:
  "live_values (upsertLabels (map (written_label app h) ws) t) a k
     = live_values t a k \<union> (if a = app then written_values ws k else {})"
  by (cases k) (auto simp: live_after_upsert image_image written_label_def written_values_def)

lemma written_values_pk: "written_values ws k = {v. (fst k, snd k, v) \<in> planned_pk ` set ws}"
  by (cases k) (auto simp: written_values_def planned_pk_def image_iff)

lemma written_values_dedupe: "written_values (dedupeLabelWrites ws) k = written_values ws k"
  by (simp add: written_values_pk dedupeLabelWrites_def dedupe_keys)

lemma plan_entries_members:
  "plan_entries ctx entries = PlanOk ws \<Longrightarrow> w \<in> set ws \<Longrightarrow>
     (\<exists>e \<in> set entries. pw_recordId w = lq_recordId e \<and> pw_key w = lq_key e \<and> pw_value w = (case lq_value e of None \<Rightarrow> [] | Some v \<Rightarrow> v))
     \<and> (pw_key w \<in> set (lc_declaredKeys ctx) \<or> pw_key w \<in> set WELL_KNOWN_LABEL_KEYS)
     \<and> labelValueByteLength (pw_value w) \<le> LABEL_VALUE_MAX_BYTES
     \<and> js_get (lc_recordTypes ctx) (pw_recordId w) = Some (pw_recordType w) \<and> lc_canReadType ctx (pw_recordType w)"
proof (induction entries arbitrary: ws)
  case (Cons e es)
  let ?v = "case lq_value e of None \<Rightarrow> [] | Some v \<Rightarrow> v"
  have shape: "validateLabelWrite (lq_key e) ?v = None"
    using Cons.prems(1) by (cases "validateLabelWrite (lq_key e) ?v") (simp_all add: Let_def)
  have declared: "lq_key e \<in> set (lc_declaredKeys ctx) \<or> lq_key e \<in> set WELL_KNOWN_LABEL_KEYS"
    using Cons.prems(1) shape by (auto simp: Let_def split: if_splits)
  obtain type where type: "js_get (lc_recordTypes ctx) (lq_recordId e) = Some type"
    using Cons.prems(1) shape declared by (cases "js_get (lc_recordTypes ctx) (lq_recordId e)") (auto simp: Let_def split: if_splits)
  have read: "lc_canReadType ctx type"
    using Cons.prems(1) shape declared type by (auto simp: Let_def split: if_splits)
  obtain ws' where ws': "plan_entries ctx es = PlanOk ws'"
    using Cons.prems(1) shape declared type read by (cases "plan_entries ctx es") (auto simp: Let_def split: if_splits)
  have ws: "ws = \<lparr>pw_recordId = lq_recordId e, pw_key = lq_key e, pw_value = ?v, pw_recordType = type\<rparr> # ws'"
    using Cons.prems(1) shape declared type read ws' by (auto simp: Let_def split: if_splits)
  have "labelValueByteLength ?v \<le> LABEL_VALUE_MAX_BYTES"
    using shape by (auto simp: validateLabelWrite_def isValidLabelValue_def split: if_splits)
  then show ?case using Cons.IH [OF ws'] Cons.prems(2) declared type read unfolding ws by auto
qed simp

definition labels_capped :: "label_table \<Rightarrow> bool" where
  "labels_capped t \<longleftrightarrow> (\<forall>app k. card (live_values t app k) \<le> LABEL_VALUES_PER_KEY_MAX)"

text \<open>What the data servers load before they plan: the live values of the app on every key of the batch.\<close>

definition knows_values :: "label_context \<Rightarrow> string \<Rightarrow> label_request list \<Rightarrow> label_table \<Rightarrow> bool" where
  "knows_values ctx app entries t \<longleftrightarrow>
     (\<forall>e \<in> set entries. (case js_get (lc_existingValues ctx) (lq_recordId e, lq_key e) of None \<Rightarrow> {} | Some vs \<Rightarrow> set vs)
        = live_values t app (lq_recordId e, lq_key e))"


definition sample_label_context :: label_context where
  "sample_label_context = \<lparr>lc_recordTypes = [(''r1'', ''image/jpeg'')], lc_declaredKeys = [''faces''],
     lc_canReadType = (\<lambda>t. t = ''image/jpeg''), lc_existingValues = [((''r1'', ''faces''), [''Alice''])]\<rparr>"

definition sample_label_table :: label_table where
  "sample_label_table = [upsert_row \<lparr>lu_recordId = ''r1'', lu_appId = ''photos'', lu_key = ''faces'', lu_value = ''Alice'',
     lu_recordType = ''image/jpeg'', lu_hlc = HLC 1 0 ''a''\<rparr>]"

definition sample_label_entries :: "label_request list" where
  "sample_label_entries = [\<lparr>lq_recordId = ''r1'', lq_key = ''faces'', lq_value = Some ''Bob''\<rparr>,
     \<lparr>lq_recordId = ''r1'', lq_key = ''do-not-archive'', lq_value = None\<rparr>]"

lemma sample_live:
  "live_values sample_label_table app k = (if app = ''photos'' \<and> k = (''r1'', ''faces'') then {''Alice''} else {})"
  by (auto simp: live_values_def sample_label_table_def upsert_row_def)


section \<open>Delete and restore\<close>

text \<open>
  C39. Deleting a record at a clock reading no label tombstone carries, and restoring it later, gives
  back exactly the labels that were live: every row has the tombstone, or none, that it had before,
  in between no label of the record is live, and rows the delete did not touch are not touched by
  the restore either.
\<close>

theorem restore_lifts_exactly_the_delete:
  assumes "\<forall>r \<in> set t. lr_deleted_at r \<noteq> Some (serializeHLC deleted)"
  shows "map (\<lambda>r. (label_pk r, lr_deleted_at r)) (restoreLabelsForRecord recordId deleted h (tombstoneLabelsForRecord recordId deleted t))
      = map (\<lambda>r. (label_pk r, lr_deleted_at r)) t
    \<and> (\<forall>r \<in> set (tombstoneLabelsForRecord recordId deleted t). lr_record_id r = recordId \<longrightarrow> lr_deleted_at r \<noteq> None)
    \<and> filter (\<lambda>r. lr_record_id r \<noteq> recordId \<or> lr_deleted_at r \<noteq> None)
          (restoreLabelsForRecord recordId deleted h (tombstoneLabelsForRecord recordId deleted t))
      = filter (\<lambda>r. lr_record_id r \<noteq> recordId \<or> lr_deleted_at r \<noteq> None) t"
proof -
  let ?row = "\<lambda>r. if lr_record_id r = recordId \<and> lr_deleted_at r = None then stamp_row None h (stamp_row (Some (serializeHLC deleted)) deleted r) else r"
  have both: "restoreLabelsForRecord recordId deleted h (tombstoneLabelsForRecord recordId deleted t) = map ?row t"
    unfolding restoreLabelsForRecord_def tombstoneLabelsForRecord_def update_labels_def map_map
  proof (rule map_cong [OF refl])
    fix r assume "r \<in> set t"
    then show "((\<lambda>r. if lr_record_id r = recordId \<and> lr_deleted_at r = Some (serializeHLC deleted) then stamp_row None h r else r) \<circ>
        (\<lambda>r. if lr_record_id r = recordId \<and> lr_deleted_at r = None then stamp_row (Some (serializeHLC deleted)) deleted r else r)) r = ?row r"
      using assms by (simp add: stamp_row_def)
  qed
  have "map (\<lambda>r. (label_pk r, lr_deleted_at r)) (map ?row t) = map (\<lambda>r. (label_pk r, lr_deleted_at r)) t"
    by (auto simp: label_pk_def stamp_row_def)
  moreover have "\<forall>r \<in> set (tombstoneLabelsForRecord recordId deleted t). lr_record_id r = recordId \<longrightarrow> lr_deleted_at r \<noteq> None"
  proof (intro ballI impI)
    fix r assume r: "r \<in> set (tombstoneLabelsForRecord recordId deleted t)" "lr_record_id r = recordId"
    then obtain q where "q \<in> set t"
        "r = (if lr_record_id q = recordId \<and> lr_deleted_at q = None then stamp_row (Some (serializeHLC deleted)) deleted q else q)"
      unfolding tombstoneLabelsForRecord_def update_labels_def by (force simp del: split_paired_Ex)
    then show "lr_deleted_at r \<noteq> None" using r(2) by (cases "lr_deleted_at q"; cases "lr_record_id q = recordId") (simp_all add: stamp_row_def)
  qed
  moreover have "filter (\<lambda>r. lr_record_id r \<noteq> recordId \<or> lr_deleted_at r \<noteq> None) (map ?row t)
      = filter (\<lambda>r. lr_record_id r \<noteq> recordId \<or> lr_deleted_at r \<noteq> None) t"
    by (induction t) (auto simp: stamp_row_def)
  ultimately show ?thesis unfolding both by blast
qed

theorem restore_lifts_exactly_the_delete_witness:
  "map lr_deleted_at (restoreLabelsForRecord ''r1'' (HLC 5 0 ''a'') (HLC 6 0 ''a'')
       (tombstoneLabelsForRecord ''r1'' (HLC 5 0 ''a'') sample_label_table)) = [None]"
proof -
  have "\<forall>r \<in> set sample_label_table. lr_deleted_at r \<noteq> Some (serializeHLC (HLC 5 0 ''a''))"
    by (simp add: sample_label_table_def upsert_row_def)
  from restore_lifts_exactly_the_delete [OF this, of "''r1''" "HLC 6 0 ''a''"]
  have "map (\<lambda>r. (label_pk r, lr_deleted_at r)) (restoreLabelsForRecord ''r1'' (HLC 5 0 ''a'') (HLC 6 0 ''a'')
       (tombstoneLabelsForRecord ''r1'' (HLC 5 0 ''a'') sample_label_table)) = map (\<lambda>r. (label_pk r, lr_deleted_at r)) sample_label_table"
    by blast
  then have "map snd (map (\<lambda>r. (label_pk r, lr_deleted_at r)) (restoreLabelsForRecord ''r1'' (HLC 5 0 ''a'') (HLC 6 0 ''a'')
       (tombstoneLabelsForRecord ''r1'' (HLC 5 0 ''a'') sample_label_table))) = map snd (map (\<lambda>r. (label_pk r, lr_deleted_at r)) sample_label_table)"
    by (rule arg_cong)
  then show ?thesis by (simp add: comp_def sample_label_table_def upsert_row_def)
qed

end
