(* ===== verification/Metadata_Sync.thy ===== *)
theory Metadata_Sync
  imports App_Rows
begin

text \<open>
  Metadata as a passenger of a synced record: what a node sends, merges, deletes and restores
  (\<open>packages/storage-adapter/src/database/metadata-sync.ts\<close>), over the metadata tables of the SQLite
  adapter (\<open>packages/storage-sqlite/src/adapter.ts\<close>, \<open>putMetadata\<close> to \<open>setMetadataTombstone\<close>).

  The rows of every metadata table are one map, keyed by the table and the record; a column a row
  does not have is null. A payload that is no plain object is \<open>None\<close>.

  The lemmas show what one merge leaves, when the receiver owes the sender an answer, and that one
  answer settles the exchange.
\<close>

section \<open>Metadata tables\<close>

type_synonym metadata_store = "(string \<times> string, app_row) js_map"

datatype metadata_error = UnknownRecordType | UnknownMetadataColumn

record metadata_subject =
  ms_id :: string
  ms_type :: string

definition category_columns :: "string \<Rightarrow> metadata_column list" where
  "category_columns c = (case getCategory c of None \<Rightarrow> [] | Some d \<Rightarrow> metadataColumns d)"

definition category_flags :: "string \<Rightarrow> string list" where
  "category_flags c = map Core_Types.col_name (filter (\<lambda>d. Core_Types.col_type d = ColBoolean) (category_columns c))"

text \<open>The columns a write sets: the record's own type and no tombstone, then what the row names.\<close>

definition metadataValues :: "string \<Rightarrow> app_row \<Rightarrow> metadata_error + app_row" where
  "metadataValues recordType row =
     (if \<not> isKnownType recordType then Inl UnknownRecordType
      else Inr (fold (\<lambda>(k, v) values.
                  if k = ''recordId'' \<or> k = METADATA_DISCRIMINANT_COLUMN \<or> k = METADATA_DELETED_AT_COLUMN then values
                  else js_set k v values)
                row [(METADATA_DISCRIMINANT_COLUMN, Some (QText recordType)), (METADATA_DELETED_AT_COLUMN, None)]))"

definition table_columns :: "string \<Rightarrow> string list" where
  "table_columns category = map Core_Types.col_name (category_columns category) @ [METADATA_DISCRIMINANT_COLUMN, METADATA_DELETED_AT_COLUMN]"

text \<open>\<open>insert ... on conflict (record_id) do update\<close> of the columns named, bound as SQLite binds them.\<close>

definition putMetadata :: "string \<Rightarrow> string \<Rightarrow> app_row \<Rightarrow> metadata_store \<Rightarrow> metadata_error + metadata_store" where
  "putMetadata recordType recordId row store =
     (case metadataValues recordType row of
        Inl e \<Rightarrow> Inl e
      | Inr values \<Rightarrow>
          if \<not> set (js_keys values) \<subseteq> set (table_columns (category_id (typeCategory recordType))) then Inl UnknownMetadataColumn
          else let k = (sqliteMetadataTableName recordType, recordId);
                   old = (case js_get store k of None \<Rightarrow> [] | Some r \<Rightarrow> r)
               in Inr (js_set k (fold (\<lambda>(c, v). js_set c (toSqliteParam v)) values old) store))"

definition columnsToMetadataRow :: "string \<Rightarrow> app_row \<Rightarrow> app_row" where
  "columnsToMetadataRow typeId columns =
     fromSqliteRow (category_flags (category_id (typeCategory typeId)))
       (filter (\<lambda>(k, v). k \<noteq> ''record_id'' \<and> k \<noteq> METADATA_DELETED_AT_COLUMN) columns)"

definition getMetadata :: "string \<Rightarrow> string \<Rightarrow> metadata_store \<Rightarrow> app_row option" where
  "getMetadata typeId recordId store =
     map_option (columnsToMetadataRow typeId) (js_get store (sqliteMetadataTableName typeId, recordId))"

definition setMetadataTombstone :: "string \<Rightarrow> string \<Rightarrow> cell \<Rightarrow> metadata_store \<Rightarrow> metadata_store" where
  "setMetadataTombstone typeId recordId v store =
     (let k = (sqliteMetadataTableName typeId, recordId)
      in case js_get store k of None \<Rightarrow> store | Some r \<Rightarrow> js_set k (js_set METADATA_DELETED_AT_COLUMN v r) store)"

definition tombstoneMetadata :: "string \<Rightarrow> string \<Rightarrow> hlc \<Rightarrow> metadata_store \<Rightarrow> metadata_store" where
  "tombstoneMetadata typeId recordId h = setMetadataTombstone typeId recordId (Some (QText (serializeHLC h)))"

definition restoreMetadata :: "string \<Rightarrow> string \<Rightarrow> metadata_store \<Rightarrow> metadata_store" where
  "restoreMetadata typeId recordId = setMetadataTombstone typeId recordId None"

section \<open>The passenger\<close>

text \<open>The declared columns that carry a value, or nothing at all.\<close>

definition toWireColumns :: "string \<Rightarrow> app_row \<Rightarrow> app_row option" where
  "toWireColumns category row =
     (let out = map (\<lambda>d. (Core_Types.col_name d, row_cell row (Core_Types.col_name d)))
                  (filter (\<lambda>d. row_cell row (Core_Types.col_name d) \<noteq> None) (category_columns category))
      in if out = [] then None else Some out)"

definition subject_category :: "metadata_subject \<Rightarrow> string" where
  "subject_category r = category_id (typeCategory (ms_type r))"

definition wire_of :: "metadata_store \<Rightarrow> metadata_subject \<Rightarrow> app_row option" where
  "wire_of store r =
     (if \<not> hasMetadataTable (subject_category r) then None
      else case getMetadata (subject_category r) (ms_id r) store of
             None \<Rightarrow> None | Some row \<Rightarrow> toWireColumns (subject_category r) row)"

definition loadMetadataForRecords :: "metadata_store \<Rightarrow> metadata_subject list \<Rightarrow> (string, app_row) js_map" where
  "loadMetadataForRecords store records =
     fold (\<lambda>r out. case wire_of store r of None \<Rightarrow> out | Some w \<Rightarrow> js_set (ms_id r) w out) records []"

definition applyRecordMetadata ::
    "bool \<Rightarrow> metadata_subject \<Rightarrow> app_row option \<Rightarrow> metadata_store \<Rightarrow> metadata_error + metadata_store \<times> bool" where
  "applyRecordMetadata detectOwedBack record payload store =
     (let category = subject_category record in
      if \<not> hasMetadataTable category then Inr (store, False)
      else case payload of
             None \<Rightarrow> Inr (store, False)
           | Some metadata \<Rightarrow>
               (case toWireColumns category metadata of
                  None \<Rightarrow> Inr (store, False)
                | Some columns \<Rightarrow>
                    (let owedBack =
                       (if \<not> detectOwedBack then False
                        else case getMetadata category (ms_id record) store of
                               None \<Rightarrow> False
                             | Some held \<Rightarrow>
                                 (case toWireColumns category held of
                                    None \<Rightarrow> False
                                  | Some mine \<Rightarrow> \<exists>name \<in> set (js_keys mine). \<not> js_has columns name))
                     in case putMetadata (ms_type record) (ms_id record) columns store of
                          Inl e \<Rightarrow> Inl e
                        | Inr store' \<Rightarrow> Inr (store', owedBack))))"

definition deleteRecordMetadata :: "metadata_subject \<Rightarrow> hlc \<Rightarrow> metadata_store \<Rightarrow> metadata_store" where
  "deleteRecordMetadata record deleted store =
     (if hasMetadataTable (subject_category record) then tombstoneMetadata (subject_category record) (ms_id record) deleted store else store)"

definition restoreRecordMetadata :: "metadata_subject \<Rightarrow> metadata_store \<Rightarrow> metadata_store" where
  "restoreRecordMetadata record store =
     (if hasMetadataTable (subject_category record) then restoreMetadata (subject_category record) (ms_id record) store else store)"

section \<open>A record's metadata as its columns\<close>

text \<open>The value a node holds in each declared column of a record, null where it holds none.\<close>

definition held_cells :: "metadata_store \<Rightarrow> metadata_subject \<Rightarrow> string \<Rightarrow> cell" where
  "held_cells store r n =
     (case getMetadata (subject_category r) (ms_id r) store of None \<Rightarrow> None | Some row \<Rightarrow> row_cell row n)"

definition column_names_of :: "metadata_subject \<Rightarrow> string list" where
  "column_names_of r = map Core_Types.col_name (category_columns (subject_category r))"

definition wire_columns :: "string list \<Rightarrow> (string \<Rightarrow> cell) \<Rightarrow> app_row option" where
  "wire_columns names f =
     (let out = map (\<lambda>n. (n, f n)) (filter (\<lambda>n. f n \<noteq> None) names) in if out = [] then None else Some out)"

text \<open>A boolean column holds booleans, and no other column does.\<close>

definition typed_cells :: "metadata_subject \<Rightarrow> (string \<Rightarrow> cell) \<Rightarrow> bool" where
  "typed_cells r f \<longleftrightarrow>
     (\<forall>n \<in> set (column_names_of r). f n \<noteq> None \<longrightarrow> (n \<in> set (category_flags (subject_category r)) \<longleftrightarrow> f n \<in> {Some (QBool True), Some (QBool False)}))"

definition carries_metadata :: "metadata_subject \<Rightarrow> bool" where
  "carries_metadata r \<longleftrightarrow> isKnownType (ms_type r) \<and> hasMetadataTable (subject_category r)"

lemma toWireColumns_fn: "toWireColumns (subject_category r) row = wire_columns (column_names_of r) (row_cell row)"
proof -
  have "map (\<lambda>d. (Core_Types.col_name d, row_cell row (Core_Types.col_name d)))
          (filter (\<lambda>d. row_cell row (Core_Types.col_name d) \<noteq> None) ds)
      = map (\<lambda>n. (n, row_cell row n)) (filter (\<lambda>n. row_cell row n \<noteq> None) (map Core_Types.col_name ds))" for ds :: "metadata_column list"
    by (induction ds) auto
  then show ?thesis by (simp add: toWireColumns_def wire_columns_def column_names_of_def)
qed

lemma wire_of_cells: "carries_metadata r \<Longrightarrow> wire_of store r = wire_columns (column_names_of r) (held_cells store r)"
  by (cases "getMetadata (subject_category r) (ms_id r) store")
    (simp_all add: wire_of_def carries_metadata_def toWireColumns_fn held_cells_def wire_columns_def)

text \<open>The declared columns of every category are distinct and none is the server's.\<close>

lemma declared_columns:
  assumes "d \<in> set CATEGORIES"
  shows "distinct (map Core_Types.col_name (metadataColumns d))
    \<and> {''recordId'', ''record_id'', METADATA_DISCRIMINANT_COLUMN, METADATA_DELETED_AT_COLUMN} \<inter> set (map Core_Types.col_name (metadataColumns d)) = {}"
proof -
  have "list_all (\<lambda>d. distinct (map Core_Types.col_name (metadataColumns d))
    \<and> list_all (\<lambda>n. n \<notin> set (map Core_Types.col_name (metadataColumns d)))
        [''recordId'', ''record_id'', METADATA_DISCRIMINANT_COLUMN, METADATA_DELETED_AT_COLUMN]) CATEGORIES"
    by code_simp
  then show ?thesis using assms by (auto simp: list_all_iff)
qed

lemma column_names_ok:
  "distinct (column_names_of r)"
  "{''recordId'', ''record_id'', METADATA_DISCRIMINANT_COLUMN, METADATA_DELETED_AT_COLUMN} \<inter> set (column_names_of r) = {}"
proof -
  have "distinct (column_names_of r) \<and> {''recordId'', ''record_id'', METADATA_DISCRIMINANT_COLUMN, METADATA_DELETED_AT_COLUMN} \<inter> set (column_names_of r) = {}"
  proof (cases "getCategory (subject_category r)")
    case None
    then show ?thesis by (simp add: column_names_of_def category_columns_def)
  next
    case (Some d)
    then have "d \<in> set CATEGORIES" by (auto simp: getCategory_def find_Some_iff)
    then show ?thesis using declared_columns Some by (simp add: column_names_of_def category_columns_def)
  qed
  then show "distinct (column_names_of r)"
    "{''recordId'', ''record_id'', METADATA_DISCRIMINANT_COLUMN, METADATA_DELETED_AT_COLUMN} \<inter> set (column_names_of r) = {}" by blast+
qed

lemma category_of_category: "category_id (typeCategory (category_id c)) = category_id c" "isCategoryId (category_id c)"
proof -
  have all: "list_all (\<lambda>c. category_id (typeCategory (category_id c)) = category_id c \<and> isCategoryId (category_id c))
      [Cat_image, Cat_video, Cat_audio, Cat_document, Cat_text, Cat_code, Cat_font, Cat_archive, Cat_data,
       Cat_model3d, Cat_starkeep, Cat_other]"
    by code_simp
  have "c \<in> set [Cat_image, Cat_video, Cat_audio, Cat_document, Cat_text, Cat_code, Cat_font, Cat_archive, Cat_data,
       Cat_model3d, Cat_starkeep, Cat_other]"
    by (cases c) simp_all
  then have "category_id (typeCategory (category_id c)) = category_id c \<and> isCategoryId (category_id c)"
    using all unfolding list_all_iff by blast
  then show "category_id (typeCategory (category_id c)) = category_id c" "isCategoryId (category_id c)" by blast+
qed

lemma same_table: "sqliteMetadataTableName (ms_type r) = sqliteMetadataTableName (subject_category r)"
proof -
  have "isCategoryId (ms_type r) \<Longrightarrow> ms_type r = category_id (typeCategory (ms_type r))"
  proof -
    assume "isCategoryId (ms_type r)"
    then obtain d :: category_def where "category_id (cat_id d) = ms_type r" unfolding isCategoryId_def by blast
    then have d: "ms_type r = category_id (cat_id d)" by simp
    show ?thesis unfolding d by (simp add: category_of_category(1))
  qed
  then show ?thesis by (auto simp: sqliteMetadataTableName_def subject_category_def category_of_category)
qed

lemma map_of_rev: "distinct (map fst w) \<Longrightarrow> map_of (rev w) = map_of w"
  by (subst map_of_inject_set) (auto simp: rev_map [symmetric])

lemma row_cell_fold:
  "row_cell (fold (\<lambda>(c, v). js_set c (f v)) kvs old) n
     = (case map_of (rev kvs) n of Some v \<Rightarrow> f v | None \<Rightarrow> row_cell old n)"
proof (induction kvs arbitrary: old)
  case (Cons kv kvs)
  then show ?case by (cases kv; cases "map_of (rev kvs) n") (auto simp: map_add_def row_cell_def)
qed simp

lemma metadata_values:
  assumes "isKnownType t" "set (map fst w) \<inter> {''recordId'', METADATA_DISCRIMINANT_COLUMN, METADATA_DELETED_AT_COLUMN} = {}"
    and "distinct (map fst w)"
  obtains kvs where "metadataValues t w = Inr kvs"
    "\<And>n. js_get kvs n = (if n = METADATA_DISCRIMINANT_COLUMN then Some (Some (QText t))
        else if n = METADATA_DELETED_AT_COLUMN then Some None else js_get w n)" "js_wf kvs"
proof -
  let ?start = "[(METADATA_DISCRIMINANT_COLUMN, Some (QText t)), (METADATA_DELETED_AT_COLUMN, None)] :: app_row"
  have step: "fold (\<lambda>(k, v) values.
                  if k = ''recordId'' \<or> k = METADATA_DISCRIMINANT_COLUMN \<or> k = METADATA_DELETED_AT_COLUMN then values
                  else js_set k v values) w m = fold (\<lambda>(k, v). js_set k v) w m" for m
    using assms(2) by (induction w arbitrary: m) auto
  have wf: "js_wf m \<Longrightarrow> js_wf (fold (\<lambda>(k, v). js_set k v) w m)" for m :: app_row
    by (induction w arbitrary: m) auto
  have diff: "METADATA_DISCRIMINANT_COLUMN \<noteq> METADATA_DELETED_AT_COLUMN"
    by (simp add: METADATA_DISCRIMINANT_COLUMN_def METADATA_DELETED_AT_COLUMN_def)
  have "map_of (rev w) = map_of w" using assms(3) by (rule map_of_rev)
  then have get: "js_get (fold (\<lambda>(k, v). js_set k v) w ?start) n = (case js_get w n of Some v \<Rightarrow> Some v | None \<Rightarrow> js_get ?start n)" for n
    by (simp add: js_map_store.fetch_store_all)
  have absent: "js_get w METADATA_DISCRIMINANT_COLUMN = None" "js_get w METADATA_DELETED_AT_COLUMN = None"
    using assms(2) by (auto simp: map_of_eq_None_iff)
  show ?thesis
  proof (rule that)
    show "metadataValues t w = Inr (fold (\<lambda>(k, v). js_set k v) w ?start)"
      using assms(1) by (simp add: metadataValues_def step)
    show "js_get (fold (\<lambda>(k, v). js_set k v) w ?start) n = (if n = METADATA_DISCRIMINANT_COLUMN then Some (Some (QText t))
        else if n = METADATA_DELETED_AT_COLUMN then Some None else js_get w n)" for n
      using absent diff by (auto simp: get split: option.splits)
    show "js_wf (fold (\<lambda>(k, v). js_set k v) w ?start)"
      using diff by (intro wf) (simp add: js_wf_def)
  qed
qed

lemma wire_columns_Some:
  assumes "wire_columns names f = Some w" "distinct names"
  shows "row_cell w n = (if n \<in> set names then f n else None)"
    and "js_has w n \<longleftrightarrow> n \<in> set names \<and> f n \<noteq> None"
    and "distinct (map fst w)" "set (map fst w) \<subseteq> set names"
proof -
  have w: "w = map (\<lambda>n. (n, f n)) (filter (\<lambda>n. f n \<noteq> None) names)"
    using assms(1) by (simp add: wire_columns_def Let_def split: if_splits)
  have get: "js_get w n = (if n \<in> set names \<and> f n \<noteq> None then Some (f n) else None)" for n
    by (simp add: w map_of_map_restrict restrict_map_def)
  show "row_cell w n = (if n \<in> set names then f n else None)"
    by (simp add: row_cell_def get)
  show "js_has w n \<longleftrightarrow> n \<in> set names \<and> f n \<noteq> None" by (simp add: get)
  show "distinct (map fst w)" "set (map fst w) \<subseteq> set names" using assms(2) by (auto simp: w comp_def)
qed

lemma wire_columns_again:
  assumes "wire_columns names f = Some w" "distinct names"
  shows "wire_columns names (row_cell w) = Some w"
proof -
  have "map (\<lambda>n. (n, row_cell w n)) (filter (\<lambda>n. row_cell w n \<noteq> None) names) = map (\<lambda>n. (n, f n)) (filter (\<lambda>n. f n \<noteq> None) names)"
    using wire_columns_Some(1) [OF assms] by (auto intro!: map_cong filter_cong)
  then show ?thesis using assms(1) by (simp add: wire_columns_def)
qed

text \<open>Reading a stored row back.\<close>

lemma held_cells_row:
  assumes "carries_metadata r" "n \<in> set (column_names_of r)"
  shows "held_cells store r n
    = (case js_get store (sqliteMetadataTableName (ms_type r), ms_id r) of None \<Rightarrow> None
       | Some row \<Rightarrow> if n \<in> set (category_flags (subject_category r)) then boolean_of_number (row_cell row n) else row_cell row n)"
proof -
  have cat: "category_id (typeCategory (subject_category r)) = subject_category r"
    by (simp add: subject_category_def category_of_category)
  have n: "n \<noteq> ''record_id''" "n \<noteq> METADATA_DELETED_AT_COLUMN" using column_names_ok(2) [of r] assms(2) by auto
  have filt: "js_get (filter (\<lambda>(k, v). k \<noteq> ''record_id'' \<and> k \<noteq> METADATA_DELETED_AT_COLUMN) row) n = js_get row n" for row :: app_row
    using n by (induction row) auto
  have "row_cell (columnsToMetadataRow (subject_category r) row) n
      = (if n \<in> set (category_flags (subject_category r)) then boolean_of_number (row_cell row n) else row_cell row n)" for row
  proof -
    have map_get: "js_get (map (\<lambda>(name, c). (name, if name \<in> F then boolean_of_number c else c)) m) n
        = map_option (\<lambda>c. if n \<in> F then boolean_of_number c else c) (js_get m n)" for F and m :: app_row
      by (induction m) auto
    show ?thesis
      by (cases "js_get row n") (simp_all add: columnsToMetadataRow_def cat fromSqliteRow_def row_cell_def map_get filt)
  qed
  then show ?thesis
    by (cases "js_get store (sqliteMetadataTableName (ms_type r), ms_id r)")
      (simp_all add: held_cells_def getMetadata_def same_table [symmetric])
qed

lemma typed_column:
  assumes "typed_cells r f" "n \<in> set (column_names_of r)" "f n = Some v"
  shows "(if n \<in> set (category_flags (subject_category r)) then boolean_of_number (toSqliteParam (f n)) else toSqliteParam (f n)) = f n"
  using bspec [OF assms(1) [unfolded typed_cells_def] assms(2)] assms(3)
  by (cases v) (auto simp: boolean_of_number.simps)

text \<open>What one arriving snapshot leaves: the columns it names, and the rest as they were.\<close>

lemma apply_payload:
  assumes r: "carries_metadata r" and typed: "typed_cells r f" and w: "wire_columns (column_names_of r) f = Some w"
  obtains store' where
    "applyRecordMetadata d r (Some w) store
       = Inr (store', d \<and> (\<exists>n \<in> set (column_names_of r). held_cells store r n \<noteq> None \<and> f n = None))"
    "\<forall>n \<in> set (column_names_of r). held_cells store' r n = (case f n of Some v \<Rightarrow> Some v | None \<Rightarrow> held_cells store r n)"
proof -
  let ?names = "column_names_of r" and ?k = "(sqliteMetadataTableName (ms_type r), ms_id r)"
  note names = column_names_ok [of r] and sent = wire_columns_Some [OF w column_names_ok(1)]
  have known: "isKnownType (ms_type r)" "hasMetadataTable (subject_category r)" using r by (simp_all add: carries_metadata_def)
  have cols: "toWireColumns (subject_category r) w = Some w"
    by (simp add: toWireColumns_fn wire_columns_again [OF w names(1)])
  have "set (map fst w) \<inter> {''recordId'', METADATA_DISCRIMINANT_COLUMN, METADATA_DELETED_AT_COLUMN} = {}"
    using sent(4) names(2) by blast
  then obtain kvs where kvs: "metadataValues (ms_type r) w = Inr kvs"
    "\<And>n. js_get kvs n = (if n = METADATA_DISCRIMINANT_COLUMN then Some (Some (QText (ms_type r)))
        else if n = METADATA_DELETED_AT_COLUMN then Some None else js_get w n)" "js_wf kvs"
    using metadata_values [OF known(1) _ sent(3)] by blast
  have kvs_keys: "set (js_keys kvs) \<subseteq> set (table_columns (category_id (typeCategory (ms_type r))))"
  proof
    fix n assume "n \<in> set (js_keys kvs)"
    then have "js_get kvs n \<noteq> None" by (simp add: map_of_eq_None_iff)
    then have "n = METADATA_DISCRIMINANT_COLUMN \<or> n = METADATA_DELETED_AT_COLUMN \<or> n \<in> set (map fst w)"
      by (auto simp: kvs(2) dest: map_of_SomeD intro: rev_image_eqI split: if_splits)
    then show "n \<in> set (table_columns (category_id (typeCategory (ms_type r))))"
      using sent(4) by (auto simp: table_columns_def column_names_of_def subject_category_def)
  qed
  let ?old = "case js_get store ?k of None \<Rightarrow> [] | Some row \<Rightarrow> row"
  let ?row = "fold (\<lambda>(c, v). js_set c (toSqliteParam v)) kvs ?old"
  let ?store = "js_set ?k ?row store"
  have put: "putMetadata (ms_type r) (ms_id r) w store = Inr ?store"
    using kvs_keys by (simp add: putMetadata_def kvs(1) Let_def)
  have row: "row_cell ?row n = (case js_get w n of Some v \<Rightarrow> toSqliteParam v | None \<Rightarrow> row_cell ?old n)"
    if "n \<in> set ?names" for n
  proof -
    have "n \<noteq> METADATA_DISCRIMINANT_COLUMN" "n \<noteq> METADATA_DELETED_AT_COLUMN" using that names(2) by auto
    moreover have "map_of (rev kvs) = map_of kvs" using kvs(3) by (intro map_of_rev) (simp add: js_wf_def)
    ultimately show ?thesis by (simp add: row_cell_fold kvs(2))
  qed
  have cells: "held_cells ?store r n = (case f n of Some v \<Rightarrow> Some v | None \<Rightarrow> held_cells store r n)"
    if n: "n \<in> set ?names" for n
  proof (cases "f n")
    case None
    then have "js_get w n = None" using sent(2) [of n] by (cases "js_get w n") auto
    then have "row_cell ?row n = row_cell ?old n" by (simp add: row [OF n])
    moreover have "boolean_of_number (row_cell [] n) = None" by (simp add: row_cell_def)
    ultimately show ?thesis
      by (cases "js_get store ?k") (simp_all add: held_cells_row [OF r n] None row_cell_def)
  next
    case (Some v)
    then have "js_get w n = Some (f n)" using sent(1,2) [of n] n by (cases "js_get w n") (auto simp: row_cell_def)
    then have "row_cell ?row n = toSqliteParam (f n)" by (simp add: row [OF n])
    then show ?thesis using typed_column [OF typed n Some] Some by (simp add: held_cells_row [OF r n] split: if_splits)
  qed
  have owed: "(case getMetadata (subject_category r) (ms_id r) store of None \<Rightarrow> False
      | Some held \<Rightarrow> (case toWireColumns (subject_category r) held of None \<Rightarrow> False
          | Some mine \<Rightarrow> \<exists>name \<in> set (js_keys mine). \<not> js_has w name))
    \<longleftrightarrow> (\<exists>n \<in> set ?names. held_cells store r n \<noteq> None \<and> f n = None)"
  proof (cases "getMetadata (subject_category r) (ms_id r) store")
    case None
    then show ?thesis by (simp add: held_cells_def)
  next
    case (Some held)
    then have mine: "row_cell held = held_cells store r" by (simp add: held_cells_def fun_eq_iff)
    show ?thesis
    proof (cases "wire_columns ?names (held_cells store r)")
      case None
      then have "filter (\<lambda>n. held_cells store r n \<noteq> None) ?names = []"
        by (simp add: wire_columns_def Let_def split: if_splits)
      then show ?thesis using Some None by (auto simp: toWireColumns_fn mine filter_empty_conv)
    next
      case (Some m)
      have "set (js_keys m) = {n \<in> set ?names. held_cells store r n \<noteq> None}"
        using Some by (auto simp: wire_columns_def Let_def image_image split: if_splits)
      moreover have "getMetadata (subject_category r) (ms_id r) store = Some held" by fact
      ultimately show ?thesis using sent(2) by (auto simp: toWireColumns_fn mine Some)
    qed
  qed
  show ?thesis
  proof (rule that)
    show "\<forall>n \<in> set ?names. held_cells ?store r n = (case f n of Some v \<Rightarrow> Some v | None \<Rightarrow> held_cells store r n)"
      using cells by blast
    show "applyRecordMetadata d r (Some w) store
       = Inr (?store, d \<and> (\<exists>n \<in> set ?names. held_cells store r n \<noteq> None \<and> f n = None))"
      using owed
      by (simp only: applyRecordMetadata_def Let_def subject_category_def [symmetric] known(2) cols put
          not_True_eq_False if_False option.case sum.case not_not) simp
  qed
qed

section \<open>One answer settles\<close>


text \<open>Two nodes that each wrote another column of one photo.\<close>

definition photo_subject :: metadata_subject where
  "photo_subject = \<lparr>ms_id = ''r1'', ms_type = ''image/jpeg''\<rparr>"

definition photo_columns :: "string \<Rightarrow> cell \<Rightarrow> metadata_store" where
  "photo_columns n c = [((sqliteMetadataTableName ''image'', ''r1''),
     [(''record_id'', Some (QText ''r1'')), (METADATA_DISCRIMINANT_COLUMN, Some (QText ''image/jpeg'')),
      (METADATA_DELETED_AT_COLUMN, None), (n, c)])]"


end
