(* ===== verification/Exchange_Apply.thy ===== *)
theory Exchange_Apply
  imports Sync_Round Stand_In_Slots Metadata_Sync Labels "HOL-Library.Product_Lexorder"
begin

text \<open>
  What a round writes: the rows of one exchange applied to a node's tables, on both sides. The requester
  applies a response author by author, and a row that will not apply is left out of the round
  (\<open>packages/sync-engine/src/sync-engine.ts\<close>, the inbound loop of \<open>exchange\<close>). The responder applies a
  request stream by stream, and a record that will not apply aborts the exchange
  (\<open>transports/in-process-transport.ts\<close>, steps 1 to 2b of \<open>exchange\<close>).

  A result carries the node as far as it got, so that what a throw leaves behind is part of it. The
  physical clock is read several times; the \<open>k\<close>-th reading while the \<open>i\<close>-th row applies is \<open>clocks i k\<close>.
  Change notifications and the callbacks after an apply are left out.

  The lemmas show that applying keeps the tables sound and never takes a version back, that what a
  round reports as safe is held, and that nodes which exchange their labels end with the same ones.
\<close>

section \<open>State\<close>

record shared_node =
  nd_records :: record_table
  nd_labels :: label_table
  nd_metadata :: metadata_store
  nd_apps :: app_database
  nd_clock :: clock_state

text \<open>The node's id, the query codec of its adapter, and its app namespaces when it has any.\<close>

record node_config =
  nc_node :: string
  nc_codec :: cursor_codec
  nc_env :: record_env
  nc_namespaces :: "namespace_store option"

text \<open>A record on the wire, with its metadata passenger.\<close>

type_synonym synced_record = "data_record \<times> app_row option"

datatype exchange_error =
    RecordRefused store_error
  | MetadataRefused metadata_error
  | LabelUnreadable js_error
  | AppRowRefused apply_error
  | NoAppSource

text \<open>A row that applied, one left out of the round, and a throw that ends the exchange.\<close>

datatype item_outcome = ItemApplied | ItemBroken exchange_error | ExchangeAborted exchange_error

definition subject_of :: "data_record \<Rightarrow> metadata_subject" where
  "subject_of r = \<lparr>ms_id = rec_id r, ms_type = rec_type r\<rparr>"

definition receive_stamp :: "node_config \<Rightarrow> nat \<Rightarrow> hlc \<Rightarrow> shared_node \<Rightarrow> shared_node" where
  "receive_stamp cfg p t n = n\<lparr>nd_clock := snd (clock_receive (nc_node cfg) p t (nd_clock n))\<rparr>"

definition fresh_stamp :: "node_config \<Rightarrow> nat \<Rightarrow> shared_node \<Rightarrow> hlc \<times> shared_node" where
  "fresh_stamp cfg p n = (let (t, c) = clock_now (nc_node cfg) p (nd_clock n) in (t, n\<lparr>nd_clock := c\<rparr>))"

definition put_in :: "data_record \<Rightarrow> shared_node \<Rightarrow> shared_node \<times> exchange_error option" where
  "put_in r n = (case put_record r (nd_records n) of
       Inl e \<Rightarrow> (n, Some (RecordRefused e)) | Inr table \<Rightarrow> (n\<lparr>nd_records := table\<rparr>, None))"

section \<open>What both sides share\<close>

text \<open>\<open>current !== null && compareHLC(current.updatedAt, snapshot.updatedAt) >= 0\<close>.\<close>

definition row_already_applied :: "data_record option \<Rightarrow> data_record \<Rightarrow> bool" where
  "row_already_applied current snapshot =
     (case current of None \<Rightarrow> False | Some c \<Rightarrow> compareHLC (updatedAt c) (updatedAt snapshot) \<ge> 0)"

text \<open>The metadata of a record follows the row this side holds in the end.\<close>

definition metadata_cascade :: "data_record option \<Rightarrow> data_record \<Rightarrow> metadata_store \<Rightarrow> metadata_store" where
  "metadata_cascade current kept store =
     (case deletedAt kept of
        Some d \<Rightarrow> deleteRecordMetadata (subject_of kept) d store
      | None \<Rightarrow> if (case current of Some c \<Rightarrow> deletedAt c \<noteq> None | None \<Rightarrow> False)
                then restoreRecordMetadata (subject_of kept) store else store)"

text \<open>A label by last writer wins on its own row; the snapshot is written whole, tombstone included.\<close>

definition label_at :: "label_pk \<Rightarrow> label_table \<Rightarrow> js_error + shared_label option" where
  "label_at pk t = (case getLabel pk t of None \<Rightarrow> Inr None | Some r \<Rightarrow> map_sum id Some (rowToLabel r))"

definition key_of_label :: "shared_label \<Rightarrow> label_pk" where
  "key_of_label l = (sl_recordId l, sl_appId l, sl_key l, sl_value l)"

definition label_is_newer :: "shared_label option \<Rightarrow> shared_label \<Rightarrow> bool" where
  "label_is_newer current incoming =
     (case current of None \<Rightarrow> True | Some c \<Rightarrow> compareHLC (sl_updatedAt c) (sl_updatedAt incoming) < 0)"

definition apply_label :: "node_config \<Rightarrow> (nat \<Rightarrow> nat) \<Rightarrow> shared_label \<Rightarrow> shared_node \<Rightarrow> shared_node \<times> exchange_error option" where
  "apply_label cfg clock incoming n =
     (case label_at (key_of_label incoming) (nd_labels n) of
        Inl e \<Rightarrow> (n, Some (LabelUnreadable e))
      | Inr current \<Rightarrow>
          if label_is_newer current incoming
          then ((receive_stamp cfg (clock 0) (sl_updatedAt incoming) n)\<lparr>nd_labels := putLabel incoming (nd_labels n)\<rparr>, None)
          else (n, None))"

section \<open>The requester\<close>

text \<open>The row of a record: a local holder of its slot yields first, then the snapshot is put.\<close>

definition requester_row :: "node_config \<Rightarrow> (nat \<Rightarrow> nat) \<Rightarrow> data_record \<Rightarrow> shared_node \<Rightarrow> shared_node \<times> exchange_error option" where
  "requester_row cfg clock snapshot n =
     (let n = receive_stamp cfg (clock 0) (updatedAt snapshot) n
      in if deletedAt snapshot \<noteq> None then put_in snapshot n
         else case yieldSlotToIncoming (nc_codec cfg) (nc_env cfg) (nd_records n) snapshot (nc_node cfg) (clock 1) (nd_clock n) of
                Inl e \<Rightarrow> (n, Some (RecordRefused e))
              | Inr (table, loser, clock') \<Rightarrow> put_in snapshot (n\<lparr>nd_records := table, nd_clock := clock'\<rparr>))"

text \<open>The metadata of a record, and the re-stamp that sends a merged row back.\<close>

definition requester_metadata ::
    "node_config \<Rightarrow> (nat \<Rightarrow> nat) \<Rightarrow> data_record option \<Rightarrow> data_record \<Rightarrow> data_record \<Rightarrow> app_row option \<Rightarrow> shared_node
      \<Rightarrow> shared_node \<times> exchange_error option" where
  "requester_metadata cfg clock current kept snapshot metadata n =
     (let n = n\<lparr>nd_metadata := metadata_cascade current kept (nd_metadata n)\<rparr>
      in if deletedAt kept \<noteq> None \<or> metadata = None then (n, None)
         else case applyRecordMetadata (current \<noteq> None) (subject_of snapshot) metadata (nd_metadata n) of
                Inl e \<Rightarrow> (n, Some (MetadataRefused e))
              | Inr (store, owedBack) \<Rightarrow>
                  (let n = n\<lparr>nd_metadata := store\<rparr>
                   in if \<not> owedBack then (n, None)
                      else let (t, n) = fresh_stamp cfg (clock 2) n in put_in (kept\<lparr>updatedAt := t\<rparr>) n))"

definition requester_record :: "node_config \<Rightarrow> (nat \<Rightarrow> nat) \<Rightarrow> synced_record \<Rightarrow> shared_node \<Rightarrow> shared_node \<times> item_outcome" where
  "requester_record cfg clock item n =
     (let (snapshot, metadata) = item
      in case get_record (rec_id snapshot) (nd_records n) of
           Inl e \<Rightarrow> (n, ExchangeAborted (RecordRefused e))
         | Inr current \<Rightarrow>
             (let applied = row_already_applied current snapshot;
                  kept = (case current of Some c \<Rightarrow> if applied then c else snapshot | None \<Rightarrow> snapshot)
              in case (if applied then (n, None) else requester_row cfg clock snapshot n) of
                   (n, Some e) \<Rightarrow> (n, ItemBroken e)
                 | (n, None) \<Rightarrow>
                     (case requester_metadata cfg clock current kept snapshot metadata n of
                        (n, Some e) \<Rightarrow> (n, ItemBroken e) | (n, None) \<Rightarrow> (n, ItemApplied))))"

datatype inbound_item = InRecord synced_record | InLabel shared_label | InAppRow wire_entry

fun inbound_hlc :: "inbound_item \<Rightarrow> hlc" where
  "inbound_hlc (InRecord r) = updatedAt (fst r)"
| "inbound_hlc (InLabel l) = sl_updatedAt l"
| "inbound_hlc (InAppRow e) = we_timestamp e"

fun requester_item :: "node_config \<Rightarrow> (nat \<Rightarrow> nat) \<Rightarrow> inbound_item \<Rightarrow> shared_node \<Rightarrow> shared_node \<times> item_outcome" where
  "requester_item cfg clock (InRecord r) n = requester_record cfg clock r n"
| "requester_item cfg clock (InLabel l) n =
     (case apply_label cfg clock l n of (n, Some e) \<Rightarrow> (n, ExchangeAborted e) | (n, None) \<Rightarrow> (n, ItemApplied))"
| "requester_item cfg clock (InAppRow e) n =
     (case nc_namespaces cfg of
        None \<Rightarrow> (n, ItemBroken NoAppSource)
      | Some ns \<Rightarrow>
          (let n = receive_stamp cfg (clock 0) (we_timestamp e) n
           in case apply_entry ns e (nd_apps n) of
                Inl x \<Rightarrow> (n, ItemBroken (AppRowRefused x)) | Inr db \<Rightarrow> (n\<lparr>nd_apps := db\<rparr>, ItemApplied)))"

text \<open>One author's rows in order: the node, which rows applied, and the throw that ended it.\<close>

fun requester_items :: "node_config \<Rightarrow> (nat \<Rightarrow> nat \<Rightarrow> nat) \<Rightarrow> nat \<Rightarrow> inbound_item list \<Rightarrow> shared_node
    \<Rightarrow> shared_node \<times> bool list \<times> exchange_error option" where
  "requester_items cfg clocks i [] n = (n, [], None)"
| "requester_items cfg clocks i (item # items) n =
     (case requester_item cfg (clocks i) item n of
        (n, ExchangeAborted e) \<Rightarrow> (n, [], Some e)
      | (n, outcome) \<Rightarrow>
          (case requester_items cfg clocks (i + 1) items n of
             (n, flags, err) \<Rightarrow> (n, (outcome = ItemApplied) # flags, err)))"

type_synonym applied_run = "string \<times> inbound_item list \<times> bool list"

fun requester_groups :: "node_config \<Rightarrow> (nat \<Rightarrow> nat \<Rightarrow> nat) \<Rightarrow> nat \<Rightarrow> (string, inbound_item list) js_map \<Rightarrow> shared_node
    \<Rightarrow> shared_node \<times> applied_run list \<times> exchange_error option" where
  "requester_groups cfg clocks i [] n = (n, [], None)"
| "requester_groups cfg clocks i ((author, items) # groups) n =
     (case requester_items cfg clocks i items n of
        (n, flags, Some e) \<Rightarrow> (n, [], Some e)
      | (n, flags, None) \<Rightarrow>
          (case requester_groups cfg clocks (i + length items) groups n of
             (n, runs, err) \<Rightarrow> (n, (author, items, flags) # runs, err)))"

text \<open>\<open>stop > 0 ? inboundItemHlc(items[stop - 1])\<close>: how far an author's own watermark may move.\<close>

definition safe_advance :: "applied_run \<Rightarrow> hlc option" where
  "safe_advance run =
     (case run of (author, items, flags) \<Rightarrow>
        let stop = length (takeWhile id flags) in if stop > 0 then Some (inbound_hlc (items ! (stop - 1))) else None)"

definition requester_inbound ::
    "node_config \<Rightarrow> (nat \<Rightarrow> nat \<Rightarrow> nat) \<Rightarrow> bool \<Rightarrow> synced_record list \<Rightarrow> shared_label list \<Rightarrow> wire_entry list \<Rightarrow> shared_node
      \<Rightarrow> shared_node \<times> applied_run list \<times> exchange_error option" where
  "requester_inbound cfg clocks syncSharedRecords records_in labels_in rows_in n =
     requester_groups cfg clocks 0
       (groupInboundByNodeId inbound_hlc
          ((if syncSharedRecords then map InRecord records_in @ map InLabel labels_in else []) @ map InAppRow rows_in)) n"

section \<open>The responder\<close>

text \<open>One author's app rows in order, up to the first that will not apply; the flag says it halted.\<close>

fun responder_app_run :: "node_config \<Rightarrow> (nat \<Rightarrow> nat \<Rightarrow> nat) \<Rightarrow> nat \<Rightarrow> wire_entry list \<Rightarrow> shared_node \<Rightarrow> shared_node \<times> bool" where
  "responder_app_run cfg clocks i [] n = (n, False)"
| "responder_app_run cfg clocks i (e # es) n =
     (case nc_namespaces cfg of
        None \<Rightarrow> (n, True)
      | Some ns \<Rightarrow>
          if js_get ns (we_appId e) = None then (n, True)
          else let n = receive_stamp cfg (clocks i 0) (we_timestamp e) n
               in case apply_entry ns e (nd_apps n) of
                    Inl x \<Rightarrow> (n, True)
                  | Inr db \<Rightarrow> responder_app_run cfg clocks (i + 1) es (n\<lparr>nd_apps := db\<rparr>))"

fun responder_app_groups :: "node_config \<Rightarrow> (nat \<Rightarrow> nat \<Rightarrow> nat) \<Rightarrow> nat \<Rightarrow> (string, wire_entry list) js_map \<Rightarrow> shared_node
    \<Rightarrow> shared_node \<times> string list" where
  "responder_app_groups cfg clocks i [] n = (n, [])"
| "responder_app_groups cfg clocks i ((author, entries) # groups) n =
     (case responder_app_run cfg clocks i entries n of
        (n, halted) \<Rightarrow>
          (case responder_app_groups cfg clocks (i + length entries) groups n of
             (n, authors) \<Rightarrow> (n, if halted then author # authors else authors)))"

definition responder_app_rows :: "node_config \<Rightarrow> (nat \<Rightarrow> nat \<Rightarrow> nat) \<Rightarrow> wire_entry list \<Rightarrow> shared_node \<Rightarrow> shared_node \<times> string list" where
  "responder_app_rows cfg clocks entries n = responder_app_groups cfg clocks 0 (groupInboundByNodeId we_timestamp entries) n"

text \<open>
  The row stored for an incoming record: refused tombstones go back out as the live row under this
  side's clock, a stand-in whose slot is held becomes this side's tombstone. \<open>keep\<close> is the callback
  \<open>keepLiveOnTombstone\<close>.
\<close>

definition responder_row :: "node_config \<Rightarrow> (data_record \<Rightarrow> data_record \<Rightarrow> bool) \<Rightarrow> (nat \<Rightarrow> nat) \<Rightarrow> data_record option \<Rightarrow> data_record
    \<Rightarrow> shared_node \<Rightarrow> shared_node \<times> (exchange_error + data_record)" where
  "responder_row cfg keep clock current snapshot n =
     (let n = receive_stamp cfg (clock 0) (updatedAt snapshot) n
      in case (if deletedAt snapshot \<noteq> None then current else None) of
           Some c \<Rightarrow>
             if deletedAt c = None \<and> keep c snapshot
             then let (t, n) = fresh_stamp cfg (clock 1) n in (n, Inr (c\<lparr>updatedAt := t, rec_version := rec_version c + 1\<rparr>))
             else (n, Inr snapshot)
         | None \<Rightarrow>
             if deletedAt snapshot \<noteq> None then (n, Inr snapshot)
             else case admitIncomingStandIn (nc_codec cfg) (nc_env cfg) (nd_records n) snapshot (nc_node cfg) (clock 1) (nd_clock n) of
                    Inl e \<Rightarrow> (n, Inl (RecordRefused e))
                  | Inr (row, lostTo, clock') \<Rightarrow> (n\<lparr>nd_clock := clock'\<rparr>, Inr row))"

definition responder_metadata ::
    "data_record option \<Rightarrow> data_record \<Rightarrow> data_record \<Rightarrow> app_row option \<Rightarrow> shared_node \<Rightarrow> shared_node \<times> exchange_error option" where
  "responder_metadata current kept snapshot metadata n =
     (let n = n\<lparr>nd_metadata := metadata_cascade current kept (nd_metadata n)\<rparr>
      in if deletedAt kept \<noteq> None \<or> metadata = None then (n, None)
         else case applyRecordMetadata False (subject_of snapshot) metadata (nd_metadata n) of
                Inl e \<Rightarrow> (n, Some (MetadataRefused e))
              | Inr (store, _) \<Rightarrow> (n\<lparr>nd_metadata := store\<rparr>, None))"

definition responder_record :: "node_config \<Rightarrow> (data_record \<Rightarrow> data_record \<Rightarrow> bool) \<Rightarrow> (nat \<Rightarrow> nat) \<Rightarrow> synced_record \<Rightarrow> shared_node
    \<Rightarrow> shared_node \<times> exchange_error option" where
  "responder_record cfg keep clock item n =
     (let (snapshot, metadata) = item
      in case get_record (rec_id snapshot) (nd_records n) of
           Inl e \<Rightarrow> (n, Some (RecordRefused e))
         | Inr current \<Rightarrow>
             (case (if row_already_applied current snapshot then (n, Inr (case current of Some c \<Rightarrow> c | None \<Rightarrow> snapshot))
                    else case responder_row cfg keep clock current snapshot n of
                           (n, Inl e) \<Rightarrow> (n, Inl e)
                         | (n, Inr row) \<Rightarrow> (case put_in row n of (n, Some e) \<Rightarrow> (n, Inl e) | (n, None) \<Rightarrow> (n, Inr row))) of
                (n, Inl e) \<Rightarrow> (n, Some e)
              | (n, Inr kept) \<Rightarrow> responder_metadata current kept snapshot metadata n))"

text \<open>The records of a request by author, in timestamp order; a halted author's are passed over.\<close>

definition authored_order :: "synced_record \<Rightarrow> synced_record \<Rightarrow> int" where
  "authored_order a b =
     (let x = updatedAt (fst a); y = updatedAt (fst b)
      in if nodeId x \<noteq> nodeId y then (if nodeId x < nodeId y then -1 else 1) else compareHLC x y)"

fun responder_records :: "node_config \<Rightarrow> (data_record \<Rightarrow> data_record \<Rightarrow> bool) \<Rightarrow> (nat \<Rightarrow> nat \<Rightarrow> nat) \<Rightarrow> string list \<Rightarrow> nat
    \<Rightarrow> synced_record list \<Rightarrow> shared_node \<Rightarrow> shared_node \<times> exchange_error option" where
  "responder_records cfg keep clocks halted i [] n = (n, None)"
| "responder_records cfg keep clocks halted i (r # rs) n =
     (if nodeId (updatedAt (fst r)) \<in> set halted then responder_records cfg keep clocks halted (i + 1) rs n
      else case responder_record cfg keep (clocks i) r n of
             (n, Some e) \<Rightarrow> (n, Some e)
           | (n, None) \<Rightarrow> responder_records cfg keep clocks halted (i + 1) rs n)"

fun responder_labels :: "node_config \<Rightarrow> (nat \<Rightarrow> nat \<Rightarrow> nat) \<Rightarrow> string list \<Rightarrow> nat \<Rightarrow> shared_label list \<Rightarrow> shared_node
    \<Rightarrow> shared_node \<times> exchange_error option" where
  "responder_labels cfg clocks halted i [] n = (n, None)"
| "responder_labels cfg clocks halted i (l # ls) n =
     (if nodeId (sl_updatedAt l) \<in> set halted then responder_labels cfg clocks halted (i + 1) ls n
      else case apply_label cfg (clocks i) l n of
             (n, Some e) \<Rightarrow> (n, Some e)
           | (n, None) \<Rightarrow> responder_labels cfg clocks halted (i + 1) ls n)"

text \<open>What a request brings.\<close>

record inbound_request =
  rq_records :: "synced_record list"
  rq_labels :: "shared_label list"
  rq_appRows :: "wire_entry list"

text \<open>The node after the applies, the halted authors, and the throw that aborts the exchange.\<close>

definition responder_apply :: "node_config \<Rightarrow> (data_record \<Rightarrow> data_record \<Rightarrow> bool) \<Rightarrow> (nat \<Rightarrow> nat \<Rightarrow> nat) \<Rightarrow> bool \<Rightarrow> inbound_request
    \<Rightarrow> shared_node \<Rightarrow> shared_node \<times> string list \<times> exchange_error option" where
  "responder_apply cfg keep clocks syncSharedRecords rq n =
     (case responder_app_rows cfg clocks (rq_appRows rq) n of
        (n, halted) \<Rightarrow>
          if \<not> syncSharedRecords then (n, halted, None)
          else let i = length (rq_appRows rq)
               in case responder_records cfg keep clocks halted i (js_sort authored_order (rq_records rq)) n of
                    (n, Some e) \<Rightarrow> (n, halted, Some e)
                  | (n, None) \<Rightarrow>
                      (case responder_labels cfg clocks halted (i + length (rq_records rq)) (rq_labels rq) n of
                         (n, err) \<Rightarrow> (n, halted, err)))"

text \<open>The coverage a responder reports of its shared tables, in step 5: both tables' watermarks, merged.\<close>

definition shared_coverage :: "data_record list \<Rightarrow> shared_label list \<Rightarrow> watermarks" where
  "shared_coverage rs ls =
     fold (\<lambda>kv w. advanceWatermark w (snd kv)) (buildNodeWatermarks updatedAt rs @ buildNodeWatermarks sl_updatedAt ls) []"

section \<open>What a node holds\<close>

definition record_held :: "shared_node \<Rightarrow> string \<Rightarrow> data_record option" where
  "record_held n rid = (case get_record rid (nd_records n) of Inr (Some r) \<Rightarrow> Some r | _ \<Rightarrow> None)"

definition label_held :: "label_table \<Rightarrow> label_pk \<Rightarrow> shared_label option" where
  "label_held t pk = (case label_at pk t of Inr (Some l) \<Rightarrow> Some l | _ \<Rightarrow> None)"

text \<open>A shared row that came in is settled when this version of it, or a newer one, is held.\<close>

definition record_settled :: "shared_node \<Rightarrow> data_record \<Rightarrow> bool" where
  "record_settled n r \<longleftrightarrow> (\<exists>h. record_held n (rec_id r) = Some h \<and> updatedAt r \<le> updatedAt h)"

definition label_settled :: "shared_node \<Rightarrow> shared_label \<Rightarrow> bool" where
  "label_settled n l \<longleftrightarrow> (\<exists>h. label_held (nd_labels n) (key_of_label l) = Some h \<and> sl_updatedAt l \<le> sl_updatedAt h)"

text \<open>No version held before is gone or replaced by an older one.\<close>

definition never_back :: "shared_node \<Rightarrow> shared_node \<Rightarrow> bool" where
  "never_back n n' \<longleftrightarrow>
     (\<forall>rid r. record_held n rid = Some r \<longrightarrow> (\<exists>r'. record_held n' rid = Some r' \<and> updatedAt r \<le> updatedAt r'))
     \<and> (\<forall>k l. label_held (nd_labels n) k = Some l \<longrightarrow> (\<exists>l'. label_held (nd_labels n') k = Some l' \<and> sl_updatedAt l \<le> sl_updatedAt l'))"

text \<open>A label whose row reads back.\<close>

definition label_storable :: "shared_label \<Rightarrow> bool" where
  "label_storable l \<longleftrightarrow>
     list_all (\<lambda>t. CHR '':'' \<notin> set (nodeId t)) ([sl_createdAt l, sl_updatedAt l] @ (case sl_deletedAt l of None \<Rightarrow> [] | Some t \<Rightarrow> [t]))
     \<and> sl_nodeId l = nodeId (sl_updatedAt l)"

definition labels_intact :: "label_table \<Rightarrow> bool" where
  "labels_intact t \<longleftrightarrow> (\<exists>ls. t = map labelToRow ls \<and> distinct (map key_of_label ls) \<and> list_all label_storable ls)"

definition clock_above :: "node_config \<Rightarrow> clock_state \<Rightarrow> data_record list \<Rightarrow> bool" where
  "clock_above cfg c rs \<longleftrightarrow> (\<forall>r \<in> set rs. updatedAt r \<le> clock_emit (nc_node cfg) c)"

text \<open>A sound node: its tables read back and keep their indexes, and its clock is at or above every record.\<close>

definition node_sound :: "node_config \<Rightarrow> shared_node \<Rightarrow> bool" where
  "node_sound cfg n \<longleftrightarrow> CHR '':'' \<notin> set (nc_node cfg) \<and> labels_intact (nd_labels n)
     \<and> (\<exists>rs. nd_records n = map recordToRow rs \<and> slot_table rs \<and> clock_above cfg (nd_clock n) rs)"

section \<open>Tables and clocks\<close>

lemma find_row: "list_all storable rs \<Longrightarrow> get_record rid (map recordToRow rs) = Inr (find (\<lambda>r. rec_id r = rid) rs)"
  by (induction rs) (auto simp: get_record_def rowToRecord_recordToRow)

lemma record_held_find:
  "nd_records n = map recordToRow rs \<Longrightarrow> slot_table rs \<Longrightarrow> record_held n rid = find (\<lambda>r. rec_id r = rid) rs"
  by (simp add: record_held_def slot_table_def find_row split: option.split)

lemma find_store: "find (\<lambda>x. rec_id x = rid) (store_record r rs) = (if rid = rec_id r then Some r else find (\<lambda>x. rec_id x = rid) rs)"
proof (cases "rec_id r \<in> rec_id ` set rs")
  case True
  have "find (\<lambda>x. rec_id x = rid) (map (\<lambda>x. if rec_id x = rec_id r then r else x) xs)
      = (if rid = rec_id r \<and> rec_id r \<in> rec_id ` set xs then Some r else find (\<lambda>x. rec_id x = rid) xs)" for xs
    by (induction xs) auto
  then show ?thesis using True by (simp add: store_record_def)
next
  case False
  have "find P (xs @ [r]) = (case find P xs of Some y \<Rightarrow> Some y | None \<Rightarrow> if P r then Some r else None)" for P and xs :: "data_record list"
    by (induction xs) auto
  moreover have "find (\<lambda>x. rec_id x = rec_id r) rs = None" using False by (auto simp: find_None_iff) (metis rev_image_eqI)
  ultimately show ?thesis using False by (auto simp: store_record_def split: option.split)
qed

lemma put_stores:
  assumes "slot_table rs" "storable r" "put_record r (map recordToRow rs) = Inr table"
  shows "table = map recordToRow (store_record r rs)" "slot_table (store_record r rs)"
proof -
  show table: "table = map recordToRow (store_record r rs)"
    using run_operation_records [of "BatchPut r" rs table] assms(3) by (simp add: run_operation_def store_operation_def)
  have "table_ok table" using table_ok_put [OF assms(3)] assms(1) by (simp add: slot_table_def)
  moreover have "list_all storable (store_record r rs)"
    using assms(1,2) by (auto simp: slot_table_def store_record_def list_all_iff)
  ultimately show "slot_table (store_record r rs)" by (simp add: slot_table_def table)
qed

lemma set_store_record: "set (store_record r rs) \<subseteq> insert r (set rs)"
  by (auto simp: store_record_def)

lemma clock_now_above: "clock_now node p c = (t, c') \<Longrightarrow> clock_emit node c < t \<and> t = clock_emit node c' \<and> nodeId t = node"
  using clock_step_advances [of node "Now p" c] clock_step_emits [of node "Now p" c] by (auto simp: clock_emit_def)

lemma receive_above:
  assumes "clock_receive node p r c = (t, c')"
  shows "clock_emit node c < clock_emit node c'" "r < clock_emit node c'"
  using clock_step_advances [of node "Receive p r" c] clock_step_emits [of node "Receive p r" c] clock_receive_above_remote [OF assms] assms
  by auto

lemma never_back_refl [intro, simp]: "never_back n n"
  by (simp add: never_back_def)

lemma never_back_trans: "never_back a b \<Longrightarrow> never_back b c \<Longrightarrow> never_back a c"
  unfolding never_back_def by (meson order_trans)

lemma never_back_same:
  "nd_records n' = nd_records n \<Longrightarrow> nd_labels n' = nd_labels n \<Longrightarrow> never_back m n' = never_back m n"
  "nd_records n' = nd_records n \<Longrightarrow> nd_labels n' = nd_labels n \<Longrightarrow> never_back n' m = never_back n m"
  "nd_records n' = nd_records n \<Longrightarrow> record_held n' rid = record_held n rid"
  by (simp_all add: never_back_def record_held_def)

lemma settled_kept:
  "never_back n n' \<Longrightarrow> record_settled n r \<Longrightarrow> record_settled n' r" "never_back n n' \<Longrightarrow> label_settled n l \<Longrightarrow> label_settled n' l"
  unfolding never_back_def record_settled_def label_settled_def by (meson order_trans)+

lemma clock_above_mono: "clock_above cfg c rs \<Longrightarrow> clock_emit (nc_node cfg) c \<le> clock_emit (nc_node cfg) c' \<Longrightarrow> clock_above cfg c' rs"
  unfolding clock_above_def by (meson order_trans)

text \<open>A node whose clock only moved on, or whose metadata or app tables changed, is as sound as before.\<close>

lemma sound_cong:
  assumes "node_sound cfg n" "nd_records n' = nd_records n" "nd_labels n' = nd_labels n"
    and "clock_emit (nc_node cfg) (nd_clock n) \<le> clock_emit (nc_node cfg) (nd_clock n')"
  shows "node_sound cfg n'"
  using assms clock_above_mono unfolding node_sound_def by metis

lemma put_in_step:
  assumes sound: "node_sound cfg n" and r: "storable r" "updatedAt r \<le> clock_emit (nc_node cfg) (nd_clock n)"
    and newer: "\<And>h. record_held n (rec_id r) = Some h \<Longrightarrow> updatedAt h \<le> updatedAt r"
    and put: "put_in r n = (n', err)"
  shows "node_sound cfg n' \<and> never_back n n' \<and> nd_clock n' = nd_clock n \<and> (err = None \<longrightarrow> (\<forall>rid. record_held n' rid = (if rid = rec_id r then Some r else record_held n rid)))"
proof (cases "put_record r (nd_records n)")
  case (Inl e)
  then show ?thesis using put sound by (auto simp: put_in_def)
next
  case (Inr table)
  obtain rs where rs: "nd_records n = map recordToRow rs" "slot_table rs" "clock_above cfg (nd_clock n) rs"
    using sound by (auto simp: node_sound_def)
  have n': "n' = n\<lparr>nd_records := table\<rparr>" "err = None" using put Inr by (simp_all add: put_in_def)
  note stored = put_stores [OF rs(2) r(1) Inr [unfolded rs(1)]]
  have "clock_above cfg (nd_clock n) (store_record r rs)"
    using rs(3) r(2) set_store_record [of r rs] unfolding clock_above_def by blast
  then have "node_sound cfg n'" using sound stored by (auto simp: node_sound_def n')
  moreover have held: "record_held n' rid = (if rid = rec_id r then Some r else record_held n rid)" for rid
    using record_held_find [of n' "store_record r rs"] record_held_find [OF rs(1,2)] stored by (simp add: n' find_store)
  moreover have "never_back n n'"
    using newer unfolding never_back_def held by (auto simp: n'(1))
  ultimately show ?thesis unfolding n' by simp
qed

lemma receive_step:
  assumes "node_sound cfg n"
  shows "node_sound cfg (receive_stamp cfg p t n)" "t < clock_emit (nc_node cfg) (nd_clock (receive_stamp cfg p t n))"
    "nd_records (receive_stamp cfg p t n) = nd_records n" "nd_labels (receive_stamp cfg p t n) = nd_labels n"
proof -
  obtain x c where c: "clock_receive (nc_node cfg) p t (nd_clock n) = (x, c)" by fastforce
  note above = receive_above [OF c]
  show "nd_records (receive_stamp cfg p t n) = nd_records n" "nd_labels (receive_stamp cfg p t n) = nd_labels n"
    by (simp_all add: receive_stamp_def)
  show "t < clock_emit (nc_node cfg) (nd_clock (receive_stamp cfg p t n))" using above(2) by (simp add: receive_stamp_def c)
  show "node_sound cfg (receive_stamp cfg p t n)"
    using above(1) by (intro sound_cong [OF assms]) (simp_all add: receive_stamp_def c)
qed

lemma fresh_step:
  assumes "node_sound cfg n" "fresh_stamp cfg p n = (t, n')"
  shows "node_sound cfg n'" "clock_emit (nc_node cfg) (nd_clock n) < t" "t = clock_emit (nc_node cfg) (nd_clock n')"
    "nodeId t = nc_node cfg" "nd_records n' = nd_records n" "nd_labels n' = nd_labels n"
proof -
  obtain x c where c: "clock_now (nc_node cfg) p (nd_clock n) = (x, c)" by fastforce
  have n': "t = x" "n' = n\<lparr>nd_clock := c\<rparr>" using assms(2) by (simp_all add: fresh_stamp_def c)
  have above: "clock_emit (nc_node cfg) (nd_clock n) < x" "x = clock_emit (nc_node cfg) c" "nodeId x = nc_node cfg"
    using clock_now_above [OF c] by blast+
  show "node_sound cfg n'" using above by (intro sound_cong [OF assms(1)]) (simp_all add: n')
  show "clock_emit (nc_node cfg) (nd_clock n) < t" "t = clock_emit (nc_node cfg) (nd_clock n')" "nodeId t = nc_node cfg"
    "nd_records n' = nd_records n" "nd_labels n' = nd_labels n"
    using above by (simp_all add: n')
qed

lemma held_below:
  assumes "node_sound cfg n" "record_held n rid = Some h"
  shows "updatedAt h \<le> clock_emit (nc_node cfg) (nd_clock n)" "storable h" "rec_id h = rid"
proof -
  obtain rs where rs: "nd_records n = map recordToRow rs" "slot_table rs" "clock_above cfg (nd_clock n) rs"
    using assms(1) by (auto simp: node_sound_def)
  have "h \<in> set rs \<and> rec_id h = rid" using assms(2) unfolding record_held_find [OF rs(1,2)] by (auto simp: find_Some_iff)
  then show "updatedAt h \<le> clock_emit (nc_node cfg) (nd_clock n)" "storable h" "rec_id h = rid"
    using rs(2,3) by (auto simp: clock_above_def slot_table_def list_all_iff)
qed

lemma tombstone_fields:
  assumes "tombstoneOf node p r c = (row, c')"
  shows "clock_emit node c < updatedAt row" "updatedAt row = clock_emit node c'" "rec_id row = rec_id r"
    "storable r \<Longrightarrow> CHR '':'' \<notin> set node \<Longrightarrow> storable row"
proof -
  obtain t x where t: "clock_now node p c = (t, x)" by fastforce
  have row: "row = r\<lparr>deletedAt := Some t, updatedAt := t, rec_version := rec_version r + 1\<rparr>" "c' = x"
    using assms by (simp_all add: tombstoneOf_def t)
  show "clock_emit node c < updatedAt row" "updatedAt row = clock_emit node c'" "rec_id row = rec_id r"
    using clock_now_above [OF t] by (auto simp: row)
  show "storable r \<Longrightarrow> CHR '':'' \<notin> set node \<Longrightarrow> storable row"
    using clock_now_above [OF t] by (auto simp: row storable_def split: option.splits)
qed

text \<open>The local holder of a slot yields under a fresh stamp of this node.\<close>

lemma yield_step:
  assumes sound: "node_sound cfg n"
    and yield: "yieldSlotToIncoming (nc_codec cfg) (nc_env cfg) (nd_records n) s (nc_node cfg) p (nd_clock n) = Inr (table, loser, c')"
    and n': "n' = n\<lparr>nd_records := table, nd_clock := c'\<rparr>"
  shows "node_sound cfg n'" "never_back n n'" "clock_emit (nc_node cfg) (nd_clock n) \<le> clock_emit (nc_node cfg) (nd_clock n')"
    "record_held n' (rec_id s) = record_held n (rec_id s)"
proof -
  obtain rs where rs: "nd_records n = map recordToRow rs" "slot_table rs" "clock_above cfg (nd_clock n) rs"
    using sound by (auto simp: node_sound_def)
  obtain occupant where occ: "slotOccupant (nc_codec cfg) (nc_env cfg) (nd_records n) s = Inr occupant"
      and found: "case occupant of None \<Rightarrow> True | Some other \<Rightarrow> other \<in> set rs \<and> rec_id other \<noteq> rec_id s"
    using slotOccupant_finds [OF rs(2), of "nc_codec cfg" "nc_env cfg" s] unfolding rs(1) by (auto split: option.splits)
  have "node_sound cfg n' \<and> never_back n n' \<and> clock_emit (nc_node cfg) (nd_clock n) \<le> clock_emit (nc_node cfg) (nd_clock n')
    \<and> record_held n' (rec_id s) = record_held n (rec_id s)"
  proof (cases occupant)
    case None
    then have "n' = n" using yield occ by (simp add: yieldSlotToIncoming_def n')
    then show ?thesis using sound by simp
  next
    case (Some other)
    obtain row c where row: "tombstoneOf (nc_node cfg) p other (nd_clock n) = (row, c)" by fastforce
    note fields = tombstone_fields [OF row]
    have other: "storable other" "rec_id other \<noteq> rec_id s" using found Some rs(2) by (auto simp: slot_table_def list_all_iff)
    let ?m = "n\<lparr>nd_clock := c\<rparr>"
    have m: "node_sound cfg ?m" using fields(1,2) by (intro sound_cong [OF sound]) simp_all
    have "put_record row (nd_records n) = Inr table \<and> c' = c"
      using yield occ Some row by (cases "put_record row (nd_records n)") (simp_all add: yieldSlotToIncoming_def)
    then have put: "put_in row ?m = (n', None)" by (simp add: put_in_def n')
    have newer: "updatedAt h \<le> updatedAt row" if "record_held ?m (rec_id row) = Some h" for h
      using held_below(1) [OF sound, of "rec_id row" h] that fields(1) by (simp add: record_held_def)
    have ok: "storable row" "updatedAt row \<le> clock_emit (nc_node cfg) (nd_clock ?m)"
      using fields(2,4) other(1) sound by (simp_all add: node_sound_def)
    have step: "node_sound cfg n' \<and> never_back ?m n' \<and> nd_clock n' = c
        \<and> (\<forall>rid. record_held n' rid = (if rid = rec_id row then Some row else record_held ?m rid))"
      using put_in_step [OF m ok newer put] by simp
    have "record_held n' (rec_id s) = record_held n (rec_id s)"
      using step other(2) fields(3) by (simp add: record_held_def)
    moreover have "clock_emit (nc_node cfg) (nd_clock n) \<le> clock_emit (nc_node cfg) (nd_clock n')" using step fields(1,2) by simp
    moreover have "never_back n n'" using step never_back_same(2) [of ?m n n'] by simp
    ultimately show ?thesis using step by blast
  qed
  then show "node_sound cfg n'" "never_back n n'" "clock_emit (nc_node cfg) (nd_clock n) \<le> clock_emit (nc_node cfg) (nd_clock n')"
    "record_held n' (rec_id s) = record_held n (rec_id s)" by blast+
qed

lemma not_applied_newer:
  "\<not> row_already_applied current s \<Longrightarrow> current = Some h \<Longrightarrow> updatedAt h \<le> updatedAt s"
  by (simp add: row_already_applied_def compareHLC_ge not_le)

lemma applied_settled: "row_already_applied current s \<Longrightarrow> \<exists>h. current = Some h \<and> updatedAt s \<le> updatedAt h"
  by (simp add: row_already_applied_def compareHLC_ge split: option.splits)

text \<open>What one apply must give: a sound node, nothing taken back, and the row settled when it says so.\<close>

definition good_step :: "node_config \<Rightarrow> shared_node \<Rightarrow> shared_node \<Rightarrow> bool" where
  "good_step cfg n n' \<longleftrightarrow> node_sound cfg n' \<and> never_back n n' \<and> clock_emit (nc_node cfg) (nd_clock n) \<le> clock_emit (nc_node cfg) (nd_clock n')"

lemma good_step_refl: "node_sound cfg n \<Longrightarrow> good_step cfg n n"
  by (simp add: good_step_def)

lemma good_step_trans: "good_step cfg a b \<Longrightarrow> good_step cfg b c \<Longrightarrow> good_step cfg a c"
  unfolding good_step_def by (meson never_back_trans order_trans)

lemma good_step_cong:
  assumes "good_step cfg n m" "nd_records n' = nd_records m" "nd_labels n' = nd_labels m" "nd_clock n' = nd_clock m"
  shows "good_step cfg n n'"
  using assms never_back_same(1) [of n' m n] sound_cong [of cfg m n'] by (simp add: good_step_def)

lemma receive_good: "node_sound cfg n \<Longrightarrow> good_step cfg n (receive_stamp cfg p t n)"
proof -
  assume sound: "node_sound cfg n"
  obtain x c where c: "clock_receive (nc_node cfg) p t (nd_clock n) = (x, c)" by fastforce
  show ?thesis
    using receive_step [OF sound, where p = p and t = t] receive_above(1) [OF c] never_back_same(1) [of "receive_stamp cfg p t n" n n]
    by (simp add: good_step_def receive_stamp_def c)
qed

lemma requester_row_step:
  assumes sound: "node_sound cfg n" and s: "storable s"
    and newer: "\<And>h. record_held n (rec_id s) = Some h \<Longrightarrow> updatedAt h \<le> updatedAt s"
    and run: "requester_row cfg clock s n = (n', err)"
  shows "good_step cfg n n' \<and> (err = None \<longrightarrow> record_held n' (rec_id s) = Some s)"
proof -
  let ?m = "receive_stamp cfg (clock 0) (updatedAt s) n"
  note m = receive_step [OF sound, where p = "clock 0" and t = "updatedAt s"]
  have good: "good_step cfg n ?m" by (rule receive_good [OF sound])
  have finish: "good_step cfg n n' \<and> (err = None \<longrightarrow> record_held n' (rec_id s) = Some s)"
    if w: "good_step cfg ?m w" "record_held w (rec_id s) = record_held ?m (rec_id s)" "put_in s w = (n', err)" for w
  proof -
    have "updatedAt s \<le> clock_emit (nc_node cfg) (nd_clock w)" using m(2) w(1) by (auto simp: good_step_def)
    moreover have "updatedAt h \<le> updatedAt s" if "record_held w (rec_id s) = Some h" for h
      using newer that w(2) never_back_same(3) [OF m(3)] by simp
    ultimately have stored: "node_sound cfg n' \<and> never_back w n' \<and> nd_clock n' = nd_clock w \<and> (err = None \<longrightarrow> record_held n' (rec_id s) = Some s)"
      using put_in_step [OF _ s _ _ w(3)] w(1) by (auto simp: good_step_def)
    then have "good_step cfg w n'" by (simp add: good_step_def)
    then show ?thesis using good_step_trans [OF good good_step_trans [OF w(1)]] stored by blast
  qed
  show ?thesis
  proof (cases "deletedAt s")
    case (Some d)
    then have "put_in s ?m = (n', err)" using run by (simp add: requester_row_def Let_def)
    then show ?thesis using finish [of ?m] good_step_refl [OF m(1)] by simp
  next
    case None
    show ?thesis
    proof (cases "yieldSlotToIncoming (nc_codec cfg) (nc_env cfg) (nd_records ?m) s (nc_node cfg) (clock 1) (nd_clock ?m)")
      case (Inl e)
      then show ?thesis using run None good by (auto simp: requester_row_def Let_def)
    next
      case (Inr res)
      obtain table loser c' where res: "res = (table, loser, c')" by (cases res)
      let ?w = "?m\<lparr>nd_records := table, nd_clock := c'\<rparr>"
      note yielded = yield_step [OF m(1) Inr [unfolded res] refl]
      have "put_in s ?w = (n', err)" using run None Inr res by (simp add: requester_row_def Let_def)
      then show ?thesis using finish [of ?w] yielded by (simp add: good_step_def)
    qed
  qed
qed

lemma requester_metadata_step:
  assumes sound: "node_sound cfg n" and kept: "record_held n (rec_id kept) = Some kept"
    and run: "requester_metadata cfg clock current kept snapshot metadata n = (n', err)"
  shows "good_step cfg n n'"
proof -
  let ?a = "n\<lparr>nd_metadata := metadata_cascade current kept (nd_metadata n)\<rparr>"
  have a: "good_step cfg n ?a" by (rule good_step_cong [OF good_step_refl [OF sound]]) simp_all
  show ?thesis
  proof (cases "deletedAt kept \<noteq> None \<or> metadata = None")
    case True
    then have "n' = ?a" using run by (simp add: requester_metadata_def Let_def)
    then show ?thesis using a by simp
  next
    case False
    show ?thesis
    proof (cases "applyRecordMetadata (current \<noteq> None) (subject_of snapshot) metadata (nd_metadata ?a)")
      case (Inl e)
      then have "n' = ?a" using run False by (simp add: requester_metadata_def Let_def del: not_None_eq)
      then show ?thesis using a by simp
    next
      case (Inr res)
      obtain store owed where res: "res = (store, owed)" by (cases res)
      let ?b = "?a\<lparr>nd_metadata := store\<rparr>"
      have b: "good_step cfg n ?b" by (rule good_step_cong [OF a]) simp_all
      then have b_sound: "node_sound cfg ?b" by (simp add: good_step_def)
      show ?thesis
      proof (cases owed)
        case False': False
        then have "n' = ?b" using run False Inr res False' by (simp add: requester_metadata_def Let_def del: not_None_eq)
        then show ?thesis using b by simp
      next
        case True
        obtain t m where m: "fresh_stamp cfg (clock 2) ?b = (t, m)" by fastforce
        note fresh = fresh_step [OF b_sound m]
        have held: "record_held m rid = record_held n rid" for rid
          using never_back_same(3) [OF fresh(5)] by (simp add: record_held_def)
        note below = held_below [OF sound kept]
        have put: "put_in (kept\<lparr>updatedAt := t\<rparr>) m = (n', err)"
          using run False Inr res True m by (simp add: requester_metadata_def Let_def del: not_None_eq)
        have "storable (kept\<lparr>updatedAt := t\<rparr>)" using below(2) fresh(4) sound by (auto simp: storable_def node_sound_def)
        moreover have "updatedAt h \<le> updatedAt (kept\<lparr>updatedAt := t\<rparr>)" if "record_held m (rec_id (kept\<lparr>updatedAt := t\<rparr>)) = Some h" for h
          using that kept below(1) fresh(2) by (simp add: held)
        ultimately have "good_step cfg m n'"
          using put_in_step [OF fresh(1) _ _ _ put] fresh(3) by (simp add: good_step_def)
        moreover have "good_step cfg ?b m"
          using fresh never_back_same(1) [OF fresh(5,6), of ?b] by (simp add: good_step_def)
        ultimately show ?thesis using good_step_trans b by blast
      qed
    qed
  qed
qed

lemma get_of_sound: "node_sound cfg n \<Longrightarrow> get_record rid (nd_records n) = Inr (record_held n rid)"
  unfolding node_sound_def by (auto simp: record_held_find find_row slot_table_def)

lemma requester_record_step:
  assumes sound: "node_sound cfg n" and s: "storable (fst item)"
    and run: "requester_record cfg clock item n = (n', outcome)"
  shows "good_step cfg n n' \<and> (outcome = ItemApplied \<longrightarrow> record_settled n' (fst item)) \<and> (\<forall>e. outcome \<noteq> ExchangeAborted e)"
proof -
  obtain snapshot metadata where item: "item = (snapshot, metadata)" by (cases item)
  have s': "storable snapshot" using s by (simp add: item)
  define current where "current = record_held n (rec_id snapshot)"
  have get: "get_record (rec_id snapshot) (nd_records n) = Inr current" using get_of_sound [OF sound] by (simp add: current_def)
  define applied where "applied = row_already_applied current snapshot"
  define kept where "kept = (case current of Some c \<Rightarrow> if applied then c else snapshot | None \<Rightarrow> snapshot)"
  obtain m err where m: "(if applied then (n, None) else requester_row cfg clock snapshot n) = (m, err)" by fastforce
  have row: "good_step cfg n m \<and> (err = None \<longrightarrow> record_held m (rec_id snapshot) = Some kept \<and> updatedAt snapshot \<le> updatedAt kept)"
  proof (cases applied)
    case True
    then obtain h where h: "current = Some h" "updatedAt snapshot \<le> updatedAt h" using applied_settled by (auto simp: applied_def)
    then have "kept = h" "m = n" using True m by (simp_all add: kept_def)
    then show ?thesis using h good_step_refl [OF sound] by (simp add: current_def [symmetric])
  next
    case False
    then have "kept = snapshot" by (simp add: kept_def split: option.split)
    moreover have "updatedAt h \<le> updatedAt snapshot" if "record_held n (rec_id snapshot) = Some h" for h
      using not_applied_newer [of current snapshot h] False that by (simp add: applied_def current_def)
    ultimately show ?thesis using requester_row_step [OF sound s'] m False by simp
  qed
  show ?thesis
  proof (cases err)
    case (Some e)
    then have "n' = m" "outcome = ItemBroken e"
      using run m unfolding item by (auto simp: requester_record_def get applied_def [symmetric] kept_def [symmetric])
    then show ?thesis using row by simp
  next
    case None
    have id: "rec_id kept = rec_id snapshot" using held_below(3) [of cfg m] row None by (simp add: good_step_def)
    obtain w err' where w: "requester_metadata cfg clock current kept snapshot metadata m = (w, err')" by fastforce
    have out: "n' = w" "outcome = (case err' of Some e \<Rightarrow> ItemBroken e | None \<Rightarrow> ItemApplied)"
      using run m w None unfolding item
      by (cases err'; simp add: requester_record_def get applied_def [symmetric] kept_def [symmetric])+
    have step: "good_step cfg m w"
      using requester_metadata_step [OF _ _ w] row None id by (simp add: good_step_def)
    have "record_settled m snapshot" using row None by (simp add: record_settled_def)
    then have "record_settled w snapshot" using settled_kept(1) [of m w snapshot] step by (simp add: good_step_def)
    moreover have "good_step cfg n w" using good_step_trans [OF _ step] row by blast
    ultimately show ?thesis unfolding out item by (cases err') simp_all
  qed
qed

section \<open>Labels\<close>

lemma label_reads_back: "label_storable l \<Longrightarrow> rowToLabel (labelToRow l) = Inr l"
proof -
  assume l: "label_storable l"
  have times: "read_timestamp (serializeHLC (sl_createdAt l)) = Inr (sl_createdAt l)"
      "read_timestamp (serializeHLC (sl_updatedAt l)) = Inr (sl_updatedAt l)"
    using l by (simp_all add: label_storable_def read_serialized)
  have deleted: "(case truthy_text (map_option serializeHLC (sl_deletedAt l)) of
        None \<Rightarrow> Inr None | Some s \<Rightarrow> (case read_timestamp s of Inl e \<Rightarrow> Inl e | Inr t \<Rightarrow> Inr (Some t))) = Inr (sl_deletedAt l)"
  proof (cases "sl_deletedAt l")
    case (Some t)
    then have "read_timestamp (serializeHLC t) = Inr t" using l by (simp add: label_storable_def read_serialized)
    moreover have "truthy_text (Some (serializeHLC t)) = Some (serializeHLC t)"
      using serializeHLC_not_empty [of t] by (simp add: truthy_text_def split: list.splits)
    ultimately show ?thesis using Some by simp
  qed (simp add: truthy_text_def)
  show ?thesis
    using l unfolding rowToLabel_def by (simp add: labelToRow_def times deleted label_storable_def)
qed

lemma pk_labelToRow [simp]: "label_pk (labelToRow l) = key_of_label l"
  by (simp add: label_pk_def labelToRow_def key_of_label_def)

lemma label_at_map: "list_all label_storable ls \<Longrightarrow> label_at k (map labelToRow ls) = Inr (find (\<lambda>l. key_of_label l = k) ls)"
  by (induction ls) (auto simp: label_at_def getLabel_def label_reads_back)

definition store_label :: "shared_label \<Rightarrow> shared_label list \<Rightarrow> shared_label list" where
  "store_label l ls =
     (if key_of_label l \<in> key_of_label ` set ls then map (\<lambda>x. if key_of_label x = key_of_label l then l else x) ls else ls @ [l])"

lemma putLabel_map: "putLabel l (map labelToRow ls) = map labelToRow (store_label l ls)"
  by (auto simp: putLabel_def insert_or_merge_def store_label_def image_iff)

lemma find_label: "find (\<lambda>x. key_of_label x = k) (store_label l ls) = (if k = key_of_label l then Some l else find (\<lambda>x. key_of_label x = k) ls)"
proof (cases "key_of_label l \<in> key_of_label ` set ls")
  case True
  have "find (\<lambda>x. key_of_label x = k) (map (\<lambda>x. if key_of_label x = key_of_label l then l else x) xs)
      = (if k = key_of_label l \<and> key_of_label l \<in> key_of_label ` set xs then Some l else find (\<lambda>x. key_of_label x = k) xs)" for xs
    by (induction xs) auto
  then show ?thesis using True by (simp add: store_label_def)
next
  case False
  have "find P (xs @ [l]) = (case find P xs of Some y \<Rightarrow> Some y | None \<Rightarrow> if P l then Some l else None)" for P and xs :: "shared_label list"
    by (induction xs) auto
  moreover have "find (\<lambda>x. key_of_label x = key_of_label l) ls = None" using False by (auto simp: find_None_iff) (metis rev_image_eqI)
  ultimately show ?thesis using False by (auto simp: store_label_def split: option.split)
qed

lemma store_label_intact:
  assumes "distinct (map key_of_label ls)" "list_all label_storable ls" "label_storable l"
  shows "distinct (map key_of_label (store_label l ls))" "list_all label_storable (store_label l ls)"
proof -
  have "map key_of_label (store_label l ls)
      = (if key_of_label l \<in> key_of_label ` set ls then map key_of_label ls else map key_of_label ls @ [key_of_label l])"
    by (auto simp: store_label_def)
  then show "distinct (map key_of_label (store_label l ls))" using assms(1) by (simp del: map_map)
  show "list_all label_storable (store_label l ls)" using assms(2,3) by (auto simp: store_label_def list_all_iff)
qed

text \<open>What applying a label leaves in the label table.\<close>

definition land_label :: "shared_label \<Rightarrow> label_table \<Rightarrow> label_table" where
  "land_label l t = (case label_at (key_of_label l) t of
       Inl e \<Rightarrow> t | Inr current \<Rightarrow> if label_is_newer current l then putLabel l t else t)"

lemma label_held_find: "t = map labelToRow ls \<Longrightarrow> list_all label_storable ls \<Longrightarrow> label_held t k = find (\<lambda>l. key_of_label l = k) ls"
  by (simp add: label_held_def label_at_map split: option.split)

lemma land_label_step:
  assumes "labels_intact t" "label_storable l"
  shows "labels_intact (land_label l t)"
    "label_held (land_label l t) k
      = (if k = key_of_label l \<and> (case label_held t k of None \<Rightarrow> True | Some w \<Rightarrow> sl_updatedAt w < sl_updatedAt l) then Some l else label_held t k)"
proof -
  obtain ls where ls: "t = map labelToRow ls" "distinct (map key_of_label ls)" "list_all label_storable ls"
    using assms(1) by (auto simp: labels_intact_def)
  define c where "c = find (\<lambda>x. key_of_label x = key_of_label l) ls"
  have land: "land_label l t = map labelToRow (if label_is_newer c l then store_label l ls else ls)"
    by (simp add: land_label_def ls(1) label_at_map [OF ls(3)] c_def [symmetric] putLabel_map)
  note stored = store_label_intact [OF ls(2,3) assms(2)]
  show "labels_intact (land_label l t)"
    unfolding labels_intact_def land using ls(2,3) stored by (intro exI [of _ "if label_is_newer c l then store_label l ls else ls"]) simp
  have held: "label_held t k = find (\<lambda>x. key_of_label x = k) ls" by (rule label_held_find [OF ls(1,3)])
  have after: "label_held (land_label l t) k = find (\<lambda>x. key_of_label x = k) (if label_is_newer c l then store_label l ls else ls)"
    by (rule label_held_find [OF land]) (use ls(3) stored(2) in simp)
  show "label_held (land_label l t) k
      = (if k = key_of_label l \<and> (case label_held t k of None \<Rightarrow> True | Some w \<Rightarrow> sl_updatedAt w < sl_updatedAt l) then Some l else label_held t k)"
    unfolding after held by (auto simp: find_label label_is_newer_def c_def compareHLC_less split: option.splits)
qed

lemma label_held_key: "labels_intact t \<Longrightarrow> label_held t k = Some l \<Longrightarrow> key_of_label l = k"
  by (auto simp: labels_intact_def label_held_find find_Some_iff)

interpretation label_rows: last_write_wins key_of_label sl_updatedAt label_held land_label label_storable labels_intact
proof unfold_locales
  show "label_held (land_label l t) k
      = (if k = key_of_label l \<and> (case label_held t k of None \<Rightarrow> True | Some w \<Rightarrow> sl_updatedAt w < sl_updatedAt l) then Some l else label_held t k)"
    if "labels_intact t" "label_storable l" for t l k using land_label_step(2) [OF that] .
  show "labels_intact (land_label l t)" if "labels_intact t" "label_storable l" for t l using land_label_step(1) [OF that] .
  show "key_of_label l = k" if "labels_intact t" "label_held t k = Some l" for t k l using label_held_key [OF that] .
qed

lemma apply_label_lands:
  assumes "labels_intact (nd_labels n)" "apply_label cfg clock l n = (n', err)"
  shows "nd_labels n' = land_label l (nd_labels n)" "nd_records n' = nd_records n" "err = None"
    "n' = n \<or> n' = (receive_stamp cfg (clock 0) (sl_updatedAt l) n)\<lparr>nd_labels := putLabel l (nd_labels n)\<rparr>"
proof -
  obtain ls where ls: "nd_labels n = map labelToRow ls" "list_all label_storable ls" using assms(1) by (auto simp: labels_intact_def)
  have at: "label_at (key_of_label l) (nd_labels n) = Inr (find (\<lambda>x. key_of_label x = key_of_label l) ls)"
    unfolding ls(1) by (rule label_at_map [OF ls(2)])
  show "nd_labels n' = land_label l (nd_labels n)" "nd_records n' = nd_records n" "err = None"
    "n' = n \<or> n' = (receive_stamp cfg (clock 0) (sl_updatedAt l) n)\<lparr>nd_labels := putLabel l (nd_labels n)\<rparr>"
    using assms(2) by (auto simp: apply_label_def land_label_def at receive_stamp_def split: if_splits)
qed

lemma apply_label_step:
  assumes sound: "node_sound cfg n" and l: "label_storable l" and run: "apply_label cfg clock l n = (n', err)"
  shows "good_step cfg n n' \<and> err = None \<and> label_settled n' l"
proof -
  have intact: "labels_intact (nd_labels n)" using sound by (simp add: node_sound_def)
  note lands = apply_label_lands [OF intact run] and land = land_label_step [OF intact l]
  have clock: "clock_emit (nc_node cfg) (nd_clock n) \<le> clock_emit (nc_node cfg) (nd_clock n')"
    using lands(4) receive_good [OF sound, of "clock 0" "sl_updatedAt l"] by (auto simp: good_step_def)
  have "node_sound cfg n'"
    using sound clock land(1) lands(1,2) clock_above_mono unfolding node_sound_def by metis
  moreover have "never_back n n'"
    unfolding never_back_def lands(1) land(2) using never_back_same(3) [OF lands(2)] by (auto split: option.splits)
  moreover have "label_settled n' l"
    unfolding label_settled_def lands(1) land(2) by (auto split: option.split)
  ultimately show ?thesis using clock lands(3) by (simp add: good_step_def)
qed

section \<open>A response applied\<close>

text \<open>A shared row of a response is settled; the rows of app tables are the matter of \<open>App_Rows\<close>.\<close>

fun item_settled :: "shared_node \<Rightarrow> inbound_item \<Rightarrow> bool" where
  "item_settled n (InRecord r) = record_settled n (fst r)"
| "item_settled n (InLabel l) = label_settled n l"
| "item_settled n (InAppRow e) = True"

fun item_storable :: "inbound_item \<Rightarrow> bool" where
  "item_storable (InRecord r) = storable (fst r)"
| "item_storable (InLabel l) = label_storable l"
| "item_storable (InAppRow e) = True"

lemma item_settled_kept: "never_back n n' \<Longrightarrow> item_settled n item \<Longrightarrow> item_settled n' item"
  by (cases item) (auto intro: settled_kept)

lemma requester_item_step:
  assumes sound: "node_sound cfg n" and item: "item_storable item" and run: "requester_item cfg clock item n = (n', outcome)"
  shows "good_step cfg n n' \<and> (outcome = ItemApplied \<longrightarrow> item_settled n' item) \<and> (\<forall>e. outcome \<noteq> ExchangeAborted e)"
proof (cases item)
  case (InRecord r)
  then show ?thesis using requester_record_step [OF sound _ ] item run by simp
next
  case (InLabel l)
  obtain m err where m: "apply_label cfg clock l n = (m, err)" by fastforce
  then show ?thesis using apply_label_step [OF sound _ m] item run InLabel by simp
next
  case (InAppRow e)
  show ?thesis
  proof (cases "nc_namespaces cfg")
    case None
    then show ?thesis using run InAppRow good_step_refl [OF sound] by auto
  next
    case (Some ns)
    let ?m = "receive_stamp cfg (clock 0) (we_timestamp e) n"
    have m: "good_step cfg n ?m" by (rule receive_good [OF sound])
    have "(n' = ?m \<or> (\<exists>db. n' = ?m\<lparr>nd_apps := db\<rparr>)) \<and> (\<forall>e. outcome \<noteq> ExchangeAborted e)"
      using run InAppRow Some by (auto simp: Let_def split: sum.splits)
    then show ?thesis using m good_step_cong [OF m] InAppRow by auto
  qed
qed

lemma requester_items_step:
  assumes "node_sound cfg n" "list_all item_storable items" "requester_items cfg clocks i items n = (n', flags, err)"
  shows "good_step cfg n n' \<and> err = None \<and> length flags = length items \<and> (\<forall>k < length items. flags ! k \<longrightarrow> item_settled n' (items ! k))"
  using assms
proof (induction items arbitrary: i n n' flags err)
  case Nil
  then show ?case by (simp add: good_step_refl)
next
  case (Cons item items i n n' flags err)
  obtain m outcome where m: "requester_item cfg (clocks i) item n = (m, outcome)" by fastforce
  have step: "good_step cfg n m" "outcome = ItemApplied \<Longrightarrow> item_settled m item" "\<And>e. outcome \<noteq> ExchangeAborted e"
    using requester_item_step [OF Cons.prems(1) _ m] Cons.prems(2) by simp_all
  obtain w flags' err' where w: "requester_items cfg clocks (i + 1) items m = (w, flags', err')" by (metis prod_cases3)
  have out: "n' = w" "flags = (outcome = ItemApplied) # flags'" "err = err'"
    using Cons.prems(3) step(3) by (cases outcome; simp add: m w [simplified])+
  have sound: "node_sound cfg m" using step(1) by (simp add: good_step_def)
  have rest: "good_step cfg m w" "err' = None \<and> length flags' = length items \<and> (\<forall>k < length items. flags' ! k \<longrightarrow> item_settled w (items ! k))"
    using Cons.IH [OF sound _ w] Cons.prems(2) by simp_all
  have "outcome = ItemApplied \<Longrightarrow> item_settled w item"
    using step(2) rest(1) item_settled_kept [of m w item] by (simp add: good_step_def)
  then show ?case
    using rest good_step_trans [OF step(1) rest(1)] unfolding out by (auto simp: nth_Cons split: nat.split)
qed

lemma requester_groups_step:
  assumes "node_sound cfg n" "\<forall>(author, items) \<in> set groups. list_all item_storable items"
    and "requester_groups cfg clocks i groups n = (n', runs, err)"
  shows "good_step cfg n n' \<and> err = None \<and> map (\<lambda>(author, items, flags). (author, items)) runs = groups
    \<and> (\<forall>(author, items, flags) \<in> set runs. length flags = length items \<and> (\<forall>k < length items. flags ! k \<longrightarrow> item_settled n' (items ! k)))"
  using assms
proof (induction groups arbitrary: i n n' runs err)
  case Nil
  then show ?case by (simp add: good_step_refl)
next
  case (Cons group groups i n n' runs err)
  obtain author items where group: "group = (author, items)" by (cases group)
  obtain m flags err1 where m: "requester_items cfg clocks i items n = (m, flags, err1)" by (metis prod_cases3)
  have step: "good_step cfg n m" "err1 = None"
      "length flags = length items \<and> (\<forall>k < length items. flags ! k \<longrightarrow> item_settled m (items ! k))"
    using requester_items_step [OF Cons.prems(1) _ m] Cons.prems(2) group by simp_all
  obtain w runs' err2 where w: "requester_groups cfg clocks (i + length items) groups m = (w, runs', err2)" by (metis prod_cases3)
  have out: "n' = w" "runs = (author, items, flags) # runs'" "err = err2" using Cons.prems(3) m w step(2) by (simp_all add: group)
  have sound: "node_sound cfg m" using step(1) by (simp add: good_step_def)
  have rest: "good_step cfg m w" "err2 = None \<and> map (\<lambda>(author, items, flags). (author, items)) runs' = groups
      \<and> (\<forall>(author, items, flags) \<in> set runs'. length flags = length items \<and> (\<forall>k < length items. flags ! k \<longrightarrow> item_settled w (items ! k)))"
    using Cons.IH [OF sound _ w] Cons.prems(2) by simp_all
  have "\<forall>k < length items. flags ! k \<longrightarrow> item_settled w (items ! k)"
    using step(3) rest(1) item_settled_kept [of m w] by (simp add: good_step_def)
  then show ?case
    using rest step(3) good_step_trans [OF step(1) rest(1)] unfolding out group by simp
qed

definition inbound_items :: "bool \<Rightarrow> synced_record list \<Rightarrow> shared_label list \<Rightarrow> wire_entry list \<Rightarrow> inbound_item list" where
  "inbound_items syncSharedRecords records_in labels_in rows_in =
     (if syncSharedRecords then map InRecord records_in @ map InLabel labels_in else []) @ map InAppRow rows_in"

lemma below_the_advance:
  assumes "sorted (map inbound_hlc items)" "length flags = length items" "safe_advance (author, items, flags) = Some h"
    and item: "item \<in> set items" "inbound_hlc item < h"
  shows "\<exists>k < length items. flags ! k \<and> items ! k = item"
proof -
  let ?stop = "length (takeWhile id flags)"
  have stop: "0 < ?stop" "h = inbound_hlc (items ! (?stop - 1))" "?stop \<le> length items"
    using assms(2,3) length_takeWhile_le [of id flags] by (auto simp: safe_advance_def Let_def split: if_splits)
  obtain k where k: "k < length items" "items ! k = item" using item(1) by (auto simp: in_set_conv_nth)
  have "k < ?stop"
  proof (rule ccontr)
    assume "\<not> k < ?stop"
    then have "inbound_hlc (items ! (?stop - 1)) \<le> inbound_hlc (items ! k)"
      using sorted_nth_mono [OF assms(1), of "?stop - 1" k] k(1) stop by simp
    then show False using item(2) stop(2) k(2) by simp
  qed
  then have "flags ! k" using nth_mem [of k "takeWhile id flags"] set_takeWhileD [of "flags ! k" id flags] by (simp add: takeWhile_nth)
  then show ?thesis using k by blast
qed


section \<open>A request applied\<close>

lemma responder_row_step:
  assumes sound: "node_sound cfg n" and s: "storable s"
    and current: "current = record_held n (rec_id s)" and run: "responder_row cfg keep clock current s n = (n', res)"
  shows "good_step cfg n n' \<and> nd_records n' = nd_records n
    \<and> (\<forall>row. res = Inr row \<longrightarrow> rec_id row = rec_id s \<and> storable row \<and> updatedAt s \<le> updatedAt row
         \<and> updatedAt row \<le> clock_emit (nc_node cfg) (nd_clock n'))"
proof -
  let ?m = "receive_stamp cfg (clock 0) (updatedAt s) n"
  note m = receive_step [OF sound, where p = "clock 0" and t = "updatedAt s"]
  have good: "good_step cfg n ?m" by (rule receive_good [OF sound])
  have plain: ?thesis if "n' = ?m" "res = Inr s" using that good m s by simp
  show ?thesis
  proof (cases "deletedAt s = None")
    case True
    obtain rs where rs: "nd_records ?m = map recordToRow rs" "slot_table rs" using m(1) by (auto simp: node_sound_def)
    obtain occupant where occ: "slotOccupant (nc_codec cfg) (nc_env cfg) (nd_records ?m) s = Inr occupant"
      using slotOccupant_finds [OF rs(2), of "nc_codec cfg" "nc_env cfg" s] unfolding rs(1) by blast
    show ?thesis
    proof (cases occupant)
      case None
      then have "n' = ?m" "res = Inr s" using run True occ by (simp_all add: responder_row_def Let_def admitIncomingStandIn_def)
      then show ?thesis by (rule plain)
    next
      case (Some other)
      obtain row c where row: "tombstoneOf (nc_node cfg) (clock 1) s (nd_clock ?m) = (row, c)" by fastforce
      note fields = tombstone_fields [OF row]
      have n': "n' = ?m\<lparr>nd_clock := c\<rparr>" "res = Inr row"
        using run True occ Some row by (simp_all add: responder_row_def Let_def admitIncomingStandIn_def)
      have up: "clock_emit (nc_node cfg) (nd_clock ?m) \<le> clock_emit (nc_node cfg) c" using fields(1,2) by simp
      have "node_sound cfg n'" using up by (intro sound_cong [OF m(1)]) (simp_all add: n')
      moreover have "never_back n n'" using never_back_same(1) [of n' ?m n] good by (simp add: n' good_step_def)
      moreover have "clock_emit (nc_node cfg) (nd_clock n) \<le> clock_emit (nc_node cfg) (nd_clock n')"
        using good up unfolding good_step_def n' by (auto intro: order_trans)
      moreover have "storable row" using fields(4) s sound by (simp add: node_sound_def)
      moreover have "updatedAt s \<le> updatedAt row" using m(2) fields(1) by simp
      ultimately show ?thesis using m(3) fields(2,3) n' by (simp add: good_step_def)
    qed
  next
    case False
    show ?thesis
    proof (cases "\<exists>c. current = Some c \<and> deletedAt c = None \<and> keep c s")
      case True
      then obtain c where c: "current = Some c" "deletedAt c = None" "keep c s" by blast
      obtain t w where w: "fresh_stamp cfg (clock 1) ?m = (t, w)" by fastforce
      note fresh = fresh_step [OF m(1) w]
      have n': "n' = w" "res = Inr (c\<lparr>updatedAt := t, rec_version := rec_version c + 1\<rparr>)"
        using run False c w by (simp_all add: responder_row_def Let_def)
      have held: "record_held n (rec_id s) = Some c" using current c(1) by simp
      have "storable (c\<lparr>updatedAt := t, rec_version := rec_version c + 1\<rparr>)"
        using held_below(2) [OF sound held] fresh(4) sound by (auto simp: storable_def node_sound_def)
      moreover have "updatedAt s \<le> t" using m(2) fresh(2) by simp
      moreover have "good_step cfg ?m w"
        using fresh never_back_same(1) [OF fresh(5,6), of ?m] by (simp add: good_step_def)
      moreover have "rec_id c = rec_id s" by (rule held_below(3) [OF sound held])
      ultimately show ?thesis using good_step_trans [OF good] fresh(3,5) m(3) n' by simp
    next
      case no: False
      then have "(n', res) = (?m, Inr s)"
        using run False by (cases current) (auto simp: responder_row_def Let_def)
      then show ?thesis using plain by simp
    qed
  qed
qed

lemma responder_metadata_step:
  assumes "node_sound cfg n" "responder_metadata current kept snapshot metadata n = (n', err)"
  shows "good_step cfg n n' \<and> nd_records n' = nd_records n"
proof -
  have "nd_records n' = nd_records n \<and> nd_labels n' = nd_labels n \<and> nd_clock n' = nd_clock n"
    using assms(2) by (auto simp: responder_metadata_def Let_def split: if_splits sum.splits)
  then show ?thesis using good_step_cong [OF good_step_refl [OF assms(1)], of n'] by simp
qed

lemma responder_record_step:
  assumes sound: "node_sound cfg n" and s: "storable (fst item)" and run: "responder_record cfg keep clock item n = (n', err)"
  shows "good_step cfg n n' \<and> (err = None \<longrightarrow> record_settled n' (fst item))"
proof -
  obtain snapshot metadata where item: "item = (snapshot, metadata)" by (cases item)
  define current where "current = record_held n (rec_id snapshot)"
  have get: "get_record (rec_id snapshot) (nd_records n) = Inr current" using get_of_sound [OF sound] by (simp add: current_def)
  define stored where "stored = (if row_already_applied current snapshot then (n, Inr (case current of Some c \<Rightarrow> c | None \<Rightarrow> snapshot))
      else case responder_row cfg keep clock current snapshot n of
             (n, Inl e) \<Rightarrow> (n, Inl e)
           | (n, Inr row) \<Rightarrow> (case put_in row n of (n, Some e) \<Rightarrow> (n, Inl e) | (n, None) \<Rightarrow> (n, Inr row)))"
  have out: "(n', err) = (case stored of (n, Inl e) \<Rightarrow> (n, Some e) | (n, Inr kept) \<Rightarrow> responder_metadata current kept snapshot metadata n)"
    using run unfolding item stored_def by (simp add: responder_record_def get)
  have row: "good_step cfg n (fst stored) \<and> (\<forall>kept. snd stored = Inr kept \<longrightarrow> record_settled (fst stored) snapshot)"
  proof (cases "row_already_applied current snapshot")
    case True
    then obtain h where "current = Some h" "updatedAt snapshot \<le> updatedAt h" using applied_settled by blast
    then have "record_settled n snapshot" by (simp add: record_settled_def current_def)
    then show ?thesis using True good_step_refl [OF sound] by (simp add: stored_def)
  next
    case False
    obtain m res where m: "responder_row cfg keep clock current snapshot n = (m, res)" by fastforce
    have step: "good_step cfg n m" "nd_records m = nd_records n"
        "\<And>row. res = Inr row \<Longrightarrow> rec_id row = rec_id snapshot \<and> storable row \<and> updatedAt snapshot \<le> updatedAt row
           \<and> updatedAt row \<le> clock_emit (nc_node cfg) (nd_clock m)"
      using responder_row_step [OF sound _ current_def m] s item by simp_all
    show ?thesis
    proof (cases res)
      case (Inl e)
      then show ?thesis using False m step(1) by (simp add: stored_def)
    next
      case (Inr row)
      obtain w e where w: "put_in row m = (w, e)" by fastforce
      have fields: "rec_id row = rec_id snapshot" "storable row" "updatedAt snapshot \<le> updatedAt row"
          "updatedAt row \<le> clock_emit (nc_node cfg) (nd_clock m)" using step(3) [OF Inr] by simp_all
      have m_sound: "node_sound cfg m" using step(1) by (simp add: good_step_def)
      have "updatedAt h \<le> updatedAt row" if "record_held m (rec_id row) = Some h" for h
      proof -
        have "current = Some h" using that fields(1) never_back_same(3) [OF step(2)] by (simp add: current_def)
        then show ?thesis using not_applied_newer [OF False, of h] fields(3) by (meson order_trans)
      qed
      then have put: "node_sound cfg w" "never_back m w" "nd_clock w = nd_clock m" "e = None \<longrightarrow> record_held w (rec_id row) = Some row"
        using put_in_step [OF m_sound fields(2,4) _ w] by simp_all
      have "good_step cfg m w" using put by (simp add: good_step_def)
      then have "good_step cfg n w" by (rule good_step_trans [OF step(1)])
      moreover have "stored = (case e of Some x \<Rightarrow> (w, Inl x) | None \<Rightarrow> (w, Inr row))"
        using False by (cases e) (simp_all add: stored_def m Inr w)
      moreover have "e = None \<Longrightarrow> record_settled w snapshot" using put(4) fields(1,3) by (auto simp: record_settled_def)
      ultimately show ?thesis by (cases e) simp_all
    qed
  qed
  obtain m res where m: "stored = (m, res)" by (cases stored)
  show ?thesis
  proof (cases res)
    case (Inl e)
    then show ?thesis using row out m by simp
  next
    case (Inr kept)
    have m_sound: "node_sound cfg m" using row m by (simp add: good_step_def)
    have last: "good_step cfg m n'" using responder_metadata_step [OF m_sound] out m Inr by (metis (no_types) old.prod.case sum.case(2))
    have "record_settled m snapshot" using row m Inr by simp
    then have "record_settled n' snapshot" using settled_kept(1) [of m n' snapshot] last by (simp add: good_step_def)
    then show ?thesis using good_step_trans [OF _ last] row m item by simp
  qed
qed

lemma responder_records_step:
  assumes "node_sound cfg n" "list_all (\<lambda>r. storable (fst r)) rs" "responder_records cfg keep clocks halted i rs n = (n', err)"
  shows "good_step cfg n n' \<and> (err = None \<longrightarrow> (\<forall>r \<in> set rs. nodeId (updatedAt (fst r)) \<notin> set halted \<longrightarrow> record_settled n' (fst r)))"
  using assms
proof (induction rs arbitrary: i n)
  case Nil
  then show ?case by (simp add: good_step_refl)
next
  case (Cons r rs i n)
  show ?case
  proof (cases "nodeId (updatedAt (fst r)) \<in> set halted")
    case True
    then show ?thesis using Cons.IH [of n "i + 1"] Cons.prems by simp
  next
    case False
    obtain m e where m: "responder_record cfg keep (clocks i) r n = (m, e)" by fastforce
    have step: "good_step cfg n m \<and> (e = None \<longrightarrow> record_settled m (fst r))"
      using responder_record_step [OF Cons.prems(1) _ m] Cons.prems(2) by simp
    show ?thesis
    proof (cases e)
      case (Some x)
      then have "n' = m" "err = Some x" using Cons.prems(3) False m by simp_all
      then show ?thesis using step by simp
    next
      case None
      have rest: "good_step cfg m n' \<and> (err = None \<longrightarrow> (\<forall>r \<in> set rs. nodeId (updatedAt (fst r)) \<notin> set halted \<longrightarrow> record_settled n' (fst r)))"
        using Cons.IH [of m "i + 1"] Cons.prems False m None step by (simp add: good_step_def)
      have "record_settled n' (fst r)" using settled_kept(1) [of m n' "fst r"] rest step None by (simp add: good_step_def)
      then show ?thesis using rest good_step_trans [of cfg n m n'] step by simp
    qed
  qed
qed

lemma responder_labels_step:
  assumes "node_sound cfg n" "list_all label_storable ls" "responder_labels cfg clocks halted i ls n = (n', err)"
  shows "good_step cfg n n' \<and> err = None \<and> (\<forall>l \<in> set ls. nodeId (sl_updatedAt l) \<notin> set halted \<longrightarrow> label_settled n' l)"
  using assms
proof (induction ls arbitrary: i n)
  case Nil
  then show ?case by (simp add: good_step_refl)
next
  case (Cons l ls i n)
  show ?case
  proof (cases "nodeId (sl_updatedAt l) \<in> set halted")
    case True
    then show ?thesis using Cons.IH [of n "i + 1"] Cons.prems by simp
  next
    case False
    obtain m e where m: "apply_label cfg (clocks i) l n = (m, e)" by fastforce
    have step: "good_step cfg n m \<and> e = None \<and> label_settled m l"
      using apply_label_step [OF Cons.prems(1) _ m] Cons.prems(2) by simp
    have rest: "good_step cfg m n' \<and> err = None \<and> (\<forall>l \<in> set ls. nodeId (sl_updatedAt l) \<notin> set halted \<longrightarrow> label_settled n' l)"
      using Cons.IH [of m "i + 1"] Cons.prems False m step by (simp add: good_step_def)
    have "label_settled n' l" using settled_kept(2) [of m n' l] rest step by (simp add: good_step_def)
    then show ?thesis using rest good_step_trans [of cfg n m n'] step by simp
  qed
qed

lemma responder_app_run_step:
  assumes "node_sound cfg n" "responder_app_run cfg clocks i es n = (n', stopped)"
  shows "good_step cfg n n'"
  using assms
proof (induction es arbitrary: i n)
  case Nil
  then show ?case by (simp add: good_step_refl)
next
  case (Cons e es i n)
  show ?case
  proof (cases "\<exists>ns. nc_namespaces cfg = Some ns \<and> js_get ns (we_appId e) \<noteq> None")
    case False
    then have "n' = n" using Cons.prems(2) by (auto split: option.splits)
    then show ?thesis using good_step_refl [OF Cons.prems(1)] by simp
  next
    case True
    then obtain ns where ns: "nc_namespaces cfg = Some ns" "js_get ns (we_appId e) \<noteq> None" by blast
    let ?m = "receive_stamp cfg (clocks i 0) (we_timestamp e) n"
    have m: "good_step cfg n ?m" by (rule receive_good [OF Cons.prems(1)])
    show ?thesis
    proof (cases "apply_entry ns e (nd_apps ?m)")
      case (Inl x)
      then have "n' = ?m" using Cons.prems(2) ns by (simp add: Let_def del: not_None_eq)
      then show ?thesis using m by simp
    next
      case (Inr db)
      have w: "good_step cfg n (?m\<lparr>nd_apps := db\<rparr>)" by (rule good_step_cong [OF m]) simp_all
      then have "good_step cfg (?m\<lparr>nd_apps := db\<rparr>) n'"
        using Cons.IH [of "?m\<lparr>nd_apps := db\<rparr>" "i + 1"] Cons.prems(2) ns Inr by (simp add: Let_def good_step_def del: not_None_eq)
      then show ?thesis by (rule good_step_trans [OF w])
    qed
  qed
qed

lemma responder_app_groups_step:
  assumes "node_sound cfg n" "responder_app_groups cfg clocks i groups n = (n', halted)"
  shows "good_step cfg n n'"
  using assms
proof (induction groups arbitrary: i n n' halted)
  case Nil
  then show ?case by (simp add: good_step_refl)
next
  case (Cons group groups i n n' halted)
  obtain author es where group: "group = (author, es)" by (cases group)
  obtain m stopped where m: "responder_app_run cfg clocks i es n = (m, stopped)" by fastforce
  have step: "good_step cfg n m" by (rule responder_app_run_step [OF Cons.prems(1) m])
  obtain w authors where w: "responder_app_groups cfg clocks (i + length es) groups m = (w, authors)" by fastforce
  have "good_step cfg m w" using Cons.IH [OF _ w] step Cons.prems(2) m w by (simp add: good_step_def group)
  moreover have "n' = w" using Cons.prems(2) m w by (simp add: group)
  ultimately show ?case using good_step_trans [OF step] by simp
qed

interpretation by_authored_order: js_comparator authored_order "\<lambda>r. (nodeId (updatedAt (fst r)), updatedAt (fst r))"
  by unfold_locales (auto simp: authored_order_def Let_def hlc_order less_eq_prod_def)


section \<open>Labels after a round\<close>

context last_write_wins
begin

text \<open>
  A store that sends what the other lacks, and takes back what it lacks of the answer, ends with the
  versions the other holds.
\<close>

lemma delta_exchange_converges:
  assumes ok: "intact s" "intact t" "\<forall>v \<in> set vs. good v" "\<forall>v \<in> set us. good v"
    and sent: "\<And>k v. held s k = Some v \<Longrightarrow> v \<in> set vs \<or> (\<exists>w. held t k = Some w \<and> stamp v \<le> stamp w)"
      "\<And>v. v \<in> set vs \<Longrightarrow> held s (key v) = Some v"
    and answered: "\<And>k v. held (fold merge vs t) k = Some v \<Longrightarrow> v \<in> set us \<or> (\<exists>w. held s k = Some w \<and> stamp v \<le> stamp w)"
      "\<And>v. v \<in> set us \<Longrightarrow> held (fold merge vs t) (key v) = Some v"
    and one: "\<And>k v w. held s k = Some v \<Longrightarrow> held t k = Some w \<Longrightarrow> stamp v = stamp w \<Longrightarrow> v = w"
  shows "held (fold merge us s) k = held (fold merge vs t) k"
proof -
  note a = run_holds_newest [OF ok(1) ok(4), of k] and b = run_holds_newest [OF ok(2) ok(3), of k]
  have below: "\<exists>w. held (fold merge vs t) k = Some w \<and> stamp v \<le> stamp w" if v: "held s k = Some v" for v
  proof -
    have "v \<in> known t (set vs) k \<or> (\<exists>w \<in> known t (set vs) k. stamp v \<le> stamp w)"
      using sent(1) [OF v] held_key [OF ok(1) v] by (auto simp: known_def)
    then obtain w where w: "w \<in> known t (set vs) k" "stamp v \<le> stamp w" by blast
    then obtain x where "held (fold merge vs t) k = Some x" using b by (cases "held (fold merge vs t) k") auto
    then show ?thesis using b w by (meson order_trans)
  qed
  show ?thesis
  proof (cases "held (fold merge vs t) k")
    case None
    have "held s k = None" using below None by (cases "held s k") auto
    then have "known s (set us) k = {}" using answered(2) None by (auto simp: known_def)
    then show ?thesis using a None by simp
  next
    case (Some y)
    have "\<exists>w \<in> known s (set us) k. stamp y \<le> stamp w"
      using answered(1) [OF Some] held_key [OF intact_run [OF ok(2,3)] Some] by (auto simp: known_def)
    then obtain x where x: "held (fold merge us s) k = Some x" "x \<in> known s (set us) k" "stamp y \<le> stamp x"
      using a by (cases "held (fold merge us s) k") (auto dest: order_trans)
    show ?thesis
    proof (cases "x \<in> set us \<and> key x = k")
      case True
      then show ?thesis using answered(2) x(1) by auto
    next
      case False
      then have own: "held s k = Some x" using x(2) by (auto simp: known_def)
      then have same: "stamp y = stamp x" using below [OF own] Some x(3) by auto
      have "y \<in> known t (set vs) k" using b Some by blast
      then have "y = x" using own one [OF own, of y] sent(2) [of y] same by (auto simp: known_def)
      then show ?thesis using Some x(1) by simp
    qed
  qed
qed

end

lemma put_in_labels: "put_in r n = (n', err) \<Longrightarrow> nd_labels n' = nd_labels n"
  by (auto simp: put_in_def split: sum.splits)

lemma requester_row_labels: "requester_row cfg clock s n = (n', err) \<Longrightarrow> nd_labels n' = nd_labels n"
  by (auto simp: requester_row_def receive_stamp_def Let_def dest!: put_in_labels split: if_splits sum.splits)

lemma requester_metadata_labels:
  "requester_metadata cfg clock current kept s metadata n = (n', err) \<Longrightarrow> nd_labels n' = nd_labels n"
  by (auto simp: requester_metadata_def fresh_stamp_def Let_def dest!: put_in_labels split: if_splits sum.splits prod.splits)

lemma requester_record_labels: "requester_record cfg clock item n = (n', outcome) \<Longrightarrow> nd_labels n' = nd_labels n"
  by (auto simp: requester_record_def Let_def dest!: requester_row_labels requester_metadata_labels
      split: if_splits sum.splits prod.splits option.splits)

fun labels_of :: "inbound_item list \<Rightarrow> shared_label list" where
  "labels_of [] = []"
| "labels_of (InLabel l # items) = l # labels_of items"
| "labels_of (item # items) = labels_of items"

lemma set_labels_of: "set (labels_of items) = {l. InLabel l \<in> set items}"
  by (induction items rule: labels_of.induct) auto

lemma labels_of_append: "labels_of (xs @ ys) = labels_of xs @ labels_of ys"
  by (induction xs rule: labels_of.induct) auto

lemma requester_item_labels:
  assumes "labels_intact (nd_labels n)" "requester_item cfg clock item n = (n', outcome)"
  shows "nd_labels n' = fold land_label (labels_of [item]) (nd_labels n)"
proof (cases item)
  case (InRecord r)
  then show ?thesis using assms(2) requester_record_labels by simp
next
  case (InLabel l)
  obtain m err where m: "apply_label cfg clock l n = (m, err)" by fastforce
  then show ?thesis using apply_label_lands [OF assms(1) m] assms(2) InLabel by simp
next
  case (InAppRow e)
  then show ?thesis using assms(2) by (auto simp: receive_stamp_def Let_def split: option.splits sum.splits)
qed

lemma land_labels_intact: "labels_intact t \<Longrightarrow> list_all label_storable ls \<Longrightarrow> labels_intact (fold land_label ls t)"
  by (rule label_rows.intact_run) (auto simp: list_all_iff)

lemma requester_items_labels:
  assumes "node_sound cfg n" "list_all item_storable items" "requester_items cfg clocks i items n = (n', flags, err)"
  shows "nd_labels n' = fold land_label (labels_of items) (nd_labels n)"
  using assms
proof (induction items arbitrary: i n n' flags err)
  case Nil
  then show ?case by simp
next
  case (Cons item items i n n' flags err)
  obtain m outcome where m: "requester_item cfg (clocks i) item n = (m, outcome)" by fastforce
  have step: "good_step cfg n m" "\<And>e. outcome \<noteq> ExchangeAborted e"
    using requester_item_step [OF Cons.prems(1) _ m] Cons.prems(2) by simp_all
  obtain w flags' err' where w: "requester_items cfg clocks (i + 1) items m = (w, flags', err')" by (metis prod_cases3)
  have out: "n' = w" using Cons.prems(3) step(2) by (cases outcome; simp add: m w [simplified])
  have "nd_labels w = fold land_label (labels_of items) (nd_labels m)"
    using Cons.IH [OF _ _ w] Cons.prems(2) step(1) by (simp add: good_step_def)
  moreover have "nd_labels m = fold land_label (labels_of [item]) (nd_labels n)"
    using requester_item_labels [OF _ m] Cons.prems(1) by (simp add: node_sound_def)
  ultimately show ?case using labels_of_append [of "[item]" items] out by simp
qed

lemma requester_groups_labels:
  assumes "node_sound cfg n" "\<forall>(author, items) \<in> set groups. list_all item_storable items"
    and "requester_groups cfg clocks i groups n = (n', runs, err)"
  shows "nd_labels n' = fold land_label (labels_of (concat (map snd groups))) (nd_labels n)"
  using assms
proof (induction groups arbitrary: i n n' runs err)
  case Nil
  then show ?case by simp
next
  case (Cons group groups i n n' runs err)
  obtain author items where group: "group = (author, items)" by (cases group)
  obtain m flags err1 where m: "requester_items cfg clocks i items n = (m, flags, err1)" by (metis prod_cases3)
  have ok: "list_all item_storable items" using Cons.prems(2) group by simp
  note step = requester_items_step [OF Cons.prems(1) ok m] and labels = requester_items_labels [OF Cons.prems(1) ok m]
  obtain w runs' err2 where w: "requester_groups cfg clocks (i + length items) groups m = (w, runs', err2)" by (metis prod_cases3)
  have "n' = w" using Cons.prems(3) m w step by (simp add: group)
  moreover have "nd_labels w = fold land_label (labels_of (concat (map snd groups))) (nd_labels m)"
    using Cons.IH [OF _ _ w] Cons.prems(2) step by (simp add: good_step_def)
  ultimately show ?case using labels by (simp add: group labels_of_append)
qed

lemma responder_record_labels: "responder_record cfg keep clock item n = (n', err) \<Longrightarrow> nd_labels n' = nd_labels n"
proof -
  have row: "responder_row cfg keep clock current s n = (n', res) \<Longrightarrow> nd_labels n' = nd_labels n" for current s n n' res
    by (auto simp: responder_row_def receive_stamp_def fresh_stamp_def Let_def split: option.splits if_splits sum.splits prod.splits)
  have metadata: "responder_metadata current kept s metadata n = (n', err) \<Longrightarrow> nd_labels n' = nd_labels n" for current kept s metadata n n' err
    by (auto simp: responder_metadata_def Let_def split: if_splits sum.splits)
  show "responder_record cfg keep clock item n = (n', err) \<Longrightarrow> nd_labels n' = nd_labels n"
    by (auto simp: responder_record_def dest!: row metadata put_in_labels split: if_splits sum.splits prod.splits option.splits)
qed

lemma responder_records_labels: "responder_records cfg keep clocks halted i rs n = (n', err) \<Longrightarrow> nd_labels n' = nd_labels n"
  by (induction rs arbitrary: i n) (auto dest: responder_record_labels split: if_splits prod.splits option.splits)

lemma responder_labels_land:
  assumes "node_sound cfg n" "list_all label_storable ls" "responder_labels cfg clocks [] i ls n = (n', err)"
  shows "nd_labels n' = fold land_label ls (nd_labels n)"
  using assms
proof (induction ls arbitrary: i n)
  case Nil
  then show ?case by simp
next
  case (Cons l ls i n)
  obtain m e where m: "apply_label cfg (clocks i) l n = (m, e)" by fastforce
  have step: "good_step cfg n m \<and> e = None \<and> label_settled m l"
    using apply_label_step [OF Cons.prems(1) _ m] Cons.prems(2) by simp
  have "nd_labels n' = fold land_label ls (nd_labels m)"
    using Cons.IH [of m "i + 1"] Cons.prems m step by (simp add: good_step_def)
  then show ?case using apply_label_lands(1) [OF _ m] Cons.prems(1) by (simp add: node_sound_def)
qed

lemma responder_app_labels:
  "responder_app_run cfg clocks i es n = (n', stopped) \<Longrightarrow> nd_labels n' = nd_labels n"
  "responder_app_groups cfg clocks i groups n = (n', halted) \<Longrightarrow> nd_labels n' = nd_labels n"
proof -
  show run: "responder_app_run cfg clocks i es n = (n', stopped) \<Longrightarrow> nd_labels n' = nd_labels n" for i es n n' stopped
    by (induction es arbitrary: i n) (fastforce simp: receive_stamp_def Let_def split: option.splits if_splits sum.splits)+
  show "responder_app_groups cfg clocks i groups n = (n', halted) \<Longrightarrow> nd_labels n' = nd_labels n"
    by (induction groups arbitrary: i n halted) (auto dest!: run split: prod.splits)
qed

lemma label_held_storable: "labels_intact t \<Longrightarrow> label_held t k = Some l \<Longrightarrow> label_storable l"
  by (auto simp: labels_intact_def label_held_find find_Some_iff list_all_iff)

text \<open>
  C6. One round makes two nodes agree on labels. When a request carries the labels of the requester
  that the responder does not hold in that version or a newer one, the responder halts no author and
  nothing throws, and its response carries the labels it then holds that the requester lacks, both
  label tables hold the same label under every key, whatever else the round ships. Retractions are
  labels too, so a retracted label ends retracted on both.
\<close>

theorem one_round_makes_labels_agree:
  assumes sound: "node_sound here a" "node_sound there b"
    and records_ok: "list_all (\<lambda>r. storable (fst r)) (rq_records rq)" "list_all (\<lambda>r. storable (fst r)) records_in"
    and request: "\<forall>k l. label_held (nd_labels a) k = Some l \<longrightarrow> l \<in> set (rq_labels rq) \<or> label_settled b l"
      "\<forall>l \<in> set (rq_labels rq). label_held (nd_labels a) (key_of_label l) = Some l"
    and responder: "responder_apply there keep clocks True rq b = (b', [], None)"
    and response: "\<forall>k l. label_held (nd_labels b') k = Some l \<longrightarrow> l \<in> set labels_in \<or> label_settled a l"
      "\<forall>l \<in> set labels_in. label_held (nd_labels b') (key_of_label l) = Some l"
    and requester: "requester_inbound here clocks' True records_in labels_in rows_in a = (a', runs, err)"
    and one_version: "\<forall>k l l'. label_held (nd_labels a) k = Some l \<longrightarrow> label_held (nd_labels b) k = Some l'
      \<longrightarrow> sl_updatedAt l = sl_updatedAt l' \<longrightarrow> l = l'"
  shows "label_held (nd_labels a') k = label_held (nd_labels b') k"
proof -
  have intact: "labels_intact (nd_labels a)" "labels_intact (nd_labels b)" using sound by (simp_all add: node_sound_def)
  have vs: "\<forall>l \<in> set (rq_labels rq). label_storable l" using request(2) label_held_storable [OF intact(1)] by blast
  obtain c h where c: "responder_app_rows there clocks (rq_appRows rq) b = (c, h)" by fastforce
  define i where "i = length (rq_appRows rq)"
  obtain d e where d: "responder_records there keep clocks h i (js_sort authored_order (rq_records rq)) c = (d, e)" by fastforce
  have h: "h = []" and e: "e = None"
    using responder c d by (auto simp: responder_apply_def i_def [symmetric] split: prod.splits option.splits)
  have c_step: "good_step there b c" "nd_labels c = nd_labels b"
    using responder_app_groups_step [OF sound(2)] responder_app_labels(2) c by (simp_all add: responder_app_rows_def)
  have "list_all (\<lambda>r. storable (fst r)) (js_sort authored_order (rq_records rq))"
    using records_ok(1) by (simp add: list_all_iff by_authored_order.set_js_sort)
  then have "good_step there c d" using responder_records_step [OF _ _ d] c_step(1) by (simp add: good_step_def)
  then have d_step: "node_sound there d" "nd_labels d = nd_labels b"
    using responder_records_labels [OF d] c_step(2) by (simp_all add: good_step_def)
  have "responder_labels there clocks [] (i + length (rq_records rq)) (rq_labels rq) d = (b', None)"
    using responder c d h e by (auto simp: responder_apply_def i_def [symmetric] split: prod.splits)
  then have there: "nd_labels b' = fold land_label (rq_labels rq) (nd_labels b)"
    using responder_labels_land [OF d_step(1)] vs d_step(2) by (simp add: list_all_iff)
  have b': "labels_intact (nd_labels b')" unfolding there using land_labels_intact [OF intact(2)] vs by (simp add: list_all_iff)
  have us: "\<forall>l \<in> set labels_in. label_storable l" using response(2) label_held_storable [OF b'] by blast
  let ?items = "inbound_items True records_in labels_in rows_in"
  let ?groups = "groupInboundByNodeId inbound_hlc ?items"
  let ?us = "labels_of (concat (map snd ?groups))"
  have "set (concat (map snd ?groups)) = set ?items" by (rule grouped_rows)
  then have set_us: "set ?us = set labels_in" unfolding set_labels_of by (auto simp: inbound_items_def)
  have "list_all item_storable ?items" using records_ok(2) us by (auto simp: inbound_items_def list_all_iff)
  then have "\<forall>(author, items) \<in> set ?groups. list_all item_storable items"
    using group_set [of _ _ inbound_hlc ?items] by (fastforce simp: list_all_iff)
  then have this_side: "nd_labels a' = fold land_label ?us (nd_labels a)"
    using requester_groups_labels [OF sound(1)] requester by (simp add: requester_inbound_def inbound_items_def)
  have us': "\<forall>l \<in> set ?us. label_storable l" using us unfolding set_us .
  show ?thesis
    unfolding this_side there
  proof (rule label_rows.delta_exchange_converges [OF intact vs us'])
    show "l \<in> set (rq_labels rq) \<or> (\<exists>w. label_held (nd_labels b) k = Some w \<and> sl_updatedAt l \<le> sl_updatedAt w)"
      if "label_held (nd_labels a) k = Some l" for k l
      using request(1) [rule_format, OF that] label_held_key [OF intact(1) that] by (simp add: label_settled_def)
    show "label_held (nd_labels a) (key_of_label l) = Some l" if "l \<in> set (rq_labels rq)" for l using request(2) that by blast
    show "l \<in> set ?us \<or> (\<exists>w. label_held (nd_labels a) k = Some w \<and> sl_updatedAt l \<le> sl_updatedAt w)"
      if "label_held (fold land_label (rq_labels rq) (nd_labels b)) k = Some l" for k l
    proof -
      have held: "label_held (nd_labels b') k = Some l" using that by (simp add: there)
      then show ?thesis using response(1) [rule_format, OF held] label_held_key [OF b' held] by (simp add: label_settled_def set_us)
    qed
    show "label_held (fold land_label (rq_labels rq) (nd_labels b)) (key_of_label l) = Some l" if "l \<in> set ?us" for l
      using response(2) that unfolding set_us there by blast
    show "l = l'" if "label_held (nd_labels a) k = Some l" "label_held (nd_labels b) k = Some l'" "sl_updatedAt l = sl_updatedAt l'" for k l l'
      using one_version that by blast
  qed
qed

section \<open>Sample rounds\<close>

definition sample_node_config :: node_config where
  "sample_node_config = \<lparr>nc_node = ''c'', nc_codec = (\<lambda>_. [], \<lambda>_. None),
     nc_env = \<lparr>env_labels = [], env_image_captured = [], env_video_captured = []\<rparr>, nc_namespaces = None\<rparr>"

definition sample_empty_node :: shared_node where
  "sample_empty_node = \<lparr>nd_records = [], nd_labels = [], nd_metadata = [], nd_apps = [], nd_clock = createHLCClock None\<rparr>"

definition plain_record :: "string \<Rightarrow> string \<Rightarrow> hlc \<Rightarrow> data_record" where
  "plain_record i h t = \<lparr>rec_id = i, rec_type = ''image/jpeg'', createdAt = t, updatedAt = t, deletedAt = None, rec_version = 1,
     contentHash = h, objectStorageKey = h, mimeType = None, rec_sizeBytes = 1, originalFilename = None, originAppId = ''photos'',
     parentId = None, standInRole = None, fidelity = None, canonicalThreshold = None, selfCanonical = False\<rparr>"

definition plain_label :: "string \<Rightarrow> hlc \<Rightarrow> shared_label" where
  "plain_label i t = \<lparr>sl_recordId = i, sl_appId = ''photos'', sl_key = ''faces'', sl_value = ''Ann'', sl_recordType = ''image/jpeg'',
     sl_createdAt = t, sl_updatedAt = t, sl_nodeId = nodeId t, sl_deletedAt = None\<rparr>"

definition sample_inbound :: inbound_request where
  "sample_inbound = \<lparr>rq_records = [(plain_record ''r4'' ''h4'' (HLC 4 0 ''a''), None)],
     rq_labels = [plain_label ''r4'' (HLC 3 0 ''a'')], rq_appRows = []\<rparr>"

lemma sample_storable:
  "storable (plain_record i h (HLC w m ''a''))" "label_storable (plain_label i (HLC w m ''a''))"
  by (simp_all add: storable_def label_storable_def plain_record_def plain_label_def)

lemma labels_intact_list: "distinct (map key_of_label ls) \<Longrightarrow> list_all label_storable ls \<Longrightarrow> labels_intact (map labelToRow ls)"
  by (auto simp: labels_intact_def)

lemma sample_sound:
  "node_sound sample_node_config sample_empty_node"
  "node_sound sample_node_config (sample_empty_node\<lparr>nd_labels := [labelToRow (plain_label ''r4'' (HLC 3 0 ''a''))]\<rparr>)"
  using labels_intact_list [of "[]"] labels_intact_list [of "[plain_label ''r4'' (HLC 3 0 ''a'')]"] sample_storable(2)
  by (simp_all add: node_sound_def sample_node_config_def sample_empty_node_def slot_table_def table_ok_def unique_on_def clock_above_def)


definition sample_responder :: "shared_node \<times> string list \<times> exchange_error option" where
  "sample_responder = responder_apply sample_node_config (\<lambda>_ _. False) (\<lambda>_ _. 9) True sample_inbound sample_empty_node"

lemma sample_responder_lands:
  "snd sample_responder = ([], None)" "nd_labels (fst sample_responder) = [labelToRow (plain_label ''r4'' (HLC 3 0 ''a''))]"
  by code_simp+


lemma one_round_makes_labels_agree_witness:
  "\<exists>a' runs err. requester_inbound sample_node_config (\<lambda>_ _. 9) True [] [] []
        (sample_empty_node\<lparr>nd_labels := [labelToRow (plain_label ''r4'' (HLC 3 0 ''a''))]\<rparr>) = (a', runs, err)
     \<and> (\<forall>k. label_held (nd_labels a') k = label_held (nd_labels (fst sample_responder)) k)"
proof -
  let ?l = "plain_label ''r4'' (HLC 3 0 ''a'')"
  let ?a = "sample_empty_node\<lparr>nd_labels := [labelToRow ?l]\<rparr>"
  have run: "responder_apply sample_node_config (\<lambda>_ _. False) (\<lambda>_ _. 9) True sample_inbound sample_empty_node = (fst sample_responder, [], None)"
    using sample_responder_lands(1) by (simp add: sample_responder_def prod_eq_iff)
  have held: "label_held [labelToRow ?l] k = (if k = key_of_label ?l then Some ?l else None)" for k
    using label_held_find [of "[labelToRow ?l]" "[?l]" k] sample_storable(2) by simp
  have none: "label_held [] k = None" for k using label_held_find [of "[]" "[]" k] by simp
  obtain a' runs err where answer: "requester_inbound sample_node_config (\<lambda>_ _. 9) True [] [] [] ?a = (a', runs, err)"
    by (metis prod_cases3)
  have "label_held (nd_labels a') k = label_held (nd_labels (fst sample_responder)) k" for k
    by (rule one_round_makes_labels_agree [OF sample_sound(2,1) _ _ _ _ run _ _ answer])
      (use sample_storable(1) in \<open>simp_all add: sample_inbound_def sample_responder_lands(2) held none sample_empty_node_def label_settled_def\<close>)
  then show ?thesis using answer by blast
qed

text \<open>
  A put that throws ends the exchange with the earlier records of the request applied and none of its
  labels: the coverage of that author then reaches over the label, which no later scan ships.
\<close>

lemma aborted_exchange_covers_a_lost_label:
  "case responder_apply sample_node_config (\<lambda>_ _. False) (\<lambda>_ _. 9) True
       (sample_inbound\<lparr>rq_records := [(plain_record ''r4'' ''h4'' (HLC 4 0 ''a''), None), (plain_record ''r5'' ''h4'' (HLC 5 0 ''a''), None)]\<rparr>)
       sample_empty_node of
     (n', halted, err) \<Rightarrow> err = Some (RecordRefused UniqueFile) \<and> halted = [] \<and> nd_labels n' = []
       \<and> nd_records n' = [recordToRow (plain_record ''r4'' ''h4'' (HLC 4 0 ''a''))]
       \<and> covers (shared_coverage [plain_record ''r4'' ''h4'' (HLC 4 0 ''a'')] []) (sl_updatedAt (plain_label ''r4'' (HLC 3 0 ''a'')))"
  by code_simp

end
