(* ===== verification/Upload_Queue.thy ===== *)
theory Upload_Queue
  imports Watermarks Record_Store
begin

text \<open>
  The uploader's own tables: what is queued, what was sent, how far discovery has read
  (\<open>packages/sync-engine/src/upload-queue-store.ts\<close>). The source has the store twice, in memory
  (\<open>createMemoryUploadQueueStore\<close>) and in SQLite (\<open>createSqliteUploadQueueStore\<close>, whose rows carry
  the channel of their engine), and so does the model; an operation of the interface is an \<open>upload_op\<close>.

  The lemmas show that the SQLite store answers as the in-memory one does, channel by channel, and
  name the two operations where it does not.
\<close>

section \<open>Entries\<close>

datatype upload_tier = Fast | Full

datatype upload_entry_state = Ready | BlockedNotHeld

record queued_file =
  qf_key :: string
  qf_hlc :: hlc
  qf_recordId :: "string option"
  qf_itemId :: string
  qf_sizeBytes :: nat
  qf_fileHash :: string
  qf_mimeType :: "string option"
  qf_tier :: upload_tier

record upload_queue_entry = queued_file +
  qe_attempts :: nat
  qe_nextAttemptAt :: nat
  qe_lastError :: "string option"
  qe_state :: upload_entry_state
  qe_front :: bool

record upload_sent_entry = queued_file +
  qs_sentAt :: nat

record open_upload_batch =
  ob_id :: string
  ob_startedAt :: nat
  ob_items :: nat

record upload_tier_totals =
  tt_count :: nat
  tt_bytes :: nat

record upload_queue_totals =
  ut_fast :: upload_tier_totals
  ut_full :: upload_tier_totals
  ut_blocked :: upload_tier_totals
  ut_backingOff :: nat

datatype upload_op =
    Enqueue queued_file
  | EnqueueFront queued_file
  | Remove string
  | RecordFailure string nat nat string
  | SetState string upload_entry_state
  | MarkSent string nat
  | RequeueSent string
  | DropSentAbove string "hlc option"
  | PruneSent string hlc
  | SetCursor string "hlc option"
  | SetSeenCloud watermarks
  | SetRescan string "hlc option"
  | OpenBatch open_upload_batch
  | CloseBatch string

definition fileOf :: "'a queued_file_scheme \<Rightarrow> queued_file" where
  "fileOf e = queued_file.truncate e"

definition entry_of :: "queued_file \<Rightarrow> nat \<Rightarrow> nat \<Rightarrow> string option \<Rightarrow> upload_entry_state \<Rightarrow> bool \<Rightarrow> upload_queue_entry" where
  "entry_of f attempts nextAttemptAt lastError state front =
     queued_file.extend f (upload_queue_entry.fields attempts nextAttemptAt lastError state front)"

definition sent_of :: "queued_file \<Rightarrow> nat \<Rightarrow> upload_sent_entry" where
  "sent_of f sentAt = queued_file.extend f (upload_sent_entry.fields sentAt)"

section \<open>In memory\<close>

record memory_store =
  mq_queue :: "(string, upload_queue_entry) js_map"
  mq_sent :: "(string, upload_sent_entry) js_map"
  mq_cursor :: watermarks
  mq_rescan :: watermarks
  mq_seen :: watermarks
  mq_batches :: "(string, open_upload_batch) js_map"

definition empty_memory :: memory_store where
  "empty_memory = \<lparr>mq_queue = [], mq_sent = [], mq_cursor = [], mq_rescan = [], mq_seen = [], mq_batches = []\<rparr>"

definition mem_enqueue :: "queued_file \<Rightarrow> memory_store \<Rightarrow> memory_store" where
  "mem_enqueue f s =
     (case js_get (mq_queue s) (qf_key f) of
        None \<Rightarrow> s\<lparr>mq_queue := js_set (qf_key f) (entry_of f 0 0 None Ready False) (mq_queue s)\<rparr>
      | Some current \<Rightarrow>
          if compareHLC (qf_hlc current) (qf_hlc f) > 0 then s
          else s\<lparr>mq_queue := js_set (qf_key f)
                   (entry_of f (qe_attempts current) (qe_nextAttemptAt current) (qe_lastError current) Ready (qe_front current))
                   (mq_queue s)\<rparr>)"

definition mem_enqueueFront :: "queued_file \<Rightarrow> memory_store \<Rightarrow> memory_store" where
  "mem_enqueueFront f s =
     (let e = (case js_get (mq_queue s) (qf_key f) of
                 None \<Rightarrow> entry_of f 0 0 None Ready True
               | Some current \<Rightarrow> entry_of (fileOf current) (qe_attempts current) 0 (qe_lastError current) Ready True)
      in s\<lparr>mq_queue := js_set (qf_key f) e (mq_queue s)\<rparr>)"

definition mem_remove :: "string \<Rightarrow> memory_store \<Rightarrow> memory_store" where
  "mem_remove key s = s\<lparr>mq_queue := js_delete key (mq_queue s)\<rparr>"

definition mem_update :: "string \<Rightarrow> (upload_queue_entry \<Rightarrow> upload_queue_entry) \<Rightarrow> memory_store \<Rightarrow> memory_store" where
  "mem_update key f s =
     (case js_get (mq_queue s) key of
        None \<Rightarrow> s
      | Some e \<Rightarrow> s\<lparr>mq_queue := js_set key (f e) (mq_queue s)\<rparr>)"

definition mem_recordFailure :: "string \<Rightarrow> nat \<Rightarrow> nat \<Rightarrow> string \<Rightarrow> memory_store \<Rightarrow> memory_store" where
  "mem_recordFailure key attempts nextAttemptAt lastError =
     mem_update key (\<lambda>e. e\<lparr>qe_attempts := attempts, qe_nextAttemptAt := nextAttemptAt, qe_lastError := Some lastError, qe_front := False\<rparr>)"

definition mem_setState :: "string \<Rightarrow> upload_entry_state \<Rightarrow> memory_store \<Rightarrow> memory_store" where
  "mem_setState key state = mem_update key (\<lambda>e. e\<lparr>qe_state := state\<rparr>)"

definition mem_markSent :: "string \<Rightarrow> nat \<Rightarrow> memory_store \<Rightarrow> memory_store" where
  "mem_markSent key sentAt s =
     (case js_get (mq_queue s) key of
        None \<Rightarrow> s
      | Some e \<Rightarrow> s\<lparr>mq_queue := js_delete key (mq_queue s), mq_sent := js_set key (sent_of (fileOf e) sentAt) (mq_sent s)\<rparr>)"

definition mem_requeueSent :: "string \<Rightarrow> memory_store \<Rightarrow> memory_store" where
  "mem_requeueSent key s =
     (case js_get (mq_sent s) key of
        None \<Rightarrow> s
      | Some e \<Rightarrow> s\<lparr>mq_sent := js_delete key (mq_sent s), mq_queue := js_set key (entry_of (fileOf e) 0 0 None Ready True) (mq_queue s)\<rparr>)"

definition mem_dropSentAbove :: "string \<Rightarrow> hlc option \<Rightarrow> memory_store \<Rightarrow> memory_store" where
  "mem_dropSentAbove author h s =
     s\<lparr>mq_sent := filter (\<lambda>(key, e). \<not> (nodeId (qf_hlc e) = author
         \<and> (case h of None \<Rightarrow> True | Some t \<Rightarrow> compareHLC (qf_hlc e) t > 0))) (mq_sent s)\<rparr>"

definition mem_pruneSent :: "string \<Rightarrow> hlc \<Rightarrow> memory_store \<Rightarrow> memory_store" where
  "mem_pruneSent author h s =
     s\<lparr>mq_sent := filter (\<lambda>(key, e). \<not> (nodeId (qf_hlc e) = author \<and> compareHLC (qf_hlc e) h \<le> 0)) (mq_sent s)\<rparr>"

definition set_mark :: "string \<Rightarrow> hlc option \<Rightarrow> watermarks \<Rightarrow> watermarks" where
  "set_mark author h w = (case h of None \<Rightarrow> js_delete author w | Some t \<Rightarrow> js_set author t w)"

fun mem_apply :: "upload_op \<Rightarrow> memory_store \<Rightarrow> memory_store" where
  "mem_apply (Enqueue f) s = mem_enqueue f s"
| "mem_apply (EnqueueFront f) s = mem_enqueueFront f s"
| "mem_apply (Remove key) s = mem_remove key s"
| "mem_apply (RecordFailure key attempts nextAt err) s = mem_recordFailure key attempts nextAt err s"
| "mem_apply (SetState key state) s = mem_setState key state s"
| "mem_apply (MarkSent key sentAt) s = mem_markSent key sentAt s"
| "mem_apply (RequeueSent key) s = mem_requeueSent key s"
| "mem_apply (DropSentAbove author h) s = mem_dropSentAbove author h s"
| "mem_apply (PruneSent author h) s = mem_pruneSent author h s"
| "mem_apply (SetCursor author h) s = s\<lparr>mq_cursor := set_mark author h (mq_cursor s)\<rparr>"
| "mem_apply (SetSeenCloud w) s = s\<lparr>mq_seen := w\<rparr>"
| "mem_apply (SetRescan author h) s = s\<lparr>mq_rescan := set_mark author h (mq_rescan s)\<rparr>"
| "mem_apply (OpenBatch b) s = s\<lparr>mq_batches := js_set (ob_id b) b (mq_batches s)\<rparr>"
| "mem_apply (CloseBatch i) s = s\<lparr>mq_batches := js_delete i (mq_batches s)\<rparr>"

definition mem_get :: "string \<Rightarrow> memory_store \<Rightarrow> upload_queue_entry option" where
  "mem_get key s = js_get (mq_queue s) key"

definition mem_sent :: "string \<Rightarrow> memory_store \<Rightarrow> upload_sent_entry option" where
  "mem_sent key s = js_get (mq_sent s) key"

definition mem_sentCount :: "memory_store \<Rightarrow> nat" where
  "mem_sentCount s = length (mq_sent s)"

definition schedule_cmp :: "upload_tier \<Rightarrow> upload_queue_entry \<Rightarrow> upload_queue_entry \<Rightarrow> int" where
  "schedule_cmp tier a b =
     (if qe_front a \<noteq> qe_front b then (if qe_front a then -1 else 1)
      else if tier = Fast then compareHLC (qf_hlc b) (qf_hlc a) else compareHLC (qf_hlc a) (qf_hlc b))"

definition due_entry :: "upload_tier \<Rightarrow> nat \<Rightarrow> upload_queue_entry \<Rightarrow> bool" where
  "due_entry tier now e \<longleftrightarrow> qf_tier e = tier \<and> qe_state e = Ready \<and> qe_nextAttemptAt e \<le> now"

definition mem_nextReady :: "upload_tier \<Rightarrow> nat \<Rightarrow> nat \<Rightarrow> memory_store \<Rightarrow> upload_queue_entry list" where
  "mem_nextReady tier now limit s =
     take limit (js_sort (schedule_cmp tier) (filter (due_entry tier now) (js_values (mq_queue s))))"

definition earlier_due :: "nat \<Rightarrow> nat option \<Rightarrow> nat option" where
  "earlier_due n earliest = (case earliest of None \<Rightarrow> Some n | Some m \<Rightarrow> if n < m then Some n else Some m)"

definition mem_nextDueAt :: "nat \<Rightarrow> memory_store \<Rightarrow> nat option" where
  "mem_nextDueAt now s =
     fold (\<lambda>e earliest. if qe_state e \<noteq> Ready \<or> qe_nextAttemptAt e \<le> now then earliest else earlier_due (qe_nextAttemptAt e) earliest)
       (js_values (mq_queue s)) None"

definition key_cmp :: "string \<Rightarrow> string \<Rightarrow> int" where
  "key_cmp a b = (if a < b then -1 else if a > b then 1 else 0)"

definition mem_blocked :: "string option \<Rightarrow> nat \<Rightarrow> memory_store \<Rightarrow> upload_queue_entry list" where
  "mem_blocked afterKey limit s =
     take limit (js_sort (\<lambda>a b. key_cmp (qf_key a) (qf_key b))
       (filter (\<lambda>e. qe_state e = BlockedNotHeld \<and> (case afterKey of None \<Rightarrow> True | Some k \<Rightarrow> qf_key e > k)) (js_values (mq_queue s))))"

definition sum_entries :: "(upload_queue_entry \<Rightarrow> bool) \<Rightarrow> upload_queue_entry list \<Rightarrow> upload_tier_totals" where
  "sum_entries pick es =
     \<lparr>tt_count = length (filter pick es), tt_bytes = sum_list (map qf_sizeBytes (filter pick es))\<rparr>"

definition mem_totals :: "nat \<Rightarrow> memory_store \<Rightarrow> upload_queue_totals" where
  "mem_totals now s =
     (let es = js_values (mq_queue s)
      in \<lparr>ut_fast = sum_entries (\<lambda>e. qe_state e = Ready \<and> qf_tier e = Fast) es,
          ut_full = sum_entries (\<lambda>e. qe_state e = Ready \<and> qf_tier e = Full) es,
          ut_blocked = sum_entries (\<lambda>e. qe_state e = BlockedNotHeld) es,
          ut_backingOff = tt_count (sum_entries (\<lambda>e. qe_state e = Ready \<and> qe_nextAttemptAt e > now) es)\<rparr>)"

section \<open>In SQLite\<close>

text \<open>The columns of a file, shared by both tables.\<close>

record upload_file_columns =
  uf_channel :: string
  uf_key :: string
  uf_hlc :: string
  uf_author :: string
  uf_record_id :: "string option"
  uf_item_id :: string
  uf_size_bytes :: nat
  uf_file_hash :: string
  uf_mime_type :: "string option"
  uf_tier :: string

record upload_queue_row = upload_file_columns +
  uq_attempts :: nat
  uq_next_attempt_at :: nat
  uq_last_error :: "string option"
  uq_state :: string
  uq_front :: nat

record upload_sent_row = upload_file_columns +
  us_sent_at :: nat

record upload_cursor_row =
  uc_channel :: string
  uc_author :: string
  uc_cursor_hlc :: "string option"
  uc_seen_cloud_hlc :: "string option"
  uc_rescan_to_hlc :: "string option"

record upload_batch_row =
  ub_channel :: string
  ub_id :: string
  ub_started_at :: nat
  ub_items :: nat

record sqlite_store =
  sq_queue :: "upload_queue_row list"
  sq_sent :: "upload_sent_row list"
  sq_cursor :: "upload_cursor_row list"
  sq_batch :: "upload_batch_row list"

definition empty_sqlite :: sqlite_store where
  "empty_sqlite = \<lparr>sq_queue = [], sq_sent = [], sq_cursor = [], sq_batch = []\<rparr>"

fun tier_text :: "upload_tier \<Rightarrow> string" where
  "tier_text Fast = ''fast''"
| "tier_text Full = ''full''"

fun state_text :: "upload_entry_state \<Rightarrow> string" where
  "state_text Ready = ''ready''"
| "state_text BlockedNotHeld = ''blocked-not-held''"

definition fileParams :: "string \<Rightarrow> 'a queued_file_scheme \<Rightarrow> upload_file_columns" where
  "fileParams channel f =
     \<lparr>uf_channel = channel, uf_key = qf_key f, uf_hlc = serializeHLC (qf_hlc f), uf_author = nodeId (qf_hlc f),
      uf_record_id = qf_recordId f, uf_item_id = qf_itemId f, uf_size_bytes = qf_sizeBytes f,
      uf_file_hash = qf_fileHash f, uf_mime_type = qf_mimeType f, uf_tier = tier_text (qf_tier f)\<rparr>"

definition queue_row :: "upload_file_columns \<Rightarrow> nat \<Rightarrow> nat \<Rightarrow> string option \<Rightarrow> string \<Rightarrow> nat \<Rightarrow> upload_queue_row" where
  "queue_row c attempts next_attempt_at last_error state front =
     upload_file_columns.extend c (upload_queue_row.fields attempts next_attempt_at last_error state front)"

definition sent_file_row :: "upload_file_columns \<Rightarrow> nat \<Rightarrow> upload_sent_row" where
  "sent_file_row c sent_at = upload_file_columns.extend c (upload_sent_row.fields sent_at)"

definition file_pk :: "'a upload_file_columns_scheme \<Rightarrow> string \<times> string" where
  "file_pk r = (uf_channel r, uf_key r)"

definition read_file :: "'a upload_file_columns_scheme \<Rightarrow> js_error + queued_file" where
  "read_file r =
     (case read_timestamp (uf_hlc r) of
        Inl e \<Rightarrow> Inl e
      | Inr h \<Rightarrow> Inr \<lparr>qf_key = uf_key r, qf_hlc = h, qf_recordId = uf_record_id r, qf_itemId = uf_item_id r,
          qf_sizeBytes = uf_size_bytes r, qf_fileHash = uf_file_hash r, qf_mimeType = uf_mime_type r,
          qf_tier = (if uf_tier r = ''fast'' then Fast else Full)\<rparr>)"

definition toEntry :: "upload_queue_row \<Rightarrow> js_error + upload_queue_entry" where
  "toEntry r =
     map_sum id (\<lambda>f. entry_of f (uq_attempts r) (uq_next_attempt_at r) (uq_last_error r)
       (if uq_state r = ''ready'' then Ready else BlockedNotHeld) (uq_front r = 1)) (read_file r)"

definition toSent :: "upload_sent_row \<Rightarrow> js_error + upload_sent_entry" where
  "toSent r = map_sum id (\<lambda>f. sent_of f (us_sent_at r)) (read_file r)"

text \<open>The row a primary key selects, and \<open>insert ... on conflict (key) do update\<close>.\<close>

definition row_at :: "('r \<Rightarrow> 'k) \<Rightarrow> 'k \<Rightarrow> 'r list \<Rightarrow> 'r option" where
  "row_at pk k t = List.find (\<lambda>r. pk r = k) t"

definition upsert_into :: "('r \<Rightarrow> 'k) \<Rightarrow> ('r \<Rightarrow> 'r \<Rightarrow> 'r) \<Rightarrow> 'r \<Rightarrow> 'r list \<Rightarrow> 'r list" where
  "upsert_into pk combine new t =
     (if \<exists>r \<in> set t. pk r = pk new then map (\<lambda>r. if pk r = pk new then combine r new else r) t else t @ [new])"

definition update_where :: "('r \<Rightarrow> bool) \<Rightarrow> ('r \<Rightarrow> 'r) \<Rightarrow> 'r list \<Rightarrow> 'r list" where
  "update_where selects f t = map (\<lambda>r. if selects r then f r else r) t"

definition delete_where :: "('r \<Rightarrow> bool) \<Rightarrow> 'r list \<Rightarrow> 'r list" where
  "delete_where selects t = filter (\<lambda>r. \<not> selects r) t"

text \<open>The columns \<open>excluded\<close> overwrites when the stored version is no newer, as text.\<close>

definition enqueue_conflict :: "upload_queue_row \<Rightarrow> upload_queue_row \<Rightarrow> upload_queue_row" where
  "enqueue_conflict old new =
     (if uf_hlc old \<le> uf_hlc new
      then queue_row (upload_file_columns.truncate new) (uq_attempts old) (uq_next_attempt_at old) (uq_last_error old) ''ready'' (uq_front old)
      else old)"

definition front_conflict :: "upload_queue_row \<Rightarrow> upload_queue_row \<Rightarrow> upload_queue_row" where
  "front_conflict old new = old\<lparr>uq_state := ''ready'', uq_front := 1, uq_next_attempt_at := 0\<rparr>"

definition sql_enqueue :: "string \<Rightarrow> queued_file \<Rightarrow> sqlite_store \<Rightarrow> sqlite_store" where
  "sql_enqueue channel f s =
     s\<lparr>sq_queue := upsert_into file_pk enqueue_conflict (queue_row (fileParams channel f) 0 0 None ''ready'' 0) (sq_queue s)\<rparr>"

definition sql_enqueueFront :: "string \<Rightarrow> 'a queued_file_scheme \<Rightarrow> sqlite_store \<Rightarrow> sqlite_store" where
  "sql_enqueueFront channel f s =
     s\<lparr>sq_queue := upsert_into file_pk front_conflict (queue_row (fileParams channel f) 0 0 None ''ready'' 1) (sq_queue s)\<rparr>"

definition sql_remove :: "string \<Rightarrow> string \<Rightarrow> sqlite_store \<Rightarrow> sqlite_store" where
  "sql_remove channel key s = s\<lparr>sq_queue := delete_where (\<lambda>r. file_pk r = (channel, key)) (sq_queue s)\<rparr>"

definition sql_update :: "string \<Rightarrow> string \<Rightarrow> (upload_queue_row \<Rightarrow> upload_queue_row) \<Rightarrow> sqlite_store \<Rightarrow> sqlite_store" where
  "sql_update channel key f s = s\<lparr>sq_queue := update_where (\<lambda>r. file_pk r = (channel, key)) f (sq_queue s)\<rparr>"

definition sql_markSent :: "string \<Rightarrow> string \<Rightarrow> nat \<Rightarrow> sqlite_store \<Rightarrow> js_error + sqlite_store" where
  "sql_markSent channel key sentAt s =
     (case row_at file_pk (channel, key) (sq_queue s) of
        None \<Rightarrow> Inr s
      | Some r \<Rightarrow>
          (case toEntry r of
             Inl e \<Rightarrow> Inl e
           | Inr e \<Rightarrow> Inr (sql_remove channel key
               (s\<lparr>sq_sent := upsert_into file_pk (\<lambda>old new. new) (sent_file_row (fileParams channel e) sentAt) (sq_sent s)\<rparr>))))"

definition sql_requeueSent :: "string \<Rightarrow> string \<Rightarrow> sqlite_store \<Rightarrow> js_error + sqlite_store" where
  "sql_requeueSent channel key s =
     (case row_at file_pk (channel, key) (sq_sent s) of
        None \<Rightarrow> Inr s
      | Some r \<Rightarrow>
          (case toSent r of
             Inl e \<Rightarrow> Inl e
           | Inr e \<Rightarrow> Inr ((sql_enqueueFront channel e s)\<lparr>sq_sent := delete_where (\<lambda>r. file_pk r = (channel, key)) (sq_sent s)\<rparr>)))"

definition sql_dropSentAbove :: "string \<Rightarrow> string \<Rightarrow> hlc option \<Rightarrow> sqlite_store \<Rightarrow> sqlite_store" where
  "sql_dropSentAbove channel author h s =
     s\<lparr>sq_sent := delete_where (\<lambda>r. uf_channel r = channel \<and> uf_author r = author
         \<and> (case h of None \<Rightarrow> True | Some t \<Rightarrow> uf_hlc r > serializeHLC t)) (sq_sent s)\<rparr>"

definition sql_pruneSent :: "string \<Rightarrow> string \<Rightarrow> hlc \<Rightarrow> sqlite_store \<Rightarrow> sqlite_store" where
  "sql_pruneSent channel author h s =
     s\<lparr>sq_sent := delete_where (\<lambda>r. uf_channel r = channel \<and> uf_author r = author \<and> uf_hlc r \<le> serializeHLC h) (sq_sent s)\<rparr>"

definition cursor_pk :: "upload_cursor_row \<Rightarrow> string \<times> string" where
  "cursor_pk r = (uc_channel r, uc_author r)"

definition sql_setCursor :: "string \<Rightarrow> string \<Rightarrow> hlc option \<Rightarrow> sqlite_store \<Rightarrow> sqlite_store" where
  "sql_setCursor channel author h s =
     s\<lparr>sq_cursor := upsert_into cursor_pk (\<lambda>old new. old\<lparr>uc_cursor_hlc := uc_cursor_hlc new\<rparr>)
         \<lparr>uc_channel = channel, uc_author = author, uc_cursor_hlc = map_option serializeHLC h, uc_seen_cloud_hlc = None, uc_rescan_to_hlc = None\<rparr> (sq_cursor s)\<rparr>"

definition upsert_seen :: "string \<Rightarrow> string \<times> hlc \<Rightarrow> upload_cursor_row list \<Rightarrow> upload_cursor_row list" where
  "upsert_seen channel mark =
     upsert_into cursor_pk (\<lambda>old new. old\<lparr>uc_seen_cloud_hlc := uc_seen_cloud_hlc new\<rparr>)
       \<lparr>uc_channel = channel, uc_author = fst mark, uc_cursor_hlc = None, uc_seen_cloud_hlc = Some (serializeHLC (snd mark)), uc_rescan_to_hlc = None\<rparr>"

definition sql_setSeenCloud :: "string \<Rightarrow> watermarks \<Rightarrow> sqlite_store \<Rightarrow> sqlite_store" where
  "sql_setSeenCloud channel w s =
     s\<lparr>sq_cursor := fold (upsert_seen channel) w (update_where (\<lambda>r. uc_channel r = channel) (\<lambda>r. r\<lparr>uc_seen_cloud_hlc := None\<rparr>) (sq_cursor s))\<rparr>"

definition sql_setRescan :: "string \<Rightarrow> string \<Rightarrow> hlc option \<Rightarrow> sqlite_store \<Rightarrow> sqlite_store" where
  "sql_setRescan channel author h s =
     s\<lparr>sq_cursor := upsert_into cursor_pk (\<lambda>old new. old\<lparr>uc_rescan_to_hlc := uc_rescan_to_hlc new\<rparr>)
         \<lparr>uc_channel = channel, uc_author = author, uc_cursor_hlc = None, uc_seen_cloud_hlc = None, uc_rescan_to_hlc = map_option serializeHLC h\<rparr> (sq_cursor s)\<rparr>"

definition batch_pk :: "upload_batch_row \<Rightarrow> string \<times> string" where
  "batch_pk r = (ub_channel r, ub_id r)"

definition sql_openBatch :: "string \<Rightarrow> open_upload_batch \<Rightarrow> sqlite_store \<Rightarrow> sqlite_store" where
  "sql_openBatch channel b s =
     s\<lparr>sq_batch := upsert_into batch_pk (\<lambda>old new. old)
         \<lparr>ub_channel = channel, ub_id = ob_id b, ub_started_at = ob_startedAt b, ub_items = ob_items b\<rparr> (sq_batch s)\<rparr>"

definition sql_closeBatch :: "string \<Rightarrow> string \<Rightarrow> sqlite_store \<Rightarrow> sqlite_store" where
  "sql_closeBatch channel i s = s\<lparr>sq_batch := delete_where (\<lambda>r. batch_pk r = (channel, i)) (sq_batch s)\<rparr>"

fun sql_apply :: "string \<Rightarrow> upload_op \<Rightarrow> sqlite_store \<Rightarrow> js_error + sqlite_store" where
  "sql_apply channel (Enqueue f) s = Inr (sql_enqueue channel f s)"
| "sql_apply channel (EnqueueFront f) s = Inr (sql_enqueueFront channel f s)"
| "sql_apply channel (Remove key) s = Inr (sql_remove channel key s)"
| "sql_apply channel (RecordFailure key attempts nextAt err) s =
     Inr (sql_update channel key (\<lambda>r. r\<lparr>uq_attempts := attempts, uq_next_attempt_at := nextAt, uq_last_error := Some err, uq_front := 0\<rparr>) s)"
| "sql_apply channel (SetState key state) s = Inr (sql_update channel key (\<lambda>r. r\<lparr>uq_state := state_text state\<rparr>) s)"
| "sql_apply channel (MarkSent key sentAt) s = sql_markSent channel key sentAt s"
| "sql_apply channel (RequeueSent key) s = sql_requeueSent channel key s"
| "sql_apply channel (DropSentAbove author h) s = Inr (sql_dropSentAbove channel author h s)"
| "sql_apply channel (PruneSent author h) s = Inr (sql_pruneSent channel author h s)"
| "sql_apply channel (SetCursor author h) s = Inr (sql_setCursor channel author h s)"
| "sql_apply channel (SetSeenCloud w) s = Inr (sql_setSeenCloud channel w s)"
| "sql_apply channel (SetRescan author h) s = Inr (sql_setRescan channel author h s)"
| "sql_apply channel (OpenBatch b) s = Inr (sql_openBatch channel b s)"
| "sql_apply channel (CloseBatch i) s = Inr (sql_closeBatch channel i s)"

definition channel_rows_of :: "string \<Rightarrow> 'a upload_file_columns_scheme list \<Rightarrow> 'a upload_file_columns_scheme list" where
  "channel_rows_of channel t = filter (\<lambda>r. uf_channel r = channel) t"

definition schedule_order :: "upload_tier \<Rightarrow> upload_queue_row \<Rightarrow> upload_queue_row \<Rightarrow> int" where
  "schedule_order tier a b =
     (if uq_front a \<noteq> uq_front b then (if uq_front a > uq_front b then -1 else 1)
      else if tier = Fast then key_cmp (uf_hlc b) (uf_hlc a) else key_cmp (uf_hlc a) (uf_hlc b))"

definition sql_nextReady :: "string \<Rightarrow> upload_tier \<Rightarrow> nat \<Rightarrow> nat \<Rightarrow> sqlite_store \<Rightarrow> js_error + upload_queue_entry list" where
  "sql_nextReady channel tier now limit s =
     all_results (map toEntry (take limit (js_sort (schedule_order tier)
       (filter (\<lambda>r. uf_tier r = tier_text tier \<and> uq_state r = ''ready'' \<and> uq_next_attempt_at r \<le> now) (channel_rows_of channel (sq_queue s))))))"

definition sql_nextDueAt :: "string \<Rightarrow> nat \<Rightarrow> sqlite_store \<Rightarrow> nat option" where
  "sql_nextDueAt channel now s =
     (let due = map uq_next_attempt_at (filter (\<lambda>r. uq_state r = ''ready'' \<and> uq_next_attempt_at r > now) (channel_rows_of channel (sq_queue s)))
      in if due = [] then None else Some (Min (set due)))"

definition sql_blocked :: "string \<Rightarrow> string option \<Rightarrow> nat \<Rightarrow> sqlite_store \<Rightarrow> js_error + upload_queue_entry list" where
  "sql_blocked channel afterKey limit s =
     all_results (map toEntry (take limit (js_sort (\<lambda>a b. key_cmp (uf_key a) (uf_key b))
       (filter (\<lambda>r. uq_state r = ''blocked-not-held'' \<and> uf_key r > (case afterKey of None \<Rightarrow> [] | Some k \<Rightarrow> k))
         (channel_rows_of channel (sq_queue s))))))"

text \<open>\<open>group by tier, state\<close>, and the loop that sorts each group into its total.\<close>

definition add_totals :: "upload_tier_totals \<Rightarrow> upload_queue_row list \<Rightarrow> upload_tier_totals" where
  "add_totals t rows_in = \<lparr>tt_count = tt_count t + length rows_in, tt_bytes = tt_bytes t + sum_list (map uf_size_bytes rows_in)\<rparr>"

definition total_group :: "nat \<Rightarrow> (string \<times> string) \<times> upload_queue_row list \<Rightarrow> upload_queue_totals \<Rightarrow> upload_queue_totals" where
  "total_group now = (\<lambda>((tier, state), rows_in) t.
     let t' = (if state = ''blocked-not-held'' then t\<lparr>ut_blocked := add_totals (ut_blocked t) rows_in\<rparr>
               else if tier = ''fast'' then t\<lparr>ut_fast := add_totals (ut_fast t) rows_in\<rparr>
               else t\<lparr>ut_full := add_totals (ut_full t) rows_in\<rparr>)
     in if state = ''ready'' then t'\<lparr>ut_backingOff := ut_backingOff t' + length (filter (\<lambda>r. uq_next_attempt_at r > now) rows_in)\<rparr> else t')"

definition zero_totals :: upload_queue_totals where
  "zero_totals = \<lparr>ut_fast = \<lparr>tt_count = 0, tt_bytes = 0\<rparr>, ut_full = \<lparr>tt_count = 0, tt_bytes = 0\<rparr>,
     ut_blocked = \<lparr>tt_count = 0, tt_bytes = 0\<rparr>, ut_backingOff = 0\<rparr>"

definition sql_totals :: "string \<Rightarrow> nat \<Rightarrow> sqlite_store \<Rightarrow> upload_queue_totals" where
  "sql_totals channel now s =
     fold (total_group now) (js_group (\<lambda>r. (uf_tier r, uq_state r)) (channel_rows_of channel (sq_queue s))) zero_totals"

definition sql_get :: "string \<Rightarrow> string \<Rightarrow> sqlite_store \<Rightarrow> js_error + upload_queue_entry option" where
  "sql_get channel key s =
     (case row_at file_pk (channel, key) (sq_queue s) of None \<Rightarrow> Inr None | Some r \<Rightarrow> map_sum id Some (toEntry r))"

definition sql_sent :: "string \<Rightarrow> string \<Rightarrow> sqlite_store \<Rightarrow> js_error + upload_sent_entry option" where
  "sql_sent channel key s =
     (case row_at file_pk (channel, key) (sq_sent s) of None \<Rightarrow> Inr None | Some r \<Rightarrow> map_sum id Some (toSent r))"

definition sql_sentCount :: "string \<Rightarrow> sqlite_store \<Rightarrow> nat" where
  "sql_sentCount channel s = length (channel_rows_of channel (sq_sent s))"

text \<open>\<open>cursors\<close>, \<open>seenCloud\<close> and \<open>rescans\<close>: one column of the rows of the channel.\<close>

fun read_marks :: "(upload_cursor_row \<Rightarrow> string option) \<Rightarrow> upload_cursor_row list \<Rightarrow> watermarks \<Rightarrow> js_error + watermarks" where
  "read_marks col [] out = Inr out"
| "read_marks col (r # rs) out =
     (case truthy_text (col r) of
        None \<Rightarrow> read_marks col rs out
      | Some t \<Rightarrow> (case read_timestamp t of Inl e \<Rightarrow> Inl e | Inr h \<Rightarrow> read_marks col rs (js_set (uc_author r) h out)))"

definition sql_marks :: "(upload_cursor_row \<Rightarrow> string option) \<Rightarrow> string \<Rightarrow> sqlite_store \<Rightarrow> js_error + watermarks" where
  "sql_marks col channel s = read_marks col (filter (\<lambda>r. uc_channel r = channel) (sq_cursor s)) []"

definition sql_openBatches :: "string \<Rightarrow> sqlite_store \<Rightarrow> open_upload_batch list" where
  "sql_openBatches channel s =
     map (\<lambda>r. \<lparr>ob_id = ub_id r, ob_startedAt = ub_started_at r, ob_items = ub_items r\<rparr>)
       (sort_key ub_started_at (filter (\<lambda>r. ub_channel r = channel) (sq_batch s)))"

section \<open>Statements by key\<close>

lemma row_at_upsert:
  assumes "\<And>old. pk old = pk new \<Longrightarrow> pk (combine old new) = pk new"
  shows "row_at pk k (upsert_into pk combine new t)
    = (if k = pk new then Some (case row_at pk k t of None \<Rightarrow> new | Some old \<Rightarrow> combine old new) else row_at pk k t)"
proof (cases "\<exists>r \<in> set t. pk r = pk new")
  case True
  have "row_at pk k (map (\<lambda>r. if pk r = pk new then combine r new else r) t)
      = map_option (\<lambda>r. if pk r = pk new then combine r new else r) (row_at pk k t)"
    using assms by (induction t) (auto simp: row_at_def)
  moreover have "row_at pk (pk new) t \<noteq> None" using True by (auto simp: row_at_def find_None_iff)
  moreover have "row_at pk k t = Some r \<Longrightarrow> pk r = k" for r by (auto simp: row_at_def find_Some_iff)
  ultimately show ?thesis using True by (cases "row_at pk k t") (auto simp: upsert_into_def)
next
  case False
  then have "row_at pk (pk new) t = None" by (auto simp: row_at_def find_None_iff)
  moreover have "row_at pk k (t @ [new]) = (case row_at pk k t of Some r \<Rightarrow> Some r | None \<Rightarrow> if pk new = k then Some new else None)"
    by (induction t) (auto simp: row_at_def)
  moreover have "upsert_into pk combine new t = t @ [new]" using False by (simp add: upsert_into_def)
  ultimately show ?thesis by (auto split: option.splits)
qed

lemma row_at_update:
  assumes "\<And>r. pk (f r) = pk r"
  shows "row_at pk k (update_where P f t) = map_option (\<lambda>r. if P r then f r else r) (row_at pk k t)"
  using assms by (induction t) (auto simp: row_at_def update_where_def)

lemma row_at_delete:
  assumes "distinct (map pk t)"
  shows "row_at pk k (delete_where P t) = (case row_at pk k t of None \<Rightarrow> None | Some r \<Rightarrow> if P r then None else Some r)"
  using assms
proof (induction t)
  case (Cons r t)
  have "pk r = k \<Longrightarrow> row_at pk k (delete_where P t) = None"
    using Cons.prems by (auto simp: row_at_def delete_where_def find_None_iff) (metis imageI)
  then show ?case using Cons by (auto simp: row_at_def delete_where_def)
qed (simp add: row_at_def delete_where_def)

lemma row_at_pk: "row_at pk k t = Some r \<Longrightarrow> pk r = k"
  by (auto simp: row_at_def find_Some_iff)

lemma row_at_Some: "distinct (map pk t) \<Longrightarrow> row_at pk k t = Some r \<longleftrightarrow> r \<in> set t \<and> pk r = k"
  by (induction t) (auto simp: row_at_def split: if_splits)

lemma distinct_upsert_into:
  assumes "\<And>old. pk old = pk new \<Longrightarrow> pk (combine old new) = pk new" "distinct (map pk t)"
  shows "distinct (map pk (upsert_into pk combine new t))"
proof -
  have "map pk (map (\<lambda>r. if pk r = pk new then combine r new else r) t) = map pk t"
    using assms(1) by (induction t) auto
  then show ?thesis using assms(2) unfolding upsert_into_def by (auto simp del: map_map)
qed

lemma distinct_update: "(\<And>r. pk (f r) = pk r) \<Longrightarrow> distinct (map pk (update_where P f t)) \<longleftrightarrow> distinct (map pk t)"
proof -
  assume "\<And>r. pk (f r) = pk r"
  then have "map pk (update_where P f t) = map pk t" by (induction t) (auto simp: update_where_def)
  then show ?thesis by simp
qed

lemma distinct_delete_where: "distinct (map pk t) \<Longrightarrow> distinct (map pk (delete_where P t))"
  by (auto simp: delete_where_def distinct_map_filter)

section \<open>The two stores agree\<close>

text \<open>A clock value whose text reads back and sorts as it does.\<close>

definition stamp_ok :: "hlc \<Rightarrow> bool" where
  "stamp_ok h \<longleftrightarrow> hlc_fits h \<and> CHR '':'' \<notin> set (nodeId h)"

definition entry_row :: "string \<Rightarrow> upload_queue_entry \<Rightarrow> upload_queue_row" where
  "entry_row channel e =
     queue_row (fileParams channel e) (qe_attempts e) (qe_nextAttemptAt e) (qe_lastError e) (state_text (qe_state e)) (if qe_front e then 1 else 0)"

definition sent_entry_row :: "string \<Rightarrow> upload_sent_entry \<Rightarrow> upload_sent_row" where
  "sent_entry_row channel e = sent_file_row (fileParams channel e) (qs_sentAt e)"

definition batch_row :: "string \<Rightarrow> open_upload_batch \<Rightarrow> upload_batch_row" where
  "batch_row channel b = \<lparr>ub_channel = channel, ub_id = ob_id b, ub_started_at = ob_startedAt b, ub_items = ob_items b\<rparr>"

definition mark_at :: "(upload_cursor_row \<Rightarrow> string option) \<Rightarrow> string \<Rightarrow> string \<Rightarrow> upload_cursor_row list \<Rightarrow> string option" where
  "mark_at col channel author t = Option.bind (row_at cursor_pk (channel, author) t) col"

text \<open>The rows of a channel are the entries of the map, one by one.\<close>

definition store_agrees :: "string \<Rightarrow> sqlite_store \<Rightarrow> memory_store \<Rightarrow> bool" where
  "store_agrees c s m \<longleftrightarrow>
     (\<forall>k. row_at file_pk (c, k) (sq_queue s) = map_option (entry_row c) (js_get (mq_queue m) k))
     \<and> (\<forall>k. row_at file_pk (c, k) (sq_sent s) = map_option (sent_entry_row c) (js_get (mq_sent m) k))
     \<and> (\<forall>a. mark_at uc_cursor_hlc c a (sq_cursor s) = map_option serializeHLC (js_get (mq_cursor m) a))
     \<and> (\<forall>a. mark_at uc_seen_cloud_hlc c a (sq_cursor s) = map_option serializeHLC (js_get (mq_seen m) a))
     \<and> (\<forall>a. mark_at uc_rescan_to_hlc c a (sq_cursor s) = map_option serializeHLC (js_get (mq_rescan m) a))
     \<and> (\<forall>i. row_at batch_pk (c, i) (sq_batch s) = map_option (batch_row c) (js_get (mq_batches m) i))"

definition tables_keyed :: "sqlite_store \<Rightarrow> bool" where
  "tables_keyed s \<longleftrightarrow> distinct (map file_pk (sq_queue s)) \<and> distinct (map file_pk (sq_sent s))
     \<and> distinct (map cursor_pk (sq_cursor s)) \<and> distinct (map batch_pk (sq_batch s))"

definition keyed_files :: "(string, 'a queued_file_scheme) js_map \<Rightarrow> bool" where
  "keyed_files m \<longleftrightarrow> js_wf m \<and> (\<forall>k e. js_get m k = Some e \<longrightarrow> qf_key e = k \<and> stamp_ok (qf_hlc e))"

definition marks_ok :: "watermarks \<Rightarrow> bool" where
  "marks_ok w \<longleftrightarrow> js_wf w \<and> (\<forall>h \<in> set (js_values w). stamp_ok h)"

lemma marks_ok_iff: "marks_ok w \<longleftrightarrow> js_wf w \<and> (\<forall>a h. js_get w a = Some h \<longrightarrow> stamp_ok h)"
  using js_get_in_set [of w] by (fastforce simp: marks_ok_def)

definition memory_ok :: "memory_store \<Rightarrow> bool" where
  "memory_ok m \<longleftrightarrow> keyed_files (mq_queue m) \<and> keyed_files (mq_sent m) \<and> js_wf (mq_batches m)
     \<and> (\<forall>i b. js_get (mq_batches m) i = Some b \<longrightarrow> ob_id b = i)
     \<and> marks_ok (mq_cursor m) \<and> marks_ok (mq_seen m) \<and> marks_ok (mq_rescan m)"

text \<open>
  What an operation is called with: clock values that fit, a batch id that is not open, and a sent
  file put back only when no other version of it is queued.
\<close>

fun op_ok :: "memory_store \<Rightarrow> upload_op \<Rightarrow> bool" where
  "op_ok m (Enqueue f) \<longleftrightarrow> stamp_ok (qf_hlc f)"
| "op_ok m (EnqueueFront f) \<longleftrightarrow> stamp_ok (qf_hlc f)"
| "op_ok m (RequeueSent key) \<longleftrightarrow> js_get (mq_queue m) key = None"
| "op_ok m (DropSentAbove author h) \<longleftrightarrow> (case h of None \<Rightarrow> True | Some t \<Rightarrow> stamp_ok t)"
| "op_ok m (PruneSent author h) \<longleftrightarrow> stamp_ok h"
| "op_ok m (SetCursor author h) \<longleftrightarrow> (case h of None \<Rightarrow> True | Some t \<Rightarrow> stamp_ok t)"
| "op_ok m (SetRescan author h) \<longleftrightarrow> (case h of None \<Rightarrow> True | Some t \<Rightarrow> stamp_ok t)"
| "op_ok m (SetSeenCloud w) \<longleftrightarrow> marks_ok w"
| "op_ok m (OpenBatch b) \<longleftrightarrow> js_get (mq_batches m) (ob_id b) = None"
| "op_ok m _ \<longleftrightarrow> True"

lemmas entry_defs = entry_of_def queued_file.defs upload_queue_entry.defs
lemmas row_defs = queue_row_def entry_row_def upload_file_columns.defs upload_queue_row.defs fileParams_def
lemmas sent_defs = sent_of_def queued_file.defs upload_sent_entry.defs sent_entry_row_def sent_file_row_def upload_sent_row.defs

lemma file_pk_entry_row [simp]: "file_pk (entry_row c e) = (c, qf_key e)"
  by (simp add: file_pk_def row_defs)

lemma file_pk_sent_row [simp]: "file_pk (sent_entry_row c e) = (c, qf_key e)"
  by (simp add: file_pk_def sent_defs fileParams_def upload_file_columns.defs)

lemma entry_row_new: "queue_row (fileParams c f) a n e (state_text st) (if fr then 1 else 0) = entry_row c (entry_of f a n e st fr)"
  by (simp add: row_defs entry_defs)

lemma read_file_params: "stamp_ok (qf_hlc f) \<Longrightarrow> read_file (queue_row (fileParams c f) a n e st fr) = Inr (fileOf f)"
  by (cases "qf_tier f") (simp_all add: read_file_def row_defs stamp_ok_def read_serialized fileOf_def queued_file.defs)

lemma toEntry_row: "stamp_ok (qf_hlc e) \<Longrightarrow> toEntry (entry_row c e) = Inr e"
  using read_file_params [of e c]
  by (cases "qe_state e")
    (simp_all add: toEntry_def entry_row_def, simp_all add: row_defs entry_defs fileOf_def)

lemma toSent_row: "stamp_ok (qf_hlc e) \<Longrightarrow> toSent (sent_entry_row c e) = Inr e"
  by (cases "qf_tier e")
    (simp_all add: toSent_def sent_defs read_file_def fileParams_def upload_file_columns.defs stamp_ok_def read_serialized)

lemma pk_kept [simp]:
  "file_pk (queue_row (fileParams c f) a n e st fr) = (c, qf_key f)"
  "file_pk old = file_pk new \<Longrightarrow> file_pk (enqueue_conflict old new) = file_pk new"
  "file_pk (front_conflict old new) = file_pk old"
  "file_pk (sent_file_row (fileParams c f) sentAt) = (c, qf_key f)"
  "file_pk (r\<lparr>uq_state := st\<rparr>) = file_pk r"
  "file_pk (r\<lparr>uq_attempts := a, uq_next_attempt_at := n, uq_last_error := e, uq_front := fr\<rparr>) = file_pk r"
  "cursor_pk (q\<lparr>uc_cursor_hlc := x\<rparr>) = cursor_pk q"
  "cursor_pk (q\<lparr>uc_seen_cloud_hlc := x\<rparr>) = cursor_pk q"
  "cursor_pk (q\<lparr>uc_rescan_to_hlc := x\<rparr>) = cursor_pk q"
  "cursor_pk \<lparr>uc_channel = c, uc_author = author, uc_cursor_hlc = x, uc_seen_cloud_hlc = y, uc_rescan_to_hlc = z\<rparr> = (c, author)"
  "batch_pk \<lparr>ub_channel = c, ub_id = i, ub_started_at = n', ub_items = m'\<rparr> = (c, i)"
  by (simp_all add: file_pk_def row_defs enqueue_conflict_def front_conflict_def sent_file_row_def upload_sent_row.defs cursor_pk_def batch_pk_def)

text \<open>The row under a key after each statement.\<close>

lemmas row_at_statement = row_at_upsert row_at_update row_at_delete

lemma distinct_seen: "distinct (map cursor_pk t) \<Longrightarrow> distinct (map cursor_pk (fold (upsert_seen c) w t))"
proof (induction w arbitrary: t)
  case (Cons mark w)
  have "distinct (map cursor_pk (upsert_seen c mark t))"
    unfolding upsert_seen_def by (rule distinct_upsert_into) (simp_all add: Cons.prems)
  then show ?case using Cons.IH by simp
qed simp

lemma tables_keyed_apply:
  assumes "tables_keyed s" "sql_apply c op s = Inr s'"
  shows "tables_keyed s'"
proof (cases op)
  case (MarkSent key sentAt)
  then show ?thesis using assms
    by (auto simp: tables_keyed_def sql_markSent_def sql_remove_def split: option.splits sum.splits
        intro!: distinct_upsert_into distinct_delete_where)
next
  case (RequeueSent key)
  then show ?thesis using assms
    by (auto simp: tables_keyed_def sql_requeueSent_def sql_enqueueFront_def split: option.splits sum.splits
        intro!: distinct_upsert_into distinct_delete_where)
qed (use assms in \<open>auto simp: tables_keyed_def sql_enqueue_def sql_enqueueFront_def sql_remove_def sql_update_def
        sql_dropSentAbove_def sql_pruneSent_def sql_setCursor_def sql_setSeenCloud_def sql_setRescan_def sql_openBatch_def
        sql_closeBatch_def distinct_update intro!: distinct_upsert_into distinct_delete_where distinct_seen\<close>)

lemma js_get_filter_pair:
  "js_wf m \<Longrightarrow> js_get (filter (\<lambda>(k, v). P k v) m) k = (case js_get m k of None \<Rightarrow> None | Some v \<Rightarrow> if P k v then Some v else None)"
  using js_get_filter_key [of m P k] by (simp add: case_prod_unfold)

lemma memory_ok_apply: "memory_ok m \<Longrightarrow> op_ok m op \<Longrightarrow> memory_ok (mem_apply op m)"
  by (cases op)
    (auto simp: memory_ok_def keyed_files_def mem_enqueue_def mem_enqueueFront_def mem_remove_def mem_recordFailure_def
      mem_setState_def mem_update_def mem_markSent_def mem_requeueSent_def mem_dropSentAbove_def mem_pruneSent_def
      entry_defs sent_defs fileOf_def js_get_filter_pair Let_def marks_ok_iff set_mark_def
      split: option.splits if_splits)

text \<open>The three columns of the cursor table, one written and two kept.\<close>

lemma mark_upsert_seen:
  "mark_at uc_seen_cloud_hlc c' a (upsert_seen c mark t)
     = (if c' = c \<and> a = fst mark then Some (serializeHLC (snd mark)) else mark_at uc_seen_cloud_hlc c' a t)"
  "mark_at uc_cursor_hlc c' a (upsert_seen c mark t) = mark_at uc_cursor_hlc c' a t"
  "mark_at uc_rescan_to_hlc c' a (upsert_seen c mark t) = mark_at uc_rescan_to_hlc c' a t"
  by (auto simp: mark_at_def upsert_seen_def row_at_upsert split: option.splits)

lemma mark_seen_all:
  "js_wf w \<Longrightarrow> mark_at uc_seen_cloud_hlc c' a (fold (upsert_seen c) w t)
     = (case js_get w a of Some h \<Rightarrow> if c' = c then Some (serializeHLC h) else mark_at uc_seen_cloud_hlc c' a t
        | None \<Rightarrow> mark_at uc_seen_cloud_hlc c' a t)"
  "mark_at uc_cursor_hlc c' a (fold (upsert_seen c) w t) = mark_at uc_cursor_hlc c' a t"
  "mark_at uc_rescan_to_hlc c' a (fold (upsert_seen c) w t) = mark_at uc_rescan_to_hlc c' a t"
proof (induction w arbitrary: t)
  case (Cons mark w)
  { case 1
    then have "js_wf w" "js_get w (fst mark) = None" by (cases mark; auto simp: js_wf_def map_of_eq_None_iff)+
    then show ?case using Cons.IH(1) by (cases mark) (auto simp: mark_upsert_seen split: option.splits)
  next
    case 2
    then show ?case using Cons.IH(2) by (simp add: mark_upsert_seen)
  next
    case 3
    then show ?case using Cons.IH(3) by (simp add: mark_upsert_seen)
  }
qed auto

lemma mark_cleared:
  "mark_at uc_seen_cloud_hlc c' a (update_where (\<lambda>r. uc_channel r = c) (\<lambda>r. r\<lparr>uc_seen_cloud_hlc := None\<rparr>) t)
     = (if c' = c then None else mark_at uc_seen_cloud_hlc c' a t)"
  "mark_at uc_cursor_hlc c' a (update_where (\<lambda>r. uc_channel r = c) (\<lambda>r. r\<lparr>uc_seen_cloud_hlc := None\<rparr>) t) = mark_at uc_cursor_hlc c' a t"
  "mark_at uc_rescan_to_hlc c' a (update_where (\<lambda>r. uc_channel r = c) (\<lambda>r. r\<lparr>uc_seen_cloud_hlc := None\<rparr>) t) = mark_at uc_rescan_to_hlc c' a t"
  by (induction t; auto simp: mark_at_def row_at_def update_where_def cursor_pk_def)+

lemma mark_upsert:
  "mark_at uc_cursor_hlc c' a' (upsert_into cursor_pk (\<lambda>old new. old\<lparr>uc_cursor_hlc := uc_cursor_hlc new\<rparr>)
      \<lparr>uc_channel = c, uc_author = a, uc_cursor_hlc = x, uc_seen_cloud_hlc = None, uc_rescan_to_hlc = None\<rparr> t)
     = (if c' = c \<and> a' = a then x else mark_at uc_cursor_hlc c' a' t)"
  "mark_at uc_seen_cloud_hlc c' a' (upsert_into cursor_pk (\<lambda>old new. old\<lparr>uc_cursor_hlc := uc_cursor_hlc new\<rparr>)
      \<lparr>uc_channel = c, uc_author = a, uc_cursor_hlc = x, uc_seen_cloud_hlc = None, uc_rescan_to_hlc = None\<rparr> t)
     = mark_at uc_seen_cloud_hlc c' a' t"
  "mark_at uc_rescan_to_hlc c' a' (upsert_into cursor_pk (\<lambda>old new. old\<lparr>uc_cursor_hlc := uc_cursor_hlc new\<rparr>)
      \<lparr>uc_channel = c, uc_author = a, uc_cursor_hlc = x, uc_seen_cloud_hlc = None, uc_rescan_to_hlc = None\<rparr> t)
     = mark_at uc_rescan_to_hlc c' a' t"
  "mark_at uc_rescan_to_hlc c' a' (upsert_into cursor_pk (\<lambda>old new. old\<lparr>uc_rescan_to_hlc := uc_rescan_to_hlc new\<rparr>)
      \<lparr>uc_channel = c, uc_author = a, uc_cursor_hlc = None, uc_seen_cloud_hlc = None, uc_rescan_to_hlc = x\<rparr> t)
     = (if c' = c \<and> a' = a then x else mark_at uc_rescan_to_hlc c' a' t)"
  "mark_at uc_cursor_hlc c' a' (upsert_into cursor_pk (\<lambda>old new. old\<lparr>uc_rescan_to_hlc := uc_rescan_to_hlc new\<rparr>)
      \<lparr>uc_channel = c, uc_author = a, uc_cursor_hlc = None, uc_seen_cloud_hlc = None, uc_rescan_to_hlc = x\<rparr> t)
     = mark_at uc_cursor_hlc c' a' t"
  "mark_at uc_seen_cloud_hlc c' a' (upsert_into cursor_pk (\<lambda>old new. old\<lparr>uc_rescan_to_hlc := uc_rescan_to_hlc new\<rparr>)
      \<lparr>uc_channel = c, uc_author = a, uc_cursor_hlc = None, uc_seen_cloud_hlc = None, uc_rescan_to_hlc = x\<rparr> t)
     = mark_at uc_seen_cloud_hlc c' a' t"
  by (auto simp: mark_at_def row_at_upsert split: option.splits)

text \<open>The row of an entry after the conflict clauses.\<close>

lemma enqueue_row:
  assumes "stamp_ok (qf_hlc e)" "stamp_ok (qf_hlc f)"
  shows "enqueue_conflict (entry_row c e) (queue_row (fileParams c f) 0 0 None ''ready'' 0)
    = entry_row c (if compareHLC (qf_hlc e) (qf_hlc f) > 0 then e
        else entry_of f (qe_attempts e) (qe_nextAttemptAt e) (qe_lastError e) Ready (qe_front e))"
proof -
  have "uf_hlc (entry_row c e) \<le> uf_hlc (queue_row (fileParams c f) 0 0 None ''ready'' 0) \<longleftrightarrow> \<not> compareHLC (qf_hlc e) (qf_hlc f) > 0"
    using serialize_le [of "qf_hlc e" "qf_hlc f"] assms by (simp add: row_defs stamp_ok_def hlc_order not_less)
  then show ?thesis by (simp add: enqueue_conflict_def) (simp add: row_defs entry_defs)
qed

lemma front_row:
  "front_conflict (entry_row c e) r = entry_row c (entry_of (fileOf e) (qe_attempts e) 0 (qe_lastError e) Ready True)"
  by (simp add: front_conflict_def row_defs entry_defs fileOf_def)

lemma update_rows_of_entry:
  "(entry_row c e)\<lparr>uq_state := state_text st\<rparr> = entry_row c (e\<lparr>qe_state := st\<rparr>)"
  "(entry_row c e)\<lparr>uq_attempts := a, uq_next_attempt_at := n, uq_last_error := err, uq_front := 0\<rparr>
     = entry_row c (e\<lparr>qe_attempts := a, qe_nextAttemptAt := n, qe_lastError := err, qe_front := False\<rparr>)"
  by (simp_all add: row_defs)

lemma fileParams_fileOf: "fileParams c (fileOf e) = fileParams c e"
  by (simp add: fileParams_def fileOf_def queued_file.defs)

lemma file_fields [simp]:
  "qf_key (entry_of f a n err st fr) = qf_key f" "qf_hlc (entry_of f a n err st fr) = qf_hlc f"
  "qf_key (sent_of f sentAt) = qf_key f" "qf_hlc (sent_of f sentAt) = qf_hlc f"
  "qf_key (fileOf e) = qf_key e" "qf_hlc (fileOf e) = qf_hlc e"
  by (simp_all add: entry_of_def sent_of_def fileOf_def queued_file.defs)

lemma queue_sent_commute [simp]: "m\<lparr>mq_sent := t, mq_queue := q\<rparr> = m\<lparr>mq_queue := q, mq_sent := t\<rparr>"
  by (cases m) simp

lemma row_at_delete_key:
  assumes "distinct (map pk t)"
  shows "row_at pk k (delete_where (\<lambda>r. pk r = j) t) = (if k = j then None else row_at pk k t)"
proof -
  have "row_at pk k t = Some r \<Longrightarrow> pk r = k" for r by (auto simp: row_at_def find_Some_iff)
  then show ?thesis by (auto simp: row_at_delete [OF assms] split: option.splits)
qed

lemma agrees_queue: "store_agrees c s m \<Longrightarrow> row_at file_pk (c, k) (sq_queue s) = map_option (entry_row c) (js_get (mq_queue m) k)"
  by (simp add: store_agrees_def)

lemma agrees_sent: "store_agrees c s m \<Longrightarrow> row_at file_pk (c, k) (sq_sent s) = map_option (sent_entry_row c) (js_get (mq_sent m) k)"
  by (simp add: store_agrees_def)

lemma agrees_files:
  "store_agrees c s m \<longleftrightarrow> store_agrees c (s\<lparr>sq_queue := q, sq_sent := t\<rparr>) (m\<lparr>mq_queue := q', mq_sent := t'\<rparr>)"
  if "\<forall>k. row_at file_pk (c, k) (sq_queue s) = map_option (entry_row c) (js_get (mq_queue m) k)"
    "\<forall>k. row_at file_pk (c, k) (sq_sent s) = map_option (sent_entry_row c) (js_get (mq_sent m) k)"
    "\<forall>k. row_at file_pk (c, k) q = map_option (entry_row c) (js_get q' k)"
    "\<forall>k. row_at file_pk (c, k) t = map_option (sent_entry_row c) (js_get t' k)"
  using that by (simp add: store_agrees_def)

lemma queued_key: "memory_ok m \<Longrightarrow> js_get (mq_queue m) k = Some e \<Longrightarrow> qf_key e = k \<and> stamp_ok (qf_hlc e)"
  by (simp add: memory_ok_def keyed_files_def)

lemma sent_key: "memory_ok m \<Longrightarrow> js_get (mq_sent m) k = Some e \<Longrightarrow> qf_key e = k \<and> stamp_ok (qf_hlc e)"
  by (simp add: memory_ok_def keyed_files_def)

lemma agrees_enqueue:
  assumes "store_agrees c s m" "memory_ok m" "stamp_ok (qf_hlc f)"
  shows "store_agrees c (sql_enqueue c f s) (mem_enqueue f m)"
proof -
  have new: "queue_row (fileParams c f) 0 0 None ''ready'' 0 = entry_row c (entry_of f 0 0 None Ready False)"
    using entry_row_new [of c f 0 0 None Ready False] by simp
  have row: "row_at file_pk (c, k) (sq_queue (sql_enqueue c f s)) = map_option (entry_row c) (js_get (mq_queue (mem_enqueue f m)) k)" for k
  proof (cases "js_get (mq_queue m) (qf_key f)")
    case None
    then show ?thesis using agrees_queue [OF assms(1)]
      by (simp add: sql_enqueue_def mem_enqueue_def row_at_upsert new)
  next
    case (Some e)
    then have e: "stamp_ok (qf_hlc e)" using queued_key [OF assms(2)] by blast
    show ?thesis using agrees_queue [OF assms(1)] Some enqueue_row [OF e assms(3), of c]
      by (simp add: sql_enqueue_def mem_enqueue_def row_at_upsert)
  qed
  then show ?thesis using assms(1)
    by (simp add: store_agrees_def sql_enqueue_def mem_enqueue_def split: option.splits)
qed

lemma agrees_enqueueFront:
  assumes "store_agrees c s m"
  shows "store_agrees c (sql_enqueueFront c f s) (mem_enqueueFront f m)"
proof -
  have new: "queue_row (fileParams c f) 0 0 None ''ready'' 1 = entry_row c (entry_of f 0 0 None Ready True)"
    using entry_row_new [of c f 0 0 None Ready True] by simp
  show ?thesis using assms
    by (cases "js_get (mq_queue m) (qf_key f)")
      (simp_all add: store_agrees_def sql_enqueueFront_def mem_enqueueFront_def row_at_upsert new front_row del: One_nat_def)
qed

lemma agrees_remove:
  assumes "store_agrees c s m" "tables_keyed s"
  shows "store_agrees c (sql_remove c key s) (mem_remove key m)"
proof -
  have "distinct (map file_pk (sq_queue s))" using assms(2) by (simp add: tables_keyed_def)
  note del = row_at_delete_key [OF this]
  have "row_at file_pk (c, k) (sq_queue (sql_remove c key s)) = map_option (entry_row c) (js_get (mq_queue (mem_remove key m)) k)" for k
    using agrees_queue [OF assms(1), of k]
    by (simp add: sql_remove_def mem_remove_def del)
  then show ?thesis using assms(1) by (simp add: store_agrees_def sql_remove_def mem_remove_def)
qed

lemma agrees_update:
  assumes "store_agrees c s m" "memory_ok m" "\<And>r. file_pk (f r) = file_pk r" "\<And>e. f (entry_row c e) = entry_row c (g e)"
  shows "store_agrees c (sql_update c key f s) (mem_update key g m)"
proof -
  have "row_at file_pk (c, k) (sq_queue (sql_update c key f s)) = map_option (entry_row c) (js_get (mq_queue (mem_update key g m)) k)" for k
    using agrees_queue [OF assms(1), of k] queued_key [OF assms(2), of k]
    by (cases "js_get (mq_queue m) k") (auto simp: sql_update_def mem_update_def row_at_update [of file_pk f, OF assms(3)] assms(4) split: option.splits)
  then show ?thesis using assms(1) by (simp add: store_agrees_def sql_update_def mem_update_def split: option.splits)
qed

lemma agrees_markSent:
  assumes "store_agrees c s m" "memory_ok m" "tables_keyed s"
  obtains s' where "sql_markSent c key sentAt s = Inr s'" "store_agrees c s' (mem_markSent key sentAt m)"
proof (cases "js_get (mq_queue m) key")
  case None
  then show ?thesis using that assms(1) agrees_queue [OF assms(1), of key] by (simp add: sql_markSent_def mem_markSent_def)
next
  case (Some e)
  note e = queued_key [OF assms(2) Some]
  have row: "row_at file_pk (c, key) (sq_queue s) = Some (entry_row c e)" using agrees_queue [OF assms(1)] Some by simp
  have new: "sent_file_row (fileParams c e) sentAt = sent_entry_row c (sent_of (fileOf e) sentAt)"
    by (simp add: sent_entry_row_def sent_of_def queued_file.defs upload_sent_entry.defs fileOf_def fileParams_def)
  let ?t = "upsert_into file_pk (\<lambda>old new. new) (sent_file_row (fileParams c e) sentAt) (sq_sent s)"
  have "store_agrees c (s\<lparr>sq_sent := ?t\<rparr>) (m\<lparr>mq_sent := js_set key (sent_of (fileOf e) sentAt) (mq_sent m)\<rparr>)"
    using assms(1) e by (simp add: store_agrees_def row_at_upsert new split: option.splits)
  moreover have "tables_keyed (s\<lparr>sq_sent := ?t\<rparr>)"
    using assms(3) by (simp add: tables_keyed_def distinct_upsert_into)
  ultimately have "store_agrees c (sql_remove c key (s\<lparr>sq_sent := ?t\<rparr>))
      (mem_remove key (m\<lparr>mq_sent := js_set key (sent_of (fileOf e) sentAt) (mq_sent m)\<rparr>))"
    by (rule agrees_remove)
  moreover have "sql_markSent c key sentAt s = Inr (sql_remove c key (s\<lparr>sq_sent := ?t\<rparr>))"
    using e by (simp add: sql_markSent_def row toEntry_row)
  ultimately show ?thesis using that Some by (simp add: mem_markSent_def mem_remove_def)
qed

lemma agrees_requeueSent:
  assumes "store_agrees c s m" "memory_ok m" "tables_keyed s" "js_get (mq_queue m) key = None"
  obtains s' where "sql_requeueSent c key s = Inr s'" "store_agrees c s' (mem_requeueSent key m)"
proof (cases "js_get (mq_sent m) key")
  case None
  then show ?thesis using that assms(1) agrees_sent [OF assms(1), of key] by (simp add: sql_requeueSent_def mem_requeueSent_def)
next
  case (Some e)
  note e = sent_key [OF assms(2) Some]
  have row: "row_at file_pk (c, key) (sq_sent s) = Some (sent_entry_row c e)" using agrees_sent [OF assms(1)] Some by simp
  have front: "store_agrees c (sql_enqueueFront c (fileOf e) s) (mem_enqueueFront (fileOf e) m)"
    using agrees_enqueueFront [OF assms(1)] .
  have same: "sql_enqueueFront c e s = sql_enqueueFront c (fileOf e) s"
    by (simp add: sql_enqueueFront_def fileParams_fileOf)
  have key: "qf_key (fileOf e) = key" using e by (simp add: fileOf_def queued_file.defs)
  have dist: "distinct (map file_pk (sq_sent s))" using assms(3) by (simp add: tables_keyed_def)
  let ?t = "delete_where (\<lambda>r. file_pk r = (c, key)) (sq_sent s)"
  have sent: "row_at file_pk (c, k) ?t = map_option (sent_entry_row c) (js_get (js_delete key (mq_sent m)) k)" for k
    using agrees_sent [OF assms(1), of k]
    by (simp add: row_at_delete_key [OF dist])
  have "store_agrees c ((sql_enqueueFront c e s)\<lparr>sq_sent := ?t\<rparr>) ((mem_enqueueFront (fileOf e) m)\<lparr>mq_sent := js_delete key (mq_sent m)\<rparr>)"
    using front sent unfolding same by (simp add: store_agrees_def)
  moreover have "sql_requeueSent c key s = Inr ((sql_enqueueFront c e s)\<lparr>sq_sent := ?t\<rparr>)"
    using e by (simp add: sql_requeueSent_def row toSent_row)
  ultimately show ?thesis using that Some assms(4) key by (simp add: mem_requeueSent_def mem_enqueueFront_def Let_def)
qed

lemma sent_row_fields [simp]:
  "uf_channel (sent_entry_row c e) = c" "uf_author (sent_entry_row c e) = nodeId (qf_hlc e)"
  "uf_hlc (sent_entry_row c e) = serializeHLC (qf_hlc e)"
  by (simp_all add: sent_entry_row_def sent_file_row_def upload_sent_row.defs upload_file_columns.defs fileParams_def)

lemma agrees_sent_deleted:
  assumes "store_agrees c s m" "memory_ok m" "tables_keyed s"
    and "\<And>e. stamp_ok (qf_hlc e) \<Longrightarrow> P (sent_entry_row c e) \<longleftrightarrow> Q e"
  shows "store_agrees c (s\<lparr>sq_sent := delete_where P (sq_sent s)\<rparr>) (m\<lparr>mq_sent := filter (\<lambda>(key, e). \<not> Q e) (mq_sent m)\<rparr>)"
proof -
  have dist: "distinct (map file_pk (sq_sent s))" using assms(3) by (simp add: tables_keyed_def)
  have wf: "js_wf (mq_sent m)" using assms(2) by (simp add: memory_ok_def keyed_files_def)
  have "row_at file_pk (c, k) (delete_where P (sq_sent s))
      = map_option (sent_entry_row c) (js_get (filter (\<lambda>(key, e). \<not> Q e) (mq_sent m)) k)" for k
    using agrees_sent [OF assms(1), of k] sent_key [OF assms(2), of k] assms(4)
    by (cases "js_get (mq_sent m) k") (auto simp: row_at_delete [OF dist] js_get_filter_pair [OF wf])
  then show ?thesis using assms(1) by (simp add: store_agrees_def)
qed

text \<open>One operation, on the channel it is called for and on the others.\<close>

lemma agrees_apply:
  assumes "store_agrees c s m" "memory_ok m" "tables_keyed s" "op_ok m op"
  obtains s' where "sql_apply c op s = Inr s'" "store_agrees c s' (mem_apply op m)"
proof (cases op)
  case (Enqueue f)
  then show ?thesis using that agrees_enqueue [OF assms(1,2)] assms(4) by simp
next
  case (EnqueueFront f)
  then show ?thesis using that agrees_enqueueFront [OF assms(1)] by simp
next
  case (Remove key)
  then show ?thesis using that agrees_remove [OF assms(1,3)] by simp
next
  case (RecordFailure key attempts nextAt err)
  then show ?thesis using that agrees_update [OF assms(1,2), of
      "\<lambda>r. r\<lparr>uq_attempts := attempts, uq_next_attempt_at := nextAt, uq_last_error := Some err, uq_front := 0\<rparr>"
      "\<lambda>e. e\<lparr>qe_attempts := attempts, qe_nextAttemptAt := nextAt, qe_lastError := Some err, qe_front := False\<rparr>" key]
    by (simp add: update_rows_of_entry mem_recordFailure_def)
next
  case (SetState key st)
  then show ?thesis using that agrees_update [OF assms(1,2), of "\<lambda>r. r\<lparr>uq_state := state_text st\<rparr>" "\<lambda>e. e\<lparr>qe_state := st\<rparr>" key]
    by (simp add: update_rows_of_entry mem_setState_def)
next
  case (MarkSent key sentAt)
  then show ?thesis using that agrees_markSent [OF assms(1,2,3)] by (metis mem_apply.simps(6) sql_apply.simps(6))
next
  case (RequeueSent key)
  then have "js_get (mq_queue m) key = None" using assms(4) by simp
  then show ?thesis using that agrees_requeueSent [OF assms(1,2,3)] RequeueSent by (metis mem_apply.simps(7) sql_apply.simps(7))
next
  case (DropSentAbove author h)
  have "store_agrees c (sql_dropSentAbove c author h s) (mem_dropSentAbove author h m)"
    unfolding sql_dropSentAbove_def mem_dropSentAbove_def
    by (rule agrees_sent_deleted [OF assms(1,2,3)])
      (use DropSentAbove assms(4) in \<open>auto simp: stamp_ok_def serialize_less hlc_order split: option.splits\<close>)
  then show ?thesis using that DropSentAbove by simp
next
  case (PruneSent author h)
  have "store_agrees c (sql_pruneSent c author h s) (mem_pruneSent author h m)"
    unfolding sql_pruneSent_def mem_pruneSent_def
    by (rule agrees_sent_deleted [OF assms(1,2,3)])
      (use PruneSent assms(4) in \<open>auto simp: stamp_ok_def serialize_le hlc_order\<close>)
  then show ?thesis using that PruneSent by simp
next
  case (SetCursor author h)
  then show ?thesis using that assms(1)
    by (simp add: store_agrees_def sql_setCursor_def mark_upsert set_mark_def split: option.splits)
next
  case (SetSeenCloud w)
  then show ?thesis using that assms(1,4)
    by (simp add: store_agrees_def sql_setSeenCloud_def marks_ok_iff mark_seen_all mark_cleared split: option.splits)
next
  case (SetRescan author h)
  then show ?thesis using that assms(1)
    by (simp add: store_agrees_def sql_setRescan_def mark_upsert set_mark_def split: option.splits)
next
  case (OpenBatch b)
  then show ?thesis using that assms(1,4)
    by (simp add: store_agrees_def sql_openBatch_def row_at_upsert batch_row_def)
next
  case (CloseBatch i)
  have "distinct (map batch_pk (sq_batch s))" using assms(3) by (simp add: tables_keyed_def)
  then show ?thesis using that assms(1) CloseBatch
    by (simp add: store_agrees_def sql_closeBatch_def row_at_delete_key)
qed

lemma read_file_key: "read_file r = Inr f \<Longrightarrow> qf_key f = uf_key r"
  by (auto simp: read_file_def split: sum.splits)

lemma isolated_apply:
  assumes "sql_apply c op s = Inr s'" "c' \<noteq> c" "tables_keyed s" "op_ok m op"
  shows "store_agrees c' s' m' \<longleftrightarrow> store_agrees c' s m'"
proof -
  have q: "distinct (map file_pk (sq_queue s))" and t: "distinct (map file_pk (sq_sent s))" and b: "distinct (map batch_pk (sq_batch s))"
    using assms(3) by (simp_all add: tables_keyed_def)
  have delete: "row_at file_pk (c', k) (delete_where P ts) = row_at file_pk (c', k) ts"
    if "distinct (map file_pk ts)" "\<forall>r. P r \<longrightarrow> uf_channel r = c" for k P and ts :: "upload_sent_row list"
    using assms(2) row_at_pk [of file_pk "(c', k)" ts] that(2) by (auto simp: row_at_delete [OF that(1)] file_pk_def split: option.splits)
  have update: "row_at file_pk (c', k) (update_where (\<lambda>r. file_pk r = (c, key)) f ts) = row_at file_pk (c', k) ts"
    if "\<And>r. file_pk (f r) = file_pk r" for k key and ts :: "upload_queue_row list" and f
    using assms(2) row_at_pk [of file_pk "(c', k)" ts]
    by (cases "row_at file_pk (c', k) ts") (auto simp: row_at_update [of file_pk f, OF that])
  show ?thesis
  proof (cases op)
    case (MarkSent key sentAt)
    have "(\<forall>k. row_at file_pk (c', k) (sq_queue s') = row_at file_pk (c', k) (sq_queue s))
        \<and> (\<forall>k. row_at file_pk (c', k) (sq_sent s') = row_at file_pk (c', k) (sq_sent s)) \<and> sq_cursor s' = sq_cursor s \<and> sq_batch s' = sq_batch s"
      using assms(1,2) q MarkSent
      by (auto simp: sql_markSent_def sql_remove_def row_at_delete_key row_at_upsert split: option.splits sum.splits)
    then show ?thesis by (simp add: store_agrees_def)
  next
    case (RequeueSent key)
    have "(\<forall>k. row_at file_pk (c', k) (sq_queue s') = row_at file_pk (c', k) (sq_queue s))
        \<and> (\<forall>k. row_at file_pk (c', k) (sq_sent s') = row_at file_pk (c', k) (sq_sent s)) \<and> sq_cursor s' = sq_cursor s \<and> sq_batch s' = sq_batch s"
      using assms(1,2) t RequeueSent
      by (auto simp: sql_requeueSent_def sql_enqueueFront_def row_at_delete_key row_at_upsert split: option.splits sum.splits)
    then show ?thesis by (simp add: store_agrees_def)
  qed (use assms q t b in \<open>auto simp: store_agrees_def sql_enqueue_def sql_enqueueFront_def sql_remove_def sql_update_def
      sql_dropSentAbove_def sql_pruneSent_def sql_setCursor_def sql_setSeenCloud_def sql_setRescan_def sql_openBatch_def sql_closeBatch_def
      row_at_upsert row_at_delete_key delete update mark_upsert mark_seen_all mark_cleared marks_ok_iff split: option.splits\<close>)
qed

section \<open>Runs\<close>

text \<open>Operations of several engines on one database, and what one of them asked for.\<close>

fun sql_run :: "(string \<times> upload_op) list \<Rightarrow> sqlite_store \<Rightarrow> js_error + sqlite_store" where
  "sql_run [] s = Inr s"
| "sql_run ((c, op) # ops) s = (case sql_apply c op s of Inl e \<Rightarrow> Inl e | Inr s' \<Rightarrow> sql_run ops s')"

definition mem_run :: "upload_op list \<Rightarrow> memory_store \<Rightarrow> memory_store" where
  "mem_run ops m = fold mem_apply ops m"

fun run_fits :: "memory_store \<Rightarrow> upload_op list \<Rightarrow> bool" where
  "run_fits m [] \<longleftrightarrow> True"
| "run_fits m (op # ops) \<longleftrightarrow> op_ok m op \<and> run_fits (mem_apply op m) ops"

definition ops_of :: "string \<Rightarrow> (string \<times> upload_op) list \<Rightarrow> upload_op list" where
  "ops_of c ops = map snd (filter (\<lambda>(c', op). c' = c) ops)"

lemma run_agrees:
  assumes "\<forall>c. store_agrees c s (m c) \<and> memory_ok (m c) \<and> run_fits (m c) (ops_of c ops)" "tables_keyed s"
  shows "\<exists>s'. sql_run ops s = Inr s' \<and> tables_keyed s' \<and> (\<forall>c. store_agrees c s' (mem_run (ops_of c ops) (m c)) \<and> memory_ok (mem_run (ops_of c ops) (m c)))"
  using assms
proof (induction ops arbitrary: s m)
  case Nil
  then show ?case by (simp add: mem_run_def ops_of_def)
next
  case (Cons cop ops)
  obtain c op where cop: "cop = (c, op)" by (cases cop)
  let ?m = "m(c := mem_apply op (m c))"
  have c: "store_agrees c s (m c)" "memory_ok (m c)" "op_ok (m c) op"
    using Cons.prems(1) by (auto simp: cop ops_of_def dest: spec [of _ c])
  obtain s' where s': "sql_apply c op s = Inr s'" "store_agrees c s' (mem_apply op (m c))"
    using agrees_apply [OF c(1,2) Cons.prems(2) c(3)] by blast
  have keyed: "tables_keyed s'" using tables_keyed_apply [OF Cons.prems(2) s'(1)] .
  have "store_agrees d s' (?m d) \<and> memory_ok (?m d) \<and> run_fits (?m d) (ops_of d ops)" for d
  proof (cases "d = c")
    case True
    then show ?thesis using s'(2) memory_ok_apply [OF c(2,3)] Cons.prems(1) by (auto simp: cop ops_of_def dest: spec [of _ c])
  next
    case False
    then show ?thesis using isolated_apply [OF s'(1) False Cons.prems(2) c(3)] Cons.prems(1)
      by (auto simp: cop ops_of_def dest: spec [of _ d])
  qed
  then obtain s'' where "sql_run ops s' = Inr s''" "tables_keyed s''"
    "\<forall>d. store_agrees d s'' (mem_run (ops_of d ops) (?m d)) \<and> memory_ok (mem_run (ops_of d ops) (?m d))"
    using Cons.IH [of s' ?m] keyed by blast
  moreover have "mem_run (ops_of d ops) (?m d) = mem_run (ops_of d (cop # ops)) (m d)" for d
    by (simp add: cop ops_of_def mem_run_def)
  ultimately show ?case by (simp add: cop s'(1))
qed

lemma empty_agrees [simp, intro]: "store_agrees c empty_sqlite empty_memory" "memory_ok empty_memory" "tables_keyed empty_sqlite"
  by (simp_all add: store_agrees_def empty_sqlite_def empty_memory_def memory_ok_def keyed_files_def tables_keyed_def row_at_def mark_at_def marks_ok_iff)

section \<open>The answers\<close>

text \<open>Every order of a list that a total order without ties allows is the same list.\<close>

lemma sorted_wrt_unique:
  assumes "sorted_wrt R xs" "sorted_wrt R ys" "mset xs = mset ys"
    and "\<And>x y. x \<in> set xs \<Longrightarrow> y \<in> set xs \<Longrightarrow> R x y \<Longrightarrow> R y x \<Longrightarrow> x = y"
  shows "xs = ys"
  using assms
proof (induction xs arbitrary: ys)
  case (Cons x xs)
  obtain y ys' where ys: "ys = y # ys'" using Cons.prems(3) by (cases ys) auto
  have sets: "set (x # xs) = set ys" using Cons.prems(3) mset_eq_setD by blast
  have "x = y"
  proof (rule ccontr)
    assume ne: "x \<noteq> y"
    then have "y \<in> set xs" "x \<in> set ys'" using sets ys by auto
    then have "R x y" "R y x" using Cons.prems(1,2) ys by auto
    then show False using Cons.prems(4) [of x y] \<open>y \<in> set xs\<close> ne by auto
  qed
  moreover have "xs = ys'"
  proof (rule Cons.IH)
    show "sorted_wrt R xs" "sorted_wrt R ys'" using Cons.prems(1,2) ys by auto
    show "mset xs = mset ys'" using Cons.prems(3) ys \<open>x = y\<close> by simp
    show "\<And>a b. a \<in> set xs \<Longrightarrow> b \<in> set xs \<Longrightarrow> R a b \<Longrightarrow> R b a \<Longrightarrow> a = b" using Cons.prems(4) by auto
  qed
  ultimately show ?case using ys by simp
qed simp

definition cmp_orders :: "('a \<Rightarrow> 'a \<Rightarrow> int) \<Rightarrow> 'a set \<Rightarrow> bool" where
  "cmp_orders cmp S \<longleftrightarrow> (\<forall>x \<in> S. \<forall>y \<in> S. (cmp x y \<le> 0 \<or> cmp y x \<le> 0) \<and> (cmp x y \<le> 0 \<and> cmp y x \<le> 0 \<longrightarrow> x = y)
     \<and> (\<forall>z \<in> S. cmp x y \<le> 0 \<and> cmp y z \<le> 0 \<longrightarrow> cmp x z \<le> 0))"

lemma js_insert_sorted:
  assumes "cmp_orders cmp S" "x \<in> S" "set xs \<subseteq> S" "sorted_wrt (\<lambda>a b. cmp a b \<le> 0) xs"
  shows "sorted_wrt (\<lambda>a b. cmp a b \<le> 0) (js_insert cmp x xs) \<and> mset (js_insert cmp x xs) = mset (x # xs)"
  using assms(3,4)
proof (induction xs)
  case (Cons y ys)
  have y: "y \<in> S" and ys: "set ys \<subseteq> S" and less: "\<forall>z \<in> set ys. cmp y z \<le> 0" "sorted_wrt (\<lambda>a b. cmp a b \<le> 0) ys"
    using Cons.prems by auto
  show ?case
  proof (cases "cmp x y \<le> 0")
    case True
    have "cmp x z \<le> 0" if "z \<in> set ys" for z
      using assms(1,2) y ys that True less(1) unfolding cmp_orders_def by (meson subsetD)
    then show ?thesis using True Cons.prems(2) by simp
  next
    case False
    then have "cmp y x \<le> 0" using assms(1,2) y unfolding cmp_orders_def by meson
    moreover have "set (js_insert cmp x ys) = insert x (set ys)"
      using Cons.IH [OF ys less(2)] by (metis mset_eq_setD list.simps(15))
    ultimately show ?thesis using False less Cons.IH [OF ys less(2)] by (simp add: add_mset_commute)
  qed
qed simp

lemma js_sort_sorted:
  assumes "cmp_orders cmp S" "set xs \<subseteq> S"
  shows "sorted_wrt (\<lambda>a b. cmp a b \<le> 0) (js_sort cmp xs) \<and> mset (js_sort cmp xs) = mset xs"
  using assms(2)
proof (induction xs)
  case (Cons x xs)
  have IH: "sorted_wrt (\<lambda>a b. cmp a b \<le> 0) (js_sort cmp xs)" "mset (js_sort cmp xs) = mset xs"
    using Cons by auto
  have "set (js_sort cmp xs) \<subseteq> S" using IH(2) Cons.prems by (metis mset_eq_setD set_subset_Cons subset_trans)
  then show ?case
    using js_insert_sorted [OF assms(1) _ _ IH(1), of x] Cons.prems IH(2) by (simp add: js_sort_def)
qed (simp add: js_sort_def)

lemma js_sort_unique:
  assumes "cmp_orders cmp (set xs)" "mset xs = mset ys"
  shows "js_sort cmp xs = js_sort cmp ys"
proof -
  have sets: "set ys = set xs" using assms(2) mset_eq_setD by metis
  note x = js_sort_sorted [OF assms(1) subset_refl] and y = js_sort_sorted [OF assms(1), of ys]
  show ?thesis
  proof (rule sorted_wrt_unique)
    show "sorted_wrt (\<lambda>a b. cmp a b \<le> 0) (js_sort cmp xs)" "sorted_wrt (\<lambda>a b. cmp a b \<le> 0) (js_sort cmp ys)"
      using x y sets by auto
    show "mset (js_sort cmp xs) = mset (js_sort cmp ys)" using x y sets assms(2) by simp
    fix a b assume "a \<in> set (js_sort cmp xs)" "b \<in> set (js_sort cmp xs)" "cmp a b \<le> 0" "cmp b a \<le> 0"
    moreover have "set (js_sort cmp xs) = set xs" using x mset_eq_setD by blast
    ultimately show "a = b" using assms(1) unfolding cmp_orders_def by blast
  qed
qed

lemma js_sort_map:
  assumes "\<And>a b. a \<in> set es \<Longrightarrow> b \<in> set es \<Longrightarrow> cmp' (f a) (f b) \<le> 0 \<longleftrightarrow> cmp a b \<le> 0"
  shows "js_sort cmp' (map f es) = map f (js_sort cmp es) \<and> set (js_sort cmp es) = set es"
  using assms
proof (induction es)
  case (Cons e es)
  have insert: "set xs \<subseteq> set (e # es) \<Longrightarrow> js_insert cmp' (f e) (map f xs) = map f (js_insert cmp e xs) \<and> set (js_insert cmp e xs) = insert e (set xs)" for xs
    by (induction xs) (use Cons.prems in auto)
  have IH: "js_sort cmp' (map f es) = map f (js_sort cmp es)" "set (js_sort cmp es) = set es" using Cons by auto
  then show ?case using insert [of "js_sort cmp es"] by (auto simp: js_sort_def)
qed (simp add: js_sort_def)

text \<open>The rows of a channel are the entries, in some order.\<close>

lemma channel_rows_mset:
  fixes row :: "'e \<Rightarrow> 'b upload_file_columns_scheme" and m :: "(string, 'e) js_map"
  assumes agree: "\<And>k. row_at file_pk (c, k) t = map_option row (js_get m k)"
    and wf: "js_wf m" "distinct (map file_pk t)" and key: "\<And>k e. js_get m k = Some e \<Longrightarrow> file_pk (row e) = (c, k)"
  shows "mset (channel_rows_of c t) = mset (map row (js_values m))"
proof -
  have members: "e \<in> set (js_values m) \<longleftrightarrow> (\<exists>k. js_get m k = Some e)" for e
    using js_get_in_set [OF wf(1)] by (force simp: image_iff)
  have "map file_pk (map row (js_values m)) = map (\<lambda>k. (c, k)) (js_keys m)"
    using key js_get_in_set [OF wf(1)] by (auto simp: comp_def intro!: map_cong)
  moreover have "distinct (map (\<lambda>k. (c, k)) (js_keys m))"
    using wf(1) by (simp add: js_wf_def distinct_map inj_on_def)
  ultimately have "distinct (map file_pk (map row (js_values m)))" by (simp only:)
  then have d1: "distinct (map row (js_values m))" by (simp only: distinct_map)
  have d2: "distinct (channel_rows_of c t)"
    using wf(2) by (simp add: channel_rows_of_def distinct_map)
  have "r \<in> set (channel_rows_of c t) \<longleftrightarrow> r \<in> set (map row (js_values m))" for r
  proof -
    have "r \<in> set (channel_rows_of c t) \<longleftrightarrow> (\<exists>k. row_at file_pk (c, k) t = Some r)"
      by (auto simp: channel_rows_of_def row_at_Some [OF wf(2)] file_pk_def)
    also have "\<dots> \<longleftrightarrow> r \<in> row ` {e. \<exists>k. js_get m k = Some e}" by (auto simp: agree)
    also have "{e. \<exists>k. js_get m k = Some e} = set (js_values m)" using members by (intro set_eqI) simp
    also have "r \<in> row ` set (js_values m) \<longleftrightarrow> r \<in> set (map row (js_values m))" by (simp only: set_map)
    finally show ?thesis .
  qed
  then have "set (channel_rows_of c t) = set (map row (js_values m))" by (intro set_eqI)
  then show ?thesis using d1 d2 set_eq_iff_mset_eq_distinct by blast
qed

lemma queue_rows_mset:
  assumes "store_agrees c s m" "memory_ok m" "tables_keyed s"
  shows "mset (channel_rows_of c (sq_queue s)) = mset (map (entry_row c) (js_values (mq_queue m)))"
  by (rule channel_rows_mset)
    (use assms queued_key [OF assms(2)] in \<open>auto simp: store_agrees_def memory_ok_def keyed_files_def tables_keyed_def\<close>)

lemma sent_rows_mset:
  assumes "store_agrees c s m" "memory_ok m" "tables_keyed s"
  shows "mset (channel_rows_of c (sq_sent s)) = mset (map (sent_entry_row c) (js_values (mq_sent m)))"
  by (rule channel_rows_mset)
    (use assms sent_key [OF assms(2)] in \<open>auto simp: store_agrees_def memory_ok_def keyed_files_def tables_keyed_def\<close>)

lemma filtered_rows:
  assumes "mset rows = mset (map row es)" "\<And>e. P (row e) \<longleftrightarrow> Q e"
  shows "mset (filter P rows) = mset (map row (filter Q es))"
proof -
  have "mset (filter P rows) = mset (filter P (map row es))" using assms(1) by simp
  moreover have "filter P (map row es) = map row (filter Q es)" using assms(2) by (simp add: filter_map comp_def)
  ultimately show ?thesis by simp
qed

lemma cmp_orders_image:
  assumes "cmp_orders cmp S" "\<And>a b. a \<in> S \<Longrightarrow> b \<in> S \<Longrightarrow> cmp' (f a) (f b) \<le> 0 \<longleftrightarrow> cmp a b \<le> 0"
  shows "cmp_orders cmp' (f ` S)"
proof -
  have "(cmp' (f a) (f b) \<le> 0 \<or> cmp' (f b) (f a) \<le> 0) \<and> (cmp' (f a) (f b) \<le> 0 \<and> cmp' (f b) (f a) \<le> 0 \<longrightarrow> f a = f b)
      \<and> (cmp' (f a) (f b) \<le> 0 \<and> cmp' (f b) (f c) \<le> 0 \<longrightarrow> cmp' (f a) (f c) \<le> 0)"
    if m: "a \<in> S" "b \<in> S" "c \<in> S" for a b c
  proof -
    note ab = bspec [OF bspec [OF assms(1) [unfolded cmp_orders_def] m(1)] m(2)]
    show ?thesis using ab bspec [OF conjunct2 [OF conjunct2 [OF ab]] m(3)] assms(2) [OF m(1,2)] assms(2) [OF m(2,1)]
        assms(2) [OF m(2,3)] assms(2) [OF m(1,3)]
      by auto
  qed
  then have "\<forall>a \<in> S. \<forall>b \<in> S. (cmp' (f a) (f b) \<le> 0 \<or> cmp' (f b) (f a) \<le> 0) \<and> (cmp' (f a) (f b) \<le> 0 \<and> cmp' (f b) (f a) \<le> 0 \<longrightarrow> f a = f b)
      \<and> (\<forall>c \<in> S. cmp' (f a) (f b) \<le> 0 \<and> cmp' (f b) (f c) \<le> 0 \<longrightarrow> cmp' (f a) (f c) \<le> 0)"
    by blast
  then show ?thesis unfolding cmp_orders_def ball_simps(9) .
qed

lemma sorted_answer:
  assumes rows: "mset rows = mset (map (entry_row c) es)"
    and cmp: "\<And>a b. a \<in> set es \<Longrightarrow> b \<in> set es \<Longrightarrow> cmp' (entry_row c a) (entry_row c b) \<le> 0 \<longleftrightarrow> cmp a b \<le> 0"
    and orders: "cmp_orders cmp (set es)" and ok: "\<And>e. e \<in> set es \<Longrightarrow> stamp_ok (qf_hlc e)"
  shows "all_results (map toEntry (take n (js_sort cmp' rows))) = Inr (take n (js_sort cmp es))"
proof -
  note map = js_sort_map [of es cmp' "entry_row c" cmp, OF cmp]
  have "cmp_orders cmp' (set (map (entry_row c) es))"
    using cmp_orders_image [of cmp "set es" cmp' "entry_row c", OF orders cmp] by simp
  then have "js_sort cmp' rows = js_sort cmp' (map (entry_row c) es)"
    using js_sort_unique [of cmp' "map (entry_row c) es" rows] rows by simp
  then have "map toEntry (take n (js_sort cmp' rows)) = map (toEntry \<circ> entry_row c) (take n (js_sort cmp es))"
    using map by (simp add: take_map)
  moreover have "map (toEntry \<circ> entry_row c) (take n (js_sort cmp es)) = map Inr (take n (js_sort cmp es))"
    using map ok toEntry_row by (auto simp: comp_def dest: in_set_takeD intro!: map_cong)
  ultimately show ?thesis by simp
qed

lemma row_fields [simp]:
  "uf_tier (entry_row c e) = tier_text (qf_tier e)" "uf_key (entry_row c e) = qf_key e" "uf_channel (entry_row c e) = c"
  "uf_hlc (entry_row c e) = serializeHLC (qf_hlc e)" "uf_size_bytes (entry_row c e) = qf_sizeBytes e"
  "uq_state (entry_row c e) = state_text (qe_state e)" "uq_next_attempt_at (entry_row c e) = qe_nextAttemptAt e"
  "uq_front (entry_row c e) = (if qe_front e then 1 else 0)"
  by (simp_all add: row_defs)

lemma tier_text_inject [simp]: "tier_text a = tier_text b \<longleftrightarrow> a = b" "tier_text a = ''fast'' \<longleftrightarrow> a = Fast"
  by (cases a; cases b; simp)+

lemma state_text_inject [simp]:
  "state_text x = state_text y \<longleftrightarrow> x = y" "state_text x = ''ready'' \<longleftrightarrow> x = Ready"
  "state_text x = ''blocked-not-held'' \<longleftrightarrow> x = BlockedNotHeld"
  by (cases x; cases y; simp)+

lemma key_cmp_le: "key_cmp a b \<le> 0 \<longleftrightarrow> a \<le> b"
  by (auto simp: key_cmp_def)

lemma schedule_order_row:
  assumes "stamp_ok (qf_hlc a)" "stamp_ok (qf_hlc b)"
  shows "schedule_order tier (entry_row c a) (entry_row c b) \<le> 0 \<longleftrightarrow> schedule_cmp tier a b \<le> 0"
  using assms serialize_le [of "qf_hlc a" "qf_hlc b"] serialize_le [of "qf_hlc b" "qf_hlc a"]
  by (auto simp: schedule_order_def schedule_cmp_def key_cmp_le hlc_order stamp_ok_def)

lemma schedule_cmp_orders: "inj_on qf_hlc S \<Longrightarrow> cmp_orders (schedule_cmp tier) S"
  unfolding cmp_orders_def
  by (intro ballI conjI impI) (auto simp: schedule_cmp_def hlc_order inj_on_eq_iff split: if_splits)

lemma key_cmp_orders: "inj_on f S \<Longrightarrow> cmp_orders (\<lambda>a b. key_cmp (f a) (f b)) S"
  unfolding cmp_orders_def key_cmp_le
  by (intro ballI conjI impI) (auto simp: inj_on_eq_iff)

lemma queued_value: "memory_ok m \<Longrightarrow> e \<in> set (js_values (mq_queue m)) \<Longrightarrow> stamp_ok (qf_hlc e) \<and> js_get (mq_queue m) (qf_key e) = Some e"
proof -
  assume ok: "memory_ok m" and e: "e \<in> set (js_values (mq_queue m))"
  have wf: "js_wf (mq_queue m)" using ok by (simp add: memory_ok_def keyed_files_def)
  obtain k where "(k, e) \<in> set (mq_queue m)" using e by auto
  then have get: "js_get (mq_queue m) k = Some e" using js_get_in_set [OF wf] by simp
  show ?thesis using queued_key [OF ok get] get by simp
qed

lemma nextReady_agrees:
  assumes "store_agrees c s m" "memory_ok m" "tables_keyed s"
    and "inj_on qf_hlc {e \<in> set (js_values (mq_queue m)). due_entry tier now e}"
  shows "sql_nextReady c tier now n s = Inr (mem_nextReady tier now n m)"
  unfolding sql_nextReady_def mem_nextReady_def
proof (rule sorted_answer)
  show "mset (filter (\<lambda>r. uf_tier r = tier_text tier \<and> uq_state r = ''ready'' \<and> uq_next_attempt_at r \<le> now) (channel_rows_of c (sq_queue s)))
      = mset (map (entry_row c) (filter (due_entry tier now) (js_values (mq_queue m))))"
    by (rule filtered_rows [OF queue_rows_mset [OF assms(1,2,3)]]) (auto simp: due_entry_def)
  fix a b assume "a \<in> set (filter (due_entry tier now) (js_values (mq_queue m)))" "b \<in> set (filter (due_entry tier now) (js_values (mq_queue m)))"
  then show "schedule_order tier (entry_row c a) (entry_row c b) \<le> 0 \<longleftrightarrow> schedule_cmp tier a b \<le> 0"
    using queued_value [OF assms(2)] by (intro schedule_order_row) auto
next
  show "cmp_orders (schedule_cmp tier) (set (filter (due_entry tier now) (js_values (mq_queue m))))"
    using assms(4) by (intro schedule_cmp_orders) (simp only: set_filter)
qed (use queued_value [OF assms(2)] in auto)

lemma blocked_agrees:
  assumes "store_agrees c s m" "memory_ok m" "tables_keyed s" "js_get (mq_queue m) [] = None"
  shows "sql_blocked c afterKey n s = Inr (mem_blocked afterKey n m)"
  unfolding sql_blocked_def mem_blocked_def
proof (rule sorted_answer)
  let ?Q = "\<lambda>e. qe_state e = BlockedNotHeld \<and> (case afterKey of None \<Rightarrow> True | Some k \<Rightarrow> qf_key e > k)"
  have "qf_key e \<noteq> []" if "e \<in> set (js_values (mq_queue m))" for e
    using queued_value [OF assms(2) that] assms(4) by auto
  then have "filter ?Q (js_values (mq_queue m))
      = filter (\<lambda>e. qe_state e = BlockedNotHeld \<and> qf_key e > (case afterKey of None \<Rightarrow> [] | Some k \<Rightarrow> k)) (js_values (mq_queue m))"
    by (intro filter_cong refl conj_cong) (cases afterKey; force simp: neq_Nil_conv)
  then show "mset (filter (\<lambda>r. uq_state r = ''blocked-not-held'' \<and> uf_key r > (case afterKey of None \<Rightarrow> [] | Some k \<Rightarrow> k)) (channel_rows_of c (sq_queue s)))
      = mset (map (entry_row c) (filter ?Q (js_values (mq_queue m))))"
    using filtered_rows [OF queue_rows_mset [OF assms(1,2,3)],
        of "\<lambda>r. uq_state r = ''blocked-not-held'' \<and> uf_key r > (case afterKey of None \<Rightarrow> [] | Some k \<Rightarrow> k)"
          "\<lambda>e. qe_state e = BlockedNotHeld \<and> qf_key e > (case afterKey of None \<Rightarrow> [] | Some k \<Rightarrow> k)"]
    by simp
  have "inj_on qf_key (set (js_values (mq_queue m)))"
    using queued_value [OF assms(2)] by (metis (no_types, lifting) inj_onI option.inject)
  then show "cmp_orders (\<lambda>a b. key_cmp (qf_key a) (qf_key b)) (set (filter ?Q (js_values (mq_queue m))))"
    by (intro key_cmp_orders) (rule inj_on_subset, auto)
qed (use queued_value [OF assms(2)] in auto)

lemma earlier_due_Min:
  "fold earlier_due ns x = (let due = (case x of None \<Rightarrow> [] | Some n \<Rightarrow> [n]) @ ns in if due = [] then None else Some (Min (set due)))"
proof (induction ns arbitrary: x)
  case (Cons n ns)
  have swap: "Min (insert n (insert k A)) = Min (insert (min n k) A)" if "finite A" for n k :: nat and A
    using that by (cases "A = {}") (simp_all add: min.assoc)
  have "earlier_due n x = Some (case x of None \<Rightarrow> n | Some m \<Rightarrow> min n m)"
    by (auto simp: earlier_due_def min_def split: option.splits)
  moreover have "Min (insert a (insert n (set ns))) = Min (insert (min n a) (set ns))" for a
    using swap [of "set ns" n a] by (simp only: insert_commute finite_set)
  ultimately show ?case by (cases x) (simp_all add: Cons.IH Let_def del: Min_insert)
qed (auto split: option.splits)

lemma nextDueAt_fold:
  "fold (\<lambda>e earliest. if qe_state e \<noteq> Ready \<or> qe_nextAttemptAt e \<le> now then earliest else earlier_due (qe_nextAttemptAt e) earliest) es x
    = fold earlier_due (map qe_nextAttemptAt (filter (\<lambda>e. qe_state e = Ready \<and> qe_nextAttemptAt e > now) es)) x"
  by (induction es arbitrary: x) auto

lemma nextDueAt_agrees:
  assumes "store_agrees c s m" "memory_ok m" "tables_keyed s"
  shows "sql_nextDueAt c now s = mem_nextDueAt now m"
proof -
  let ?Q = "\<lambda>e. qe_state e = Ready \<and> qe_nextAttemptAt e > now"
  have "mset (filter (\<lambda>r. uq_state r = ''ready'' \<and> uq_next_attempt_at r > now) (channel_rows_of c (sq_queue s)))
      = mset (map (entry_row c) (filter ?Q (js_values (mq_queue m))))"
    by (rule filtered_rows [OF queue_rows_mset [OF assms]]) simp
  then have "set (filter (\<lambda>r. uq_state r = ''ready'' \<and> uq_next_attempt_at r > now) (channel_rows_of c (sq_queue s)))
      = set (map (entry_row c) (filter ?Q (js_values (mq_queue m))))"
    by (rule mset_eq_setD)
  then have "uq_next_attempt_at ` set (filter (\<lambda>r. uq_state r = ''ready'' \<and> uq_next_attempt_at r > now) (channel_rows_of c (sq_queue s)))
      = qe_nextAttemptAt ` set (filter ?Q (js_values (mq_queue m)))"
    by (simp only: set_map image_image row_fields)
  then have "set (map uq_next_attempt_at (filter (\<lambda>r. uq_state r = ''ready'' \<and> uq_next_attempt_at r > now) (channel_rows_of c (sq_queue s))))
      = set (map qe_nextAttemptAt (filter ?Q (js_values (mq_queue m))))"
    by (simp only: set_map)
  then show ?thesis
    unfolding sql_nextDueAt_def mem_nextDueAt_def nextDueAt_fold earlier_due_Min Let_def
    by (simp only: option.case append_Nil set_empty [symmetric])
qed

text \<open>What the groups of a query add up to.\<close>

lemma js_group_sum:
  fixes w :: "'r \<Rightarrow> nat"
  shows "sum_list (map (\<lambda>(k, g). if C k then sum_list (map w g) else 0) (js_group f rows)) = sum_list (map w (filter (\<lambda>r. C (f r)) rows))"
proof -
  let ?gs = "js_group f rows" and ?part = "\<lambda>rows k. if C k then sum_list (map w (filter (\<lambda>r. f r = k) rows)) else 0"
  have all: "(\<Sum>k \<in> K. ?part rs k) = sum_list (map w (filter (\<lambda>r. C (f r)) rs))" if "finite K" "f ` set rs \<subseteq> K" for K rs
    using that(2)
  proof (induction rs)
    case (Cons r rs)
    have "?part (r # rs) k = (if k = f r then if C k then w r else 0 else 0) + ?part rs k" for k by auto
    then have "(\<Sum>k \<in> K. ?part (r # rs) k) = (\<Sum>k \<in> K. if k = f r then if C k then w r else 0 else 0) + (\<Sum>k \<in> K. ?part rs k)"
      by (simp only: sum.distrib)
    moreover have "(\<Sum>k \<in> K. if k = f r then if C k then w r else 0 else 0) = (if C (f r) then w r else 0)"
      using that(1) Cons.prems by (simp add: sum.delta)
    ultimately show ?case using Cons by simp
  qed (simp add: sum.neutral)
  have "map (\<lambda>(k, g). if C k then sum_list (map w g) else 0) ?gs = map (?part rows) (js_keys ?gs)"
    by (auto simp: in_js_group)
  moreover have "distinct (js_keys ?gs)" using js_wf_group [of f rows] by (simp add: js_wf_def)
  ultimately have "sum_list (map (\<lambda>(k, g). if C k then sum_list (map w g) else 0) ?gs) = (\<Sum>k \<in> set (js_keys ?gs). ?part rows k)"
    by (simp only: sum_list_distinct_conv_sum_set)
  then show ?thesis using all [of "set (js_keys ?gs)" rows] js_group_keys [of f rows] by simp
qed

definition grouped :: "(string \<times> string \<Rightarrow> bool) \<Rightarrow> (upload_queue_row \<Rightarrow> nat) \<Rightarrow> ((string \<times> string) \<times> upload_queue_row list) list \<Rightarrow> nat" where
  "grouped C w gs = sum_list (map (\<lambda>(k, g). if C k then sum_list (map w g) else 0) gs)"

lemma grouped_simps [simp]:
  "grouped C w [] = 0" "grouped C w ((k, g) # gs) = (if C k then sum_list (map w g) else 0) + grouped C w gs"
  by (simp_all add: grouped_def)

lemma length_filter_sum: "length (filter P g) = sum_list (map (\<lambda>r. if P r then 1 else 0) g)" "length g = sum_list (map (\<lambda>r. 1) g)"
  by (induction g) auto

lemma totals_of_groups:
  "fold (total_group now) gs t =
     \<lparr>ut_fast = \<lparr>tt_count = tt_count (ut_fast t) + grouped (\<lambda>(tier, state). state \<noteq> ''blocked-not-held'' \<and> tier = ''fast'') (\<lambda>r. 1) gs,
                tt_bytes = tt_bytes (ut_fast t) + grouped (\<lambda>(tier, state). state \<noteq> ''blocked-not-held'' \<and> tier = ''fast'') uf_size_bytes gs\<rparr>,
      ut_full = \<lparr>tt_count = tt_count (ut_full t) + grouped (\<lambda>(tier, state). state \<noteq> ''blocked-not-held'' \<and> tier \<noteq> ''fast'') (\<lambda>r. 1) gs,
                tt_bytes = tt_bytes (ut_full t) + grouped (\<lambda>(tier, state). state \<noteq> ''blocked-not-held'' \<and> tier \<noteq> ''fast'') uf_size_bytes gs\<rparr>,
      ut_blocked = \<lparr>tt_count = tt_count (ut_blocked t) + grouped (\<lambda>(tier, state). state = ''blocked-not-held'') (\<lambda>r. 1) gs,
                tt_bytes = tt_bytes (ut_blocked t) + grouped (\<lambda>(tier, state). state = ''blocked-not-held'') uf_size_bytes gs\<rparr>,
      ut_backingOff = ut_backingOff t + grouped (\<lambda>(tier, state). state = ''ready'') (\<lambda>r. if uq_next_attempt_at r > now then 1 else 0) gs\<rparr>"
proof (induction gs arbitrary: t)
  case (Cons kg gs)
  obtain tier state g where kg: "kg = ((tier, state), g)" by (cases kg) auto
  show ?case
    unfolding kg fold_Cons comp_apply Cons.IH
    by (simp add: total_group_def Let_def add_totals_def length_filter_sum(1) del: One_nat_def)
      (simp add: length_filter_sum(2) del: One_nat_def)
qed simp

lemma sum_over_rows:
  assumes "mset rows = mset (map (entry_row c) es)" "\<And>e. C (tier_text (qf_tier e), state_text (qe_state e)) \<longleftrightarrow> Q e" "\<And>e. w (entry_row c e) = v e"
  shows "grouped C w (js_group (\<lambda>r. (uf_tier r, uq_state r)) rows) = sum_list (map v (filter Q es))"
proof -
  have "mset (filter (\<lambda>r. C (uf_tier r, uq_state r)) rows) = mset (map (entry_row c) (filter Q es))"
    using assms(2) by (intro filtered_rows [OF assms(1)]) simp
  then have "mset (map w (filter (\<lambda>r. C (uf_tier r, uq_state r)) rows)) = mset (map w (map (entry_row c) (filter Q es)))"
    by (simp only: mset_map)
  then have "sum_list (map w (filter (\<lambda>r. C (uf_tier r, uq_state r)) rows)) = sum_list (map w (map (entry_row c) (filter Q es)))"
    by (metis sum_mset_sum_list)
  then show ?thesis using assms(3) by (simp add: grouped_def js_group_sum comp_def)
qed

lemma totals_agree:
  assumes "store_agrees c s m" "memory_ok m" "tables_keyed s"
  shows "sql_totals c now s = mem_totals now m"
proof -
  note rows = queue_rows_mset [OF assms]
  have not_ready: "x \<noteq> BlockedNotHeld \<longleftrightarrow> x = Ready" "t \<noteq> Fast \<longleftrightarrow> t = Full" for x t
    by (cases x; simp) (cases t; simp)
  have backing: "sum_list (map (\<lambda>e. if qe_nextAttemptAt e > now then 1 else 0) (filter (\<lambda>e. qe_state e = Ready) es))
      = length (filter (\<lambda>e. qe_state e = Ready \<and> qe_nextAttemptAt e > now) es)" for es :: "upload_queue_entry list"
    by (induction es) auto
  show ?thesis
    unfolding sql_totals_def totals_of_groups zero_totals_def mem_totals_def Let_def sum_entries_def
    by (simp add: sum_over_rows [OF rows, where Q = "\<lambda>e. qe_state e = Ready \<and> qf_tier e = Fast" and v = "\<lambda>e. 1"]
        sum_over_rows [OF rows, where Q = "\<lambda>e. qe_state e = Ready \<and> qf_tier e = Fast" and v = qf_sizeBytes]
        sum_over_rows [OF rows, where Q = "\<lambda>e. qe_state e = Ready \<and> qf_tier e = Full" and v = "\<lambda>e. 1"]
        sum_over_rows [OF rows, where Q = "\<lambda>e. qe_state e = Ready \<and> qf_tier e = Full" and v = qf_sizeBytes]
        sum_over_rows [OF rows, where Q = "\<lambda>e. qe_state e = BlockedNotHeld" and v = "\<lambda>e. 1"]
        sum_over_rows [OF rows, where Q = "\<lambda>e. qe_state e = BlockedNotHeld" and v = qf_sizeBytes]
        sum_over_rows [OF rows, where Q = "\<lambda>e. qe_state e = Ready" and v = "\<lambda>e. if qe_nextAttemptAt e > now then 1 else 0"]
        not_ready length_filter_sum(2) backing)
qed

lemma truthy_serialized: "truthy_text (Some (serializeHLC h)) = Some (serializeHLC h)"
  using serializeHLC_not_empty [of h] by (cases "serializeHLC h") (simp_all add: truthy_text_def)

lemma read_marks_get:
  assumes "\<forall>r \<in> set rs. col r = map_option serializeHLC (g (uc_author r))" "\<forall>a h. g a = Some h \<longrightarrow> stamp_ok h"
  shows "\<exists>w. read_marks col rs out = Inr w \<and> (\<forall>a. js_get w a = (if a \<in> uc_author ` set rs \<and> g a \<noteq> None then g a else js_get out a))"
  using assms(1)
proof (induction rs arbitrary: out)
  case (Cons r rs)
  have rest: "\<forall>r \<in> set rs. col r = map_option serializeHLC (g (uc_author r))" using Cons.prems by simp
  have here: "col r = map_option serializeHLC (g (uc_author r))" using Cons.prems by simp
  show ?case
  proof (cases "g (uc_author r)")
    case None
    then have "read_marks col (r # rs) out = read_marks col rs out" using here by (simp add: truthy_text_def)
    then show ?thesis using Cons.IH [OF rest, of out] None by auto
  next
    case (Some h)
    then have "read_marks col (r # rs) out = read_marks col rs (js_set (uc_author r) h out)"
      using here truthy_serialized [of h] read_serialized [of h] assms(2) by (simp add: stamp_ok_def)
    then show ?thesis using Cons.IH [OF rest, of "js_set (uc_author r) h out"] Some by auto
  qed
qed simp

lemma marks_agree:
  assumes agree: "\<And>a. mark_at col c a (sq_cursor s) = map_option serializeHLC (js_get w a)" and "tables_keyed s" "marks_ok w"
  shows "\<exists>w'. sql_marks col c s = Inr w' \<and> js_get w' = js_get w"
proof -
  let ?rs = "filter (\<lambda>r. uc_channel r = c) (sq_cursor s)"
  have dist: "distinct (map cursor_pk (sq_cursor s))" using assms(2) by (simp add: tables_keyed_def)
  have at: "row_at cursor_pk (c, uc_author r) (sq_cursor s) = Some r" if "r \<in> set ?rs" for r
    using that by (simp add: row_at_Some [OF dist] cursor_pk_def)
  have "\<forall>r \<in> set ?rs. col r = map_option serializeHLC (js_get w (uc_author r))"
  proof
    fix r assume "r \<in> set ?rs"
    then show "col r = map_option serializeHLC (js_get w (uc_author r))" using agree [of "uc_author r"] at by (simp add: mark_at_def)
  qed
  moreover have "\<forall>a h. js_get w a = Some h \<longrightarrow> stamp_ok h" using assms(3) by (simp add: marks_ok_iff)
  ultimately obtain w' where w': "read_marks col ?rs [] = Inr w'"
    "\<forall>a. js_get w' a = (if a \<in> uc_author ` set ?rs \<and> js_get w a \<noteq> None then js_get w a else js_get [] a)"
    using read_marks_get [of ?rs col "js_get w" "[]"] by blast
  have "js_get w a = None" if "a \<notin> uc_author ` set ?rs" for a
  proof -
    have "row_at cursor_pk (c, a) (sq_cursor s) = None"
      using that by (auto simp: row_at_def find_None_iff cursor_pk_def)
    then show ?thesis using agree [of a] by (simp add: mark_at_def)
  qed
  then have "js_get w' = js_get w" using w'(2) by (intro ext) auto
  then show ?thesis using w'(1) by (simp add: sql_marks_def)
qed

section \<open>One store for another\<close>

text \<open>Every query but the ordered ones.\<close>

definition answers_alike :: "string \<Rightarrow> sqlite_store \<Rightarrow> memory_store \<Rightarrow> bool" where
  "answers_alike c s m \<longleftrightarrow>
     (\<forall>key. sql_get c key s = Inr (mem_get key m)) \<and> (\<forall>key. sql_sent c key s = Inr (mem_sent key m))
     \<and> sql_sentCount c s = mem_sentCount m
     \<and> (\<forall>now. sql_totals c now s = mem_totals now m) \<and> (\<forall>now. sql_nextDueAt c now s = mem_nextDueAt now m)
     \<and> (\<exists>w. sql_marks uc_cursor_hlc c s = Inr w \<and> js_get w = js_get (mq_cursor m))
     \<and> (\<exists>w. sql_marks uc_seen_cloud_hlc c s = Inr w \<and> js_get w = js_get (mq_seen m))
     \<and> (\<exists>w. sql_marks uc_rescan_to_hlc c s = Inr w \<and> js_get w = js_get (mq_rescan m))"

lemma agreeing_answers:
  assumes a: "store_agrees c s m" and ok: "memory_ok m" and keyed: "tables_keyed s"
  shows "answers_alike c s m"
  unfolding answers_alike_def
proof (intro conjI allI)
  note agrees = assms
  show "sql_get c key s = Inr (mem_get key m)" for key
    using agrees_queue [OF a, of key] queued_key [OF ok, of key] toEntry_row
    by (cases "js_get (mq_queue m) key") (auto simp: sql_get_def mem_get_def)
  show "sql_sent c key s = Inr (mem_sent key m)" for key
    using agrees_sent [OF a, of key] sent_key [OF ok, of key] toSent_row
    by (cases "js_get (mq_sent m) key") (auto simp: sql_sent_def mem_sent_def)
  have "length (channel_rows_of c (sq_sent s)) = length (map (sent_entry_row c) (js_values (mq_sent m)))"
    using sent_rows_mset [OF agrees] mset_eq_length by blast
  then show "sql_sentCount c s = mem_sentCount m" by (simp add: sql_sentCount_def mem_sentCount_def)
  show "sql_totals c now s = mem_totals now m" for now by (rule totals_agree [OF agrees])
  show "sql_nextDueAt c now s = mem_nextDueAt now m" for now by (rule nextDueAt_agrees [OF agrees])
  have marks: "marks_ok (mq_cursor m)" "marks_ok (mq_seen m)" "marks_ok (mq_rescan m)" using ok by (simp_all add: memory_ok_def)
  show "\<exists>w. sql_marks uc_cursor_hlc c s = Inr w \<and> js_get w = js_get (mq_cursor m)"
    by (rule marks_agree [OF _ keyed marks(1)]) (use a in \<open>simp add: store_agrees_def\<close>)
  show "\<exists>w. sql_marks uc_seen_cloud_hlc c s = Inr w \<and> js_get w = js_get (mq_seen m)"
    by (rule marks_agree [OF _ keyed marks(2)]) (use a in \<open>simp add: store_agrees_def\<close>)
  show "\<exists>w. sql_marks uc_rescan_to_hlc c s = Inr w \<and> js_get w = js_get (mq_rescan m)"
    by (rule marks_agree [OF _ keyed marks(3)]) (use a in \<open>simp add: store_agrees_def\<close>)
qed

lemma run_from_empty:
  assumes "\<forall>c. run_fits empty_memory (ops_of c ops)"
  shows "\<exists>s. sql_run ops empty_sqlite = Inr s \<and> tables_keyed s
    \<and> (\<forall>c. store_agrees c s (mem_run (ops_of c ops) empty_memory) \<and> memory_ok (mem_run (ops_of c ops) empty_memory))"
proof -
  have "\<forall>c. store_agrees c empty_sqlite empty_memory \<and> memory_ok empty_memory \<and> run_fits empty_memory (ops_of c ops)"
    using assms by simp
  then show ?thesis using run_agrees [of empty_sqlite "\<lambda>c. empty_memory" ops] empty_agrees(3) by simp
qed


text \<open>Two engines on one database, each with its own version of one file.\<close>

definition sample_upload :: "string \<Rightarrow> nat \<Rightarrow> nat \<Rightarrow> queued_file" where
  "sample_upload key wall bytes =
     \<lparr>qf_key = key, qf_hlc = HLC wall 0 ''n1'', qf_recordId = None, qf_itemId = key, qf_sizeBytes = bytes,
      qf_fileHash = key, qf_mimeType = None, qf_tier = Full\<rparr>"

definition sample_upload_ops :: "(string \<times> upload_op) list" where
  "sample_upload_ops =
     [(''drive'', Enqueue (sample_upload ''a'' 2 10)), (''app'', Enqueue (sample_upload ''a'' 3 30)),
      (''drive'', Enqueue (sample_upload ''b'' 1 20)), (''drive'', RecordFailure ''a'' 1 500 ''timeout''),
      (''drive'', MarkSent ''b'' 9), (''app'', SetCursor ''n1'' (Some (HLC 3 0 ''n1'')))]"

lemma sample_ops_of: "ops_of c sample_upload_ops =
    (if c = ''drive'' then [Enqueue (sample_upload ''a'' 2 10), Enqueue (sample_upload ''b'' 1 20),
        RecordFailure ''a'' 1 500 ''timeout'', MarkSent ''b'' 9]
     else if c = ''app'' then [Enqueue (sample_upload ''a'' 3 30), SetCursor ''n1'' (Some (HLC 3 0 ''n1''))] else [])"
  by (auto simp: ops_of_def sample_upload_ops_def)

lemma sample_ops_fit: "\<forall>c. run_fits empty_memory (ops_of c sample_upload_ops)"
proof
  fix c
  have "run_fits empty_memory (ops_of ''drive'' sample_upload_ops)" "run_fits empty_memory (ops_of ''app'' sample_upload_ops)"
    by (simp_all add: sample_ops_of stamp_ok_def hlc_fits_def sample_upload_def)
  then show "run_fits empty_memory (ops_of c sample_upload_ops)"
    using sample_ops_of [of c] by (cases "c = ''drive''"; cases "c = ''app''") simp_all
qed




text \<open>
  Where the stores part: a sent file is put back while a newer version of it is queued. The
  in-memory store goes back to the version it sent, the SQLite store keeps the newer one.
\<close>

lemma requeue_goes_back_in_memory:
  fixes ops defines "ops \<equiv> [Enqueue (sample_upload ''a'' 2 10), MarkSent ''a'' 9, Enqueue (sample_upload ''a'' 3 10), RequeueSent ''a'']"
  shows "map_option qf_hlc (mem_get ''a'' (mem_run ops empty_memory)) = Some (HLC 2 0 ''n1'')
    \<and> (case sql_run (map (Pair ''drive'') ops) empty_sqlite of Inr s \<Rightarrow> map uf_hlc (sq_queue s) | Inl e \<Rightarrow> [])
      = [serializeHLC (HLC 3 0 ''n1'')]"
  unfolding ops_def by code_simp

end
