(* ===== verification/Uploader.thy ===== *)
theory Uploader
  imports File_Rows Multipart Upload_Queue
begin

text \<open>
  The uploader beside the sync round (\<open>packages/sync-engine/src/uploader.ts\<close>, \<open>createUploader\<close>) as a
  state machine. The state is the closure's variables and the queue store; a transition is what runs
  between two \<open>await\<close>s, so the steps of a presign batch, of every transfer, of discovery, of
  reconciliation and of a stop interleave as they do in the program. What the outside answers (the
  cloud, local storage, the record and label tables, the clock) is carried by the event.

  Timers are not modelled as such: a wake-up may come at any time. Listeners and log lines are left out.

  The lemmas show that a file leaves the queue only on proof or on a durable decision, that transfers
  keep within their lanes and the byte budget, and that no file is taken twice at once.
\<close>

section \<open>Constants\<close>

definition FAST_TIER_MAX_BYTES :: nat where "FAST_TIER_MAX_BYTES = 1024 * 1024"

definition UPLOAD_BATCH_SIZE :: nat where "UPLOAD_BATCH_SIZE = 32"

definition SMALL_LANE_MAX_BYTES :: nat where "SMALL_LANE_MAX_BYTES = 1024 * 1024"

definition SMALL_LANE_SLOTS :: nat where "SMALL_LANE_SLOTS = 6"

definition LARGE_LANE_SLOTS :: nat where "LARGE_LANE_SLOTS = 2"

definition PARTS_LANE_SLOTS :: nat where "PARTS_LANE_SLOTS = 1"

definition MAX_BYTES_IN_FLIGHT :: nat where "MAX_BYTES_IN_FLIGHT = 32 * 1024 * 1024"

definition UPLOAD_BACKOFF_MS :: "nat list" where "UPLOAD_BACKOFF_MS = [30000, 120000, 600000, 1800000]"

definition NETWORK_PAUSE_MS :: nat where "NETWORK_PAUSE_MS = 30000"

definition DISCOVERY_PAGE_ROWS :: nat where "DISCOVERY_PAGE_ROWS = 1000"

definition BLOCKED_RECHECK_PAGE :: nat where "BLOCKED_RECHECK_PAGE = 64"

definition PIN_SCAN_ROWS :: nat where "PIN_SCAN_ROWS = 64"

definition REPORT_FAILURES :: nat where "REPORT_FAILURES = 5"

definition REPORT_ERROR_CHARS :: nat where "REPORT_ERROR_CHARS = 200"

definition uploadTierOf :: "string option \<Rightarrow> nat \<Rightarrow> upload_tier" where
  "uploadTierOf parent sizeBytes = (if parent \<noteq> None \<and> sizeBytes \<le> FAST_TIER_MAX_BYTES then Fast else Full)"

text \<open>\<open>(key.split("/").pop() ?? key).slice(0, 12)\<close>.\<close>

definition shortKey :: "string \<Rightarrow> string" where
  "shortKey key = take 12 (List.last (js_split CHR ''/'' key))"

definition backoffFor :: "nat \<Rightarrow> nat" where
  "backoffFor attempts = UPLOAD_BACKOFF_MS ! (min attempts (length UPLOAD_BACKOFF_MS) - 1)"

section \<open>Errors of a transfer\<close>

record send_error =
  er_name :: string
  er_message :: string

definition word_char :: "char \<Rightarrow> bool" where
  "word_char c \<longleftrightarrow> (let n = of_char c :: nat in 48 \<le> n \<and> n \<le> 57 \<or> 65 \<le> n \<and> n \<le> 90 \<or> 97 \<le> n \<and> n \<le> 122 \<or> n = 95)"

definition digit_char :: "char \<Rightarrow> bool" where
  "digit_char c \<longleftrightarrow> (let n = of_char c :: nat in 48 \<le> n \<and> n \<le> 57)"

text \<open>\<open>/failed: \d{3}\b/\<close> at one place of the text, and anywhere in it.\<close>

definition status_here :: "string \<Rightarrow> bool" where
  "status_here s \<longleftrightarrow> js_starts_with s ''failed: ''
     \<and> (let d = drop 8 s in length (takeWhile digit_char (take 3 d)) = 3
          \<and> (case drop 3 d of [] \<Rightarrow> True | c # cs \<Rightarrow> \<not> word_char c))"

fun somewhere :: "(string \<Rightarrow> bool) \<Rightarrow> string \<Rightarrow> bool" where
  "somewhere P [] = P []"
| "somewhere P (c # cs) = (P (c # cs) \<or> somewhere P cs)"

text \<open>The alternatives of the network pattern, in lower case.\<close>

definition NETWORK_WORDS :: "string list" where
  "NETWORK_WORDS = [''network'', ''timeout'', ''timedout'', ''time out'', ''timed out'', ''socket'', ''connection'',
     ''resolve host'', ''econn'', ''eai_again'', ''enotfound'', ''etimedout'', ''epipe'']"

definition isNetworkError :: "send_error \<Rightarrow> bool" where
  "isNetworkError e \<longleftrightarrow>
     (if somewhere status_here (er_message e) then False
      else er_name e = ''TypeError'' \<or> er_name e = ''AbortError''
        \<or> (\<exists>w \<in> set NETWORK_WORDS. somewhere (\<lambda>s. js_starts_with s w) (map js_lower_char (er_message e))))"

definition hex_sha256 :: "string \<Rightarrow> bool" where
  "hex_sha256 s \<longleftrightarrow> length s = 64 \<and> list_all (\<lambda>c. let n = of_char c :: nat in 97 \<le> n \<and> n \<le> 102 \<or> 48 \<le> n \<and> n \<le> 57) s"

text \<open>\<open>expectedHashFor\<close> of \<open>file-sync-engine.ts\<close>: the hash, when the file has one.\<close>

definition expectedHashFor :: "string \<Rightarrow> string \<Rightarrow> string option" where
  "expectedHashFor fileHash key =
     (if hex_sha256 fileHash then Some fileHash
      else let seg = List.last (js_split CHR ''/'' key) in if hex_sha256 seg then Some seg else None)"

section \<open>State\<close>

datatype upload_answer = AnsPresent | AnsRefused string | AnsError string | AnsAbsent | AnsSigned string

datatype upload_lane = SmallLane | LargeLane | PartsLane

fun LANE_SLOTS :: "upload_lane \<Rightarrow> nat" where
  "LANE_SLOTS SmallLane = SMALL_LANE_SLOTS"
| "LANE_SLOTS LargeLane = LARGE_LANE_SLOTS"
| "LANE_SLOTS PartsLane = PARTS_LANE_SLOTS"

record upload_item =
  it_file :: upload_queue_entry
  it_expectedSha256Hex :: "string option"
  it_parts :: bool

text \<open>A presign batch is an object both the buffer and the transfers hold; it is named by its number.\<close>

record upload_batch =
  ba_id :: string
  ba_outstanding :: int
  ba_sent :: nat
  ba_networkFailures :: "(upload_queue_entry \<times> string \<times> nat) list"
  ba_otherOutcomes :: nat

record buffered =
  bu_item :: upload_item
  bu_answer :: upload_answer
  bu_batch :: nat

record running_transfer =
  ru_item :: upload_item
  ru_lane :: upload_lane
  ru_cost :: nat
  ru_batch :: nat

text \<open>Where \<open>presignNext\<close> is suspended.\<close>

datatype presign_phase =
    PsIdle
  | PsLoading
  | PsRechecking "upload_queue_entry list" "upload_queue_entry list" "upload_queue_entry list"
  | PsLabels "upload_queue_entry list" "upload_queue_entry list"
  | PsAsking "upload_queue_entry list" "upload_item list" nat string

text \<open>Where discovery is suspended: \<open>from\<close> and the rescans it read before the scan.\<close>

datatype discovery_phase = DiIdle | DiLoading | DiScanning watermarks watermarks

record upload_report =
  rp_lastRequestAt :: "nat option"
  rp_fast :: upload_tier_totals
  rp_full :: upload_tier_totals
  rp_failures :: "(string \<times> nat \<times> string \<times> nat) list"
  rp_failureCount :: nat
  rp_blocked :: nat
  rp_unfinished :: "open_upload_batch list"

record uploader =
  up_store :: memory_store
  up_started :: bool
  up_drains :: nat
  up_pausedUntil :: nat
  up_claimed :: "string set"
  up_buffer :: "buffered list"
  up_running :: "(string, running_transfer) js_map"
  up_bytesInFlight :: int
  up_presigning :: presign_phase
  up_batches :: "(nat, upload_batch) js_map"
  up_batchCounter :: nat
  up_discovering :: discovery_phase
  up_discoverAgain :: bool
  up_blockedRecheckAfter :: "string option"
  up_rechecking :: "string list"
  up_sessionSent :: upload_tier_totals
  up_report :: upload_report

text \<open>What \<open>createUploader\<close> is given: whether a records table exists, and which files go up in parts.\<close>

record uploader_config =
  uc_records :: bool
  uc_usesParts :: "queued_file \<Rightarrow> bool"

definition no_totals :: upload_tier_totals where "no_totals = \<lparr>tt_count = 0, tt_bytes = 0\<rparr>"

definition createUploader :: "memory_store \<Rightarrow> uploader" where
  "createUploader s =
     \<lparr>up_store = s, up_started = False, up_drains = 0, up_pausedUntil = 0, up_claimed = {}, up_buffer = [],
      up_running = [], up_bytesInFlight = 0, up_presigning = PsIdle, up_batches = [], up_batchCounter = 0,
      up_discovering = DiIdle, up_discoverAgain = False, up_blockedRecheckAfter = None, up_rechecking = [],
      up_sessionSent = no_totals,
      up_report = \<lparr>rp_lastRequestAt = None, rp_fast = no_totals, rp_full = no_totals, rp_failures = [], rp_failureCount = 0,
        rp_blocked = 0, rp_unfinished = js_values (mq_batches s)\<rparr>\<rparr>"

definition up_active :: "uploader \<Rightarrow> bool" where
  "up_active u \<longleftrightarrow> up_started u \<or> up_drains u > 0"

abbreviation do_op :: "upload_op \<Rightarrow> uploader \<Rightarrow> uploader" where
  "do_op op u \<equiv> u\<lparr>up_store := mem_apply op (up_store u)\<rparr>"

abbreviation unclaim :: "string \<Rightarrow> uploader \<Rightarrow> uploader" where
  "unclaim key u \<equiv> u\<lparr>up_claimed := up_claimed u - {key}\<rparr>"

section \<open>Reports and failures\<close>

definition recordReportFailure :: "upload_queue_entry \<Rightarrow> string \<Rightarrow> nat \<Rightarrow> uploader \<Rightarrow> uploader" where
  "recordReportFailure entry err elapsedMs u =
     (let r = up_report u;
          failures = (if length (rp_failures r) < REPORT_FAILURES
                      then rp_failures r @ [(shortKey (qf_key entry), qf_sizeBytes entry, take REPORT_ERROR_CHARS err, elapsedMs)]
                      else rp_failures r)
      in u\<lparr>up_report := r\<lparr>rp_failureCount := rp_failureCount r + 1, rp_failures := failures\<rparr>\<rparr>)"

definition noteFailure :: "nat \<Rightarrow> upload_queue_entry \<Rightarrow> string \<Rightarrow> nat \<Rightarrow> uploader \<Rightarrow> uploader" where
  "noteFailure t entry err elapsedMs u =
     (let current = (case mem_get (qf_key entry) (up_store u) of Some e \<Rightarrow> e | None \<Rightarrow> entry);
          attempts = qe_attempts current + 1
      in recordReportFailure entry err elapsedMs
           (do_op (RecordFailure (qf_key entry) attempts (t + backoffFor attempts) (take 500 err)) u))"

definition pause :: "nat \<Rightarrow> uploader \<Rightarrow> uploader" where
  "pause t u = u\<lparr>up_pausedUntil := t + NETWORK_PAUSE_MS\<rparr>"

text \<open>Every transfer of a batch has finished: an outage pauses, anything else counts against its file.\<close>

definition settleBatch :: "nat \<Rightarrow> nat \<Rightarrow> uploader \<Rightarrow> uploader" where
  "settleBatch t n u =
     (case js_get (up_batches u) n of
        None \<Rightarrow> u
      | Some b \<Rightarrow>
          (let u = do_op (CloseBatch (ba_id b)) u
           in if ba_networkFailures b = [] then u
              else if ba_otherOutcomes b = 0 \<and> length (ba_networkFailures b) = ba_sent b
              then pause t (fold (\<lambda>(entry, err, elapsed). recordReportFailure entry err elapsed) (ba_networkFailures b) u)
              else fold (\<lambda>(entry, err, elapsed). noteFailure t entry err elapsed) (ba_networkFailures b) u))"

text \<open>\<open>takeReport\<close>: the batches an earlier run left open are reported once and closed.\<close>

definition takeReport :: "nat \<Rightarrow> uploader \<Rightarrow> uploader" where
  "takeReport t u =
     (let u' = fold (\<lambda>b. do_op (CloseBatch (ob_id b))) (rp_unfinished (up_report u)) u
      in u'\<lparr>up_report := \<lparr>rp_lastRequestAt = Some t, rp_fast = no_totals, rp_full = no_totals, rp_failures = [],
            rp_failureCount = 0, rp_blocked = 0, rp_unfinished = []\<rparr>\<rparr>)"

section \<open>Scheduling\<close>

definition laneOf :: "upload_item \<Rightarrow> upload_lane" where
  "laneOf item = (if it_parts item then PartsLane else if qf_sizeBytes (it_file item) \<le> SMALL_LANE_MAX_BYTES then SmallLane else LargeLane)"

definition costOf :: "upload_item \<Rightarrow> nat" where
  "costOf item = (if it_parts item then MULTIPART_PART_BYTES else qf_sizeBytes (it_file item))"

definition laneUse :: "upload_lane \<Rightarrow> uploader \<Rightarrow> nat" where
  "laneUse l u = length (filter (\<lambda>r. ru_lane r = l) (js_values (up_running u)))"

definition fastWaiting :: "nat \<Rightarrow> uploader \<Rightarrow> bool" where
  "fastWaiting t u \<longleftrightarrow> (\<exists>e \<in> set (mem_nextReady Fast t (card (up_claimed u) + 1) (up_store u)). qf_key e \<notin> up_claimed u)"

definition item_key :: "upload_item \<Rightarrow> string" where
  "item_key item = qf_key (it_file item)"

text \<open>The synchronous start of \<open>transfer\<close>, up to its \<open>await target.send\<close>.\<close>

definition begin_transfer :: "buffered \<Rightarrow> uploader \<Rightarrow> uploader" where
  "begin_transfer b u =
     (let item = bu_item b
      in u\<lparr>up_running := js_set (item_key item) \<lparr>ru_item = item, ru_lane = laneOf item, ru_cost = costOf item, ru_batch = bu_batch b\<rparr> (up_running u),
           up_bytesInFlight := up_bytesInFlight u + int (costOf item)\<rparr>)"

definition tier_first :: "buffered \<Rightarrow> buffered \<Rightarrow> int" where
  "tier_first a b =
     (if qf_tier (it_file (bu_item a)) = qf_tier (it_file (bu_item b)) then 0
      else if qf_tier (it_file (bu_item a)) = Fast then -1 else 1)"

definition lane_full :: "upload_item \<Rightarrow> uploader \<Rightarrow> bool" where
  "lane_full item u \<longleftrightarrow> laneUse (laneOf item) u \<ge> LANE_SLOTS (laneOf item)"

definition bytes_full :: "upload_item \<Rightarrow> uploader \<Rightarrow> bool" where
  "bytes_full item u \<longleftrightarrow> up_running u \<noteq> [] \<and> up_bytesInFlight u + int (costOf item) > int MAX_BYTES_IN_FLIGHT"

text \<open>
  The loop over the buffer. \<open>holdFull\<close> is worked out once, at the first \<open>full\<close> file that could go;
  files passed over stay in the buffer.
\<close>

fun start_loop :: "nat \<Rightarrow> bool option \<Rightarrow> buffered list \<Rightarrow> buffered list \<Rightarrow> uploader \<Rightarrow> uploader" where
  "start_loop t holdFull kept [] u = u\<lparr>up_buffer := kept\<rparr>"
| "start_loop t holdFull kept (b # bs) u =
     (let item = bu_item b;
          blockd = lane_full item u \<or> bytes_full item u;
          full = qf_tier (it_file item) = Full;
          holdFull' = (if \<not> blockd \<and> full \<and> holdFull = None then Some (fastWaiting t u) else holdFull)
      in if blockd \<or> full \<and> holdFull' = Some True then start_loop t holdFull' (kept @ [b]) bs u
         else start_loop t holdFull' kept bs (begin_transfer b u))"

definition startTransfers :: "nat \<Rightarrow> uploader \<Rightarrow> uploader" where
  "startTransfers t u = start_loop t None [] (js_sort tier_first (up_buffer u)) u"

definition kick :: "nat \<Rightarrow> uploader \<Rightarrow> uploader" where
  "kick t u =
     (if \<not> up_active u \<or> t < up_pausedUntil u then u
      else let u = startTransfers t u
           in if up_presigning u = PsIdle \<and> length (up_buffer u) < UPLOAD_BATCH_SIZE div 2 then u\<lparr>up_presigning := PsLoading\<rparr> else u)"

text \<open>The \<open>finally\<close> of \<open>presignNext\<close>: entries that never reached the buffer are free again.\<close>

definition in_hand :: "uploader \<Rightarrow> string set" where
  "in_hand u = (item_key \<circ> bu_item) ` set (up_buffer u) \<union> set (js_keys (up_running u))"

definition finish_presign :: "nat \<Rightarrow> bool \<Rightarrow> upload_queue_entry list \<Rightarrow> uploader \<Rightarrow> uploader" where
  "finish_presign t again picked u =
     (let u = u\<lparr>up_claimed := up_claimed u - (qf_key ` set picked - in_hand u), up_presigning := PsIdle\<rparr>
      in if again then kick t u else u)"

section \<open>A presign batch\<close>

definition pick :: "upload_tier \<Rightarrow> nat \<Rightarrow> uploader \<Rightarrow> upload_queue_entry list" where
  "pick tier t u =
     take UPLOAD_BATCH_SIZE (filter (\<lambda>e. qf_key e \<notin> up_claimed u)
       (mem_nextReady tier t (UPLOAD_BATCH_SIZE + card (up_claimed u)) (up_store u)))"

text \<open>After \<open>loadCloudBytes\<close>: the argument says whether the round has saved a watermark.\<close>

definition presign_loaded :: "nat \<Rightarrow> bool \<Rightarrow> uploader \<Rightarrow> uploader" where
  "presign_loaded t known u =
     (if \<not> known then finish_presign t False [] u
      else let fast = pick Fast t u; picked = (if fast = [] then pick Full t u else fast)
           in if picked = [] then finish_presign t False [] u
              else u\<lparr>up_claimed := up_claimed u \<union> qf_key ` set picked, up_presigning := PsRechecking picked picked []\<rparr>)"

definition record_gone :: "uploader_config \<Rightarrow> data_record option \<Rightarrow> upload_queue_entry \<Rightarrow> bool" where
  "record_gone cfg r entry \<longleftrightarrow> qf_recordId entry \<noteq> None \<and> uc_records cfg
     \<and> (case r of None \<Rightarrow> True | Some r \<Rightarrow> deletedAt r \<noteq> None \<or> objectStorageKey r \<noteq> qf_key entry)"

text \<open>One entry re-read: its record, and whether the node still holds its bytes.\<close>

definition recheck_entry :: "uploader_config \<Rightarrow> data_record option \<Rightarrow> bool \<Rightarrow> upload_queue_entry \<Rightarrow> upload_queue_entry list \<Rightarrow> uploader
    \<Rightarrow> upload_queue_entry list \<times> uploader" where
  "recheck_entry cfg r has entry live u =
     (if record_gone cfg r entry then (live, unclaim (qf_key entry) (do_op (Remove (qf_key entry)) u))
      else if \<not> has
      then (live, (unclaim (qf_key entry) (do_op (SetState (qf_key entry) BlockedNotHeld) u))
             \<lparr>up_report := (up_report u)\<lparr>rp_blocked := rp_blocked (up_report u) + 1\<rparr>\<rparr>)
      else (live @ [entry], u))"

definition excluded_entry :: "string set \<Rightarrow> upload_queue_entry \<Rightarrow> bool" where
  "excluded_entry excluded e \<longleftrightarrow> (case qf_recordId e of None \<Rightarrow> False | Some i \<Rightarrow> i \<in> excluded)"

definition item_of :: "uploader_config \<Rightarrow> upload_queue_entry \<Rightarrow> upload_item" where
  "item_of cfg e = \<lparr>it_file = e, it_expectedSha256Hex = expectedHashFor (qf_fileHash e) (qf_key e), it_parts = uc_usesParts cfg (fileOf e)\<rparr>"

text \<open>\<open>t.toString(36)\<close>.\<close>

fun base36 :: "nat \<Rightarrow> string" where
  "base36 n = (if n < 36 then [''0123456789abcdefghijklmnopqrstuvwxyz'' ! n] else base36 (n div 36) @ [''0123456789abcdefghijklmnopqrstuvwxyz'' ! (n mod 36)])"

declare base36.simps [simp del]

definition batch_id :: "nat \<Rightarrow> nat \<Rightarrow> string" where
  "batch_id t n = base36 t @ ''-'' @ base36 n"

text \<open>After the labels: what is marked no-cloud leaves, and the rest goes out as one request.\<close>

definition presign_items :: "uploader_config \<Rightarrow> nat \<Rightarrow> upload_queue_entry list \<Rightarrow> upload_queue_entry list \<Rightarrow> string set \<Rightarrow> uploader \<Rightarrow> uploader" where
  "presign_items cfg t picked live excluded u =
     (let u = fold (\<lambda>e u. if excluded_entry excluded e then unclaim (qf_key e) (do_op (Remove (qf_key e)) u) else u) live u;
          items = map (item_of cfg) (filter (\<lambda>e. \<not> excluded_entry excluded e) live)
      in if items = [] then finish_presign t True picked u
         else let n = up_batchCounter u + 1; i = batch_id t n;
                  u = takeReport t (do_op (OpenBatch \<lparr>ob_id = i, ob_startedAt = t, ob_items = length items\<rparr>) (u\<lparr>up_batchCounter := n\<rparr>))
              in u\<lparr>up_presigning := PsAsking picked items n i\<rparr>)"

text \<open>The loop over the answers; \<open>None\<close> is the throw on an answer that is missing.\<close>

fun take_answers :: "nat \<Rightarrow> nat \<Rightarrow> upload_item list \<Rightarrow> upload_answer list \<Rightarrow> buffered list \<Rightarrow> uploader \<Rightarrow> buffered list option \<times> uploader" where
  "take_answers t n [] as puts u = (Some puts, u)"
| "take_answers t n (item # items) [] puts u = (None, u)"
| "take_answers t n (item # items) (a # as) puts u =
     (let key = item_key item
      in case a of
           AnsPresent \<Rightarrow> take_answers t n items as puts (unclaim key (do_op (Remove key) u))
         | AnsRefused _ \<Rightarrow> take_answers t n items as puts (unclaim key (do_op (Remove key) u))
         | AnsError err \<Rightarrow> take_answers t n items as puts (unclaim key (noteFailure t (it_file item) err 0 u))
         | _ \<Rightarrow> take_answers t n items as (puts @ [\<lparr>bu_item = item, bu_answer = a, bu_batch = n\<rparr>]) u)"

definition presign_answered :: "nat \<Rightarrow> upload_answer list option \<Rightarrow> upload_queue_entry list \<Rightarrow> upload_item list \<Rightarrow> nat \<Rightarrow> string \<Rightarrow> uploader \<Rightarrow> uploader" where
  "presign_answered t answers picked items n i u =
     (case answers of
        None \<Rightarrow> finish_presign t False picked (pause t (do_op (CloseBatch i) u))
      | Some as \<Rightarrow>
          (case take_answers t n items as [] u of
             (None, u) \<Rightarrow> finish_presign t True picked u
           | (Some puts, u) \<Rightarrow>
               (let u = u\<lparr>up_batches := js_set n \<lparr>ba_id = i, ba_outstanding = int (length puts), ba_sent = length puts,
                             ba_networkFailures = [], ba_otherOutcomes = 0\<rparr> (up_batches u),
                           up_buffer := up_buffer u @ puts\<rparr>;
                    u = (if puts = [] then do_op (CloseBatch i) u else u)
                in finish_presign t True picked u)))"

section \<open>A transfer's end\<close>

definition bump :: "upload_queue_entry \<Rightarrow> upload_tier_totals \<Rightarrow> upload_tier_totals" where
  "bump e t = \<lparr>tt_count = tt_count t + 1, tt_bytes = tt_bytes t + qf_sizeBytes e\<rparr>"

definition update_batch :: "nat \<Rightarrow> (upload_batch \<Rightarrow> upload_batch) \<Rightarrow> uploader \<Rightarrow> uploader" where
  "update_batch n f u = (case js_get (up_batches u) n of None \<Rightarrow> u | Some b \<Rightarrow> u\<lparr>up_batches := js_set n (f b) (up_batches u)\<rparr>)"

definition sent_ok :: "nat \<Rightarrow> upload_queue_entry \<Rightarrow> nat \<Rightarrow> uploader \<Rightarrow> uploader" where
  "sent_ok t e n u =
     (let u = do_op (MarkSent (qf_key e) t) u; r = up_report u;
          r' = (if qf_tier e = Fast then r\<lparr>rp_fast := bump e (rp_fast r)\<rparr> else r\<lparr>rp_full := bump e (rp_full r)\<rparr>)
      in update_batch n (\<lambda>b. b\<lparr>ba_otherOutcomes := ba_otherOutcomes b + 1\<rparr>)
           (u\<lparr>up_sessionSent := bump e (up_sessionSent u), up_report := r'\<rparr>))"

definition sent_failed :: "nat \<Rightarrow> upload_queue_entry \<Rightarrow> nat \<Rightarrow> send_error \<Rightarrow> nat \<Rightarrow> uploader \<Rightarrow> uploader" where
  "sent_failed t e n err elapsedMs u =
     (if isNetworkError err
      then update_batch n (\<lambda>b. b\<lparr>ba_networkFailures := ba_networkFailures b @ [(e, er_message err, elapsedMs)]\<rparr>) u
      else update_batch n (\<lambda>b. b\<lparr>ba_otherOutcomes := ba_otherOutcomes b + 1\<rparr>) (noteFailure t e (er_message err) elapsedMs u))"

text \<open>One fewer outstanding; the last one settles the batch.\<close>

definition batch_done :: "nat \<Rightarrow> nat \<Rightarrow> uploader \<Rightarrow> uploader" where
  "batch_done t n u =
     (let u = update_batch n (\<lambda>b. b\<lparr>ba_outstanding := ba_outstanding b - 1\<rparr>) u
      in case js_get (up_batches u) n of
           Some b \<Rightarrow> if ba_outstanding b = 0 then settleBatch t n u else u
         | None \<Rightarrow> u)"

definition transfer_end :: "nat \<Rightarrow> string \<Rightarrow> send_error option \<Rightarrow> nat \<Rightarrow> running_transfer \<Rightarrow> uploader \<Rightarrow> uploader" where
  "transfer_end t key err elapsedMs r u =
     (let e = it_file (ru_item r); n = ru_batch r;
          u = (case err of None \<Rightarrow> sent_ok t e n u | Some x \<Rightarrow> sent_failed t e n x elapsedMs u);
          u = (unclaim key u)\<lparr>up_running := js_delete key (up_running u), up_bytesInFlight := up_bytesInFlight u - int (ru_cost r)\<rparr>
      in kick t (batch_done t n u))"

section \<open>Discovery\<close>

text \<open>Sizes are whole numbers; a size that is none counts nothing.\<close>

definition manifest_bytes :: "js_number \<Rightarrow> nat" where
  "manifest_bytes n = (case n of JsRat q \<Rightarrow> nat \<lfloor>q\<rfloor> | _ \<Rightarrow> 0)"

definition queued_row :: "file_row \<Rightarrow> file_manifest \<Rightarrow> queued_file" where
  "queued_row row m =
     \<lparr>qf_key = man_objectStorageKey m, qf_hlc = row_hlc row, qf_recordId = row_recordId row, qf_itemId = row_itemId row,
      qf_sizeBytes = manifest_bytes (man_sizeBytes m), qf_fileHash = man_fileHash m, qf_mimeType = man_mimeType m,
      qf_tier = uploadTierOf (Option.bind (row_candidate row) cand_parentId) (manifest_bytes (man_sizeBytes m))\<rparr>"

text \<open>Above the higher of the cursor and the cloud's watermark; an author being re-read follows its cursor alone.\<close>

definition discovery_from :: "watermarks \<Rightarrow> watermarks \<Rightarrow> watermarks \<Rightarrow> watermarks" where
  "discovery_from cloud cursors rescans =
     fold (\<lambda>(author, cursor) from.
             case js_get from author of
               None \<Rightarrow> js_set author cursor from
             | Some mark \<Rightarrow> if compareHLC cursor mark > 0 then js_set author cursor from else from)
       cursors (fold js_delete (js_keys rescans) cloud)"

definition held_rows :: "(string \<Rightarrow> bool) \<Rightarrow> file_row list \<Rightarrow> (file_row \<times> file_manifest) list" where
  "held_rows has rows = List.map_filter (\<lambda>row. case row_manifest row of
       Some m \<Rightarrow> if has (man_objectStorageKey m) then Some (row, m) else None | None \<Rightarrow> None) rows"

definition enqueue_row_ok :: "string set \<Rightarrow> file_row \<Rightarrow> bool" where
  "enqueue_row_ok excluded row \<longleftrightarrow> (case row_recordId row of None \<Rightarrow> True | Some i \<Rightarrow> i \<notin> excluded)"

text \<open>The cursors a page moves, and the re-reads it finishes.\<close>

definition move_cursor :: "watermarks \<Rightarrow> string \<times> hlc \<Rightarrow> uploader \<times> bool \<Rightarrow> uploader \<times> bool" where
  "move_cursor from mark um =
     (case js_get from (fst mark) of
        Some before \<Rightarrow> if compareHLC (snd mark) before \<le> 0 then um else (do_op (SetCursor (fst mark) (Some (snd mark))) (fst um), True)
      | None \<Rightarrow> (do_op (SetCursor (fst mark) (Some (snd mark))) (fst um), True))"

definition finish_rescan :: "watermarks \<Rightarrow> (string \<Rightarrow> bool) \<Rightarrow> string \<times> hlc \<Rightarrow> uploader \<times> bool \<Rightarrow> uploader \<times> bool" where
  "finish_rescan next_marks unread mark um =
     (if (case js_get next_marks (fst mark) of Some reached \<Rightarrow> compareHLC reached (snd mark) \<ge> 0 | None \<Rightarrow> False) \<or> \<not> unread (fst mark)
      then (do_op (SetRescan (fst mark) None) (fst um), True) else um)"

text \<open>
  The rest of \<open>discoverPage\<close>, after its scan: \<open>has\<close> is local storage, \<open>processed\<close> how many rows it went
  through before a stop, \<open>excluded\<close> the no-cloud records (\<open>None\<close> when the labels could not be read).
  The flag says whether another page may follow.
\<close>

definition discover_page :: "nat \<Rightarrow> watermarks \<Rightarrow> watermarks \<Rightarrow> file_row_scan \<Rightarrow> (string \<Rightarrow> bool) \<Rightarrow> nat \<Rightarrow> string set option \<Rightarrow> uploader \<Rightarrow> uploader \<times> bool" where
  "discover_page t from rescans scan has processed excluded u =
     (if \<not> scan_readable scan then (u, False)
      else if scan_rows scan = [] then (fold (\<lambda>author. do_op (SetRescan author None)) (js_keys rescans) u, False)
      else let rows = js_sort (\<lambda>a b. compareHLC (row_hlc a) (row_hlc b)) (scan_rows scan);
               done = take processed rows
           in case excluded of
                None \<Rightarrow> (u, False)
              | Some ex \<Rightarrow>
                  (let files = map (\<lambda>(row, m). queued_row row m) (filter (\<lambda>(row, m). enqueue_row_ok ex row) (held_rows has done));
                       u = fold (\<lambda>f. do_op (Enqueue f)) files u;
                       next_marks = advanceBytesWatermark from
                         (map (\<lambda>row. (row_hlc row, True)) done @ map (\<lambda>row. (row_hlc row, False)) (drop processed rows)) (scan_ceilings scan);
                       (u, moved) = fold (move_cursor from) next_marks (u, False);
                       (u, moved) = fold (finish_rescan next_marks (\<lambda>author. js_has (scan_ceilings scan) author \<or> processed < length rows)) rescans (u, moved);
                       u = (if files \<noteq> [] then kick t u else u)
                   in (u, moved \<and> scan_ceilings scan \<noteq> [])))"

definition requestDiscovery :: "uploader \<Rightarrow> uploader" where
  "requestDiscovery u =
     (if \<not> up_active u then u
      else if up_discovering u \<noteq> DiIdle then u\<lparr>up_discoverAgain := True\<rparr>
      else u\<lparr>up_discoverAgain := False, up_discovering := DiLoading\<rparr>)"

text \<open>
  The loop round \<open>discoverPage\<close>: another page while there may be one, then again when asked to, and a
  kick at its end.
\<close>

definition discover_next :: "nat \<Rightarrow> bool \<Rightarrow> uploader \<Rightarrow> uploader" where
  "discover_next t again u =
     (if again \<and> up_active u then u\<lparr>up_discovering := DiLoading\<rparr>
      else if up_discoverAgain u \<and> up_active u then u\<lparr>up_discoverAgain := False, up_discovering := DiLoading\<rparr>
      else kick t (u\<lparr>up_discovering := DiIdle\<rparr>))"

definition discover_loaded :: "nat \<Rightarrow> watermarks option \<Rightarrow> uploader \<Rightarrow> uploader" where
  "discover_loaded t cloud u =
     (case cloud of
        None \<Rightarrow> discover_next t False u
      | Some c \<Rightarrow> u\<lparr>up_discovering := DiScanning (discovery_from c (mq_cursor (up_store u)) (mq_rescan (up_store u))) (mq_rescan (up_store u))\<rparr>)"

section \<open>Blocked files\<close>

text \<open>\<open>recheckBlocked\<close>: one page of keys, read once; the next call goes on after it.\<close>

definition recheckBlocked :: "uploader \<Rightarrow> uploader" where
  "recheckBlocked u =
     (if up_rechecking u \<noteq> [] then u
      else let page = mem_blocked (up_blockedRecheckAfter u) BLOCKED_RECHECK_PAGE (up_store u)
           in u\<lparr>up_blockedRecheckAfter := (if length page = BLOCKED_RECHECK_PAGE then Some (qf_key (List.last page)) else None),
                up_rechecking := map qf_key page\<rparr>)"

definition recheck_key :: "nat \<Rightarrow> bool \<Rightarrow> uploader \<Rightarrow> uploader" where
  "recheck_key t has u =
     (case up_rechecking u of
        [] \<Rightarrow> u
      | key # keys \<Rightarrow>
          (let u = (if has then do_op (SetState key Ready) u else u)\<lparr>up_rechecking := keys\<rparr>
           in if keys = [] then kick t u else u))"

section \<open>Reconciliation\<close>

text \<open>Rule 1 for one author: \<open>before\<close> is the cloud's mark as last seen, \<open>after\<close> as the round saved it.\<close>

definition reconcile_author :: "watermarks \<Rightarrow> watermarks \<Rightarrow> string \<Rightarrow> uploader \<Rightarrow> uploader" where
  "reconcile_author seen cloud author u =
     (let after = js_get cloud author;
          u = (case js_get seen author of
                 None \<Rightarrow> u
               | Some before \<Rightarrow>
                   if (case after of None \<Rightarrow> True | Some a \<Rightarrow> compareHLC a before < 0)
                   then let u = do_op (DropSentAbove author after) u;
                            u = (if (case js_get (mq_cursor (up_store u)) author of None \<Rightarrow> True
                                     | Some cursor \<Rightarrow> (case after of None \<Rightarrow> True | Some a \<Rightarrow> compareHLC cursor a > 0))
                                 then do_op (SetCursor author after) u else u)
                        in if (case js_get (mq_rescan (up_store u)) author of None \<Rightarrow> True | Some target \<Rightarrow> compareHLC before target > 0)
                           then do_op (SetRescan author (Some before)) u else u
                   else u)
      in case after of None \<Rightarrow> u | Some a \<Rightarrow> do_op (PruneSent author a) u)"

definition reconcile_marks :: "watermarks \<Rightarrow> uploader \<Rightarrow> uploader" where
  "reconcile_marks cloud u =
     (let seen = mq_seen (up_store u)
      in do_op (SetSeenCloud cloud) (fold (reconcile_author seen cloud) (remdups (js_keys seen @ js_keys cloud)) u))"

text \<open>The first file row of each author above its mark, unless the author's scan read nothing.\<close>

definition add_pin :: "hlc_ceilings \<Rightarrow> file_row \<Rightarrow> (string, file_row) js_map \<Rightarrow> (string, file_row) js_map" where
  "add_pin ceilings row pins =
     (let author = nodeId (row_hlc row)
      in if row_manifest row = None \<or> js_has pins author \<or> js_get ceilings author = Some None then pins else js_set author row pins)"

definition pins_of :: "file_row_scan \<Rightarrow> file_row list" where
  "pins_of scan =
     (if \<not> scan_readable scan then []
      else js_values (fold (add_pin (scan_ceilings scan)) (js_sort (\<lambda>a b. compareHLC (row_hlc a) (row_hlc b)) (scan_rows scan)) []))"

text \<open>One pin: a file sent before the exchange began goes again, a held file not yet queued goes first.\<close>

definition check_pin :: "uploader_config \<Rightarrow> nat option \<Rightarrow> (string \<Rightarrow> bool) \<Rightarrow> string set option \<Rightarrow> file_row \<Rightarrow> uploader \<Rightarrow> uploader" where
  "check_pin cfg exchangeStartedAt has excluded row u =
     (case row_manifest row of
        None \<Rightarrow> u
      | Some m \<Rightarrow>
          (let key = man_objectStorageKey m
           in if key \<in> up_claimed u then u
              else case mem_sent key (up_store u) of
                Some s \<Rightarrow> (case exchangeStartedAt of Some t0 \<Rightarrow> if qs_sentAt s < t0 then do_op (RequeueSent key) u else u | None \<Rightarrow> u)
              | None \<Rightarrow>
                  if mem_get key (up_store u) \<noteq> None \<or> \<not> has key then u
                  else if row_recordId row \<noteq> None \<and> uc_records cfg
                          \<and> (case excluded of None \<Rightarrow> True | Some ex \<Rightarrow> \<not> enqueue_row_ok ex row) then u
                  else do_op (EnqueueFront (queued_row row m)) u))"

section \<open>Lifecycle\<close>

definition begin_uploading :: "nat \<Rightarrow> uploader \<Rightarrow> uploader" where
  "begin_uploading t u = recheckBlocked (kick t (requestDiscovery u))"

text \<open>Signed URLs not yet used are dropped, each counting as another outcome of its batch.\<close>

definition drop_buffered :: "nat \<Rightarrow> buffered \<Rightarrow> uploader \<Rightarrow> uploader" where
  "drop_buffered t b u =
     batch_done t (bu_batch b) (update_batch (bu_batch b) (\<lambda>x. x\<lparr>ba_otherOutcomes := ba_otherOutcomes x + 1\<rparr>) (unclaim (item_key (bu_item b)) u))"

definition end_uploading :: "nat \<Rightarrow> uploader \<Rightarrow> uploader" where
  "end_uploading t u = (if up_active u then u else fold (drop_buffered t) (up_buffer u) (u\<lparr>up_buffer := []\<rparr>))"

definition idle :: "nat \<Rightarrow> uploader \<Rightarrow> bool" where
  "idle t u \<longleftrightarrow> up_presigning u = PsIdle \<and> up_discovering u = DiIdle \<and> up_rechecking u = [] \<and> up_running u = [] \<and> up_buffer u = []
     \<and> \<not> t < up_pausedUntil u \<and> mem_nextReady Fast t 1 (up_store u) = [] \<and> mem_nextReady Full t 1 (up_store u) = []"

datatype uploader_state = StStopped | StPaused | StRunning | StDraining

definition stats_state :: "nat \<Rightarrow> uploader \<Rightarrow> uploader_state" where
  "stats_state t u =
     (if \<not> up_active u then StStopped else if t < up_pausedUntil u then StPaused else if up_started u then StRunning else StDraining)"

definition nudge :: "nat \<Rightarrow> uploader \<Rightarrow> uploader" where
  "nudge t u = recheckBlocked (kick t (requestDiscovery (if up_pausedUntil u > t then u\<lparr>up_pausedUntil := 0\<rparr> else u)))"

section \<open>The machine\<close>

text \<open>
  What can happen next, with what the outside answers. \<open>PinChecked\<close> may come for any row at any time,
  which is more than reconciliation asks for.
\<close>

datatype uploader_event =
    Start
  | Stop
  | DrainCall
  | DrainGo
  | DrainReturn
  | Nudge
  | Wake
  | CloudLoaded bool
  | Rechecked "data_record option" bool
  | RecheckThrew
  | LabelsRead "string set option"
  | Answered "upload_answer list option"
  | TransferEnded string "send_error option" nat
  | DiscoveryLoaded "watermarks option"
  | DiscoveryPage file_row_scan "string \<Rightarrow> bool" nat "string set option"
  | DiscoveryThrew
  | KeyRechecked bool
  | Reconciled watermarks
  | PinChecked "nat option" "string \<Rightarrow> bool" "string set option" file_row
  | ReconcileDone

definition on_presign :: "uploader_config \<Rightarrow> nat \<Rightarrow> uploader_event \<Rightarrow> uploader \<Rightarrow> uploader option" where
  "on_presign cfg t ev u =
     (case (up_presigning u, ev) of
        (PsLoading, CloudLoaded known) \<Rightarrow> Some (presign_loaded t known u)
      | (PsRechecking picked (e # todo) live, Rechecked r has) \<Rightarrow>
          (case recheck_entry cfg r has e live u of (live', u') \<Rightarrow>
             Some (if todo \<noteq> [] then u'\<lparr>up_presigning := PsRechecking picked todo live'\<rparr>
                   else if uc_records cfg then u'\<lparr>up_presigning := PsLabels picked live'\<rparr>
                   else presign_items cfg t picked live' {} u'))
      | (PsRechecking picked todo live, RecheckThrew) \<Rightarrow> Some (finish_presign t False picked u)
      | (PsLabels picked live, LabelsRead None) \<Rightarrow> Some (finish_presign t True picked u)
      | (PsLabels picked live, LabelsRead (Some excluded)) \<Rightarrow> Some (presign_items cfg t picked live excluded u)
      | (PsAsking picked items n i, Answered answers) \<Rightarrow> Some (presign_answered t answers picked items n i u)
      | _ \<Rightarrow> None)"

definition on_discovery :: "nat \<Rightarrow> uploader_event \<Rightarrow> uploader \<Rightarrow> uploader option" where
  "on_discovery t ev u =
     (case (up_discovering u, ev) of
        (DiLoading, DiscoveryLoaded cloud) \<Rightarrow> Some (discover_loaded t cloud u)
      | (DiScanning from rescans, DiscoveryPage scan has processed excluded) \<Rightarrow>
          (case discover_page t from rescans scan has processed excluded u of (u', again) \<Rightarrow> Some (discover_next t again u'))
      | (DiIdle, DiscoveryThrew) \<Rightarrow> None
      | (_, DiscoveryThrew) \<Rightarrow> Some (kick t (u\<lparr>up_discovering := DiIdle\<rparr>))
      | _ \<Rightarrow> None)"

fun uploader_step :: "uploader_config \<Rightarrow> nat \<Rightarrow> uploader_event \<Rightarrow> uploader \<Rightarrow> uploader option" where
  "uploader_step cfg t Start u = Some (if up_started u then u else begin_uploading t (u\<lparr>up_started := True\<rparr>))"
| "uploader_step cfg t Stop u = Some (if \<not> up_started u then u else end_uploading t (u\<lparr>up_started := False\<rparr>))"
| "uploader_step cfg t DrainCall u = Some (u\<lparr>up_drains := up_drains u + 1\<rparr>)"
| "uploader_step cfg t DrainGo u =
     (if up_drains u = 0 then None
      else Some (if up_drains u = 1 \<and> \<not> up_started u then begin_uploading t u else kick t (requestDiscovery u)))"
| "uploader_step cfg t DrainReturn u =
     (if up_drains u = 0 then None else Some (end_uploading t (u\<lparr>up_drains := up_drains u - 1\<rparr>)))"
| "uploader_step cfg t Nudge u = Some (nudge t u)"
| "uploader_step cfg t Wake u = Some (recheckBlocked (kick t (requestDiscovery u)))"
| "uploader_step cfg t (TransferEnded key err elapsedMs) u =
     (case js_get (up_running u) key of None \<Rightarrow> None | Some r \<Rightarrow> Some (transfer_end t key err elapsedMs r u))"
| "uploader_step cfg t (KeyRechecked has) u = (if up_rechecking u = [] then None else Some (recheck_key t has u))"
| "uploader_step cfg t (Reconciled cloud) u = Some (reconcile_marks cloud u)"
| "uploader_step cfg t (PinChecked exchangeStartedAt has excluded row) u = Some (check_pin cfg exchangeStartedAt has excluded row u)"
| "uploader_step cfg t ReconcileDone u = Some (kick t (requestDiscovery u))"
| "uploader_step cfg t (DiscoveryLoaded cloud) u = on_discovery t (DiscoveryLoaded cloud) u"
| "uploader_step cfg t (DiscoveryPage scan has processed excluded) u = on_discovery t (DiscoveryPage scan has processed excluded) u"
| "uploader_step cfg t DiscoveryThrew u = on_discovery t DiscoveryThrew u"
| "uploader_step cfg t ev u = on_presign cfg t ev u"

inductive uploader_run :: "uploader_config \<Rightarrow> uploader \<Rightarrow> (nat \<times> uploader_event) list \<Rightarrow> uploader \<Rightarrow> bool" for cfg where
  run_nil: "uploader_run cfg u [] u"
| run_snoc: "uploader_run cfg u evs v \<Longrightarrow> uploader_step cfg t ev v = Some w \<Longrightarrow> uploader_run cfg u (evs @ [(t, ev)]) w"

inductive_cases uploader_run_snocE: "uploader_run cfg u (evs @ [(t, ev)]) w"

text \<open>A store whose entries sit under their own keys, and what is reachable from it.\<close>

definition store_keyed :: "memory_store \<Rightarrow> bool" where
  "store_keyed s \<longleftrightarrow> js_wf (mq_queue s) \<and> js_wf (mq_sent s)
     \<and> (\<forall>(k, e) \<in> set (mq_queue s). qf_key e = k) \<and> (\<forall>(k, e) \<in> set (mq_sent s). qf_key e = k)"

definition uploader_reaches :: "uploader_config \<Rightarrow> uploader \<Rightarrow> bool" where
  "uploader_reaches cfg u \<longleftrightarrow> (\<exists>s evs. store_keyed s \<and> uploader_run cfg (createUploader s) evs u)"

section \<open>What leaves the queue\<close>

definition in_queue :: "memory_store \<Rightarrow> string \<Rightarrow> bool" where
  "in_queue s key \<longleftrightarrow> js_has (mq_queue s) key"

definition queued :: "string \<Rightarrow> uploader \<Rightarrow> bool" where
  "queued key u \<longleftrightarrow> in_queue (up_store u) key"

text \<open>
  Proof or a durable decision: the cloud answered that it has the file or will not take it, a transfer
  ended well, the record is gone or names other bytes, or it is marked no-cloud.
\<close>

definition leaves_because :: "uploader_config \<Rightarrow> uploader_event \<Rightarrow> uploader \<Rightarrow> string \<Rightarrow> bool" where
  "leaves_because cfg ev u key \<longleftrightarrow>
     (case (up_presigning u, ev) of
        (PsAsking picked items n i, Answered (Some as)) \<Rightarrow>
          (\<exists>(item, a) \<in> set (zip items as). item_key item = key \<and> (case a of AnsPresent \<Rightarrow> True | AnsRefused _ \<Rightarrow> True | _ \<Rightarrow> False))
      | (PsRechecking picked (e # todo) live, Rechecked r has) \<Rightarrow> qf_key e = key \<and> record_gone cfg r e
      | (PsLabels picked live, LabelsRead (Some excluded)) \<Rightarrow> (\<exists>e \<in> set live. qf_key e = key \<and> excluded_entry excluded e)
      | (_, TransferEnded k None elapsed) \<Rightarrow> (\<exists>r. js_get (up_running u) k = Some r \<and> item_key (ru_item r) = key)
      | _ \<Rightarrow> False)"

lemma queue_kept:
  "in_queue s key \<Longrightarrow> (case op of Remove k \<Rightarrow> k \<noteq> key | MarkSent k t \<Rightarrow> k \<noteq> key | _ \<Rightarrow> True) \<Longrightarrow> in_queue (mem_apply op s) key"
  by (cases op)
    (auto simp: in_queue_def mem_enqueue_def mem_enqueueFront_def mem_remove_def mem_recordFailure_def mem_setState_def mem_update_def
      mem_markSent_def mem_requeueSent_def mem_dropSentAbove_def mem_pruneSent_def Let_def split: option.splits)

declare mem_apply.simps [simp del]

text \<open>Every function that cannot take a file off the queue.\<close>

named_theorems keeps \<open>functions under which a queued file stays queued\<close>

lemma keeps_ops:
  "in_queue s key \<Longrightarrow> in_queue (mem_apply (SetCursor a h) s) key" "in_queue s key \<Longrightarrow> in_queue (mem_apply (SetRescan a h) s) key"
  "in_queue s key \<Longrightarrow> in_queue (mem_apply (DropSentAbove a h) s) key" "in_queue s key \<Longrightarrow> in_queue (mem_apply (PruneSent a x) s) key"
  "in_queue s key \<Longrightarrow> in_queue (mem_apply (SetSeenCloud w) s) key" "in_queue s key \<Longrightarrow> in_queue (mem_apply (RequeueSent k) s) key"
  "in_queue s key \<Longrightarrow> in_queue (mem_apply (Enqueue f) s) key" "in_queue s key \<Longrightarrow> in_queue (mem_apply (EnqueueFront f) s) key"
  "in_queue s key \<Longrightarrow> in_queue (mem_apply (SetState k st) s) key" "in_queue s key \<Longrightarrow> in_queue (mem_apply (OpenBatch b) s) key"
  "in_queue s key \<Longrightarrow> in_queue (mem_apply (CloseBatch i) s) key" "in_queue s key \<Longrightarrow> in_queue (mem_apply (RecordFailure k n t err) s) key"
  by (rule queue_kept; simp)+

lemma store_of_start_loop [simp]: "up_store (start_loop t h kept bs u) = up_store u"
  by (induction bs arbitrary: h kept u) (simp_all add: Let_def begin_transfer_def)

lemma store_of_kick [simp]: "up_store (kick t u) = up_store u"
  by (simp add: kick_def startTransfers_def Let_def)

lemma store_of_parts [simp]:
  "up_store (recordReportFailure e err el u) = up_store u" "up_store (pause t u) = up_store u"
  "up_store (finish_presign t again picked u) = up_store u" "up_store (update_batch n f u) = up_store u"
  "up_store (requestDiscovery u) = up_store u" "up_store (discover_next t again u) = up_store u"
  "up_store (recheckBlocked u) = up_store u"
  by (simp_all add: recordReportFailure_def pause_def finish_presign_def update_batch_def requestDiscovery_def discover_next_def
      recheckBlocked_def Let_def split: option.splits)

lemma keeps_noteFailure [keeps]: "queued key u \<Longrightarrow> queued key (noteFailure t e err el u)"
  unfolding noteFailure_def Let_def queued_def store_of_parts
  by (simp add: keeps_ops)

lemma keeps_fold: "(\<And>x u. queued key u \<Longrightarrow> queued key (f x u)) \<Longrightarrow> queued key u \<Longrightarrow> queued key (fold f xs u)"
  by (induction xs arbitrary: u) auto

lemma queued_store: "up_store u = up_store v \<Longrightarrow> queued key u \<longleftrightarrow> queued key v"
  by (simp add: queued_def)

lemma keeps_close: "queued key u \<Longrightarrow> queued key (do_op (CloseBatch i) u)"
  by (simp add: queued_def keeps_ops)

lemma keeps_settleBatch [keeps]: "queued key u \<Longrightarrow> queued key (settleBatch t n u)"
proof -
  assume q: "queued key u"
  have close: "queued key (do_op (CloseBatch i) u)" for i using q by (rule keeps_close)
  have report: "queued key (fold (\<lambda>(entry, err, elapsed). recordReportFailure entry err elapsed) fs v)" if "queued key v" for fs v
    by (rule keeps_fold [OF _ that]) (auto simp: queued_def)
  have note_f: "queued key (fold (\<lambda>(entry, err, elapsed). noteFailure t entry err elapsed) fs v)" if "queued key v" for fs v
    by (rule keeps_fold [OF _ that]) (auto intro: keeps)
  have pause: "queued key (pause t v) \<longleftrightarrow> queued key v" for v by (simp add: queued_def)
  show ?thesis
    using q close report note_f by (auto simp: settleBatch_def Let_def pause split: option.splits)
qed

lemma keeps_takeReport [keeps]: "queued key u \<Longrightarrow> queued key (takeReport t u)"
proof -
  assume q: "queued key u"
  have "queued key (fold (\<lambda>b. do_op (CloseBatch (ob_id b))) bs u)" for bs
    by (rule keeps_fold [OF _ q]) (rule keeps_close)
  then show ?thesis by (simp add: takeReport_def Let_def queued_def)
qed

lemma keeps_batch_done [keeps]: "queued key u \<Longrightarrow> queued key (batch_done t n u)"
proof -
  assume "queued key u"
  then have "queued key (update_batch n f u)" for f by (simp add: queued_def)
  then show ?thesis by (auto simp: batch_done_def Let_def intro: keeps split: option.splits)
qed

lemma keeps_drop [keeps]: "queued key u \<Longrightarrow> queued key (drop_buffered t b u)"
  unfolding drop_buffered_def by (rule keeps_batch_done) (simp add: queued_def)

lemma keeps_end [keeps]: "queued key u \<Longrightarrow> queued key (end_uploading t u)"
proof -
  assume q: "queued key u"
  then have "queued key (u\<lparr>up_buffer := []\<rparr>)" by (simp add: queued_def)
  then have "queued key (fold (drop_buffered t) bs (u\<lparr>up_buffer := []\<rparr>))" for bs
    by (intro keeps_fold) (rule keeps_drop)
  then show ?thesis using q by (simp add: end_uploading_def)
qed

lemma keeps_reconcile_author [keeps]: "queued key u \<Longrightarrow> queued key (reconcile_author seen cloud author u)"
  unfolding reconcile_author_def Let_def queued_def by (simp add: keeps_ops split: option.splits)

lemma keeps_reconcile [keeps]: "queued key u \<Longrightarrow> queued key (reconcile_marks cloud u)"
proof -
  assume "queued key u"
  then have "queued key (fold (reconcile_author seen cloud) as u)" for seen as by (intro keeps_fold keeps_reconcile_author)
  then show ?thesis by (simp add: reconcile_marks_def Let_def queued_def keeps_ops)
qed

lemma keeps_check_pin [keeps]: "queued key u \<Longrightarrow> queued key (check_pin cfg x has ex row u)"
  unfolding check_pin_def Let_def queued_def by (simp add: keeps_ops split: option.splits)

lemma keeps_recheck_key [keeps]: "queued key u \<Longrightarrow> queued key (recheck_key t has u)"
proof -
  assume "queued key u"
  then show ?thesis by (auto simp: recheck_key_def queued_def Let_def keeps_ops split: list.splits)
qed

lemma keeps_page [keeps]:
  assumes "queued key u"
  shows "queued key (fst (discover_page t from rescans scan has processed excluded u))"
proof -
  have enq: "queued key (fold (\<lambda>f. do_op (Enqueue f)) fs v)" if "queued key v" for fs v
    by (rule keeps_fold [OF _ that]) (simp add: queued_def keeps_ops)
  have marks: "queued key (fst (fold (move_cursor from) ms um))" if "queued key (fst um)" for ms um
    using that
  proof (induction ms arbitrary: um)
    case (Cons m ms)
    have "queued key (fst (move_cursor from m um))"
      using Cons.prems by (simp add: move_cursor_def queued_def keeps_ops split: option.splits)
    then show ?case using Cons.IH by simp
  qed simp
  have res: "queued key (fst (fold (finish_rescan nm unread) ms um))" if "queued key (fst um)" for nm unread ms um
    using that
  proof (induction ms arbitrary: um)
    case (Cons m ms)
    have "queued key (fst (finish_rescan nm unread m um))"
      using Cons.prems by (simp add: finish_rescan_def queued_def keeps_ops)
    then show ?case using Cons.IH by simp
  qed simp
  have clear: "queued key (fold (\<lambda>author. do_op (SetRescan author None)) as v)" if "queued key v" for as v
    by (rule keeps_fold [OF _ that]) (simp add: queued_def keeps_ops)
  have kick: "queued key (kick t v) \<longleftrightarrow> queued key v" for v by (simp add: queued_def)
  show ?thesis
    using assms by (auto simp: discover_page_def Let_def kick case_prod_unfold intro!: enq marks res clear split: option.splits)
qed

lemma keeps_remove: "in_queue s key \<Longrightarrow> k \<noteq> key \<Longrightarrow> in_queue (mem_apply (Remove k) s) key"
  "in_queue s key \<Longrightarrow> k \<noteq> key \<Longrightarrow> in_queue (mem_apply (MarkSent k t) s) key"
  by (rule queue_kept; simp)+

lemma keeps_presign_items:
  assumes "queued key u" "\<not> (\<exists>e \<in> set live. qf_key e = key \<and> excluded_entry excluded e)"
  shows "queued key (presign_items cfg t picked live excluded u)"
proof -
  let ?f = "\<lambda>e u. if excluded_entry excluded e then unclaim (qf_key e) (do_op (Remove (qf_key e)) u) else u"
  have "queued key (fold ?f live u)"
    using assms
  proof (induction live arbitrary: u)
    case (Cons e live)
    have "queued key (?f e u)" using Cons.prems by (auto simp: queued_def keeps_remove)
    then show ?case using Cons.IH [of "?f e u"] Cons.prems(2) by (simp del: if_split)
  qed simp
  moreover have "queued key (takeReport t (do_op op (v\<lparr>up_batchCounter := n\<rparr>)))"
    if "queued key v" "op = OpenBatch b" for v n b op
    using that by (intro keeps_takeReport) (simp add: queued_def keeps_ops)
  ultimately show ?thesis
    unfolding presign_items_def Let_def
    by (auto simp: queued_def [of _ "finish_presign _ _ _ _"]) (simp_all add: queued_def)
qed

lemma keeps_take_answers:
  assumes "queued key u" "\<not> (\<exists>(item, a) \<in> set (zip items as). item_key item = key \<and> (case a of AnsPresent \<Rightarrow> True | AnsRefused _ \<Rightarrow> True | _ \<Rightarrow> False))"
  shows "queued key (snd (take_answers t n items as puts u))"
  using assms
proof (induction t n items as puts u rule: take_answers.induct)
  case (3 t n item items a as puts u)
  have rest: "\<not> (\<exists>(item, a) \<in> set (zip items as). item_key item = key \<and> (case a of AnsPresent \<Rightarrow> True | AnsRefused _ \<Rightarrow> True | _ \<Rightarrow> False))"
    using "3.prems"(2) by auto
  have unclaim: "queued key (unclaim k v) \<longleftrightarrow> queued key v" for k v by (simp add: queued_def)
  show ?case
  proof (cases a)
    case AnsPresent
    then have "queued key (unclaim (item_key item) (do_op (Remove (item_key item)) u))"
      using "3.prems" by (auto simp: queued_def keeps_remove)
    then show ?thesis using "3.IH"(1) [OF refl AnsPresent _ rest] AnsPresent by (simp add: Let_def)
  next
    case (AnsRefused x)
    then have "queued key (unclaim (item_key item) (do_op (Remove (item_key item)) u))"
      using "3.prems" by (auto simp: queued_def keeps_remove)
    then show ?thesis using "3.IH"(2) [OF refl AnsRefused _ rest] AnsRefused by (simp add: Let_def)
  next
    case (AnsError x)
    have "queued key (unclaim (item_key item) (noteFailure t (it_file item) x 0 u))"
      using keeps_noteFailure [OF "3.prems"(1)] by (simp add: unclaim)
    then show ?thesis using "3.IH"(3) [OF refl AnsError _ rest] AnsError by (simp add: Let_def)
  next
    case AnsAbsent
    show ?thesis using "3.IH"(4) [OF refl AnsAbsent "3.prems"(1) rest] AnsAbsent by (simp add: Let_def)
  next
    case (AnsSigned x)
    show ?thesis using "3.IH"(5) [OF refl AnsSigned "3.prems"(1) rest] AnsSigned by (simp add: Let_def)
  qed
qed simp_all

lemma keeps_presign_answered:
  assumes "queued key u"
    and "\<And>as. answers = Some as \<Longrightarrow> \<not> (\<exists>(item, a) \<in> set (zip items as). item_key item = key \<and> (case a of AnsPresent \<Rightarrow> True | AnsRefused _ \<Rightarrow> True | _ \<Rightarrow> False))"
  shows "queued key (presign_answered t answers picked items n i u)"
proof (cases answers)
  case None
  then show ?thesis using assms(1) by (simp add: presign_answered_def queued_def keeps_ops)
next
  case (Some as)
  have "queued key (snd (take_answers t n items as [] u))" using keeps_take_answers [OF assms(1) assms(2) [OF Some]] .
  then show ?thesis
    by (cases "take_answers t n items as [] u"; cases "fst (take_answers t n items as [] u)")
      (auto simp: presign_answered_def Some Let_def queued_def keeps_ops)
qed

lemma keeps_transfer_end:
  assumes "queued key u" "err = None \<Longrightarrow> item_key (ru_item r) \<noteq> key"
  shows "queued key (transfer_end t k err elapsed r u)"
proof -
  let ?e = "it_file (ru_item r)"
  have "queued key (case err of None \<Rightarrow> sent_ok t ?e (ru_batch r) u | Some x \<Rightarrow> sent_failed t ?e (ru_batch r) x elapsed u)"
  proof (cases err)
    case None
    then show ?thesis using assms by (simp add: sent_ok_def Let_def queued_def item_key_def keeps_remove)
  next
    case (Some x)
    have "queued key (noteFailure t ?e (er_message x) elapsed u)" using assms(1) by (rule keeps)
    then show ?thesis using assms(1) Some by (simp add: sent_failed_def queued_def)
  qed
  then have "queued key ((unclaim k v)\<lparr>up_running := x, up_bytesInFlight := y\<rparr>)"
    if "v = (case err of None \<Rightarrow> sent_ok t ?e (ru_batch r) u | Some x \<Rightarrow> sent_failed t ?e (ru_batch r) x elapsed u)" for v x y
    using that by (simp add: queued_def)
  then have "queued key (batch_done t (ru_batch r) ((unclaim k v)\<lparr>up_running := x, up_bytesInFlight := y\<rparr>))"
    if "v = (case err of None \<Rightarrow> sent_ok t ?e (ru_batch r) u | Some x \<Rightarrow> sent_failed t ?e (ru_batch r) x elapsed u)" for v x y
    using that by (intro keeps_batch_done) blast
  then show ?thesis by (simp add: transfer_end_def Let_def queued_def)
qed

lemma keeps_on_presign:
  assumes "on_presign cfg t ev u = Some u'" "queued key u" "\<not> leaves_because cfg ev u key"
  shows "queued key u'"
proof (cases "up_presigning u")
  case PsIdle
  then show ?thesis using assms(1) by (cases ev) (simp_all add: on_presign_def)
next
  case PsLoading
  then show ?thesis using assms(1,2)
    by (cases ev) (auto simp: on_presign_def presign_loaded_def Let_def queued_def)
next
  case (PsRechecking picked todo live)
  show ?thesis
  proof (cases ev)
    case RecheckThrew
    then show ?thesis using assms(1,2) PsRechecking by (cases todo) (auto simp: on_presign_def queued_def)
  next
    case (Rechecked r has)
    obtain e rest where todo: "todo = e # rest"
      using assms(1) PsRechecking Rechecked by (cases todo) (simp_all add: on_presign_def)
    obtain live' v where v: "recheck_entry cfg r has e live u = (live', v)" by (cases "recheck_entry cfg r has e live u")
    have "\<not> (qf_key e = key \<and> record_gone cfg r e)"
      using assms(3) PsRechecking Rechecked todo by (simp add: leaves_because_def)
    then have q: "queued key v" using assms(2) v
      by (auto simp: recheck_entry_def queued_def keeps_remove keeps_ops split: if_splits)
    have none: "\<not> excluded_entry {} x" for x by (simp add: excluded_entry_def split: option.splits)
    have "queued key (presign_items cfg t picked live' {} v)" by (rule keeps_presign_items [OF q]) (simp add: none)
    moreover have "u' = (if rest \<noteq> [] then v\<lparr>up_presigning := PsRechecking picked rest live'\<rparr>
        else if uc_records cfg then v\<lparr>up_presigning := PsLabels picked live'\<rparr> else presign_items cfg t picked live' {} v)"
      using assms(1) PsRechecking Rechecked todo v by (simp add: on_presign_def)
    ultimately show ?thesis using q by (simp add: queued_def split: if_splits)
  qed (use assms(1) PsRechecking in \<open>cases todo; simp add: on_presign_def\<close>)+
next
  case (PsLabels picked live)
  show ?thesis
  proof (cases ev)
    case (LabelsRead x)
    show ?thesis
    proof (cases x)
      case None
      then show ?thesis using assms(1,2) PsLabels LabelsRead by (auto simp: on_presign_def queued_def)
    next
      case (Some excluded)
      then have "u' = presign_items cfg t picked live excluded u" using assms(1) PsLabels LabelsRead by (simp add: on_presign_def)
      moreover have "\<not> (\<exists>e \<in> set live. qf_key e = key \<and> excluded_entry excluded e)"
        using assms(3) PsLabels LabelsRead Some by (simp add: leaves_because_def)
      ultimately show ?thesis using keeps_presign_items [OF assms(2)] by simp
    qed
  qed (use assms(1) PsLabels in \<open>simp_all add: on_presign_def\<close>)
next
  case (PsAsking picked items n i)
  show ?thesis
  proof (cases ev)
    case (Answered answers)
    then have "u' = presign_answered t answers picked items n i u" using assms(1) PsAsking by (simp add: on_presign_def)
    moreover have "\<not> (\<exists>(item, a) \<in> set (zip items as). item_key item = key \<and> (case a of AnsPresent \<Rightarrow> True | AnsRefused _ \<Rightarrow> True | _ \<Rightarrow> False))"
      if "answers = Some as" for as
      using assms(3) PsAsking Answered that by (simp add: leaves_because_def)
    ultimately show ?thesis using keeps_presign_answered [OF assms(2)] by simp
  qed (use assms(1) PsAsking in \<open>simp_all add: on_presign_def\<close>)
qed

lemma keeps_begin [keeps]: "queued key u \<Longrightarrow> queued key (begin_uploading t u)"
  by (simp add: begin_uploading_def queued_def)

lemma keeps_nudge [keeps]: "queued key u \<Longrightarrow> queued key (nudge t u)"
  by (simp add: nudge_def queued_def)

lemma keeps_on_discovery:
  assumes "on_discovery t ev u = Some u'" "queued key u"
  shows "queued key u'"
proof (cases "up_discovering u")
  case DiIdle
  then show ?thesis using assms(1) by (cases ev) (simp_all add: on_discovery_def)
next
  case DiLoading
  then show ?thesis using assms by (cases ev) (auto simp: on_discovery_def discover_loaded_def queued_def split: option.splits)
next
  case (DiScanning from_marks rescans)
  show ?thesis
  proof (cases ev)
    case (DiscoveryPage scan has processed excluded)
    have "queued key (fst (discover_page t from_marks rescans scan has processed excluded u))" using assms(2) by (rule keeps)
    then show ?thesis using assms(1) DiScanning DiscoveryPage
      by (cases "discover_page t from_marks rescans scan has processed excluded u") (auto simp: on_discovery_def queued_def)
  qed (use assms DiScanning in \<open>auto simp: on_discovery_def queued_def\<close>)
qed

lemma step_keeps:
  assumes "uploader_step cfg t ev u = Some u'" "queued key u" "\<not> leaves_because cfg ev u key"
  shows "queued key u'"
proof (cases ev)
  case (TransferEnded k err elapsed)
  then obtain r where r: "js_get (up_running u) k = Some r" "u' = transfer_end t k err elapsed r u"
    using assms(1) by (auto split: option.splits)
  have "item_key (ru_item r) \<noteq> key" if "err = None"
    using assms(3) r(1) that TransferEnded by (cases "up_presigning u") (auto simp: leaves_because_def split: list.splits)
  then show ?thesis using r(2) keeps_transfer_end [OF assms(2)] by simp
next
  case Start
  have "queued key (u\<lparr>up_started := True\<rparr>)" using assms(2) by (simp add: queued_def)
  then show ?thesis using assms Start keeps_begin by (auto split: if_splits)
next
  case Stop
  have "queued key (u\<lparr>up_started := False\<rparr>)" using assms(2) by (simp add: queued_def)
  then show ?thesis using assms Stop keeps_end by (auto split: if_splits)
next
  case DrainReturn
  have "queued key (u\<lparr>up_drains := up_drains u - 1\<rparr>)" using assms(2) by (simp add: queued_def)
  then show ?thesis using assms DrainReturn keeps_end by (auto split: if_splits)
next
  case DrainGo
  then show ?thesis using assms keeps_begin [OF assms(2)] by (auto simp: queued_def split: if_splits)
qed (use assms keeps_on_presign keeps_on_discovery in \<open>auto simp: queued_def [of _ "kick _ _"] queued_def [of _ "recheckBlocked _"] queued_def [of _ "_\<lparr>up_drains := _\<rparr>"] intro: keeps keeps_on_presign keeps_on_discovery split: if_splits, simp_all add: queued_def\<close>)

section \<open>Only on proof or decision\<close>

text \<open>
  C10. A file leaves the queue only on proof or on a durable decision. In any run of the uploader, with
  batches, transfers, discovery, reconciliation, drains and stops interleaved in any way and every
  answer of the outside possible, a file queued at the start and not at the end left at a step where
  the cloud answered that it has the file or refuses it, its transfer succeeded, its record was gone,
  or its record was marked no-cloud. A failure, a skip or an interruption never removes it.
\<close>

theorem file_leaves_queue_on_evidence:
  assumes "uploader_run cfg u evs w" "queued key u" "\<not> queued key w"
  shows "\<exists>before t ev after v. evs = before @ (t, ev) # after \<and> uploader_run cfg u before v \<and> queued key v \<and> leaves_because cfg ev v key"
  using assms
proof (induction rule: uploader_run.induct)
  case (run_nil u)
  then show ?case by simp
next
  case (run_snoc u evs v t ev w)
  show ?case
  proof (cases "queued key v")
    case True
    then have "leaves_because cfg ev v key" using step_keeps [OF run_snoc.hyps(2) True] run_snoc.prems(2) by blast
    then show ?thesis using True run_snoc.hyps(1) by blast
  next
    case False
    then obtain before t' ev' after v' where "evs = before @ (t', ev') # after" "uploader_run cfg u before v'" "queued key v'" "leaves_because cfg ev' v' key"
      using run_snoc.IH [OF run_snoc.prems(1)] by blast
    then show ?thesis by (metis append.assoc append_Cons)
  qed
qed

section \<open>The invariant\<close>

lemma mset_js_sort_any: "mset (js_sort cmp xs) = mset xs"
proof -
  have "mset (js_insert cmp x ys) = add_mset x (mset ys)" for x ys by (induction ys) auto
  then show ?thesis by (induction xs) (simp_all add: js_sort_def)
qed

lemma store_keyed_iff:
  "store_keyed s \<longleftrightarrow> js_wf (mq_queue s) \<and> js_wf (mq_sent s) \<and> (\<forall>k e. js_get (mq_queue s) k = Some e \<longrightarrow> qf_key e = k)
     \<and> (\<forall>k e. js_get (mq_sent s) k = Some e \<longrightarrow> qf_key e = k)"
  using js_get_in_set [of "mq_queue s"] js_get_in_set [of "mq_sent s"]
  by (auto simp: store_keyed_def case_prod_unfold dest: map_of_SomeD) (metis fst_conv snd_conv)+

lemma store_keyed_apply: "store_keyed s \<Longrightarrow> store_keyed (mem_apply op s)"
  by (cases op)
    (auto simp: mem_apply.simps store_keyed_iff mem_enqueue_def mem_enqueueFront_def mem_remove_def mem_recordFailure_def
      mem_setState_def mem_update_def mem_markSent_def mem_requeueSent_def mem_dropSentAbove_def mem_pruneSent_def
      js_get_filter_pair Let_def split: option.splits if_splits)

lemma nextReady_keys:
  assumes "store_keyed s"
  shows "distinct (map qf_key (mem_nextReady tier now n s))"
proof -
  have wf: "js_wf (mq_queue s)" and key: "\<forall>(k, e) \<in> set (mq_queue s). qf_key e = k"
    using assms by (simp_all add: store_keyed_def)
  have "map qf_key (js_values (mq_queue s)) = js_keys (mq_queue s)" using key by (auto intro!: map_cong)
  then have "distinct (map qf_key (js_values (mq_queue s)))" using wf by (simp only: js_wf_def)
  then have "distinct (map qf_key (filter (due_entry tier now) (js_values (mq_queue s))))" by (rule distinct_map_filter)
  then have "distinct (map qf_key (js_sort (schedule_cmp tier) (filter (due_entry tier now) (js_values (mq_queue s)))))"
    using mset_js_sort_any [of "schedule_cmp tier" "filter (due_entry tier now) (js_values (mq_queue s))"]
    by (metis mset_eq_imp_distinct_iff mset_map)
  then show ?thesis by (simp add: mem_nextReady_def take_map [symmetric])
qed

text \<open>The keys a suspended presign still has to place, and those it started with.\<close>

fun pending :: "presign_phase \<Rightarrow> string list" where
  "pending (PsRechecking picked todo live) = map qf_key todo @ map qf_key live"
| "pending (PsLabels picked live) = map qf_key live"
| "pending (PsAsking picked items n i) = map item_key items"
| "pending _ = []"

fun picked_keys :: "presign_phase \<Rightarrow> string set" where
  "picked_keys (PsRechecking picked todo live) = qf_key ` set picked"
| "picked_keys (PsLabels picked live) = qf_key ` set picked"
| "picked_keys (PsAsking picked items n i) = qf_key ` set picked"
| "picked_keys _ = {}"

text \<open>The transfers under way: each under its own key, their cost accounted, within slots and budget.\<close>

definition flight_ok :: "uploader \<Rightarrow> bool" where
  "flight_ok u \<longleftrightarrow> js_wf (up_running u)
     \<and> (\<forall>(k, r) \<in> set (up_running u). item_key (ru_item r) = k \<and> ru_lane r = laneOf (ru_item r) \<and> ru_cost r = costOf (ru_item r))
     \<and> up_bytesInFlight u = int (sum_list (map ru_cost (js_values (up_running u))))
     \<and> (\<forall>l. laneUse l u \<le> LANE_SLOTS l)
     \<and> (length (up_running u) \<le> 1 \<or> up_bytesInFlight u \<le> int MAX_BYTES_IN_FLIGHT)"

definition hand_keys :: "buffered list \<Rightarrow> uploader \<Rightarrow> string list" where
  "hand_keys bs u = map (item_key \<circ> bu_item) bs @ js_keys (up_running u)"

text \<open>Every file in hand is in one place and claimed, and no claim outlives its reason.\<close>

definition claims_ok :: "buffered list \<Rightarrow> uploader \<Rightarrow> bool" where
  "claims_ok bs u \<longleftrightarrow> distinct (hand_keys bs u @ pending (up_presigning u))
     \<and> set (hand_keys bs u @ pending (up_presigning u)) \<subseteq> up_claimed u
     \<and> up_claimed u \<subseteq> set (hand_keys bs u) \<union> picked_keys (up_presigning u)"

definition transfers_of :: "buffered list \<Rightarrow> uploader \<Rightarrow> nat list" where
  "transfers_of bs u = map bu_batch bs @ map ru_batch (js_values (up_running u))"

text \<open>A batch's count is the number of its files still in the buffer or under way.\<close>

definition batches_ok :: "buffered list \<Rightarrow> uploader \<Rightarrow> bool" where
  "batches_ok bs u \<longleftrightarrow>
     (\<forall>n b. js_get (up_batches u) n = Some b \<longrightarrow> ba_outstanding b = int (count_list (transfers_of bs u) n) \<and> n \<le> up_batchCounter u)
     \<and> (\<forall>n \<in> set (transfers_of bs u). js_has (up_batches u) n)
     \<and> (case up_presigning u of PsAsking picked items n i \<Rightarrow> n = up_batchCounter u \<and> \<not> js_has (up_batches u) n | _ \<Rightarrow> True)"

definition ok_with :: "buffered list \<Rightarrow> uploader \<Rightarrow> bool" where
  "ok_with bs u \<longleftrightarrow> store_keyed (up_store u) \<and> flight_ok u \<and> claims_ok bs u \<and> batches_ok bs u"

definition uploader_ok :: "uploader \<Rightarrow> bool" where
  "uploader_ok u \<longleftrightarrow> ok_with (up_buffer u) u"

lemma flight_cong: "up_running u = up_running v \<Longrightarrow> up_bytesInFlight u = up_bytesInFlight v \<Longrightarrow> flight_ok u = flight_ok v"
  by (simp only: flight_ok_def laneUse_def)

lemma claims_cong:
  "up_running u = up_running v \<Longrightarrow> up_claimed u = up_claimed v \<Longrightarrow> up_presigning u = up_presigning v \<Longrightarrow> claims_ok bs u = claims_ok bs v"
  by (simp only: claims_ok_def hand_keys_def)

lemma batches_cong:
  "up_running u = up_running v \<Longrightarrow> up_batches u = up_batches v \<Longrightarrow> up_batchCounter u = up_batchCounter v
    \<Longrightarrow> up_presigning u = up_presigning v \<Longrightarrow> batches_ok bs u = batches_ok bs v"
  by (simp only: batches_ok_def transfers_of_def)

definition same_core :: "uploader \<Rightarrow> uploader \<Rightarrow> bool" where
  "same_core u v \<longleftrightarrow> up_claimed u = up_claimed v \<and> up_running u = up_running v \<and> up_bytesInFlight u = up_bytesInFlight v
     \<and> up_presigning u = up_presigning v \<and> up_batches u = up_batches v \<and> up_batchCounter u = up_batchCounter v
     \<and> up_buffer u = up_buffer v \<and> (store_keyed (up_store v) \<longrightarrow> store_keyed (up_store u))"

lemma ok_same_core: "ok_with bs v \<Longrightarrow> same_core u v \<Longrightarrow> ok_with bs u"
proof -
  assume ok: "ok_with bs v" and same: "same_core u v"
  have eqs: "up_claimed u = up_claimed v" "up_running u = up_running v" "up_bytesInFlight u = up_bytesInFlight v"
    "up_presigning u = up_presigning v" "up_batches u = up_batches v" "up_batchCounter u = up_batchCounter v"
    and keyed: "store_keyed (up_store v) \<longrightarrow> store_keyed (up_store u)"
    using same unfolding same_core_def by blast+
  have "flight_ok u = flight_ok v" "claims_ok bs u = claims_ok bs v" "batches_ok bs u = batches_ok bs v"
    by (simp_all only: flight_ok_def claims_ok_def batches_ok_def hand_keys_def transfers_of_def laneUse_def eqs)
  then show ?thesis using ok keyed by (simp only: ok_with_def)
qed

lemma uploader_ok_same: "uploader_ok v \<Longrightarrow> same_core u v \<Longrightarrow> uploader_ok u"
  using ok_same_core by (simp add: uploader_ok_def same_core_def)

lemma same_core_refl [simp, intro]: "same_core u u"
  by (simp add: same_core_def)

lemma same_core_trans: "same_core u v \<Longrightarrow> same_core v w \<Longrightarrow> same_core u w"
  by (simp add: same_core_def)

lemma same_core_fields [simp]:
  "same_core (u\<lparr>up_report := r\<rparr>) v \<longleftrightarrow> same_core u v" "same_core (u\<lparr>up_pausedUntil := p\<rparr>) v \<longleftrightarrow> same_core u v"
  "same_core (u\<lparr>up_started := b\<rparr>) v \<longleftrightarrow> same_core u v" "same_core (u\<lparr>up_drains := d\<rparr>) v \<longleftrightarrow> same_core u v"
  "same_core (u\<lparr>up_discovering := x\<rparr>) v \<longleftrightarrow> same_core u v" "same_core (u\<lparr>up_discoverAgain := y\<rparr>) v \<longleftrightarrow> same_core u v"
  "same_core (u\<lparr>up_blockedRecheckAfter := z\<rparr>) v \<longleftrightarrow> same_core u v" "same_core (u\<lparr>up_rechecking := ks\<rparr>) v \<longleftrightarrow> same_core u v"
  "same_core (u\<lparr>up_sessionSent := tt\<rparr>) v \<longleftrightarrow> same_core u v"
  by (simp_all add: same_core_def)

lemma same_core_op: "same_core u v \<Longrightarrow> same_core (do_op op u) v"
  by (simp add: same_core_def store_keyed_apply)

lemma same_core_fold: "(\<And>x u. same_core u v \<Longrightarrow> same_core (f x u) v) \<Longrightarrow> same_core u v \<Longrightarrow> same_core (fold f xs u) v"
  by (induction xs arbitrary: u) auto

lemma same_core_note: "same_core u v \<Longrightarrow> same_core (noteFailure t e err el u) v" "same_core u v \<Longrightarrow> same_core (recordReportFailure e err el u) v"
  by (simp_all add: noteFailure_def recordReportFailure_def Let_def same_core_op)

lemma same_core_settle: "same_core (settleBatch t n u) u"
proof (cases "js_get (up_batches u) n")
  case (Some b)
  have close: "same_core (do_op (CloseBatch (ba_id b)) u) u" by (rule same_core_op) simp
  have "same_core (fold (\<lambda>(entry, err, elapsed). recordReportFailure entry err elapsed) fs (do_op (CloseBatch (ba_id b)) u)) u"
    "same_core (fold (\<lambda>(entry, err, elapsed). noteFailure t entry err elapsed) fs (do_op (CloseBatch (ba_id b)) u)) u" for fs
    by (rule same_core_fold [OF _ close], auto intro: same_core_note)+
  then show ?thesis using Some close by (simp add: settleBatch_def Let_def pause_def)
qed (simp add: settleBatch_def)

lemma same_core_takeReport: "same_core u v \<Longrightarrow> same_core (takeReport t u) v"
  unfolding takeReport_def Let_def by (simp add: same_core_fold same_core_op)

subsection \<open>Starting transfers\<close>

definition tier_rank :: "buffered \<Rightarrow> nat" where
  "tier_rank b = (if qf_tier (it_file (bu_item b)) = Fast then 0 else 1)"

text \<open>The buffer is put in tiers, the order within a tier kept.\<close>

interpretation tier_order: js_comparator tier_first tier_rank
proof
  fix x y :: buffered
  show "tier_first x y \<le> 0 \<longleftrightarrow> tier_rank x \<le> tier_rank y"
    by (cases "qf_tier (it_file (bu_item x))"; cases "qf_tier (it_file (bu_item y))") (simp_all add: tier_first_def tier_rank_def)
qed

lemma running_added:
  assumes "js_wf m" "k \<notin> set (js_keys m)"
  shows "js_set k r m = m @ [(k, r)]"
  using assms by (induction m) (auto simp: js_wf_def)

lemma begin_transfer_ok:
  assumes ok: "ok_with (kept @ b # bs) u" and free: "\<not> lane_full (bu_item b) u" "\<not> bytes_full (bu_item b) u"
  shows "ok_with (kept @ bs) (begin_transfer b u)"
proof -
  let ?i = "bu_item b" and ?u = "begin_transfer b u"
  let ?r = "\<lparr>ru_item = ?i, ru_lane = laneOf ?i, ru_cost = costOf ?i, ru_batch = bu_batch b\<rparr>"
  have flight: "flight_ok u" and claims: "claims_ok (kept @ b # bs) u" and batches: "batches_ok (kept @ b # bs) u" and keyed: "store_keyed (up_store u)"
    using ok by (simp_all only: ok_with_def)
  have fresh: "item_key ?i \<notin> set (js_keys (up_running u))" using claims by (auto simp: claims_ok_def hand_keys_def)
  have running: "up_running ?u = up_running u @ [(item_key ?i, ?r)]"
    using running_added [OF _ fresh] flight by (simp add: begin_transfer_def Let_def flight_ok_def)
  have rest: "up_claimed ?u = up_claimed u" "up_bytesInFlight ?u = up_bytesInFlight u + int (costOf ?i)" "up_presigning ?u = up_presigning u"
    "up_batches ?u = up_batches u" "up_batchCounter ?u = up_batchCounter u" "up_store ?u = up_store u"
    by (simp_all add: begin_transfer_def Let_def)
  have lanes: "laneUse l ?u = laneUse l u + (if l = laneOf ?i then 1 else 0)" for l
    by (simp add: laneUse_def running)
  have "flight_ok ?u"
    using flight free fresh lanes unfolding flight_ok_def running rest
    by (auto simp: js_wf_def lane_full_def bytes_full_def)
  moreover have "claims_ok (kept @ bs) ?u"
  proof -
    have "mset (hand_keys (kept @ bs) ?u) = mset (hand_keys (kept @ b # bs) u)"
      by (simp add: hand_keys_def running)
    then have "set (hand_keys (kept @ bs) ?u) = set (hand_keys (kept @ b # bs) u)"
      and "mset (hand_keys (kept @ bs) ?u @ pending (up_presigning u)) = mset (hand_keys (kept @ b # bs) u @ pending (up_presigning u))"
      by (rule mset_eq_setD, simp)
    then show ?thesis using claims mset_eq_imp_distinct_iff unfolding claims_ok_def rest set_append by metis
  qed
  moreover have "batches_ok (kept @ bs) ?u"
  proof -
    have eq: "mset (transfers_of (kept @ bs) ?u) = mset (transfers_of (kept @ b # bs) u)"
      by (simp add: transfers_of_def running)
    then have "count_list (transfers_of (kept @ bs) ?u) n = count_list (transfers_of (kept @ b # bs) u) n" for n
      by (metis count_mset)
    moreover have "set (transfers_of (kept @ bs) ?u) = set (transfers_of (kept @ b # bs) u)" using eq by (rule mset_eq_setD)
    ultimately show ?thesis using batches unfolding batches_ok_def rest by simp
  qed
  ultimately show ?thesis using keyed by (simp add: ok_with_def rest)
qed

lemma buffer_irrelevant: "ok_with bs (u\<lparr>up_buffer := xs\<rparr>) \<longleftrightarrow> ok_with bs u"
proof -
  have "flight_ok (u\<lparr>up_buffer := xs\<rparr>) = flight_ok u" "claims_ok bs (u\<lparr>up_buffer := xs\<rparr>) = claims_ok bs u"
    "batches_ok bs (u\<lparr>up_buffer := xs\<rparr>) = batches_ok bs u"
    by (rule flight_cong claims_cong batches_cong; simp)+
  then show ?thesis by (simp add: ok_with_def)
qed

lemma start_loop_ok: "ok_with (kept @ bs) u \<Longrightarrow> uploader_ok (start_loop t h kept bs u)"
proof (induction bs arbitrary: h kept u)
  case Nil
  then show ?case by (simp add: uploader_ok_def buffer_irrelevant)
next
  case (Cons b bs)
  have skip: "uploader_ok (start_loop t h' (kept @ [b]) bs u)" for h' using Cons by simp
  have go: "uploader_ok (start_loop t h' kept bs (begin_transfer b u))"
    if "\<not> lane_full (bu_item b) u" "\<not> bytes_full (bu_item b) u" for h'
    using Cons.IH begin_transfer_ok [OF Cons.prems that] by simp
  show ?case using skip go by (auto simp: Let_def)
qed

lemma ok_with_perm:
  assumes "ok_with bs u" "mset bs' = mset bs"
  shows "ok_with bs' u"
proof -
  have hands: "mset (hand_keys bs' u) = mset (hand_keys bs u)" using assms(2) by (simp add: hand_keys_def)
  have trans: "mset (transfers_of bs' u) = mset (transfers_of bs u)" using assms(2) by (simp add: transfers_of_def)
  have counts: "count_list (transfers_of bs' u) n = count_list (transfers_of bs u) n" for n using trans by (metis count_mset)
  have "mset (hand_keys bs' u @ pending (up_presigning u)) = mset (hand_keys bs u @ pending (up_presigning u))" using hands by simp
  then have "distinct (hand_keys bs' u @ pending (up_presigning u)) = distinct (hand_keys bs u @ pending (up_presigning u))"
    by (rule mset_eq_imp_distinct_iff)
  then show ?thesis using assms(1) mset_eq_setD [OF hands] mset_eq_setD [OF trans] counts
    unfolding ok_with_def claims_ok_def batches_ok_def set_append by simp
qed

lemma startTransfers_ok: "uploader_ok u \<Longrightarrow> uploader_ok (startTransfers t u)"
  unfolding startTransfers_def uploader_ok_def [of u]
  by (rule start_loop_ok) (simp add: ok_with_perm tier_order.mset_js_sort)

lemma phase_loading_ok: "uploader_ok u \<Longrightarrow> up_presigning u = PsIdle \<Longrightarrow> uploader_ok (u\<lparr>up_presigning := PsLoading\<rparr>)"
proof -
  assume ok: "uploader_ok u" and "up_presigning u = PsIdle"
  then show ?thesis
    using flight_cong [of "u\<lparr>up_presigning := PsLoading\<rparr>" u]
    by (auto simp: uploader_ok_def ok_with_def claims_ok_def batches_ok_def hand_keys_def transfers_of_def)
qed

lemma kick_ok: "uploader_ok u \<Longrightarrow> uploader_ok (kick t u)"
  using startTransfers_ok [of u t] phase_loading_ok by (simp add: kick_def Let_def)

subsection \<open>A presign batch\<close>

text \<open>What the \<open>finally\<close> needs: every file in hand claimed, and nothing claimed but these and the picked.\<close>

lemma finish_presign_ok:
  assumes "store_keyed (up_store u)" "flight_ok u" "distinct (hand_keys (up_buffer u) u)"
    and "set (hand_keys (up_buffer u) u) \<subseteq> up_claimed u" "up_claimed u \<subseteq> set (hand_keys (up_buffer u) u) \<union> qf_key ` set picked"
    and "batches_ok (up_buffer u) (u\<lparr>up_presigning := PsIdle\<rparr>)"
  shows "uploader_ok (finish_presign t again picked u)"
proof -
  let ?v = "u\<lparr>up_claimed := up_claimed u - (qf_key ` set picked - in_hand u), up_presigning := PsIdle\<rparr>"
  have hand: "in_hand u = set (hand_keys (up_buffer u) u)" by (simp add: in_hand_def hand_keys_def)
  have "claims_ok (up_buffer u) ?v"
    using assms(3,4,5) unfolding claims_ok_def hand by (auto simp: hand_keys_def)
  moreover have "batches_ok (up_buffer u) ?v"
    using assms(6) by (simp add: batches_ok_def transfers_of_def)
  moreover have "flight_ok ?v" using assms(2) flight_cong [of ?v u] by simp
  ultimately have "uploader_ok ?v" using assms(1) by (simp add: uploader_ok_def ok_with_def)
  then show ?thesis using kick_ok by (simp add: finish_presign_def Let_def)
qed

text \<open>From any point of a presign the \<open>finally\<close> gives back a sound state.\<close>

lemma batches_idle: "batches_ok bs u \<Longrightarrow> batches_ok bs (u\<lparr>up_presigning := PsIdle\<rparr>)"
  by (simp add: batches_ok_def transfers_of_def)

lemma finish_from_ok:
  assumes "uploader_ok u" "picked_keys (up_presigning u) \<subseteq> qf_key ` set picked"
  shows "uploader_ok (finish_presign t again picked u)"
proof (rule finish_presign_ok)
  show "store_keyed (up_store u)" "flight_ok u" using assms(1) by (simp_all add: uploader_ok_def ok_with_def)
  show "distinct (hand_keys (up_buffer u) u)" "set (hand_keys (up_buffer u) u) \<subseteq> up_claimed u"
    "up_claimed u \<subseteq> set (hand_keys (up_buffer u) u) \<union> qf_key ` set picked"
    using assms by (auto simp: uploader_ok_def ok_with_def claims_ok_def)
  show "batches_ok (up_buffer u) (u\<lparr>up_presigning := PsIdle\<rparr>)"
    using assms(1) by (intro batches_idle) (simp add: uploader_ok_def ok_with_def)
qed

lemma pick_fresh:
  assumes "store_keyed (up_store u)"
  shows "distinct (map qf_key (pick tier t u)) \<and> qf_key ` set (pick tier t u) \<inter> up_claimed u = {}"
proof -
  let ?es = "mem_nextReady tier t (UPLOAD_BATCH_SIZE + card (up_claimed u)) (up_store u)"
  have "distinct (map qf_key (filter (\<lambda>e. qf_key e \<notin> up_claimed u) ?es))"
    by (rule distinct_map_filter) (rule nextReady_keys [OF assms])
  then show ?thesis by (auto simp: pick_def take_map [symmetric] dest: in_set_takeD)
qed

lemma presign_loaded_ok:
  assumes "uploader_ok u" "up_presigning u = PsLoading"
  shows "uploader_ok (presign_loaded t known u)"
proof -
  have stop: "uploader_ok (finish_presign t again [] u)" for again
    by (rule finish_from_ok [OF assms(1)]) (simp add: assms(2))
  have parts: "store_keyed (up_store u)" "flight_ok u" "claims_ok (up_buffer u) u" "batches_ok (up_buffer u) u"
    using assms(1) by (simp_all add: uploader_ok_def ok_with_def)
  define picked where "picked = (if pick Fast t u = [] then pick Full t u else pick Fast t u)"
  let ?v = "u\<lparr>up_claimed := up_claimed u \<union> qf_key ` set picked, up_presigning := PsRechecking picked picked []\<rparr>"
  have fresh: "distinct (map qf_key picked)" "qf_key ` set picked \<inter> up_claimed u = {}"
    using pick_fresh [OF parts(1)] by (auto simp: picked_def)
  have "flight_ok ?v" using parts(2) flight_cong [of ?v u] by simp
  moreover have "claims_ok (up_buffer u) ?v"
  proof -
    have hands: "hand_keys (up_buffer u) ?v = hand_keys (up_buffer u) u" by (simp add: hand_keys_def)
    have "distinct (hand_keys (up_buffer u) u)" "set (hand_keys (up_buffer u) u) \<subseteq> up_claimed u"
      "up_claimed u \<subseteq> set (hand_keys (up_buffer u) u)"
      using parts(3) assms(2) by (simp_all add: claims_ok_def)
    then show ?thesis using fresh unfolding claims_ok_def hands by auto
  qed
  moreover have "batches_ok (up_buffer u) ?v" using parts(4) by (simp add: batches_ok_def transfers_of_def)
  ultimately have "uploader_ok ?v" using parts(1) by (simp add: uploader_ok_def ok_with_def)
  then show ?thesis using stop by (simp add: presign_loaded_def Let_def picked_def)
qed

text \<open>An entry re-read is kept with the live ones, or loses its claim.\<close>

lemma recheck_entry_result:
  assumes "recheck_entry cfg r has e live u = (live', u')"
  obtains D where "up_claimed u' = up_claimed u - D" "live' = live \<and> D = {qf_key e} \<or> live' = live @ [e] \<and> D = {}"
    "up_running u' = up_running u" "up_bytesInFlight u' = up_bytesInFlight u" "up_presigning u' = up_presigning u"
    "up_batches u' = up_batches u" "up_batchCounter u' = up_batchCounter u" "up_buffer u' = up_buffer u"
    "store_keyed (up_store u) \<Longrightarrow> store_keyed (up_store u')"
proof (cases "record_gone cfg r e \<or> \<not> has")
  case True
  then show ?thesis using assms by (intro that [of "{qf_key e}"]) (auto simp: recheck_entry_def store_keyed_apply split: if_splits)
next
  case False
  then show ?thesis using assms by (intro that [of "{}"]) (auto simp: recheck_entry_def split: if_splits)
qed

definition phase_ok :: "presign_phase \<Rightarrow> uploader \<Rightarrow> bool" where
  "phase_ok ph u \<longleftrightarrow> uploader_ok (u\<lparr>up_presigning := ph\<rparr>)"

lemma phase_ok_parts:
  "phase_ok ph u \<longleftrightarrow> store_keyed (up_store u) \<and> flight_ok u \<and> distinct (hand_keys (up_buffer u) u @ pending ph)
     \<and> set (hand_keys (up_buffer u) u @ pending ph) \<subseteq> up_claimed u
     \<and> up_claimed u \<subseteq> set (hand_keys (up_buffer u) u) \<union> picked_keys ph
     \<and> batches_ok (up_buffer u) (u\<lparr>up_presigning := ph\<rparr>)"
proof -
  have "flight_ok (u\<lparr>up_presigning := ph\<rparr>) = flight_ok u" by (rule flight_cong) simp_all
  then show ?thesis by (simp add: phase_ok_def uploader_ok_def ok_with_def claims_ok_def hand_keys_def conj_assoc)
qed

lemma phase_ok_self: "uploader_ok u \<Longrightarrow> phase_ok (up_presigning u) u"
  by (simp add: phase_ok_def)

lemma batches_phase:
  "batches_ok bs (u\<lparr>up_presigning := ph\<rparr>) \<Longrightarrow> (case ph' of PsAsking picked items n i \<Rightarrow> False | _ \<Rightarrow> True) \<Longrightarrow> batches_ok bs (u\<lparr>up_presigning := ph'\<rparr>)"
  by (cases ph') (simp_all add: batches_ok_def transfers_of_def)

lemma distinct_move_back:
  "distinct (h @ e # t @ l) \<Longrightarrow> distinct (h @ t @ l @ [e])"
  by auto

lemma distinct_drop_middle:
  "distinct (h @ e # t @ l) \<Longrightarrow> distinct (h @ t @ l) \<and> e \<notin> set h \<and> e \<notin> set t \<and> e \<notin> set l"
  by auto

lemma recheck_step_ok:
  assumes "phase_ok (PsRechecking picked (e # todo) live) u" "recheck_entry cfg r has e live u = (live', u')"
  shows "phase_ok (PsRechecking picked todo live') u'"
proof -
  obtain D where D: "up_claimed u' = up_claimed u - D" "live' = live \<and> D = {qf_key e} \<or> live' = live @ [e] \<and> D = {}"
    and same: "up_running u' = up_running u" "up_bytesInFlight u' = up_bytesInFlight u" "up_presigning u' = up_presigning u"
    "up_batches u' = up_batches u" "up_batchCounter u' = up_batchCounter u" "up_buffer u' = up_buffer u"
    "store_keyed (up_store u) \<Longrightarrow> store_keyed (up_store u')"
    using recheck_entry_result [OF assms(2)] by metis
  have hands: "hand_keys (up_buffer u') u' = hand_keys (up_buffer u) u" by (simp add: hand_keys_def same)
  have flight: "flight_ok u' = flight_ok u" by (rule flight_cong) (simp_all add: same)
  have batches: "batches_ok (up_buffer u') (u'\<lparr>up_presigning := ph\<rparr>) = batches_ok (up_buffer u) (u\<lparr>up_presigning := ph\<rparr>)" for ph
    unfolding same(6) by (rule batches_cong) (simp_all add: same)
  define H where "H = hand_keys (up_buffer u) u"
  have old: "store_keyed (up_store u)" "flight_ok u" "distinct (H @ qf_key e # map qf_key todo @ map qf_key live)"
    "set H \<union> {qf_key e} \<union> qf_key ` set todo \<union> qf_key ` set live \<subseteq> up_claimed u" "up_claimed u \<subseteq> set H \<union> qf_key ` set picked"
    "batches_ok (up_buffer u) (u\<lparr>up_presigning := PsRechecking picked (e # todo) live\<rparr>)"
    using assms(1) unfolding phase_ok_parts H_def by simp_all
  have "batches_ok (up_buffer u) (u\<lparr>up_presigning := PsRechecking picked todo live'\<rparr>)"
    using batches_phase [OF old(6)] by simp
  moreover have "distinct (H @ map qf_key todo @ map qf_key live')"
    using D(2) distinct_drop_middle [OF old(3)] distinct_move_back [OF old(3)] by (elim disjE conjE) simp_all
  moreover have "set H \<union> qf_key ` set todo \<union> qf_key ` set live' \<subseteq> up_claimed u - D"
    using D(2) distinct_drop_middle [OF old(3)] old(4)
    by (elim disjE conjE; simp only: list.set_map set_append image_Un list.set image_insert image_empty; blast)
  moreover have "up_claimed u - D \<subseteq> set H \<union> qf_key ` set picked" using old(5) by blast
  ultimately show ?thesis
    using same(7) old(1,2) unfolding phase_ok_parts hands flight batches D(1) H_def by simp
qed

lemma finish_phase_ok:
  assumes "phase_ok ph u" "picked_keys ph \<subseteq> qf_key ` set picked"
  shows "uploader_ok (finish_presign t again picked u)"
  by (rule finish_presign_ok)
    (use assms batches_phase [of "up_buffer u" ph u PsIdle] in \<open>auto simp: phase_ok_parts\<close>)

text \<open>Entries given up on the way: claims dropped, nothing else of the core touched.\<close>

definition gives_up :: "string set \<Rightarrow> uploader \<Rightarrow> uploader \<Rightarrow> bool" where
  "gives_up D u v \<longleftrightarrow> up_claimed v = up_claimed u - D \<and> up_running v = up_running u \<and> up_bytesInFlight v = up_bytesInFlight u
     \<and> up_presigning v = up_presigning u \<and> up_batches v = up_batches u \<and> up_batchCounter v = up_batchCounter u
     \<and> up_buffer v = up_buffer u \<and> (store_keyed (up_store u) \<longrightarrow> store_keyed (up_store v))"

lemma gives_up_refl: "gives_up {} u u"
  by (simp add: gives_up_def)

lemma gives_up_trans: "gives_up D u v \<Longrightarrow> gives_up E v w \<Longrightarrow> gives_up (D \<union> E) u w"
  by (auto simp: gives_up_def)

lemma gives_up_same: "same_core v u \<Longrightarrow> gives_up {} u v"
  by (simp add: gives_up_def same_core_def)

lemma gives_up_one: "gives_up {k} u ((do_op op u)\<lparr>up_claimed := up_claimed u - {k}\<rparr>)"
  by (simp add: gives_up_def store_keyed_apply)

lemma gives_up_failed: "gives_up {k} u (unclaim k (noteFailure t e err el u))"
  using same_core_note(1) [of u u] by (simp add: gives_up_def same_core_def)

lemma given_up_parts:
  assumes "gives_up D u v"
  shows "hand_keys bs v = hand_keys bs u" "flight_ok v = flight_ok u"
    "batches_ok bs (v\<lparr>up_presigning := ph\<rparr>) = batches_ok bs (u\<lparr>up_presigning := ph\<rparr>)"
    "up_buffer v = up_buffer u" "up_claimed v = up_claimed u - D" "store_keyed (up_store u) \<Longrightarrow> store_keyed (up_store v)"
    "up_batchCounter v = up_batchCounter u" "up_batches v = up_batches u" "up_presigning v = up_presigning u" "up_running v = up_running u"
proof -
  have eqs: "up_claimed v = up_claimed u - D" "up_running v = up_running u" "up_bytesInFlight v = up_bytesInFlight u"
    "up_presigning v = up_presigning u" "up_batches v = up_batches u" "up_batchCounter v = up_batchCounter u" "up_buffer v = up_buffer u"
    and keyed: "store_keyed (up_store u) \<longrightarrow> store_keyed (up_store v)"
    using assms unfolding gives_up_def by blast+
  show "hand_keys bs v = hand_keys bs u" by (simp add: hand_keys_def eqs)
  show "flight_ok v = flight_ok u" by (rule flight_cong) (simp_all add: eqs)
  show "batches_ok bs (v\<lparr>up_presigning := ph\<rparr>) = batches_ok bs (u\<lparr>up_presigning := ph\<rparr>)" by (rule batches_cong) (simp_all add: eqs)
qed (use assms in \<open>simp_all add: gives_up_def\<close>)

lemma phase_given_up:
  assumes "phase_ok ph u" "gives_up D u v" "D \<inter> set (hand_keys (up_buffer u) u @ pending ph') = {}"
    and "distinct (pending ph')" "set (pending ph') \<subseteq> set (pending ph)" "picked_keys ph \<subseteq> picked_keys ph'"
    and "case ph' of PsAsking picked items n i \<Rightarrow> False | _ \<Rightarrow> True"
  shows "phase_ok ph' v"
proof -
  define H where "H = hand_keys (up_buffer u) u"
  have old: "store_keyed (up_store u)" "flight_ok u" "distinct (H @ pending ph)" "set (H @ pending ph) \<subseteq> up_claimed u"
    "up_claimed u \<subseteq> set H \<union> picked_keys ph" "batches_ok (up_buffer u) (u\<lparr>up_presigning := ph\<rparr>)"
    using assms(1) unfolding phase_ok_parts H_def by simp_all
  note v = given_up_parts [OF assms(2)]
  have "distinct (H @ pending ph')" using old(3) assms(4,5) by auto
  moreover have "set (H @ pending ph') \<subseteq> up_claimed u - D" using old(4) assms(3,5) unfolding H_def by auto
  moreover have "up_claimed u - D \<subseteq> set H \<union> picked_keys ph'" using old(5) assms(6) by blast
  moreover have "batches_ok (up_buffer u) (u\<lparr>up_presigning := ph'\<rparr>)" using batches_phase [OF old(6) assms(7)] .
  ultimately show ?thesis using old(1,2) v(6) unfolding phase_ok_parts v(1-5) H_def by blast
qed

lemma phase_relabel: "phase_ok (PsRechecking picked [] live) u \<Longrightarrow> phase_ok (PsLabels picked live) u"
  using batches_phase [of "up_buffer u" "PsRechecking picked [] live" u "PsLabels picked live"] unfolding phase_ok_parts by simp

lemma exclude_gives_up:
  "gives_up (qf_key ` {e \<in> set live. excluded_entry excluded e}) u
     (fold (\<lambda>e u. if excluded_entry excluded e then unclaim (qf_key e) (do_op (Remove (qf_key e)) u) else u) live u)"
proof (induction live arbitrary: u)
  case Nil
  then show ?case by (simp add: gives_up_refl)
next
  case (Cons e live)
  let ?f = "\<lambda>e u. if excluded_entry excluded e then unclaim (qf_key e) (do_op (Remove (qf_key e)) u) else u"
  have one: "gives_up (if excluded_entry excluded e then {qf_key e} else {}) u (?f e u)"
    using gives_up_one [of "qf_key e" u "Remove (qf_key e)"] by (simp add: gives_up_refl)
  have "gives_up ((if excluded_entry excluded e then {qf_key e} else {}) \<union> qf_key ` {e \<in> set live. excluded_entry excluded e}) u (fold ?f live (?f e u))"
    by (rule gives_up_trans [OF one Cons.IH])
  moreover have "(if excluded_entry excluded e then {qf_key e} else {}) \<union> qf_key ` {e \<in> set live. excluded_entry excluded e}
      = qf_key ` {x \<in> set (e # live). excluded_entry excluded x}" by auto
  ultimately show ?case by simp
qed

lemma item_key_of [simp]: "item_key (item_of cfg e) = qf_key e"
  by (simp add: item_key_def item_of_def)

lemma batches_asking:
  assumes "batches_ok bs (v\<lparr>up_presigning := ph\<rparr>)" "n = up_batchCounter v + 1"
  shows "batches_ok bs (v\<lparr>up_batchCounter := n, up_presigning := PsAsking picked items n i\<rparr>)"
proof -
  have count: "\<forall>m b. js_get (up_batches v) m = Some b \<longrightarrow> ba_outstanding b = int (count_list (transfers_of bs v) m) \<and> m \<le> up_batchCounter v"
    and has: "\<forall>m \<in> set (transfers_of bs v). js_has (up_batches v) m"
    using assms(1) by (simp_all add: batches_ok_def transfers_of_def)
  have "js_get (up_batches v) n = None" using count assms(2) by (cases "js_get (up_batches v) n") fastforce+
  moreover have "m \<le> n" if "js_get (up_batches v) m = Some b" for m b using count assms(2) that by fastforce
  moreover have "transfers_of bs (v\<lparr>up_batchCounter := n, up_presigning := PsAsking picked items n i\<rparr>) = transfers_of bs v"
    by (simp add: transfers_of_def)
  ultimately show ?thesis using count has assms(2) unfolding batches_ok_def by simp
qed

lemma presign_items_ok:
  assumes "phase_ok ph u" "pending ph = map qf_key live" "picked_keys ph = qf_key ` set picked"
  shows "uploader_ok (presign_items cfg t picked live excluded u)"
proof -
  define v where "v = fold (\<lambda>e u. if excluded_entry excluded e then unclaim (qf_key e) (do_op (Remove (qf_key e)) u) else u) live u"
  define rest where "rest = filter (\<lambda>e. \<not> excluded_entry excluded e) live"
  define D where "D = qf_key ` {e \<in> set live. excluded_entry excluded e}"
  have given: "gives_up D u v" unfolding v_def D_def by (rule exclude_gives_up)
  have dist: "distinct (hand_keys (up_buffer u) u @ map qf_key live)" using assms(1,2) unfolding phase_ok_parts by simp
  have "inj_on qf_key (set live)" using dist by (simp add: distinct_map)
  then have apart: "D \<inter> qf_key ` set rest = {}" unfolding D_def rest_def by (auto dest: inj_onD)
  have "D \<inter> set (hand_keys (up_buffer u) u) = {}" using dist unfolding D_def by auto
  then have ok: "phase_ok (PsLabels picked rest) v"
    using apart dist assms(2,3)
    by (intro phase_given_up [OF assms(1) given]) (auto simp: rest_def distinct_map_filter)
  let ?n = "up_batchCounter v + 1"
  let ?i = "batch_id t ?n"
  let ?items = "map (item_of cfg) rest"
  let ?w = "takeReport t (do_op (OpenBatch \<lparr>ob_id = ?i, ob_startedAt = t, ob_items = length ?items\<rparr>) (v\<lparr>up_batchCounter := ?n\<rparr>))"
  have core: "same_core ?w (v\<lparr>up_batchCounter := ?n\<rparr>)" by (intro same_core_takeReport same_core_op) simp
  have "phase_ok (PsAsking picked ?items ?n ?i) ?w"
  proof -
    note w = given_up_parts [OF gives_up_same [OF core]]
    have eqs: "hand_keys bs ?w = hand_keys bs v" "flight_ok ?w = flight_ok v" for bs
      using w(1,2) flight_cong [of "v\<lparr>up_batchCounter := ?n\<rparr>" v] by (simp_all add: hand_keys_def)
    have "batches_ok (up_buffer v) (v\<lparr>up_batchCounter := ?n, up_presigning := PsAsking picked ?items ?n ?i\<rparr>)"
      using ok unfolding phase_ok_parts by (intro batches_asking [where ph = "PsLabels picked rest"]) simp_all
    then show ?thesis using ok w(3) [of "up_buffer v" "PsAsking picked ?items ?n ?i"] w(4-6) unfolding phase_ok_parts eqs
      by (simp add: comp_def)
  qed
  then have "uploader_ok (?w\<lparr>up_presigning := PsAsking picked ?items ?n ?i\<rparr>)" by (simp add: phase_ok_def)
  moreover have "uploader_ok (finish_presign t True picked v)" by (rule finish_phase_ok [OF ok]) simp
  ultimately show ?thesis
    unfolding presign_items_def v_def [symmetric] rest_def [symmetric] Let_def by simp
qed

text \<open>The answers: what is not put into the buffer loses its claim.\<close>

lemma take_answers_result:
  assumes "distinct (map item_key items)"
  shows "\<exists>D new. gives_up D u (snd (take_answers t n items as puts u)) \<and> D \<subseteq> set (map item_key items)
     \<and> distinct (map (item_key \<circ> bu_item) new) \<and> set (map (item_key \<circ> bu_item) new) \<subseteq> set (map item_key items)
     \<and> D \<inter> set (map (item_key \<circ> bu_item) new) = {} \<and> (\<forall>b \<in> set new. bu_batch b = n)
     \<and> (case fst (take_answers t n items as puts u) of None \<Rightarrow> True | Some out \<Rightarrow> out = puts @ new)"
  using assms
proof (induction items arbitrary: as puts u)
  case Nil
  show ?case by (rule exI [of _ "{}"], rule exI [of _ "[]"]) (simp add: gives_up_refl)
next
  case (Cons item items)
  show ?case
  proof (cases as)
    case Nil
    then show ?thesis by (intro exI [of _ "{}"] exI [of _ "[]"]) (simp add: gives_up_refl)
  next
    case (Cons a as')
    let ?k = "item_key item"
    have dist: "distinct (map item_key items)" and out: "?k \<notin> set (map item_key items)" using Cons.prems by simp_all
    show ?thesis
    proof (cases "\<exists>v. gives_up {?k} u v \<and> take_answers t n (item # items) as puts u = take_answers t n items as' puts v")
      case True
      then obtain v where v: "gives_up {?k} u v" "take_answers t n (item # items) as puts u = take_answers t n items as' puts v" by blast
      obtain D new where IH: "gives_up D v (snd (take_answers t n items as' puts v))" "D \<subseteq> set (map item_key items)"
        "distinct (map (item_key \<circ> bu_item) new)" "set (map (item_key \<circ> bu_item) new) \<subseteq> set (map item_key items)"
        "D \<inter> set (map (item_key \<circ> bu_item) new) = {}" "\<forall>b \<in> set new. bu_batch b = n"
        "case fst (take_answers t n items as' puts v) of None \<Rightarrow> True | Some out \<Rightarrow> out = puts @ new"
        using Cons.IH [OF dist, of v as' puts] by blast
      have "gives_up ({?k} \<union> D) u (snd (take_answers t n items as' puts v))" by (rule gives_up_trans [OF v(1) IH(1)])
      moreover have "{?k} \<union> D \<subseteq> set (map item_key (item # items))" "set (map (item_key \<circ> bu_item) new) \<subseteq> set (map item_key (item # items))"
        using IH(2,4) by auto
      moreover have "({?k} \<union> D) \<inter> set (map (item_key \<circ> bu_item) new) = {}" using IH(4,5) out by blast
      ultimately show ?thesis using IH(3,6,7) v(2) by metis
    next
      case False
      have dropped: "gives_up {?k} u (unclaim ?k (do_op (Remove ?k) u))" "gives_up {?k} u (unclaim ?k (noteFailure t (it_file item) err 0 u))" for err
        using gives_up_one [of ?k u "Remove ?k"] gives_up_failed by simp_all
      have step: "take_answers t n (item # items) as puts u = take_answers t n items as' (puts @ [\<lparr>bu_item = item, bu_answer = a, bu_batch = n\<rparr>]) u"
      proof (cases a)
        case (AnsError x)
        then show ?thesis using False Cons dropped(2) [of x] by (auto simp: Let_def)
      qed (use False Cons dropped(1) in \<open>auto simp: Let_def\<close>)
      define p where "p = \<lparr>bu_item = item, bu_answer = a, bu_batch = n\<rparr>"
      obtain D new where IH: "gives_up D u (snd (take_answers t n items as' (puts @ [p]) u))" "D \<subseteq> set (map item_key items)"
        "distinct (map (item_key \<circ> bu_item) new)" "set (map (item_key \<circ> bu_item) new) \<subseteq> set (map item_key items)"
        "D \<inter> set (map (item_key \<circ> bu_item) new) = {}" "\<forall>b \<in> set new. bu_batch b = n"
        "case fst (take_answers t n items as' (puts @ [p]) u) of None \<Rightarrow> True | Some out \<Rightarrow> out = (puts @ [p]) @ new"
        using Cons.IH [OF dist, of u as' "puts @ [p]"] by blast
      have key: "(item_key \<circ> bu_item) p = ?k" "bu_batch p = n" by (simp_all add: p_def)
      have "distinct (map (item_key \<circ> bu_item) (p # new))"
        using IH(3,4) out unfolding list.map distinct.simps key by blast
      moreover have "D \<inter> set (map (item_key \<circ> bu_item) (p # new)) = {}"
        using IH(2,5) out unfolding list.map list.set key by blast
      moreover have "set (map (item_key \<circ> bu_item) (p # new)) \<subseteq> set (map item_key (item # items))"
        using IH(4) unfolding list.map list.set key by blast
      moreover have "D \<subseteq> set (map item_key (item # items))" using IH(2) by auto
      moreover have "\<forall>b \<in> set (p # new). bu_batch b = n" using IH(6) key(2) by simp
      moreover have "case fst (take_answers t n items as' (puts @ [p]) u) of None \<Rightarrow> True | Some out \<Rightarrow> out = puts @ (p # new)"
        using IH(7) by (simp split: option.splits)
      ultimately show ?thesis using IH(1) unfolding step p_def [symmetric] by blast
    qed
  qed
qed

lemma batches_answered:
  assumes "batches_ok bs (u\<lparr>up_presigning := PsAsking picked items n i\<rparr>)" "\<forall>b \<in> set new. bu_batch b = n"
    and "ba_outstanding x = int (length new)"
  shows "batches_ok (bs @ new) (u\<lparr>up_batches := js_set n x (up_batches u), up_presigning := PsIdle\<rparr>)"
proof -
  let ?v = "u\<lparr>up_batches := js_set n x (up_batches u), up_presigning := PsIdle\<rparr>"
  have count: "js_get (up_batches u) m = Some b \<Longrightarrow> ba_outstanding b = int (count_list (transfers_of bs u) m) \<and> m \<le> up_batchCounter u"
    and has: "m \<in> set (transfers_of bs u) \<Longrightarrow> js_has (up_batches u) m"
    and n: "n = up_batchCounter u" "\<not> js_has (up_batches u) n" for m b
    using assms(1) by (auto simp: batches_ok_def transfers_of_def)
  have new: "map bu_batch new = replicate (length new) n" using assms(2) by (induction new) auto
  have "n \<notin> set (transfers_of bs u)" using has n(2) by blast
  then have none: "count_list (transfers_of bs u) n = 0" by (simp add: count_list_0_iff)
  have "count_list (replicate k n) m = (if m = n then k else 0)" for k m by (induction k) auto
  then have sums: "count_list (transfers_of (bs @ new) ?v) m = count_list (transfers_of bs u) m + (if m = n then length new else 0)" for m
    by (simp add: transfers_of_def new)
  have members: "set (transfers_of (bs @ new) ?v) \<subseteq> insert n (set (transfers_of bs u))"
    using assms(2) by (auto simp: transfers_of_def)
  have "ba_outstanding b = int (count_list (transfers_of (bs @ new) ?v) m) \<and> m \<le> up_batchCounter u"
    if "js_get (js_set n x (up_batches u)) m = Some b" for m b
    using that count [of m b] none n(1) assms(3) unfolding sums by (cases "m = n") simp_all
  moreover have "js_has (js_set n x (up_batches u)) m" if "m \<in> set (transfers_of (bs @ new) ?v)" for m
    using that members has [of m] by (cases "m = n") auto
  ultimately show ?thesis unfolding batches_ok_def by simp
qed

lemma presign_answered_ok:
  assumes "uploader_ok u" "up_presigning u = PsAsking picked items n i"
  shows "uploader_ok (presign_answered t answers picked items n i u)"
proof (cases answers)
  case None
  have "same_core (pause t (do_op (CloseBatch i) u)) u" unfolding pause_def by (simp add: same_core_op)
  then have "uploader_ok (pause t (do_op (CloseBatch i) u))" by (rule uploader_ok_same [OF assms(1)])
  then have "uploader_ok (finish_presign t False picked (pause t (do_op (CloseBatch i) u)))"
    by (rule finish_from_ok) (simp add: pause_def assms(2))
  then show ?thesis by (simp add: presign_answered_def None)
next
  case (Some as)
  have ok: "phase_ok (PsAsking picked items n i) u" using phase_ok_self [OF assms(1)] by (simp add: assms(2))
  define H where "H = hand_keys (up_buffer u) u"
  have old: "store_keyed (up_store u)" "flight_ok u" "distinct (H @ map item_key items)" "set (H @ map item_key items) \<subseteq> up_claimed u"
    "up_claimed u \<subseteq> set H \<union> qf_key ` set picked" "batches_ok (up_buffer u) (u\<lparr>up_presigning := PsAsking picked items n i\<rparr>)"
    using ok unfolding phase_ok_parts H_def by simp_all
  obtain D new where res: "gives_up D u (snd (take_answers t n items as [] u))" "D \<subseteq> set (map item_key items)"
    "distinct (map (item_key \<circ> bu_item) new)" "set (map (item_key \<circ> bu_item) new) \<subseteq> set (map item_key items)"
    "D \<inter> set (map (item_key \<circ> bu_item) new) = {}" "\<forall>b \<in> set new. bu_batch b = n"
    "case fst (take_answers t n items as [] u) of None \<Rightarrow> True | Some out \<Rightarrow> out = [] @ new"
    using take_answers_result [of items u t n as "[]"] old(3) unfolding distinct_append by blast
  define v where "v = snd (take_answers t n items as [] u)"
  note given = given_up_parts [OF res(1), folded v_def]
  have apart: "D \<inter> set H = {}" "set (map (item_key \<circ> bu_item) new) \<inter> set H = {}" using old(3) res(2,4) unfolding distinct_append by blast+
  have thrown: "uploader_ok (finish_presign t True picked v)"
  proof (rule finish_presign_ok)
    show "batches_ok (up_buffer v) (v\<lparr>up_presigning := PsIdle\<rparr>)"
      using batches_phase [OF old(6), of PsIdle] by (simp add: given)
    show "set (hand_keys (up_buffer v) v) \<subseteq> up_claimed v" using old(4) apart unfolding given H_def by auto
    show "up_claimed v \<subseteq> set (hand_keys (up_buffer v) v) \<union> qf_key ` set picked" using old(5) unfolding given H_def by blast
  qed (use old(1-3) in \<open>simp_all add: given H_def [symmetric]\<close>)
  define w where "w = v\<lparr>up_batches := js_set n \<lparr>ba_id = i, ba_outstanding = int (length new), ba_sent = length new,
    ba_networkFailures = [], ba_otherOutcomes = 0\<rparr> (up_batches v), up_buffer := up_buffer v @ new\<rparr>"
  define w' where "w' = (if new = [] then do_op (CloseBatch i) w else w)"
  have core: "same_core w' w" by (simp add: w'_def same_core_op)
  have hands: "set (hand_keys (up_buffer w) w) = set H \<union> set (map (item_key \<circ> bu_item) new)"
    "distinct (hand_keys (up_buffer w) w)"
  proof -
    have "hand_keys (up_buffer w) w = map (item_key \<circ> bu_item) (up_buffer u) @ map (item_key \<circ> bu_item) new @ js_keys (up_running u)"
      by (simp add: w_def hand_keys_def given)
    moreover have "H = map (item_key \<circ> bu_item) (up_buffer u) @ js_keys (up_running u)" by (simp add: H_def hand_keys_def)
    ultimately show "set (hand_keys (up_buffer w) w) = set H \<union> set (map (item_key \<circ> bu_item) new)"
      "distinct (hand_keys (up_buffer w) w)"
      using old(3) res(3) apart(2) by (simp_all only: set_append distinct_append) blast+
  qed
  note w' = given_up_parts [OF gives_up_same [OF core]]
  have "uploader_ok (finish_presign t True picked w')"
  proof (rule finish_presign_ok)
    show "store_keyed (up_store w')" using w'(6) given(6) old(1) by (simp add: w_def)
    show "flight_ok w'" using w'(2) given(2) old(2) flight_cong [of w v] by (simp add: w_def)
    show "distinct (hand_keys (up_buffer w') w')" using hands(2) by (simp add: w')
    show "set (hand_keys (up_buffer w') w') \<subseteq> up_claimed w'"
    proof -
      have "set H \<union> set (map (item_key \<circ> bu_item) new) \<subseteq> up_claimed u - D"
        using old(4) apart(1) res(4,5) unfolding set_append by blast
      then show ?thesis unfolding w'(1,4,5) hands(1) by (simp add: w_def given)
    qed
    show "up_claimed w' \<subseteq> set (hand_keys (up_buffer w') w') \<union> qf_key ` set picked"
      using hands(1) old(5) unfolding w' by (auto simp: w_def given)
    have "batches_ok (up_buffer v) (v\<lparr>up_presigning := PsAsking picked items n i\<rparr>)" using old(6) by (simp add: given)
    from batches_answered [OF this res(6), of "\<lparr>ba_id = i, ba_outstanding = int (length new), ba_sent = length new, ba_networkFailures = [], ba_otherOutcomes = 0\<rparr>"]
    have "batches_ok (up_buffer w) (w\<lparr>up_presigning := PsIdle\<rparr>)"
      by (simp add: w_def batches_ok_def transfers_of_def)
    then show "batches_ok (up_buffer w') (w'\<lparr>up_presigning := PsIdle\<rparr>)" by (simp add: w')
  qed
  moreover have "take_answers t n items as [] u = (Some new, v) \<or> take_answers t n items as [] u = (None, v)"
    using res(7) by (cases "fst (take_answers t n items as [] u)") (simp_all add: v_def prod_eq_iff)
  moreover have "presign_answered t answers picked items n i u = finish_presign t True picked w'"
    if "take_answers t n items as [] u = (Some new, v)"
    by (simp only: presign_answered_def Some that option.case prod.case Let_def w'_def w_def)
  moreover have "presign_answered t answers picked items n i u = finish_presign t True picked v"
    if "take_answers t n items as [] u = (None, v)"
    by (simp only: presign_answered_def Some that option.case prod.case)
  ultimately show ?thesis using thrown by metis
qed

subsection \<open>The end of a transfer\<close>

lemma mset_delete:
  assumes "js_wf m" "js_get m k = Some r"
  shows "mset m = add_mset (k, r) (mset (js_delete k m))"
  using assms
proof (induction m)
  case (Cons kv m)
  have "js_delete k m = m" if "fst kv = k" using Cons.prems(1) that by (auto simp: js_wf_def AList.delete_eq filter_id_conv image_iff)
  then show ?case using Cons by (cases kv) (auto simp: js_wf_def)
qed simp

text \<open>One file fewer in the buffer and under way than the count of its batch says.\<close>

definition batches_short :: "nat \<Rightarrow> buffered list \<Rightarrow> uploader \<Rightarrow> bool" where
  "batches_short n bs u \<longleftrightarrow>
     (\<forall>m b. js_get (up_batches u) m = Some b \<longrightarrow>
        ba_outstanding b = int (count_list (transfers_of bs u) m + (if m = n then 1 else 0)) \<and> m \<le> up_batchCounter u)
     \<and> (\<forall>m \<in> set (transfers_of bs u). js_has (up_batches u) m)
     \<and> (case up_presigning u of PsAsking picked items k i \<Rightarrow> k = up_batchCounter u \<and> \<not> js_has (up_batches u) k | _ \<Rightarrow> True)"

lemma update_batch_parts [simp]:
  "up_store (update_batch n f u) = up_store u" "up_running (update_batch n f u) = up_running u"
  "up_bytesInFlight (update_batch n f u) = up_bytesInFlight u" "up_claimed (update_batch n f u) = up_claimed u"
  "up_presigning (update_batch n f u) = up_presigning u" "up_batchCounter (update_batch n f u) = up_batchCounter u"
  "up_buffer (update_batch n f u) = up_buffer u" "transfers_of bs (update_batch n f u) = transfers_of bs u"
  "hand_keys bs (update_batch n f u) = hand_keys bs u"
  "js_has (up_batches (update_batch n f u)) m = js_has (up_batches u) m"
  "js_get (up_batches (update_batch n f u)) m = (if m = n then map_option f (js_get (up_batches u) n) else js_get (up_batches u) m)"
  by (auto simp: update_batch_def transfers_of_def hand_keys_def split: option.splits)

definition outstanding :: "uploader \<Rightarrow> nat \<Rightarrow> int option" where
  "outstanding u m = map_option ba_outstanding (js_get (up_batches u) m)"

definition asking_ok :: "uploader \<Rightarrow> bool" where
  "asking_ok u \<longleftrightarrow> (case up_presigning u of PsAsking picked items k i \<Rightarrow> k = up_batchCounter u \<and> outstanding u k = None | _ \<Rightarrow> True)"

lemma asking_cong:
  "up_presigning u = up_presigning v \<Longrightarrow> up_batchCounter u = up_batchCounter v \<Longrightarrow> (\<And>m. outstanding u m = None \<longleftrightarrow> outstanding v m = None)
    \<Longrightarrow> asking_ok u = asking_ok v"
  by (cases "up_presigning v") (simp_all add: asking_ok_def)

lemma batches_by_count:
  "batches_ok bs u \<longleftrightarrow>
     (\<forall>m k. outstanding u m = Some k \<longrightarrow> k = int (count_list (transfers_of bs u) m) \<and> m \<le> up_batchCounter u)
     \<and> (\<forall>m \<in> set (transfers_of bs u). outstanding u m \<noteq> None)
     \<and> asking_ok u"
  unfolding batches_ok_def outstanding_def asking_ok_def outstanding_def by (cases "up_presigning u") auto

lemma short_by_count:
  "batches_short n bs u \<longleftrightarrow>
     (\<forall>m k. outstanding u m = Some k \<longrightarrow> k = int (count_list (transfers_of bs u) m + (if m = n then 1 else 0)) \<and> m \<le> up_batchCounter u)
     \<and> (\<forall>m \<in> set (transfers_of bs u). outstanding u m \<noteq> None)
     \<and> asking_ok u"
  unfolding batches_short_def outstanding_def asking_ok_def outstanding_def by (cases "up_presigning u") auto

lemma outstanding_update:
  "outstanding (update_batch n f u) = (outstanding u)(n := map_option (\<lambda>b. ba_outstanding (f b)) (js_get (up_batches u) n))"
  by (rule ext) (simp add: outstanding_def map_option.compositionality comp_def)

lemma outstanding_kept: "(\<And>b. ba_outstanding (f b) = ba_outstanding b) \<Longrightarrow> outstanding (update_batch n f u) = outstanding u"
  unfolding outstanding_update by (simp add: outstanding_def fun_upd_idem)

lemma outstanding_less:
  "outstanding (update_batch n (\<lambda>b. b\<lparr>ba_outstanding := ba_outstanding b - 1\<rparr>) u) m
     = (if m = n then map_option (\<lambda>k. k - 1) (outstanding u n) else outstanding u m)"
  unfolding outstanding_update by (simp add: outstanding_def map_option.compositionality comp_def)

lemma batches_update_short:
  "(\<And>b. ba_outstanding (f b) = ba_outstanding b) \<Longrightarrow> batches_short n' bs (update_batch n f u) = batches_short n' bs u"
  using asking_cong [of "update_batch n f u" u] unfolding short_by_count by (simp add: outstanding_kept)

lemma short_settled:
  assumes "batches_short n bs u"
  shows "batches_ok bs (update_batch n (\<lambda>b. b\<lparr>ba_outstanding := ba_outstanding b - 1\<rparr>) u)"
proof -
  let ?v = "update_batch n (\<lambda>b. b\<lparr>ba_outstanding := ba_outstanding b - 1\<rparr>) u"
  have count: "\<And>m k. outstanding u m = Some k \<Longrightarrow> k = int (count_list (transfers_of bs u) m + (if m = n then 1 else 0)) \<and> m \<le> up_batchCounter u"
    and has: "\<forall>m \<in> set (transfers_of bs u). outstanding u m \<noteq> None" and ask: "asking_ok u"
    using assms by (simp_all add: short_by_count)
  have "k = int (count_list (transfers_of bs u) m) \<and> m \<le> up_batchCounter u" if "outstanding ?v m = Some k" for m k
    using that count [of m k] count [of n] by (cases "m = n") (auto simp: outstanding_less)
  moreover have "outstanding ?v m = None \<longleftrightarrow> outstanding u m = None" for m by (simp add: outstanding_less)
  ultimately show ?thesis
    using has ask asking_cong [of ?v u] unfolding batches_by_count by simp
qed

lemma batch_done_ok:
  assumes "store_keyed (up_store u)" "flight_ok u" "claims_ok bs u" "batches_short n bs u"
  shows "ok_with bs (batch_done t n u) \<and> up_buffer (batch_done t n u) = up_buffer u"
proof -
  let ?v = "update_batch n (\<lambda>b. b\<lparr>ba_outstanding := ba_outstanding b - 1\<rparr>) u"
  have "batches_ok bs ?v"
    using assms(4) by (rule short_settled)
  moreover have "flight_ok ?v" "claims_ok bs ?v"
    using assms(2,3) flight_cong [of ?v u] claims_cong [of ?v u] by simp_all
  ultimately have ok: "ok_with bs ?v" using assms(1) by (simp add: ok_with_def)
  moreover have core: "same_core (settleBatch t n ?v) ?v" by (rule same_core_settle)
  moreover have "up_buffer (settleBatch t n ?v) = up_buffer u" using core by (simp add: same_core_def)
  ultimately show ?thesis using ok_same_core [OF ok core] by (simp add: batch_done_def Let_def split: option.split)
qed

text \<open>A transfer that has ended is out of \<open>running\<close> and unclaimed; its batch still counts it.\<close>

lemma transfer_out_ok:
  assumes "uploader_ok u" "js_get (up_running u) k = Some r"
    and "v = u\<lparr>up_claimed := up_claimed u - {k}, up_running := js_delete k (up_running u), up_bytesInFlight := up_bytesInFlight u - int (ru_cost r)\<rparr>"
  shows "flight_ok v" "claims_ok (up_buffer v) v" "batches_short (ru_batch r) (up_buffer v) v"
proof -
  have flight: "flight_ok u" and claims: "claims_ok (up_buffer u) u" and batches: "batches_ok (up_buffer u) u"
    using assms(1) by (simp_all add: uploader_ok_def ok_with_def)
  have wf: "js_wf (up_running u)" using flight by (simp add: flight_ok_def)
  note mset = mset_delete [OF wf assms(2)]
  have vals: "mset (js_values (up_running u)) = add_mset r (mset (js_values (js_delete k (up_running u))))"
    using arg_cong [OF mset, of "image_mset snd"] by simp
  have sub: "set (js_delete k (up_running u)) \<subseteq> set (up_running u)"
    using mset by (metis mset_subset_eq_add_right set_mset_mono set_mset_mset union_mset_add_mset_right add_mset_add_single subset_insertI set_mset_add_mset_insert)
  have bytes: "sum_list (map ru_cost (js_values (up_running u))) = ru_cost r + sum_list (map ru_cost (js_values (js_delete k (up_running u))))"
    using arg_cong [OF vals, of "\<lambda>M. sum_mset (image_mset ru_cost M)"] by (simp add: sum_mset_sum_list [symmetric] multiset.map_comp comp_def)
  have "laneUse l w = size (filter_mset (\<lambda>x. ru_lane x = l) (mset (js_values (up_running w))))" for l w
    unfolding laneUse_def mset_filter [symmetric] size_mset ..
  then have lanes: "laneUse l v \<le> laneUse l u" for l using vals by (simp add: assms(3) del: mset_map)
  have len: "length (js_delete k (up_running u)) < length (up_running u)"
    using arg_cong [OF mset, of size] by simp
  show "flight_ok v"
  proof -
    have old: "js_wf (up_running u)"
      "\<forall>(k, r) \<in> set (up_running u). item_key (ru_item r) = k \<and> ru_lane r = laneOf (ru_item r) \<and> ru_cost r = costOf (ru_item r)"
      "up_bytesInFlight u = int (sum_list (map ru_cost (js_values (up_running u))))" "\<forall>l. laneUse l u \<le> LANE_SLOTS l"
      "length (up_running u) \<le> 1 \<or> up_bytesInFlight u \<le> int MAX_BYTES_IN_FLIGHT"
      using flight unfolding flight_ok_def by blast+
    have v: "up_running v = js_delete k (up_running u)" "up_bytesInFlight v = up_bytesInFlight u - int (ru_cost r)"
      by (simp_all add: assms(3))
    have "\<forall>l. laneUse l v \<le> LANE_SLOTS l" using old(4) lanes by (meson order_trans)
    moreover have "up_bytesInFlight v = int (sum_list (map ru_cost (js_values (up_running v))))" unfolding v old(3) bytes by simp
    moreover have "length (up_running v) \<le> 1 \<or> up_bytesInFlight v \<le> int MAX_BYTES_IN_FLIGHT" using old(5) len unfolding v by linarith
    moreover have "js_wf (up_running v)" unfolding v using old(1) by (rule js_wf_delete)
    moreover have "\<forall>(k, r) \<in> set (up_running v). item_key (ru_item r) = k \<and> ru_lane r = laneOf (ru_item r) \<and> ru_cost r = costOf (ru_item r)"
      using old(2) sub unfolding v by blast
    ultimately show ?thesis unfolding flight_ok_def by blast
  qed
  have keys: "js_keys (js_delete k (up_running u)) = removeAll k (js_keys (up_running u))" by (rule delete_keys)
  have here: "k \<in> set (js_keys (up_running u))" using assms(2) by (force dest: map_of_SomeD)
  define A R P where defs: "A = map (item_key \<circ> bu_item) (up_buffer u)" "R = js_keys (up_running u)" "P = pending (up_presigning u)"
  have old: "distinct ((A @ R) @ P)" "set ((A @ R) @ P) \<subseteq> up_claimed u" "up_claimed u \<subseteq> set (A @ R) \<union> picked_keys (up_presigning u)"
    using claims by (simp_all only: claims_ok_def hand_keys_def defs)
  have v: "hand_keys (up_buffer v) v = A @ removeAll k R" "pending (up_presigning v) = P" "up_claimed v = up_claimed u - {k}"
    "up_presigning v = up_presigning u"
    "pending (up_presigning u) = P"
    by (simp_all add: hand_keys_def assms(3) keys defs)
  have "distinct ((A @ removeAll k R) @ P)" using old(1) by (auto simp: distinct_removeAll)
  moreover have "set ((A @ removeAll k R) @ P) \<subseteq> up_claimed u - {k}" using old(1,2) here unfolding defs(2) [symmetric] by auto
  moreover have "up_claimed u - {k} \<subseteq> set (A @ removeAll k R) \<union> picked_keys (up_presigning u)" using old(3) by auto
  ultimately show "claims_ok (up_buffer v) v" unfolding claims_ok_def v by blast
  have as_count: "count_list (map ru_batch vs) m = count (image_mset ru_batch (mset vs)) m" for vs m by (metis count_mset mset_map)
  have "count_list (map ru_batch (js_values (up_running u))) m
      = count_list (map ru_batch (js_values (js_delete k (up_running u)))) m + (if m = ru_batch r then 1 else 0)" for m
    unfolding as_count vals by simp
  then have counts: "count_list (transfers_of (up_buffer u) u) m = count_list (transfers_of (up_buffer v) v) m + (if m = ru_batch r then 1 else 0)" for m
    by (simp only: transfers_of_def assms(3) count_list_append) simp
  have "set (transfers_of (up_buffer v) v) \<subseteq> set (transfers_of (up_buffer u) u)"
    using sub by (auto simp: transfers_of_def assms(3))
  moreover have "outstanding v = outstanding u" "up_batchCounter v = up_batchCounter u" "up_presigning v = up_presigning u"
    by (simp_all add: outstanding_def fun_eq_iff assms(3))
  ultimately show "batches_short (ru_batch r) (up_buffer v) v"
    using batches asking_cong [of v u] unfolding batches_by_count short_by_count counts by auto
qed

lemma transfer_end_ok:
  assumes "uploader_ok u" "js_get (up_running u) key = Some r"
  shows "uploader_ok (transfer_end t key err elapsedMs r u)"
proof -
  let ?e = "it_file (ru_item r)" and ?n = "ru_batch r"
  define w where "w = (case err of None \<Rightarrow> sent_ok t ?e ?n u | Some x \<Rightarrow> sent_failed t ?e ?n x elapsedMs u)"
  have "\<exists>f v. (\<forall>b. ba_outstanding (f b) = ba_outstanding b) \<and> same_core v u \<and> w = update_batch ?n f v"
  proof (cases err)
    case None
    have "same_core (do_op (MarkSent (qf_key ?e) t) u) u" by (rule same_core_op) simp
    then show ?thesis unfolding w_def None option.case sent_ok_def Let_def
      by (intro exI conjI) (auto intro!: refl)
  next
    case (Some x)
    have "same_core (noteFailure t ?e (er_message x) elapsedMs u) u" by (rule same_core_note) simp
    then show ?thesis unfolding w_def Some option.case sent_failed_def
      by (cases "isNetworkError x"; simp; intro exI conjI) (auto intro!: refl)
  qed
  then obtain f v where f: "\<And>b. ba_outstanding (f b) = ba_outstanding b" and core: "same_core v u" and w: "w = update_batch ?n f v" by blast
  have v: "uploader_ok v" "js_get (up_running v) key = Some r"
    using uploader_ok_same [OF assms(1) core] core assms(2) by (simp_all add: same_core_def)
  let ?out = "\<lambda>x. x\<lparr>up_claimed := up_claimed x - {key}, up_running := js_delete key (up_running x), up_bytesInFlight := up_bytesInFlight x - int (ru_cost r)\<rparr>"
  note out = transfer_out_ok [OF v refl]
  have eq: "?out w = update_batch ?n f (?out v)" by (simp add: w update_batch_def split: option.split)
  have "flight_ok (?out w)" "claims_ok (up_buffer (?out w)) (?out w)" "batches_short ?n (up_buffer (?out w)) (?out w)"
    using out flight_cong [of "update_batch ?n f (?out v)" "?out v"] claims_cong [of "update_batch ?n f (?out v)" "?out v"]
      batches_update_short [OF f, of ?n "up_buffer v" ?n "?out v"]
    unfolding eq by simp_all
  moreover have "store_keyed (up_store (?out w))" using v(1) by (simp add: eq uploader_ok_def ok_with_def)
  ultimately have "uploader_ok (batch_done t ?n (?out w))"
    using batch_done_ok [of "?out w" "up_buffer (?out w)" ?n t] by (simp add: uploader_ok_def)
  then show ?thesis using kick_ok by (simp add: transfer_end_def Let_def w_def)
qed

subsection \<open>A stop\<close>

lemma drop_buffered_ok:
  assumes "ok_with (b # bs) u"
  shows "ok_with bs (drop_buffered t b u) \<and> up_buffer (drop_buffered t b u) = up_buffer u"
proof -
  let ?v = "u\<lparr>up_claimed := up_claimed u - {item_key (bu_item b)}\<rparr>"
  let ?w = "update_batch (bu_batch b) (\<lambda>x. x\<lparr>ba_otherOutcomes := ba_otherOutcomes x + 1\<rparr>) ?v"
  have parts: "store_keyed (up_store u)" "flight_ok u" "claims_ok (b # bs) u" "batches_ok (b # bs) u"
    using assms by (simp_all only: ok_with_def)
  define H P where defs: "H = hand_keys bs u" "P = pending (up_presigning u)"
  have old: "distinct ((item_key (bu_item b) # H) @ P)" "set ((item_key (bu_item b) # H) @ P) \<subseteq> up_claimed u"
    "up_claimed u \<subseteq> set (item_key (bu_item b) # H) \<union> picked_keys (up_presigning u)"
    using parts(3) by (simp_all add: claims_ok_def hand_keys_def defs)
  have v: "hand_keys bs ?v = H" "pending (up_presigning ?v) = P" by (simp_all add: hand_keys_def defs)
  have "distinct (H @ P)" using old(1) by simp
  moreover have "set (H @ P) \<subseteq> up_claimed u - {item_key (bu_item b)}" using old(1,2) by auto
  moreover have "up_claimed u - {item_key (bu_item b)} \<subseteq> set H \<union> picked_keys (up_presigning u)" using old(3) by auto
  ultimately have "claims_ok bs ?v" unfolding claims_ok_def v by simp
  then have "claims_ok bs ?w" using claims_cong [of ?w ?v] by simp
  moreover have "flight_ok ?w" using parts(2) flight_cong [of ?w u] by simp
  moreover have "batches_short (bu_batch b) bs ?v"
  proof -
    have eqs: "outstanding ?v = outstanding u" "transfers_of bs ?v = transfers_of bs u" "asking_ok ?v = asking_ok u"
      "transfers_of (b # bs) u = bu_batch b # transfers_of bs u" "up_batchCounter ?v = up_batchCounter u"
      by (simp_all add: outstanding_def transfers_of_def asking_ok_def fun_eq_iff split: presign_phase.split)
    have counts: "count_list (x # xs) m = count_list xs m + (if m = x then 1 else 0)" for x m and xs :: "nat list" by simp
    have old: "\<And>m k. outstanding u m = Some k \<Longrightarrow> k = int (count_list (transfers_of bs u) m + (if m = bu_batch b then 1 else 0)) \<and> m \<le> up_batchCounter u"
      "\<forall>m \<in> insert (bu_batch b) (set (transfers_of bs u)). outstanding u m \<noteq> None" "asking_ok u"
      using parts(4) unfolding batches_by_count eqs counts list.set by simp_all
    then show ?thesis unfolding short_by_count eqs by simp
  qed
  then have "batches_short (bu_batch b) bs ?w" by (simp add: batches_update_short)
  ultimately show ?thesis using parts(1) batch_done_ok [of ?w bs "bu_batch b" t] by (simp add: drop_buffered_def)
qed

lemma end_ok: "uploader_ok u \<Longrightarrow> uploader_ok (end_uploading t u)"
proof -
  have drop: "ok_with bs v \<Longrightarrow> ok_with [] (fold (drop_buffered t) bs v) \<and> up_buffer (fold (drop_buffered t) bs v) = up_buffer v" for bs v
    by (induction bs arbitrary: v) (use drop_buffered_ok in \<open>auto\<close>)
  assume "uploader_ok u"
  then have "ok_with (up_buffer u) (u\<lparr>up_buffer := []\<rparr>)" by (simp add: uploader_ok_def buffer_irrelevant)
  from drop [OF this] have "uploader_ok (fold (drop_buffered t) (up_buffer u) (u\<lparr>up_buffer := []\<rparr>))" by (simp add: uploader_ok_def)
  then show ?thesis using \<open>uploader_ok u\<close> by (simp add: end_uploading_def)
qed

subsection \<open>Every step\<close>

lemma same_core_cases:
  "(\<And>x. same_core x w \<Longrightarrow> same_core (f x) w) \<Longrightarrow> same_core v w \<Longrightarrow> same_core (Let v f) w"
  "(\<And>x. same_core (g x) w) \<Longrightarrow> same_core (Let h g) w"
  "same_core x w \<Longrightarrow> same_core y w \<Longrightarrow> same_core (if c then x else y) w"
  "same_core x w \<Longrightarrow> (\<And>k. same_core (g' k) w) \<Longrightarrow> same_core (case h' of None \<Rightarrow> x | Some k \<Rightarrow> g' k) w"
  for h :: "hlc option" and h' :: "hlc option"
  by (simp_all split: option.split)

lemma same_core_marks: "same_core (reconcile_marks cloud u) u"
proof -
  have "same_core (reconcile_author seen cloud a v) u" if "same_core v u" for seen a v
    unfolding reconcile_author_def by (intro same_core_cases same_core_op that)
  then show ?thesis by (simp add: reconcile_marks_def Let_def same_core_op same_core_fold)
qed

lemma same_core_pin: "same_core (check_pin cfg started has excluded row u) u"
  by (auto simp: check_pin_def Let_def same_core_op split: option.split)

lemma request_ok: "uploader_ok u \<Longrightarrow> uploader_ok (requestDiscovery u)"
  by (erule uploader_ok_same) (simp add: requestDiscovery_def)

lemma recheckBlocked_ok: "uploader_ok u \<Longrightarrow> uploader_ok (recheckBlocked u)"
  by (erule uploader_ok_same) (simp add: recheckBlocked_def Let_def)

lemma recheck_key_ok: "uploader_ok u \<Longrightarrow> uploader_ok (recheck_key t has u)"
proof (cases "up_rechecking u")
  case (Cons key keys)
  assume ok: "uploader_ok u"
  have "same_core ((if has then do_op (SetState key Ready) u else u)\<lparr>up_rechecking := keys\<rparr>) u" by (simp add: same_core_op)
  then show ?thesis using uploader_ok_same [OF ok] kick_ok by (auto simp: recheck_key_def Cons Let_def)
qed (simp add: recheck_key_def)

lemma discover_page_ok:
  assumes "uploader_ok u"
  shows "uploader_ok (fst (discover_page t from_marks rescans scan has processed excluded u))"
proof -
  have move: "same_core (fst (fold (move_cursor from_marks) ms um)) u" if "same_core (fst um) u" for ms um
    using that
  proof (induction ms arbitrary: um)
    case (Cons m ms)
    have "same_core (fst (move_cursor from_marks m um)) u" using Cons.prems by (auto simp: move_cursor_def same_core_op split: option.split)
    then show ?case using Cons.IH by simp
  qed simp
  have res: "same_core (fst (fold (finish_rescan nm unread) ms um)) u" if "same_core (fst um) u" for nm unread ms um
    using that
  proof (induction ms arbitrary: um)
    case (Cons m ms)
    have "same_core (fst (finish_rescan nm unread m um)) u" using Cons.prems by (simp add: finish_rescan_def same_core_op)
    then show ?case using Cons.IH by simp
  qed simp
  have clear: "same_core (fold (\<lambda>author. do_op (SetRescan author None)) as u) u" "same_core (fold (\<lambda>f. do_op (Enqueue f)) fs u) u" for as fs
    by (rule same_core_fold; simp add: same_core_op)+
  have end_page: "uploader_ok (fst (fold (finish_rescan nm unread) rs (fold (move_cursor from_marks) ms (fold (\<lambda>f. do_op (Enqueue f)) fs u, False))))"
    for nm unread rs ms fs
    by (rule uploader_ok_same [OF assms res [OF move]]) (simp add: clear)
  note end_page_none = end_page [where fs = "[]", simplified]
  have "uploader_ok (fold (\<lambda>author. do_op (SetRescan author None)) as u)" for as by (rule uploader_ok_same [OF assms clear(1)])
  then show ?thesis
    using assms end_page end_page_none by (auto simp: discover_page_def Let_def case_prod_unfold intro!: kick_ok split: option.splits)
qed

lemma discover_next_ok: "uploader_ok u \<Longrightarrow> uploader_ok (discover_next t again u)"
  by (auto simp: discover_next_def intro!: kick_ok intro: uploader_ok_same)

lemma begin_ok: "uploader_ok u \<Longrightarrow> uploader_ok (begin_uploading t u)"
  by (simp add: begin_uploading_def request_ok kick_ok recheckBlocked_ok)

lemma on_presign_ok:
  assumes "on_presign cfg t ev u = Some u'" "uploader_ok u"
  shows "uploader_ok u'"
proof (cases "up_presigning u")
  case PsIdle
  then show ?thesis using assms(1) by (cases ev) (simp_all add: on_presign_def)
next
  case PsLoading
  then show ?thesis using assms presign_loaded_ok by (cases ev) (auto simp: on_presign_def)
next
  case (PsRechecking picked todo live)
  have ok: "phase_ok (PsRechecking picked todo live) u" using phase_ok_self [OF assms(2)] by (simp add: PsRechecking)
  show ?thesis
  proof (cases ev)
    case RecheckThrew
    then show ?thesis using assms(1) PsRechecking finish_phase_ok [OF ok, of picked] by (cases todo) (auto simp: on_presign_def)
  next
    case (Rechecked r has)
    obtain e rest where todo: "todo = e # rest"
      using assms(1) PsRechecking Rechecked by (cases todo) (simp_all add: on_presign_def)
    obtain live' v where v: "recheck_entry cfg r has e live u = (live', v)" by (cases "recheck_entry cfg r has e live u")
    have after: "phase_ok (PsRechecking picked rest live') v" using recheck_step_ok [OF _ v] ok todo by simp
    then have labels: "rest = [] \<Longrightarrow> phase_ok (PsLabels picked live') v" by (simp add: phase_relabel)
    have "rest = [] \<Longrightarrow> uploader_ok (presign_items cfg t picked live' {} v)"
      by (rule presign_items_ok [OF after]) simp_all
    moreover have "u' = (if rest \<noteq> [] then v\<lparr>up_presigning := PsRechecking picked rest live'\<rparr>
        else if uc_records cfg then v\<lparr>up_presigning := PsLabels picked live'\<rparr> else presign_items cfg t picked live' {} v)"
      using assms(1) PsRechecking Rechecked todo v by (simp add: on_presign_def)
    ultimately show ?thesis using after labels by (auto simp: phase_ok_def split: if_splits)
  qed (use assms(1) PsRechecking in \<open>cases todo; simp add: on_presign_def\<close>)+
next
  case (PsLabels picked live)
  have ok: "phase_ok (PsLabels picked live) u" using phase_ok_self [OF assms(2)] by (simp add: PsLabels)
  show ?thesis
  proof (cases ev)
    case (LabelsRead x)
    have "uploader_ok (finish_presign t True picked u)" by (rule finish_phase_ok [OF ok]) simp
    moreover have "uploader_ok (presign_items cfg t picked live excluded u)" for excluded by (rule presign_items_ok [OF ok]) simp_all
    ultimately show ?thesis using assms(1) PsLabels LabelsRead by (cases x) (auto simp: on_presign_def)
  qed (use assms(1) PsLabels in \<open>simp_all add: on_presign_def\<close>)
next
  case (PsAsking picked items n i)
  then show ?thesis using assms presign_answered_ok by (cases ev) (auto simp: on_presign_def)
qed

lemma on_discovery_ok:
  assumes "on_discovery t ev u = Some u'" "uploader_ok u"
  shows "uploader_ok u'"
proof (cases "up_discovering u")
  case DiIdle
  then show ?thesis using assms(1) by (cases ev) (simp_all add: on_discovery_def)
next
  case DiLoading
  then show ?thesis using assms
    by (cases ev) (auto simp: on_discovery_def discover_loaded_def intro!: kick_ok discover_next_ok intro: uploader_ok_same split: option.splits)
next
  case (DiScanning from_marks rescans)
  then show ?thesis
  proof (cases ev)
    case (DiscoveryPage scan has processed excluded)
    have "uploader_ok (fst (discover_page t from_marks rescans scan has processed excluded u))" using assms(2) by (rule discover_page_ok)
    then show ?thesis using assms(1) DiScanning DiscoveryPage
      by (cases "discover_page t from_marks rescans scan has processed excluded u") (auto simp: on_discovery_def discover_next_ok)
  qed (use assms in \<open>auto simp: on_discovery_def intro!: kick_ok intro: uploader_ok_same\<close>)
qed

lemma step_ok:
  assumes "uploader_step cfg t ev u = Some u'" "uploader_ok u"
  shows "uploader_ok u'"
proof -
  have same: "uploader_ok v" if "same_core v u" for v using that uploader_ok_same [OF assms(2)] by blast
  have started: "uploader_ok (u\<lparr>up_started := x\<rparr>)" "uploader_ok (u\<lparr>up_drains := d\<rparr>)" "uploader_ok (u\<lparr>up_pausedUntil := p\<rparr>)" for x d p
    by (rule same, simp)+
  show ?thesis
  proof (cases ev)
    case Start
    then show ?thesis using assms begin_ok started by (auto split: if_splits)
  next
    case Stop
    then show ?thesis using assms end_ok started by (auto split: if_splits)
  next
    case DrainCall
    then show ?thesis using assms(1) started by auto
  next
    case DrainGo
    then show ?thesis using assms begin_ok kick_ok request_ok by (auto split: if_splits)
  next
    case DrainReturn
    then show ?thesis using assms end_ok started by (auto split: if_splits)
  next
    case Nudge
    then show ?thesis using assms started by (auto simp: nudge_def intro!: recheckBlocked_ok kick_ok request_ok split: if_splits)
  next
    case Wake
    then show ?thesis using assms by (auto intro!: recheckBlocked_ok kick_ok request_ok)
  next
    case (TransferEnded key err elapsed)
    then show ?thesis using assms transfer_end_ok by (auto split: option.splits)
  next
    case (KeyRechecked has)
    then show ?thesis using assms recheck_key_ok by (auto split: if_splits)
  next
    case (Reconciled cloud)
    then show ?thesis using assms(1) same same_core_marks by auto
  next
    case (PinChecked started has excluded row)
    then show ?thesis using assms(1) same same_core_pin by auto
  next
    case ReconcileDone
    then show ?thesis using assms kick_ok request_ok by auto
  qed (use assms in \<open>auto intro: on_presign_ok on_discovery_ok\<close>)
qed

lemma create_ok: "store_keyed s \<Longrightarrow> uploader_ok (createUploader s)"
  by (simp add: uploader_ok_def ok_with_def flight_ok_def claims_ok_def batches_ok_def hand_keys_def transfers_of_def laneUse_def createUploader_def)

lemma reaches_ok: "uploader_reaches cfg u \<Longrightarrow> uploader_ok u"
proof -
  have "uploader_run cfg v evs w \<Longrightarrow> uploader_ok v \<Longrightarrow> uploader_ok w" for v evs w
    by (induction rule: uploader_run.induct) (auto intro: step_ok)
  then show "uploader_reaches cfg u \<Longrightarrow> uploader_ok u" by (auto simp: uploader_reaches_def intro: create_ok)
qed

section \<open>Runs on concrete input\<close>

fun run_events :: "uploader_config \<Rightarrow> (nat \<times> uploader_event) list \<Rightarrow> uploader \<Rightarrow> uploader option" where
  "run_events cfg [] u = Some u"
| "run_events cfg ((t, ev) # evs) u = (case uploader_step cfg t ev u of None \<Rightarrow> None | Some v \<Rightarrow> run_events cfg evs v)"

lemma run_cons:
  assumes "uploader_step cfg t ev u = Some v" "uploader_run cfg v evs w"
  shows "uploader_run cfg u ((t, ev) # evs) w"
  using assms(2,1)
proof (induction rule: uploader_run.induct)
  case (run_nil v)
  then show ?case using uploader_run.run_snoc [OF uploader_run.run_nil] by fastforce
next
  case (run_snoc v evs x t' ev' w)
  then show ?case using uploader_run.run_snoc by fastforce
qed

lemma run_events_run: "run_events cfg evs u = Some w \<Longrightarrow> uploader_run cfg u evs w"
proof (induction evs arbitrary: u)
  case (Cons x evs)
  obtain t ev where x: "x = (t, ev)" by (cases x)
  obtain v where v: "uploader_step cfg t ev u = Some v" "run_events cfg evs v = Some w" using Cons.prems x by (auto split: option.splits)
  show ?case unfolding x by (rule run_cons [OF v(1) Cons.IH [OF v(2)]])
qed (simp add: uploader_run.run_nil)

definition sample_entry :: "string \<Rightarrow> nat \<Rightarrow> upload_queue_entry" where
  "sample_entry key bytes =
     \<lparr>qf_key = key, qf_hlc = HLC bytes 0 ''a'', qf_recordId = None, qf_itemId = key, qf_sizeBytes = bytes, qf_fileHash = [],
      qf_mimeType = None, qf_tier = Full, qe_attempts = 0, qe_nextAttemptAt = 0, qe_lastError = None, qe_state = Ready, qe_front = False\<rparr>"

definition sample_queue :: memory_store where
  "sample_queue = empty_memory\<lparr>mq_queue := [(''k'', sample_entry ''k'' 10), (''l'', sample_entry ''l'' 20), (''m'', sample_entry ''m'' 30)]\<rparr>"

definition sample_config :: uploader_config where
  "sample_config = \<lparr>uc_records = False, uc_usesParts = (\<lambda>_. False)\<rparr>"

text \<open>The big constants as integers, so that runs evaluate.\<close>

lemma laneOf_eval [code]:
  "laneOf item = (if it_parts item then PartsLane else if int (qf_sizeBytes (it_file item)) \<le> 1048576 then SmallLane else LargeLane)"
  by (simp add: laneOf_def SMALL_LANE_MAX_BYTES_def)

lemma bytes_full_eval [code]: "bytes_full item u \<longleftrightarrow> up_running u \<noteq> [] \<and> up_bytesInFlight u + int (costOf item) > 33554432"
  by (simp add: bytes_full_def MAX_BYTES_IN_FLIGHT_def)

text \<open>One batch of three: one the cloud has, one whose bytes are gone, one signed and sent.\<close>

definition sample_prepare :: "(nat \<times> uploader_event) list" where
  "sample_prepare = [(5, Start), (6, CloudLoaded True), (7, Rechecked None True), (7, Rechecked None False), (7, Rechecked None True),
     (8, Answered (Some [AnsPresent, AnsSigned ''u'']))]"

lemma sample_queue_keyed: "store_keyed sample_queue"
  by code_simp

theorem file_leaves_queue_on_evidence_witness:
  "\<exists>before t ev after v. sample_prepare = before @ (t, ev) # after \<and> uploader_run sample_config (createUploader sample_queue) before v
     \<and> queued ''k'' v \<and> leaves_because sample_config ev v ''k''"
proof -
  have "queued ''k'' (createUploader sample_queue)" by code_simp
  moreover have "case run_events sample_config sample_prepare (createUploader sample_queue) of None \<Rightarrow> False | Some w \<Rightarrow> \<not> queued ''k'' w"
    by code_simp
  then obtain w where "run_events sample_config sample_prepare (createUploader sample_queue) = Some w" "\<not> queued ''k'' w"
    by (auto split: option.splits)
  ultimately show ?thesis
    using file_leaves_queue_on_evidence [OF run_events_run, of sample_config sample_prepare "createUploader sample_queue" w "''k''"] by blast
qed

section \<open>Slots, bytes and claims\<close>

text \<open>
  C12. At every moment of every run, whatever the order of answers, transfers' ends, stops and drains: no
  lane has more transfers than its slots, \<open>bytesInFlight\<close> is exactly the cost of the transfers under way,
  and it is within the budget unless a single file larger than the budget goes alone.
\<close>

theorem transfers_within_lanes_and_bytes:
  assumes "uploader_reaches cfg u"
  shows "(\<forall>l. laneUse l u \<le> LANE_SLOTS l)
    \<and> up_bytesInFlight u = int (sum_list (map ru_cost (js_values (up_running u))))
    \<and> (up_bytesInFlight u \<le> int MAX_BYTES_IN_FLIGHT \<or> length (up_running u) = 1)"
proof -
  have flight: "flight_ok u" using reaches_ok [OF assms] by (simp add: uploader_ok_def ok_with_def)
  then have "length (up_running u) = 1 \<or> up_bytesInFlight u \<le> int MAX_BYTES_IN_FLIGHT"
    by (cases "up_running u") (auto simp: flight_ok_def)
  then show ?thesis using flight by (auto simp: flight_ok_def)
qed

theorem transfers_within_lanes_and_bytes_witness:
  "\<exists>u. run_events sample_config sample_prepare (createUploader sample_queue) = Some u \<and> up_bytesInFlight u = 30
     \<and> laneUse SmallLane u = 1 \<and> laneUse SmallLane u \<le> LANE_SLOTS SmallLane \<and> 30 = int (sum_list (map ru_cost (js_values (up_running u))))"
proof -
  have "case run_events sample_config sample_prepare (createUploader sample_queue) of None \<Rightarrow> False
     | Some w \<Rightarrow> up_bytesInFlight w = 30 \<and> laneUse SmallLane w = 1" by code_simp
  then obtain w where w: "run_events sample_config sample_prepare (createUploader sample_queue) = Some w" "up_bytesInFlight w = 30" "laneUse SmallLane w = 1"
    by (auto split: option.splits)
  have "uploader_reaches sample_config w" using sample_queue_keyed run_events_run [OF w(1)] by (auto simp: uploader_reaches_def)
  from transfers_within_lanes_and_bytes [OF this] show ?thesis using w by (auto simp: SMALL_LANE_SLOTS_def)
qed

text \<open>
  C11. No file is ever taken twice. At every moment of every run a file is in at most one place among the
  signed answers in the buffer, the transfers under way and the batch being prepared; each such file is
  claimed, so the next pick passes it over; when no batch is being prepared nothing else is claimed, so
  no file is shut out by a claim left behind; and a batch's count of outstanding files is exact, so a
  batch is settled once, when its last file ends.
\<close>

theorem no_file_taken_twice:
  assumes "uploader_reaches cfg u"
  shows "distinct (hand_keys (up_buffer u) u @ pending (up_presigning u))
    \<and> set (hand_keys (up_buffer u) u @ pending (up_presigning u)) \<subseteq> up_claimed u
    \<and> (up_presigning u = PsIdle \<longrightarrow> up_claimed u = set (hand_keys (up_buffer u) u))
    \<and> (\<forall>n b. js_get (up_batches u) n = Some b \<longrightarrow> ba_outstanding b = int (count_list (transfers_of (up_buffer u) u) n))"
proof -
  have "claims_ok (up_buffer u) u" "batches_ok (up_buffer u) u" using reaches_ok [OF assms] by (simp_all add: uploader_ok_def ok_with_def)
  then show ?thesis by (auto simp: claims_ok_def batches_ok_def)
qed

definition sample_sent :: "nat \<times> uploader_event" where
  "sample_sent = (9, TransferEnded ''m'' None 1)"

theorem no_file_taken_twice_witness:
  "\<exists>u. run_events sample_config (sample_prepare @ [sample_sent]) (createUploader sample_queue) = Some u
     \<and> hand_keys (up_buffer u) u = [] \<and> map (ba_outstanding \<circ> snd) (up_batches u) = [0] \<and> set (pending (up_presigning u)) \<subseteq> up_claimed u"
proof -
  have "case run_events sample_config (sample_prepare @ [sample_sent]) (createUploader sample_queue) of None \<Rightarrow> False
     | Some w \<Rightarrow> hand_keys (up_buffer w) w = [] \<and> map (ba_outstanding \<circ> snd) (up_batches w) = [0]" by code_simp
  then obtain w where w: "run_events sample_config (sample_prepare @ [sample_sent]) (createUploader sample_queue) = Some w"
    "hand_keys (up_buffer w) w = []" "map (ba_outstanding \<circ> snd) (up_batches w) = [0]"
    by (auto split: option.splits)
  have "uploader_reaches sample_config w" using sample_queue_keyed run_events_run [OF w(1)] by (auto simp: uploader_reaches_def)
  from no_file_taken_twice [OF this] show ?thesis using w by auto
qed

section \<open>Two races\<close>

text \<open>A batch asked for before a stop and answered after it is put into the buffer of the stopped uploader.\<close>

lemma answer_after_stop_is_buffered:
  "case run_events sample_config [(5, Start), (6, CloudLoaded True), (7, Rechecked None True), (7, Rechecked None True), (7, Rechecked None True),
     (8, Stop), (9, Answered (Some [AnsSigned ''u'', AnsSigned ''v'', AnsSigned ''w'']))] (createUploader sample_queue) of
     None \<Rightarrow> False | Some u \<Rightarrow> \<not> up_active u \<and> length (up_buffer u) = 3"
  by code_simp

text \<open>
  A page of discovery that is under way when reconciliation sets a cursor back commits its own cursor
  over it, so the re-read does not start at the new value.
\<close>

definition late_row :: file_row where
  "late_row = \<lparr>row_hlc = HLC 20 0 ''a'', row_manifest = None, row_candidate = None, row_recordId = None, row_itemId = ''r''\<rparr>"

lemma page_commits_over_reset:
  "case run_events sample_config [(5, Start), (6, DiscoveryLoaded (Some [(''a'', HLC 9 0 ''a'')])), (7, Reconciled [(''a'', HLC 5 0 ''a'')]),
     (8, DiscoveryPage \<lparr>scan_rows = [late_row], scan_ceilings = [], scan_readable = True\<rparr> (\<lambda>_. True) 1 (Some {}))]
     (createUploader (empty_memory\<lparr>mq_seen := [(''a'', HLC 9 0 ''a'')]\<rparr>)) of
     None \<Rightarrow> False
   | Some u \<Rightarrow> js_get (mq_rescan (up_store u)) ''a'' = Some (HLC 9 0 ''a'')
       \<and> js_get (discovery_from [(''a'', HLC 5 0 ''a'')] (mq_cursor (up_store u)) (mq_rescan (up_store u))) ''a'' = Some (HLC 20 0 ''a'')"
  by code_simp

end
