(* ===== verification/Spec2Isabelle.thy ===== *)
theory Spec2Isabelle
  imports Sync_Round Records Object_Keys Stand_Ins File_Rows Byte_Window Query_Parse Record_Queries Reaper Stand_In_Slots
    App_Rows Manifest Labels Metadata_Sync Exchange_Apply Upload_Queue Uploader
begin

text \<open>
  A verification library of Starkeep's core: the parts of the repository that decide what is stored,
  what is synced between nodes, what is uploaded, what may be deleted and what a request may ask for.
  It models TypeScript under \<open>packages/\<close>; every definition carries the name of the code it translates
  where Isabelle allows it.

  \<^bold>\<open>The program.\<close> A library of records lives on several nodes: a phone or a computer (SQLite and a
  directory of objects) and the owner's cloud (Postgres and S3). Each node stamps what it writes with a
  hybrid logical clock. A sync round exchanges rows: each side advertises one watermark per author, the
  other answers the rows above it, in timestamp order, up to budgets. Files move beside the rows: an
  uploader works through a queue of its own, and a second watermark says up to where all files have
  arrived. Records may have stand-ins (smaller versions) that let a node drop its original; what is
  dropped must be proved durable elsewhere first. Apps add tables of their own, which sync the same way,
  and query records and tables through a grammar that is parsed once and run by three engines.

  \<^bold>\<open>Foundations.\<close>
  \<^item> \<open>Js_Prelude\<close>, \<open>Js_Numbers\<close>: the JavaScript values and collections every component uses, the shared
    lemma collections.
  \<^item> \<open>Hlc\<close> (\<open>protocol-primitives/src/hlc\<close>): timestamps, their text form and the clock. The clock never
    repeats or goes back; the text order is the timestamp order for timestamps within the fixed widths.
  \<^item> \<open>Keyset\<close>: cell values, three-valued logic, \<open>ORDER BY\<close> and the walk along cursors, shared by every
    paged query.
  \<^item> \<open>Last_Write_Wins\<close>: the contract of every replicated table, as a locale; interpreted on the app
    tables and on the label table.

  \<^bold>\<open>Sync of rows\<close> (\<open>sync-engine/src\<close>, \<open>storage-adapter/src/database/since-queries.ts\<close>).
  \<^item> \<open>Watermarks\<close>: what a watermark map claims, as a set of timestamps, and how each operation changes
    the claim. \<open>Since_Scan\<close>: one scan of one table above a watermark, its page cut at a timestamp
    boundary and its per-author report. \<open>Round_Cut\<close>: the meet of the scans' reports and the cut of a
    round at whole timestamps.
  \<^item> \<open>Sync_Round\<close>: the shipment, its arrival and the round loop. One watermark per author never covers
    an undelivered row, a loop that reports complete has delivered everything, and it reaches that.
  \<^item> \<open>App_Rows\<close>: the rows of app tables over the wire and the SQLite applier. \<open>Labels\<close>,
    \<open>Metadata_Sync\<close>: the label table, and the metadata that rides on records.
  \<^item> \<open>Stand_In_Slots\<close>: two stand-ins of one slot arriving by sync.
  \<^item> \<open>Exchange_Apply\<close>: what both sides of a round do to their tables and clocks with the rows that come
    in (the inbound halves of \<open>exchange\<close> in \<open>sync-engine.ts\<close> and \<open>in-process-transport.ts\<close>). A row that was
    reported applied is held, no version is taken back, and one round makes two label tables agree.

  \<^bold>\<open>Files\<close> (\<open>sync-engine/src\<close>).
  \<^item> \<open>File_Rows\<close>: the rows that name files and the bytes watermark. \<open>Byte_Window\<close>: which files one round
    moves. \<open>Upload_Queue\<close>: the queue's store, in memory and in SQLite, with a refinement between them.
    \<open>Uploader\<close>: the uploader as a state machine over that store.
  \<^item> \<open>Multipart\<close>: parts and checksums of large objects. \<open>Durability\<close>: when bytes count as safe
    elsewhere. \<open>Free_Up_Space\<close>, \<open>Reaper\<close>: the two passes that delete bytes.

  \<^bold>\<open>Records and requests\<close> (\<open>protocol-primitives/src\<close>, \<open>storage-adapter/src/database\<close>,
  \<open>storage-sqlite/src\<close>, \<open>shared-space-api/src/query\<close>, \<open>admin-manifest/src\<close>).
  \<^item> \<open>Core_Types\<close>: the type registry. \<open>Records\<close>: records, content-addressed ids, grants. \<open>Object_Keys\<close>:
    object keys. \<open>Stand_Ins\<close>: standards and rules of stand-ins.
  \<^item> \<open>Record_Store\<close>: the table of records with its two unique indexes. \<open>Record_Queries\<close>: its queries and
    cursors. \<open>Query_Predicates\<close>, \<open>App_Query\<close>, \<open>Query_Parse\<close>: the query grammar, from the parser's
    refusals to the answers of the SQL and of the in-memory engine.
  \<^item> \<open>Manifest\<close>: the validator of app manifests and the routes open without a login.

  \<^bold>\<open>How state and errors are modelled.\<close> A class or closure is a record and each method a function of it.
  Where steps interleave between awaits (the uploader) the component is a step function over events,
  with runs as an inductive relation and what the outside answers carried by the event. A database
  table is the list of its rows, and a statement is modelled by what it selects or leaves. A throw is
  \<open>Inl\<close> of an error, or \<open>None\<close> where the message does not matter; a thrown error that is caught becomes
  the branch that catches it.

  \<^bold>\<open>Bounds and fuel.\<close> Nothing in the library runs on fuel taken on trust: loops are structural or have a
  termination proof. The round loop keeps the code's own cap on rounds and is shown to need no more
  rounds than rows; the cursor walks are shown to need no more pages than rows. Timestamps fit their
  text when the wall time is below \<open>16 ^ 12\<close> and the counter below \<open>16 ^ 4\<close> (\<open>hlc_fits\<close>), which every
  lemma that relies on the text order states. Byte windows and id digests are words of the width the
  code uses.

  \<^bold>\<open>Parameters.\<close> Code that is not in the repository is an argument: SHA-256, \<open>JSON.parse\<close> and the base64url
  text of a token or cursor, object stores as functions from keys to answers, the physical clock. What
  is relied on is a named hypothesis (for example \<open>store_reports\<close> in \<open>Durability\<close>), with a witness at
  a concrete function.

  \<^bold>\<open>Not modelled.\<close>
  \<^item> The HTTP servers and their handlers (\<open>apps/local-data-server\<close>, the cloud data server of
    \<open>admin-installer\<close>), the installers and programs that create cloud resources, the web interfaces, the
    client SDKs and the S3, file-system and Aurora adapters: input and output around the core, mostly
    calls of services whose behaviour is not in the repository.
  \<^item> Of the sync engine: the repair floors and digests of a round, file downloads and the acquisition
    pass, residency management, the persistence of sync state, the HTTP transports.
  \<^item> SQL engines as such: column affinity, collations other than binary, query plans; the text of a
    statement; concurrency inside one statement.
  \<^item> Texts of refusals and log lines, listeners, timers (a timer may fire at any time).
  \<^item> Strings are lists of 8-bit characters. An object used as a dictionary has neither inherited names
    nor integer-like keys, so that it keeps insertion order. Sizes are whole numbers.
  \<^item> What zod checks of a raw manifest before the validator sees it.
\<close>

end
